(* ===== verification/Prelude.thy ===== *)
theory Prelude
  imports Main "HOL-Library.Word" "HOL-Library.Monad_Syntax"
begin

unbundle bit_operations_syntax

text \<open>
  Shared vocabulary of the development: the C integer types as word types, the lemma
  collections, and the generic facts on bits, digit lists and option computations that
  the component theories use.  Nothing here models a particular source file.
\<close>

type_synonym u8 = "8 word"
type_synonym u16 = "16 word"
type_synonym u32 = "32 word"
type_synonym u64 = "64 word"
type_synonym u128 = "128 word"

named_theorems digit_simps "arithmetic of digit lists in base 2 to the m"
named_theorems mem_simps "reads after writes of the byte memory"
named_theorems view_simps "the bits, slots and offsets of a filter after each primitive write"

section \<open>Digit lists\<close>

text \<open>The number written by the digits \<open>xs\<close>, least significant first, in base \<open>2 ^ m\<close>.\<close>

fun hval :: "nat \<Rightarrow> nat list \<Rightarrow> nat" where
  "hval m [] = 0"
| "hval m (x # xs) = x + 2 ^ m * hval m xs"

lemma hval_add [digit_simps]:
  "length xs = length ys \<Longrightarrow> hval m xs + hval m ys = hval m (map2 (+) xs ys)"
proof (induction xs ys rule: list_induct2)
  case (Cons x xs y ys)
  then show ?case by (simp flip: Cons.IH add: distrib_left)
qed simp

lemma hval_less:
  "\<forall>x \<in> set xs. x < 2 ^ m \<Longrightarrow> hval m xs < 2 ^ (m * length xs)"
proof (induction xs)
  case (Cons x xs)
  then have "x + 1 \<le> 2 ^ m" "hval m xs + 1 \<le> 2 ^ (m * length xs)" by auto
  then have "x + 2 ^ m * hval m xs + 1 \<le> 2 ^ m * (hval m xs + 1)" by simp
  also have "\<dots> \<le> 2 ^ m * 2 ^ (m * length xs)"
    using \<open>hval m xs + 1 \<le> _\<close> by (intro mult_le_mono2)
  finally show ?case by (simp add: power_add)
qed simp

lemma hval_sub [digit_simps]:
  "list_all2 (\<le>) ys xs \<Longrightarrow> hval m xs - hval m ys = hval m (map2 (-) xs ys) \<and> hval m ys \<le> hval m xs"
proof (induction ys xs rule: list_all2_induct)
  case (Cons y ys x xs)
  then have "hval m ys \<le> hval m xs" "y \<le> x" by auto
  then have le: "2 ^ m * hval m ys \<le> 2 ^ m * hval m xs" by simp
  have "2 ^ m * hval m (map2 (-) xs ys) = 2 ^ m * hval m xs - 2 ^ m * hval m ys"
    using Cons by (simp flip: diff_mult_distrib2)
  with le \<open>y \<le> x\<close> add_mono [OF \<open>y \<le> x\<close> le] show ?case by simp
qed auto

lemma digit_and:
  fixes x y a b :: nat
  assumes "x < 2 ^ m" "y < 2 ^ m"
  shows "(x + 2 ^ m * a) AND (y + 2 ^ m * b) = (x AND y) + 2 ^ m * (a AND b)"
proof -
  have "bit (z + 2 ^ m * c) n \<longleftrightarrow> (if n < m then bit z n else bit c (n - m))"
    if "z < 2 ^ m" for z c n :: nat
  proof -
    have "z + 2 ^ m * c = z OR push_bit m c"
      using that disjunctive_add [of z "push_bit m c"]
      by (metis (no_types, lifting) bit_push_bit_iff bit_take_bit_iff linorder_not_le
          mult.commute push_bit_eq_mult take_bit_nat_eq_self_iff)
    moreover have "bit z n \<Longrightarrow> n < m"
      using that by (metis bit_take_bit_iff take_bit_nat_eq_self)
    ultimately show ?thesis by (auto simp: bit_simps)
  qed
  moreover have "x AND y < 2 ^ m"
    using assms by (metis and.assoc take_bit_eq_mask take_bit_nat_eq_self_iff)
  ultimately show ?thesis
    using assms by (auto simp: bit_eq_iff bit_and_iff)
qed

lemma hval_and [digit_simps]:
  "length xs = length ys \<Longrightarrow> \<forall>x \<in> set xs. x < 2 ^ m \<Longrightarrow> \<forall>y \<in> set ys. y < 2 ^ m \<Longrightarrow>
   hval m xs AND hval m ys = hval m (map2 (AND) xs ys)"
  by (induction xs ys rule: list_induct2) (auto simp: digit_and)

lemma hval_div [digit_simps]: "x < 2 ^ m \<Longrightarrow> hval m (x # xs) div 2 ^ m = hval m xs"
  by simp

section \<open>The position of the k-th set bit of a bit list\<close>

fun select_ref :: "bool list \<Rightarrow> nat \<Rightarrow> nat" where
  "select_ref [] k = 0"
| "select_ref (b # bs) k =
     (if b then (if k = 0 then 0 else Suc (select_ref bs (k - 1))) else Suc (select_ref bs k))"

abbreviation ones :: "bool list \<Rightarrow> nat" where
  "ones bs \<equiv> length (filter (\<lambda>b. b) bs)"

lemma select_ref_append:
  "select_ref (xs @ ys) k =
     (if k < ones xs then select_ref xs k else length xs + select_ref ys (k - ones xs))"
  by (induction xs arbitrary: k) auto

lemma select_ref_le: "select_ref bs k \<le> length bs"
  by (induction bs arbitrary: k) auto

lemma select_ref_none: "ones bs \<le> k \<Longrightarrow> select_ref bs k = length bs"
  by (induction bs arbitrary: k) (auto simp: Suc_le_eq)

lemma select_ref_some:
  "k < ones bs \<Longrightarrow>
   select_ref bs k < length bs \<and> bs ! select_ref bs k \<and> ones (take (select_ref bs k) bs) = k"
proof (induction bs arbitrary: k)
  case (Cons b bs)
  show ?case
  proof (cases "b \<and> k = 0")
    case True
    then show ?thesis by simp
  next
    case False
    with Cons.prems have "(if b then k - 1 else k) < ones bs" by auto
    from Cons.IH [OF this] False show ?thesis by (auto simp del: filter_empty_conv)
  qed
qed simp

section \<open>Counting the set positions below a bound\<close>

definition nbelow :: "(nat \<Rightarrow> bool) \<Rightarrow> nat \<Rightarrow> nat" where
  "nbelow P n = length (filter P [0..<n])"

lemma cnt_0 [simp]: "nbelow P 0 = 0"
  by (simp add: nbelow_def)

lemma cnt_Suc: "nbelow P (Suc n) = nbelow P n + (if P n then 1 else 0)"
  by (simp add: nbelow_def)

lemma cnt_mono: "a \<le> b \<Longrightarrow> nbelow P a \<le> nbelow P b"
  by (induction b) (auto simp: cnt_Suc le_Suc_eq)

lemma cnt_le_add: "nbelow P (a + n) \<le> nbelow P a + n"
  by (induction n) (auto simp: cnt_Suc)

lemma cnt_add: "nbelow P (a + n) = nbelow P a + length (filter (\<lambda>k. P (a + k)) [0..<n])"
  by (induction n) (auto simp: cnt_Suc)

lemma cnt_cong: "(\<And>i. i < n \<Longrightarrow> P i = Q i) \<Longrightarrow> nbelow P n = nbelow Q n"
  unfolding nbelow_def by (rule arg_cong [where f = length], rule filter_cong) auto

lemma cnt_bounded: "n \<le> m \<Longrightarrow> (\<And>i. n \<le> i \<Longrightarrow> i < m \<Longrightarrow> \<not> P i) \<Longrightarrow> nbelow P m = nbelow P n"
  by (induction m) (auto simp: cnt_Suc le_Suc_eq)

lemma cnt_shifted:
  "nbelow P m = nbelow P n + nbelow (\<lambda>k. n \<le> k \<and> P k) m" if "n \<le> m"
  using that
proof (induction m)
  case (Suc m)
  show ?case
  proof (cases "n = Suc m")
    case True
    have "nbelow (\<lambda>k. Suc m \<le> k \<and> P k) (Suc m) = 0" by (auto simp: nbelow_def filter_empty_conv)
    with True show ?thesis by simp
  next
    case False
    with Suc show ?thesis by (simp add: cnt_Suc)
  qed
qed simp

section \<open>Masks\<close>

text \<open>The values up to a mask are the fixed points of \<open>take_bit k\<close>.\<close>

lemma mask_le_iff: "x \<le> mask k \<longleftrightarrow> take_bit k x = x" for x :: u64
proof -
  have lt: "unat x < 2 ^ 64" using unsigned_less [of x] by simp
  have "take_bit k x = x \<longleftrightarrow> take_bit k (unat x) = unat x"
    by (metis unsigned_take_bit_eq unsigned_word_eqI)
  also have "\<dots> \<longleftrightarrow> unat x < 2 ^ k" by (rule take_bit_nat_eq_self_iff)
  also have "\<dots> \<longleftrightarrow> unat x < 2 ^ min 64 k"
    using order_less_le_trans [OF lt power_increasing [of 64 k 2]] lt by (auto simp: min_def)
  also have "\<dots> \<longleftrightarrow> unat x \<le> mask (min 64 k)"
    unfolding mask_nat_def by (subst Suc_le_mono [symmetric]) (simp add: Suc_le_eq less_Suc_eq_le)
  also have "mask (min 64 k) = unat (mask k :: u64)"
    by (rule bit_eqI) (auto simp: bit_simps)
  finally show ?thesis by (simp add: word_le_nat_alt)
qed

section \<open>Indexed stores\<close>

text \<open>
  The loop that writes consecutive cells, and the loop that moves a range of cells up by a
  distance, last cell first, over any indexed store.
\<close>

fun write_list :: "('s \<Rightarrow> nat \<Rightarrow> 'v \<Rightarrow> 's) \<Rightarrow> 's \<Rightarrow> nat \<Rightarrow> 'v list \<Rightarrow> 's" where
  "write_list wr s i [] = s"
| "write_list wr s i (v # vs) = write_list wr (wr s i v) (Suc i) vs"

fun copy_up :: "('s \<Rightarrow> nat \<Rightarrow> 'v) \<Rightarrow> ('s \<Rightarrow> nat \<Rightarrow> 'v \<Rightarrow> 's) \<Rightarrow> 's \<Rightarrow> nat \<Rightarrow> nat \<Rightarrow> nat \<Rightarrow> 's" where
  "copy_up rd wr s i 0 d = s"
| "copy_up rd wr s i (Suc n) d = copy_up rd wr (wr s (i + n + d) (rd s (i + n))) i n d"

text \<open>
  The contract of an indexed store: a read after a write, for the states that are well formed
  and the values that fit a cell.
\<close>

locale cell_store =
  fixes rd :: "'s \<Rightarrow> nat \<Rightarrow> 'v"
    and wr :: "'s \<Rightarrow> nat \<Rightarrow> 'v \<Rightarrow> 's"
    and ok :: "'s \<Rightarrow> bool"
    and fits :: "'s \<Rightarrow> 'v \<Rightarrow> bool"
  assumes rd_wr: "ok s \<Longrightarrow> fits s v \<Longrightarrow> rd (wr s i v) j = (if i = j then v else rd s j)"
    and ok_wr: "ok s \<Longrightarrow> fits s v \<Longrightarrow> ok (wr s i v)"
    and fits_wr: "ok s \<Longrightarrow> fits s v \<Longrightarrow> fits (wr s i v) u = fits s u"
    and fits_rd: "ok s \<Longrightarrow> fits s (rd s i)"
begin

lemma write_list_ok:
  "ok s \<Longrightarrow> \<forall>v \<in> set vs. fits s v \<Longrightarrow> ok (write_list wr s i vs) \<and> fits (write_list wr s i vs) u = fits s u"
  by (induction vs arbitrary: s i) (simp_all add: ok_wr fits_wr)

lemma rd_write_list:
  "ok s \<Longrightarrow> \<forall>v \<in> set vs. fits s v \<Longrightarrow>
   rd (write_list wr s i vs) j = (if i \<le> j \<and> j < i + length vs then vs ! (j - i) else rd s j)"
proof (induction vs arbitrary: s i)
  case (Cons v vs)
  then have "rd (write_list wr (wr s i v) (Suc i) vs) j =
      (if Suc i \<le> j \<and> j < Suc i + length vs then vs ! (j - Suc i) else rd (wr s i v) j)"
    by (intro Cons.IH) (simp_all add: ok_wr fits_wr)
  with Cons.prems show ?case by (auto simp: rd_wr nth_Cons')
qed auto

lemma copy_up_ok: "ok s \<Longrightarrow> ok (copy_up rd wr s i n d) \<and> fits (copy_up rd wr s i n d) u = fits s u"
  by (induction n arbitrary: s) (simp_all add: ok_wr fits_wr fits_rd)

lemma rd_copy_up:
  "ok s \<Longrightarrow> 0 < d \<Longrightarrow>
   rd (copy_up rd wr s i n d) j = (if i + d \<le> j \<and> j < i + n + d then rd s (j - d) else rd s j)"
proof (induction n arbitrary: s)
  case (Suc n)
  let ?s = "wr s (i + n + d) (rd s (i + n))"
  have "rd (copy_up rd wr ?s i n d) j = (if i + d \<le> j \<and> j < i + n + d then rd ?s (j - d) else rd ?s j)"
    using Suc.prems by (intro Suc.IH) (simp_all add: ok_wr fits_rd)
  moreover have "i + n + d = j \<Longrightarrow> j - d = i + n" by simp
  ultimately show ?case using Suc.prems by (auto simp: rd_wr fits_rd)
qed auto

end

section \<open>Conversions\<close>

text \<open>The value kept by a conversion to C \<^verbatim>\<open>int\<close> (32 bits, two's complement) and to \<^verbatim>\<open>uint64_t\<close>.\<close>

definition to_int32 :: "int \<Rightarrow> int" where
  "to_int32 x = signed_take_bit 31 x"

definition to_u64 :: "int \<Rightarrow> nat" where
  "to_u64 x = nat (x mod 2 ^ 64)"

lemma to_int32_small: "- (2 ^ 31) \<le> x \<Longrightarrow> x < 2 ^ 31 \<Longrightarrow> to_int32 x = x"
  unfolding to_int32_def by (simp add: signed_take_bit_int_eq_self)

lemma to_u64_small: "0 \<le> x \<Longrightarrow> x < 2 ^ 64 \<Longrightarrow> to_u64 x = nat x"
  by (simp add: to_u64_def)

section \<open>Integer square root\<close>

fun isqrt :: "nat \<Rightarrow> nat" where
  "isqrt n = (if n = 0 then 0 else let r = 2 * isqrt (n div 4) in if (r + 1) * (r + 1) \<le> n then r + 1 else r)"

declare isqrt.simps [simp del]

lemma isqrt_spec: "isqrt n * isqrt n \<le> n \<and> n < (isqrt n + 1) * (isqrt n + 1)"
proof (induction n rule: isqrt.induct)
  case (1 n)
  show ?case
  proof (cases "n = 0")
    case True
    then show ?thesis by (simp add: isqrt.simps)
  next
    case False
    define r where "r = isqrt (n div 4)"
    from 1 [OF False] have "r * r \<le> n div 4" "n div 4 < (r + 1) * (r + 1)" by (simp_all add: r_def)
    then have "4 * (r * r) \<le> n" "n < 4 * ((r + 1) * (r + 1))" by linarith+
    moreover have "isqrt n = (if (2 * r + 1) * (2 * r + 1) \<le> n then 2 * r + 1 else 2 * r)"
      using False by (subst isqrt.simps) (simp add: r_def Let_def)
    ultimately show ?thesis by (auto simp: algebra_simps)
  qed
qed

lemma isqrt_unique:
  assumes "r * r \<le> n" "n < (r + 1) * (r + 1)"
  shows "isqrt n = r"
proof -
  from isqrt_spec [of n] have a: "isqrt n * isqrt n \<le> n" and b: "n < (isqrt n + 1) * (isqrt n + 1)" by auto
  from a assms(2) have "isqrt n * isqrt n < (r + 1) * (r + 1)" by simp
  then have "isqrt n < r + 1" by (meson mult_le_mono not_le)
  moreover from assms(1) b have "r * r < (isqrt n + 1) * (isqrt n + 1)" by simp
  then have "r < isqrt n + 1" by (meson mult_le_mono not_le)
  ultimately show ?thesis by simp
qed

end
