(* ===== verification/Byte_Mem.thy ===== *)
theory Byte_Mem
  imports Prelude
begin

unbundle bit_operations_syntax

text \<open>
  The memory model: a byte for every address, with the little-endian 16- and 64-bit reads and
  writes the C code performs through its pointer casts.  A read or a write is described by
  the bits it touches, numbered through the whole memory, so that the layout facts of the
  filter reduce to arithmetic on bit positions.
\<close>

section \<open>Definitions\<close>

type_synonym mem = "nat \<Rightarrow> u8"

text \<open>Little-endian reads of a buffer: \<open>ld_bytes n bs\<close> is the word in its first \<open>n\<close> bytes.\<close>

fun ld_bytes :: "nat \<Rightarrow> u8 list \<Rightarrow> 'a::len word" where
  "ld_bytes 0 bs = 0"
| "ld_bytes (Suc n) [] = 0"
| "ld_bytes (Suc n) (b # bs) = ucast b OR push_bit 8 (ld_bytes n bs)"

definition load64 :: "mem \<Rightarrow> nat \<Rightarrow> u64" where
  "load64 m a = ld_bytes 8 (map m [a..<a + 8])"

definition store64 :: "mem \<Rightarrow> nat \<Rightarrow> u64 \<Rightarrow> mem" where
  "store64 m a v = (\<lambda>x. if a \<le> x \<and> x < a + 8 then ucast (drop_bit (8 * (x - a)) v) else m x)"

definition load16 :: "mem \<Rightarrow> nat \<Rightarrow> u16" where
  "load16 m a = ld_bytes 2 (map m [a..<a + 2])"

definition store16 :: "mem \<Rightarrow> nat \<Rightarrow> u16 \<Rightarrow> mem" where
  "store16 m a v = (\<lambda>x. if a \<le> x \<and> x < a + 2 then ucast (drop_bit (8 * (x - a)) v) else m x)"

definition word_bytes_le :: "u64 \<Rightarrow> u8 list" where
  "word_bytes_le w = map (\<lambda>j. ucast (drop_bit (8 * j) w)) [0..<8]"

definition membit :: "mem \<Rightarrow> nat \<Rightarrow> bool" where
  "membit m p = bit (m (p div 8)) (p mod 8)"

section \<open>Reads and writes, bit by bit\<close>

lemma bit_ld_bytes:
  "length bs = n \<Longrightarrow> bit (ld_bytes n bs :: 'a::len word) i \<longleftrightarrow> i < LENGTH('a) \<and> i < 8 * n \<and> bit (bs ! (i div 8)) (i mod 8)"
proof (induction n bs arbitrary: i rule: ld_bytes.induct)
  case (3 n b bs)
  show ?case
  proof (cases "i < 8")
    case True
    then show ?thesis by (simp add: bit_simps)
  next
    case False
    then have "i div 8 = Suc ((i - 8) div 8)" "i mod 8 = (i - 8) mod 8"
      by (simp_all add: le_div_geq le_mod_geq)
    moreover have "(bit (ucast b :: 'a word) i) = False" using False by (auto simp: bit_simps dest: bit_imp_le_length)
    moreover have "i < 8 * Suc n \<longleftrightarrow> i - 8 < 8 * n" using False by auto
    moreover have "i < LENGTH('a) \<Longrightarrow> i - 8 < LENGTH('a)" by simp
    ultimately show ?thesis using 3 False by (auto simp: bit_or_iff bit_push_bit_iff)
  qed
qed simp_all


lemma membit_eqI: "(\<And>p. membit m p = membit m' p) \<Longrightarrow> m = m'"
proof
  fix a assume eq: "\<And>p. membit m p = membit m' p"
  show "m a = m' a"
  proof (rule bit_word_eqI)
    fix i assume "i < LENGTH(8)"
    then show "bit (m a) i = bit (m' a) i" using eq [of "8 * a + i"] by (simp add: membit_def)
  qed
qed

lemma bit_load64 [mem_simps]: "bit (load64 m a) i \<longleftrightarrow> i < 64 \<and> membit m (8 * a + i)"
  by (auto simp: load64_def bit_ld_bytes membit_def)

lemma bit_load16 [mem_simps]: "bit (load16 m a) i \<longleftrightarrow> i < 16 \<and> membit m (8 * a + i)"
proof -
  have "i < 16 \<Longrightarrow> i div 8 < length [a..<a + 2]" by auto
  then have "i < 16 \<Longrightarrow> map m [a..<a + 2] ! (i div 8) = m (a + i div 8)"
    by (simp add: nth_map del: upt_Suc)
  then show ?thesis
    using bit_ld_bytes [of "map m [a..<a + 2]" 2 i, where ?'a = 16]
    by (auto simp: load16_def membit_def simp del: upt_Suc list.map)
qed

lemma store_bit:
  fixes v :: "'a::len word"
  assumes "LENGTH('a) = 8 * n"
  shows "bit ((\<lambda>x. if a \<le> x \<and> x < a + n then ucast (drop_bit (8 * (x - a)) v) else m x) (p div 8) :: u8) (p mod 8)
    \<longleftrightarrow> (if 8 * a \<le> p \<and> p < 8 * a + 8 * n then bit v (p - 8 * a) else membit m p)"
proof -
  have "a \<le> p div 8 \<and> p div 8 < a + n \<longleftrightarrow> 8 * a \<le> p \<and> p < 8 * a + 8 * n"
    by (auto simp: less_eq_div_iff_mult_less_eq div_less_iff_less_mult algebra_simps)
  moreover have "8 * (p div 8 - a) + p mod 8 = p - 8 * a" if "8 * a \<le> p"
  proof -
    have "a \<le> p div 8" using that by (simp add: less_eq_div_iff_mult_less_eq mult.commute)
    then show ?thesis using div_mult_mod_eq [of p 8] by linarith
  qed
  ultimately show ?thesis by (simp add: membit_def bit_simps)
qed

lemma membit_store64 [mem_simps]:
  "membit (store64 m a v) p \<longleftrightarrow> (if 8 * a \<le> p \<and> p < 8 * a + 64 then bit v (p - 8 * a) else membit m p)"
  unfolding membit_def store64_def using store_bit [where n = 8 and v = v and a = a and m = m and p = p] by (simp add: membit_def)

lemma membit_store16 [mem_simps]:
  "membit (store16 m a v) p \<longleftrightarrow> (if 8 * a \<le> p \<and> p < 8 * a + 16 then bit v (p - 8 * a) else membit m p)"
  unfolding membit_def store16_def using store_bit [where n = 2 and v = v and a = a and m = m and p = p] by (simp add: membit_def)

lemma word_bytes_le: "length (word_bytes_le w) = 8" "ld_bytes 8 (word_bytes_le w) = w"
proof -
  show "length (word_bytes_le w) = 8" by (simp add: word_bytes_le_def)
  then show "ld_bytes 8 (word_bytes_le w) = w"
    by (intro bit_word_eqI) (simp add: bit_ld_bytes word_bytes_le_def bit_simps)
qed

end
