(* ===== verification/Rank_Select.thy ===== *)
theory Rank_Select
  imports Prelude
begin

unbundle bit_operations_syntax

text \<open>
  The word primitives of \<^verbatim>\<open>terrace/code/src/gqf/rank_select.c\<close>: population count, and the
  broadword selection of the k-th set bit (\<^verbatim>\<open>_select64\<close>) with its 2048-entry byte table.
  The main result is that the broadword routine computes the position of the k-th set bit
  for every word and every rank, and 64 when there is none.
\<close>

section \<open>Definitions\<close>

text \<open>The \<^verbatim>\<open>popcnt\<close> instruction: the number of set bits.\<close>

definition popcnt :: "u64 \<Rightarrow> int" where
  "popcnt val = int (length (filter (bit val) [0..<64]))"

definition kSelectInByte :: "nat list" where
  "kSelectInByte = concat [
   [
     8, 0, 1, 0, 2, 0, 1, 0, 3, 0, 1, 0, 2, 0, 1, 0, 4, 0, 1, 0, 2, 0, 1, 0, 3, 0, 1, 0, 2, 0, 1, 0,
     5, 0, 1, 0, 2, 0, 1, 0, 3, 0, 1, 0, 2, 0, 1, 0, 4, 0, 1, 0, 2, 0, 1, 0, 3, 0, 1, 0, 2, 0, 1, 0,
     6, 0, 1, 0, 2, 0, 1, 0, 3, 0, 1, 0, 2, 0, 1, 0, 4, 0, 1, 0, 2, 0, 1, 0, 3, 0, 1, 0, 2, 0, 1, 0,
     5, 0, 1, 0, 2, 0, 1, 0, 3, 0, 1, 0, 2, 0, 1, 0, 4, 0, 1, 0, 2, 0, 1, 0, 3, 0, 1, 0, 2, 0, 1, 0,
     7, 0, 1, 0, 2, 0, 1, 0, 3, 0, 1, 0, 2, 0, 1, 0, 4, 0, 1, 0, 2, 0, 1, 0, 3, 0, 1, 0, 2, 0, 1, 0,
     5, 0, 1, 0, 2, 0, 1, 0, 3, 0, 1, 0, 2, 0, 1, 0, 4, 0, 1, 0, 2, 0, 1, 0, 3, 0, 1, 0, 2, 0, 1, 0,
     6, 0, 1, 0, 2, 0, 1, 0, 3, 0, 1, 0, 2, 0, 1, 0, 4, 0, 1, 0, 2, 0, 1, 0, 3, 0, 1, 0, 2, 0, 1, 0,
     5, 0, 1, 0, 2, 0, 1, 0, 3, 0, 1, 0, 2, 0, 1, 0, 4, 0, 1, 0, 2, 0, 1, 0, 3, 0, 1, 0, 2, 0, 1, 0],
   [
     8, 8, 8, 1, 8, 2, 2, 1, 8, 3, 3, 1, 3, 2, 2, 1, 8, 4, 4, 1, 4, 2, 2, 1, 4, 3, 3, 1, 3, 2, 2, 1,
     8, 5, 5, 1, 5, 2, 2, 1, 5, 3, 3, 1, 3, 2, 2, 1, 5, 4, 4, 1, 4, 2, 2, 1, 4, 3, 3, 1, 3, 2, 2, 1,
     8, 6, 6, 1, 6, 2, 2, 1, 6, 3, 3, 1, 3, 2, 2, 1, 6, 4, 4, 1, 4, 2, 2, 1, 4, 3, 3, 1, 3, 2, 2, 1,
     6, 5, 5, 1, 5, 2, 2, 1, 5, 3, 3, 1, 3, 2, 2, 1, 5, 4, 4, 1, 4, 2, 2, 1, 4, 3, 3, 1, 3, 2, 2, 1,
     8, 7, 7, 1, 7, 2, 2, 1, 7, 3, 3, 1, 3, 2, 2, 1, 7, 4, 4, 1, 4, 2, 2, 1, 4, 3, 3, 1, 3, 2, 2, 1,
     7, 5, 5, 1, 5, 2, 2, 1, 5, 3, 3, 1, 3, 2, 2, 1, 5, 4, 4, 1, 4, 2, 2, 1, 4, 3, 3, 1, 3, 2, 2, 1,
     7, 6, 6, 1, 6, 2, 2, 1, 6, 3, 3, 1, 3, 2, 2, 1, 6, 4, 4, 1, 4, 2, 2, 1, 4, 3, 3, 1, 3, 2, 2, 1,
     6, 5, 5, 1, 5, 2, 2, 1, 5, 3, 3, 1, 3, 2, 2, 1, 5, 4, 4, 1, 4, 2, 2, 1, 4, 3, 3, 1, 3, 2, 2, 1],
   [
     8, 8, 8, 8, 8, 8, 8, 2, 8, 8, 8, 3, 8, 3, 3, 2, 8, 8, 8, 4, 8, 4, 4, 2, 8, 4, 4, 3, 4, 3, 3, 2,
     8, 8, 8, 5, 8, 5, 5, 2, 8, 5, 5, 3, 5, 3, 3, 2, 8, 5, 5, 4, 5, 4, 4, 2, 5, 4, 4, 3, 4, 3, 3, 2,
     8, 8, 8, 6, 8, 6, 6, 2, 8, 6, 6, 3, 6, 3, 3, 2, 8, 6, 6, 4, 6, 4, 4, 2, 6, 4, 4, 3, 4, 3, 3, 2,
     8, 6, 6, 5, 6, 5, 5, 2, 6, 5, 5, 3, 5, 3, 3, 2, 6, 5, 5, 4, 5, 4, 4, 2, 5, 4, 4, 3, 4, 3, 3, 2,
     8, 8, 8, 7, 8, 7, 7, 2, 8, 7, 7, 3, 7, 3, 3, 2, 8, 7, 7, 4, 7, 4, 4, 2, 7, 4, 4, 3, 4, 3, 3, 2,
     8, 7, 7, 5, 7, 5, 5, 2, 7, 5, 5, 3, 5, 3, 3, 2, 7, 5, 5, 4, 5, 4, 4, 2, 5, 4, 4, 3, 4, 3, 3, 2,
     8, 7, 7, 6, 7, 6, 6, 2, 7, 6, 6, 3, 6, 3, 3, 2, 7, 6, 6, 4, 6, 4, 4, 2, 6, 4, 4, 3, 4, 3, 3, 2,
     7, 6, 6, 5, 6, 5, 5, 2, 6, 5, 5, 3, 5, 3, 3, 2, 6, 5, 5, 4, 5, 4, 4, 2, 5, 4, 4, 3, 4, 3, 3, 2],
   [
     8, 8, 8, 8, 8, 8, 8, 8, 8, 8, 8, 8, 8, 8, 8, 3, 8, 8, 8, 8, 8, 8, 8, 4, 8, 8, 8, 4, 8, 4, 4, 3,
     8, 8, 8, 8, 8, 8, 8, 5, 8, 8, 8, 5, 8, 5, 5, 3, 8, 8, 8, 5, 8, 5, 5, 4, 8, 5, 5, 4, 5, 4, 4, 3,
     8, 8, 8, 8, 8, 8, 8, 6, 8, 8, 8, 6, 8, 6, 6, 3, 8, 8, 8, 6, 8, 6, 6, 4, 8, 6, 6, 4, 6, 4, 4, 3,
     8, 8, 8, 6, 8, 6, 6, 5, 8, 6, 6, 5, 6, 5, 5, 3, 8, 6, 6, 5, 6, 5, 5, 4, 6, 5, 5, 4, 5, 4, 4, 3,
     8, 8, 8, 8, 8, 8, 8, 7, 8, 8, 8, 7, 8, 7, 7, 3, 8, 8, 8, 7, 8, 7, 7, 4, 8, 7, 7, 4, 7, 4, 4, 3,
     8, 8, 8, 7, 8, 7, 7, 5, 8, 7, 7, 5, 7, 5, 5, 3, 8, 7, 7, 5, 7, 5, 5, 4, 7, 5, 5, 4, 5, 4, 4, 3,
     8, 8, 8, 7, 8, 7, 7, 6, 8, 7, 7, 6, 7, 6, 6, 3, 8, 7, 7, 6, 7, 6, 6, 4, 7, 6, 6, 4, 6, 4, 4, 3,
     8, 7, 7, 6, 7, 6, 6, 5, 7, 6, 6, 5, 6, 5, 5, 3, 7, 6, 6, 5, 6, 5, 5, 4, 6, 5, 5, 4, 5, 4, 4, 3],
   [
     8, 8, 8, 8, 8, 8, 8, 8, 8, 8, 8, 8, 8, 8, 8, 8, 8, 8, 8, 8, 8, 8, 8, 8, 8, 8, 8, 8, 8, 8, 8, 4,
     8, 8, 8, 8, 8, 8, 8, 8, 8, 8, 8, 8, 8, 8, 8, 5, 8, 8, 8, 8, 8, 8, 8, 5, 8, 8, 8, 5, 8, 5, 5, 4,
     8, 8, 8, 8, 8, 8, 8, 8, 8, 8, 8, 8, 8, 8, 8, 6, 8, 8, 8, 8, 8, 8, 8, 6, 8, 8, 8, 6, 8, 6, 6, 4,
     8, 8, 8, 8, 8, 8, 8, 6, 8, 8, 8, 6, 8, 6, 6, 5, 8, 8, 8, 6, 8, 6, 6, 5, 8, 6, 6, 5, 6, 5, 5, 4,
     8, 8, 8, 8, 8, 8, 8, 8, 8, 8, 8, 8, 8, 8, 8, 7, 8, 8, 8, 8, 8, 8, 8, 7, 8, 8, 8, 7, 8, 7, 7, 4,
     8, 8, 8, 8, 8, 8, 8, 7, 8, 8, 8, 7, 8, 7, 7, 5, 8, 8, 8, 7, 8, 7, 7, 5, 8, 7, 7, 5, 7, 5, 5, 4,
     8, 8, 8, 8, 8, 8, 8, 7, 8, 8, 8, 7, 8, 7, 7, 6, 8, 8, 8, 7, 8, 7, 7, 6, 8, 7, 7, 6, 7, 6, 6, 4,
     8, 8, 8, 7, 8, 7, 7, 6, 8, 7, 7, 6, 7, 6, 6, 5, 8, 7, 7, 6, 7, 6, 6, 5, 7, 6, 6, 5, 6, 5, 5, 4],
   [
     8, 8, 8, 8, 8, 8, 8, 8, 8, 8, 8, 8, 8, 8, 8, 8, 8, 8, 8, 8, 8, 8, 8, 8, 8, 8, 8, 8, 8, 8, 8, 8,
     8, 8, 8, 8, 8, 8, 8, 8, 8, 8, 8, 8, 8, 8, 8, 8, 8, 8, 8, 8, 8, 8, 8, 8, 8, 8, 8, 8, 8, 8, 8, 5,
     8, 8, 8, 8, 8, 8, 8, 8, 8, 8, 8, 8, 8, 8, 8, 8, 8, 8, 8, 8, 8, 8, 8, 8, 8, 8, 8, 8, 8, 8, 8, 6,
     8, 8, 8, 8, 8, 8, 8, 8, 8, 8, 8, 8, 8, 8, 8, 6, 8, 8, 8, 8, 8, 8, 8, 6, 8, 8, 8, 6, 8, 6, 6, 5,
     8, 8, 8, 8, 8, 8, 8, 8, 8, 8, 8, 8, 8, 8, 8, 8, 8, 8, 8, 8, 8, 8, 8, 8, 8, 8, 8, 8, 8, 8, 8, 7,
     8, 8, 8, 8, 8, 8, 8, 8, 8, 8, 8, 8, 8, 8, 8, 7, 8, 8, 8, 8, 8, 8, 8, 7, 8, 8, 8, 7, 8, 7, 7, 5,
     8, 8, 8, 8, 8, 8, 8, 8, 8, 8, 8, 8, 8, 8, 8, 7, 8, 8, 8, 8, 8, 8, 8, 7, 8, 8, 8, 7, 8, 7, 7, 6,
     8, 8, 8, 8, 8, 8, 8, 7, 8, 8, 8, 7, 8, 7, 7, 6, 8, 8, 8, 7, 8, 7, 7, 6, 8, 7, 7, 6, 7, 6, 6, 5],
   [
     8, 8, 8, 8, 8, 8, 8, 8, 8, 8, 8, 8, 8, 8, 8, 8, 8, 8, 8, 8, 8, 8, 8, 8, 8, 8, 8, 8, 8, 8, 8, 8,
     8, 8, 8, 8, 8, 8, 8, 8, 8, 8, 8, 8, 8, 8, 8, 8, 8, 8, 8, 8, 8, 8, 8, 8, 8, 8, 8, 8, 8, 8, 8, 8,
     8, 8, 8, 8, 8, 8, 8, 8, 8, 8, 8, 8, 8, 8, 8, 8, 8, 8, 8, 8, 8, 8, 8, 8, 8, 8, 8, 8, 8, 8, 8, 8,
     8, 8, 8, 8, 8, 8, 8, 8, 8, 8, 8, 8, 8, 8, 8, 8, 8, 8, 8, 8, 8, 8, 8, 8, 8, 8, 8, 8, 8, 8, 8, 6,
     8, 8, 8, 8, 8, 8, 8, 8, 8, 8, 8, 8, 8, 8, 8, 8, 8, 8, 8, 8, 8, 8, 8, 8, 8, 8, 8, 8, 8, 8, 8, 8,
     8, 8, 8, 8, 8, 8, 8, 8, 8, 8, 8, 8, 8, 8, 8, 8, 8, 8, 8, 8, 8, 8, 8, 8, 8, 8, 8, 8, 8, 8, 8, 7,
     8, 8, 8, 8, 8, 8, 8, 8, 8, 8, 8, 8, 8, 8, 8, 8, 8, 8, 8, 8, 8, 8, 8, 8, 8, 8, 8, 8, 8, 8, 8, 7,
     8, 8, 8, 8, 8, 8, 8, 8, 8, 8, 8, 8, 8, 8, 8, 7, 8, 8, 8, 8, 8, 8, 8, 7, 8, 8, 8, 7, 8, 7, 7, 6],
   [
     8, 8, 8, 8, 8, 8, 8, 8, 8, 8, 8, 8, 8, 8, 8, 8, 8, 8, 8, 8, 8, 8, 8, 8, 8, 8, 8, 8, 8, 8, 8, 8,
     8, 8, 8, 8, 8, 8, 8, 8, 8, 8, 8, 8, 8, 8, 8, 8, 8, 8, 8, 8, 8, 8, 8, 8, 8, 8, 8, 8, 8, 8, 8, 8,
     8, 8, 8, 8, 8, 8, 8, 8, 8, 8, 8, 8, 8, 8, 8, 8, 8, 8, 8, 8, 8, 8, 8, 8, 8, 8, 8, 8, 8, 8, 8, 8,
     8, 8, 8, 8, 8, 8, 8, 8, 8, 8, 8, 8, 8, 8, 8, 8, 8, 8, 8, 8, 8, 8, 8, 8, 8, 8, 8, 8, 8, 8, 8, 8,
     8, 8, 8, 8, 8, 8, 8, 8, 8, 8, 8, 8, 8, 8, 8, 8, 8, 8, 8, 8, 8, 8, 8, 8, 8, 8, 8, 8, 8, 8, 8, 8,
     8, 8, 8, 8, 8, 8, 8, 8, 8, 8, 8, 8, 8, 8, 8, 8, 8, 8, 8, 8, 8, 8, 8, 8, 8, 8, 8, 8, 8, 8, 8, 8,
     8, 8, 8, 8, 8, 8, 8, 8, 8, 8, 8, 8, 8, 8, 8, 8, 8, 8, 8, 8, 8, 8, 8, 8, 8, 8, 8, 8, 8, 8, 8, 8,
     8, 8, 8, 8, 8, 8, 8, 8, 8, 8, 8, 8, 8, 8, 8, 8, 8, 8, 8, 8, 8, 8, 8, 8, 8, 8, 8, 8, 8, 8, 8, 7]]"

definition select64 :: "u64 \<Rightarrow> int \<Rightarrow> u64" where
  "select64 x k =
    (if k \<ge> popcnt x then 64
     else
       let kOnesStep4 = 0x1111111111111111;
           kOnesStep8 = 0x0101010101010101;
           kMSBsStep8 = 0x80 * kOnesStep8;
           s = x;
           s = s - drop_bit 1 (s AND (0xA * kOnesStep4));
           s = (s AND (0x3 * kOnesStep4)) + (drop_bit 2 s AND (0x3 * kOnesStep4));
           s = (s + drop_bit 4 s) AND (0xF * kOnesStep8);
           byteSums = s * kOnesStep8;
           kStep8 = word_of_int k * kOnesStep8;
           geqKStep8 = ((kStep8 OR kMSBsStep8) - byteSums) AND kMSBsStep8;
           place = word_of_int (popcnt geqKStep8 * 8);
           byteRank = word_of_int k - (drop_bit (unat place) (push_bit 8 byteSums) AND 0xFF)
       in place + of_nat (kSelectInByte !
            unat ((drop_bit (unat place) x AND 0xFF) OR push_bit 8 byteRank)))"

definition bitselect :: "u64 \<Rightarrow> int \<Rightarrow> u64" where
  "bitselect val rank = select64 val rank"

definition word_rank :: "u64 \<Rightarrow> u64" where
  "word_rank val = word_of_int (popcnt val)"

definition word_select :: "u64 \<Rightarrow> int \<Rightarrow> u64" where
  "word_select val rank = bitselect val rank"

section \<open>The byte table\<close>

fun blists :: "nat \<Rightarrow> bool list list" where
  "blists 0 = [[]]"
| "blists (Suc n) = map (\<lambda>l. l @ [False]) (blists n) @ map (\<lambda>l. l @ [True]) (blists n)"

lemma blists_bits: "blists n = map (\<lambda>b. map (bit b) [0..<n]) [0..<2 ^ n]"
proof (induction n)
  case (Suc n)
  have split: "[0..<2 ^ Suc n] = [0..<2 ^ n] @ map (\<lambda>b. b + 2 ^ n) [0..<(2::nat) ^ n]"
    using upt_add_eq_append [of 0 "2 ^ n" "2 ^ n"] by (simp add: map_add_upt mult_2 del: upt_add_eq_append)
  have lo: "map (bit b) [0..<Suc n] = map (bit b) [0..<n] @ [False]" if "b < 2 ^ n" for b :: nat
    using that by (simp add: bit_iff_odd)
  have hi: "map (bit (b + 2 ^ n)) [0..<Suc n] = map (bit b) [0..<n] @ [True]" if "b < 2 ^ n" for b :: nat
  proof -
    have "bit (b + 2 ^ n) i = bit b i" if "i < n" for i
      using that bit_take_bit_iff[of n "b + 2 ^ n" i] bit_take_bit_iff[of n b i]
      by (simp add: take_bit_eq_mod)
    moreover have "bit (b + 2 ^ n) n" using \<open>b < 2 ^ n\<close> by (simp add: bit_iff_odd div_add_self2)
    ultimately show ?thesis by simp
  qed
  have "map (\<lambda>b. map (bit b) [0..<Suc n]) [0..<2 ^ Suc n]
      = map (\<lambda>b. map (bit b) [0..<n] @ [False]) [0..<2 ^ n]
      @ map (\<lambda>b. map (bit b) [0..<n] @ [True]) [0..<2 ^ n]"
    unfolding split map_append map_map comp_def using lo hi by (intro arg_cong2[where f="(@)"] map_cong) auto
  then show ?case unfolding blists.simps Suc.IH map_map comp_def by (simp only: comp_def)
qed simp

lemma kSelectInByte_rows: "kSelectInByte = concat (map (\<lambda>k. map (\<lambda>l. select_ref l k) (blists 8)) [0..<8])"
  unfolding kSelectInByte_def
  by code_simp

definition byte_bits :: "nat \<Rightarrow> bool list" where
  "byte_bits b = [bit b 0, bit b 1, bit b 2, bit b 3, bit b 4, bit b 5, bit b 6, bit b 7]"

lemma byte_bits_upt: "byte_bits b = map (bit b) [0..<8]"
  by (simp add: byte_bits_def upt_conv_Cons eval_nat_numeral)

lemma kSelectInByte_nth:
  assumes "b < 256" "k < 8"
  shows "kSelectInByte ! (b + 256 * k) = select_ref (byte_bits b) k"
proof -
  have rows: "kSelectInByte = concat (map (\<lambda>k. map (\<lambda>b. select_ref (byte_bits b) k) [0..<256]) [0..<8])"
    unfolding kSelectInByte_rows blists_bits by (simp add: byte_bits_upt comp_def)
  have gen: "concat (map (\<lambda>k. map (f k) [0..<n]) [0..<m]) ! (b + n * k) = f k b"
    if "b < n" "k < m" for f :: "nat \<Rightarrow> nat \<Rightarrow> nat" and n m b k
    using that
  proof (induction m)
    case (Suc m)
    have len: "length (concat (map (\<lambda>k. map (f k) [0..<n]) [0..<m])) = n * m"
      by (simp add: length_concat comp_def sum_list_triv)
    show ?case
    proof (cases "k = m")
      case True
      with Suc.prems show ?thesis by (simp add: nth_append len)
    next
      case False
      with Suc.prems have "k < m" by simp
      then have "b + n * k < n * m"
        using \<open>b < n\<close> by (metis add.commute add_less_cancel_left less_eq_Suc_le mult_Suc_right mult_le_mono2 order_less_le_trans)
      with Suc \<open>k < m\<close> show ?thesis by (simp add: nth_append len)
    qed
  qed simp
  show ?thesis unfolding rows using gen[OF assms, of "\<lambda>k b. select_ref (byte_bits b) k"] by simp
qed

lemma hval_digits: "hval m (map (\<lambda>j. X div 2 ^ (m * j) mod 2 ^ m) [0..<n]) = X mod 2 ^ (m * n)"
proof (induction n arbitrary: X)
  case (Suc n)
  have "map (\<lambda>j. X div 2 ^ (m * j) mod 2 ^ m) [0..<Suc n]
      = X mod 2 ^ m # map (\<lambda>j. (X div 2 ^ m) div 2 ^ (m * j) mod 2 ^ m) [0..<n]"
    by (simp add: upt_conv_Cons map_Suc_upt[symmetric] div_mult2_eq[symmetric] power_add comp_def del: upt_Suc)
  with Suc show ?case by (simp add: mod_mult2_eq power_add)
qed simp

lemma bits_hval:
  "\<forall>b \<in> set bs. b < 2 ^ m \<Longrightarrow>
   map (bit (hval m bs)) [0..<m * length bs] = concat (map (\<lambda>b. map (bit b) [0..<m]) bs)"
proof (induction bs)
  case (Cons b bs)
  have lo: "bit (b + 2 ^ m * h) i = bit b i" if "i < m" for h i
    using that bit_take_bit_iff[of m "b + 2 ^ m * h" i] bit_take_bit_iff[of m b i]
    by (simp add: take_bit_eq_mod)
  have hi: "bit (b + 2 ^ m * h) (i + m) = bit h i" for h i
    using Cons.prems bit_drop_bit_eq[of m "b + 2 ^ m * h"] by (simp add: drop_bit_eq_div fun_eq_iff add.commute)
  have "[0..<m * length (b # bs)] = [0..<m] @ map (\<lambda>i. i + m) [0..<m * length bs]"
    using upt_add_eq_append[of 0 m "m * length bs"] by (simp add: map_add_upt add.commute)
  with Cons lo hi show ?case by (simp add: comp_def)
qed simp

lemma hval_dvd_div:
  "\<forall>x \<in> set xs. c dvd x \<Longrightarrow> 0 < c \<Longrightarrow> hval m xs div c = hval m (map (\<lambda>x. x div c) xs) \<and> c dvd hval m xs"
proof (induction xs)
  case (Cons x xs)
  then have "c dvd 2 ^ m * hval m xs" and "2 ^ m * hval m xs div c = 2 ^ m * (hval m xs div c)"
    by (auto simp: div_mult_swap)
  with Cons show ?case by (simp add: div_add)
qed simp

section \<open>Population counts of all bytes at once\<close>

lemma upt_byte: "[0..<256] = 0 # 1 # [2..<256::nat]"
  by (simp add: upt_conv_Cons numeral_2_eq_2 del: upt_rec_numeral)

lemma all_bytes: "list_all P [0..<256] \<Longrightarrow> b < 256 \<Longrightarrow> P b" for b :: nat
  by (simp add: list_all_iff del: upt_rec_numeral)

definition swar_pair :: "nat \<Rightarrow> nat" where
  "swar_pair b = b - (b AND 0xAA) div 2"

definition swar_nib :: "nat \<Rightarrow> nat" where
  "swar_nib b = (swar_pair b AND 0x33) + (swar_pair b AND 0xCC) div 4"

definition swar_ok :: "nat \<Rightarrow> bool" where
  "swar_ok b \<longleftrightarrow> (b AND 0xAA) div 2 \<le> b \<and> even (b AND 0xAA) \<and> swar_pair b < 256 \<and> 4 dvd (swar_pair b AND 0xCC) \<and>
     swar_nib b < 256 \<and> swar_nib b mod 16 \<le> 4 \<and> swar_nib b div 16 \<le> 4 \<and>
     swar_nib b mod 16 + swar_nib b div 16 = ones (byte_bits b)"

lemma swar_byte_pair:
  "list_all (\<lambda>b. (b AND 0xAA) div 2 \<le> b \<and> even (b AND 0xAA) \<and> swar_pair b < 256
     \<and> 4 dvd (swar_pair b AND 0xCC)) [0..<256]"
  unfolding upt_byte by (simp add: swar_pair_def)

lemma swar_byte_nib:
  "list_all (\<lambda>b. swar_nib b < 256 \<and> swar_nib b mod 16 \<le> 4 \<and> swar_nib b div 16 \<le> 4) [0..<256]"
  unfolding upt_byte by (simp add: swar_pair_def swar_nib_def)

lemma swar_byte_count:
  "list_all (\<lambda>b. swar_nib b mod 16 + swar_nib b div 16 = ones (byte_bits b)) [0..<256]"
  unfolding upt_byte by (simp add: swar_pair_def swar_nib_def byte_bits_def bit_0)

lemma swar_byte: "b < 256 \<Longrightarrow> swar_ok b"
  using all_bytes [OF swar_byte_pair] all_bytes [OF swar_byte_nib] all_bytes [OF swar_byte_count]
  unfolding swar_ok_def by blast

lemma msb_of_byte: "v < 256 \<Longrightarrow> v AND 128 = (if 128 \<le> v then 128 else (0::nat))"
proof -
  have "list_all (\<lambda>v. v AND 128 = (if 128 \<le> v then 128 else (0::nat))) [0..<256]"
    unfolding upt_byte by simp
  then show "v < 256 \<Longrightarrow> ?thesis" by (rule all_bytes)
qed

lemma ones_byte_le: "ones (byte_bits b) \<le> 8"
  by (simp add: byte_bits_def)

definition swar_sum :: "nat \<Rightarrow> nat" where
  "swar_sum X =
     (let s = X - (X AND 0xAAAAAAAAAAAAAAAA) div 2;
          s = (s AND 0x3333333333333333) + ((s div 4) AND 0x3333333333333333)
      in (s + s div 16) AND 0x0F0F0F0F0F0F0F0F)"

lemma replicate_8: "replicate 8 c = [c, c, c, c, c, c, c, c]"
  by (simp add: eval_nat_numeral)

lemma hval_ones: "hval 8 (replicate 8 c) = c * 0x0101010101010101"
  unfolding replicate_8 by simp

lemma hval_snoc_0 [simp]: "hval m (xs @ [0]) = hval m xs"
  by (induction xs) auto

lemma hval_and_const:
  "\<forall>b \<in> set bs. b < 256 \<Longrightarrow> c < 256 \<Longrightarrow> length bs = 8 \<Longrightarrow>
   hval 8 bs AND (c * 0x0101010101010101) = hval 8 (map (\<lambda>b. b AND c) bs)"
  using hval_and[of bs "replicate 8 c" 8] hval_ones[of c]
  by (simp add: zip_replicate2 comp_def)

lemma list8_cases:
  assumes "length bs = 8"
  obtains b0 b1 b2 b3 b4 b5 b6 b7 where "bs = [b0, b1, b2, b3, b4, b5, b6, b7]"
  using assms by (auto simp: length_Suc_conv eval_nat_numeral)

lemma nibble_step:
  assumes "length bs = 8" "\<forall>b \<in> set bs. b < 256 \<and> b mod 16 \<le> 4 \<and> b div 16 \<le> 4"
  shows "(hval 8 bs + hval 8 bs div 16) AND 0x0F0F0F0F0F0F0F0F = hval 8 (map (\<lambda>b. b mod 16 + b div 16) bs)"
proof -
  obtain b0 b1 b2 b3 b4 b5 b6 b7 where bs: "bs = [b0, b1, b2, b3, b4, b5, b6, b7]"
    using assms(1) by (rule list8_cases)
  define l h where "l b = b mod 16" and "h b = b div 16" for b :: nat
  have eq: "b = l b + 16 * h b" for b by (simp add: l_def h_def)
  have le: "l b \<le> 4" "h b \<le> 4" if "b \<in> set bs" for b using assms(2) that by (auto simp: l_def h_def)
  let ?ns = "[l b0, h b0, l b1, h b1, l b2, h b2, l b3, h b3, l b4, h b4, l b5, h b5, l b6, h b6, l b7, h b7]"
  let ?sh = "[h b0, l b1, h b1, l b2, h b2, l b3, h b3, l b4, h b4, l b5, h b5, l b6, h b6, l b7, h b7, 0]"
  have "hval 8 bs = hval 8 (map (\<lambda>b. l b + 16 * h b) bs)"
    by (simp flip: eq)
  also have "\<dots> = hval 4 ?ns" by (simp add: bs)
  finally have n: "hval 8 bs = hval 4 ?ns" .
  have "l b0 < 2 ^ 4" using le(1)[of b0] by (simp add: bs)
  from hval_div [OF this, of "tl ?ns"] hval_snoc_0 [of 4 "tl ?ns"]
  have "hval 4 ?ns div 2 ^ 4 = hval 4 ?sh" unfolding list.sel append.simps by (rule trans [OF _ sym])
  then have e: "hval 8 bs + hval 8 bs div 16 = hval 4 (map2 (+) ?ns ?sh)"
    unfolding n by (subst hval_add[symmetric]) (simp_all del: hval.simps)
  have m: "0x0F0F0F0F0F0F0F0F = hval 4 [15,0,15,0,15,0,15,0,15,0,15,0,15,0,15,0]" by simp
  have small: "x AND 15 = x" if "x \<le> 8" for x :: nat
    using that take_bit_nat_eq_self_iff[of 4 x] by (simp add: take_bit_eq_mask mask_eq_exp_minus_1)
  have sum: "l a + h b \<le> 8" "h b + l a \<le> 8" if "a \<in> set bs" "b \<in> set bs" for a b
    using le(1)[OF that(1)] le(2)[OF that(2)] by linarith+
  then have lt: "l a + h b < 16" "h b + l a < 16" if "a \<in> set bs" "b \<in> set bs" for a b
    using sum(1)[OF that] sum(2)[OF that] by linarith+
  have A: "\<forall>x \<in> set (map2 (+) ?ns ?sh). x < 2 ^ 4"
    using lt le(2)[of b7] by (simp add: bs)
  have "(hval 8 bs + hval 8 bs div 16) AND 0x0F0F0F0F0F0F0F0F
      = hval 4 (map2 (AND) (map2 (+) ?ns ?sh) [15,0,15,0,15,0,15,0,15,0,15,0,15,0,15,0])"
    unfolding e m by (rule hval_and [OF _ A]) simp_all
  also have "\<dots> = hval 8 (map (\<lambda>b. (l b + h b) AND 15) bs)"
    unfolding bs by simp
  also have "map (\<lambda>b. (l b + h b) AND 15) bs = map (\<lambda>b. l b + h b) bs"
    using small sum by auto
  finally show ?thesis by (simp add: l_def h_def)
qed

lemma swar_sum_bytes:
  assumes "length bs = 8" "\<forall>b \<in> set bs. b < 256"
  shows "swar_sum (hval 8 bs) = hval 8 (map (\<lambda>b. ones (byte_bits b)) bs)"
proof -
  let ?X = "hval 8 bs"
  have ok: "swar_ok b" if "b \<in> set bs" for b using assms(2) that swar_byte by blast
  have "?X AND 0xAAAAAAAAAAAAAAAA = hval 8 (map (\<lambda>b. b AND 0xAA) bs)"
    using hval_and_const[of bs "0xAA"] assms by simp
  then have "(?X AND 0xAAAAAAAAAAAAAAAA) div 2 = hval 8 (map (\<lambda>b. (b AND 0xAA) div 2) bs)"
    using hval_dvd_div[of "map (\<lambda>b. b AND 0xAA) bs" 2 8] ok by (simp add: swar_ok_def comp_def)
  then have s1: "?X - (?X AND 0xAAAAAAAAAAAAAAAA) div 2 = hval 8 (map swar_pair bs)" (is "?s1 = _")
    using hval_sub[of "map (\<lambda>b. (b AND 0xAA) div 2) bs" bs 8] ok
    by (simp add: list_all2_conv_all_nth swar_ok_def zip_map2 comp_def zip_same_conv_map swar_pair_def[abs_def])
  have p: "\<forall>b \<in> set (map swar_pair bs). b < 256" using ok by (auto simp: swar_ok_def)
  have "?s1 div 4 AND 0x3333333333333333 = (?s1 AND 0xCCCCCCCCCCCCCCCC) div 4"
    using drop_bit_and[of 2 ?s1 "0xCCCCCCCCCCCCCCCC"] by (simp add: drop_bit_eq_div)
  also have "?s1 AND 0xCCCCCCCCCCCCCCCC = hval 8 (map (\<lambda>b. swar_pair b AND 0xCC) bs)"
    using hval_and_const[of "map swar_pair bs" "0xCC"] p assms by (simp add: s1 comp_def)
  also have "\<dots> div 4 = hval 8 (map (\<lambda>b. (swar_pair b AND 0xCC) div 4) bs)"
    using hval_dvd_div[of "map (\<lambda>b. swar_pair b AND 0xCC) bs" 4 8] ok by (simp add: swar_ok_def comp_def)
  finally have r: "?s1 div 4 AND 0x3333333333333333 = hval 8 (map (\<lambda>b. (swar_pair b AND 0xCC) div 4) bs)" .
  have l: "?s1 AND 0x3333333333333333 = hval 8 (map (\<lambda>b. swar_pair b AND 0x33) bs)"
    using hval_and_const[of "map swar_pair bs" "0x33"] p assms by (simp add: s1 comp_def)
  have s2: "(?s1 AND 0x3333333333333333) + (?s1 div 4 AND 0x3333333333333333) = hval 8 (map swar_nib bs)"
    unfolding l r by (subst hval_add) (simp_all add: map2_map_map swar_nib_def cong: map_cong)
  have "(hval 8 (map swar_nib bs) + hval 8 (map swar_nib bs) div 16) AND 0x0F0F0F0F0F0F0F0F
      = hval 8 (map (\<lambda>b. swar_nib b mod 16 + swar_nib b div 16) bs)"
    using nibble_step[of "map swar_nib bs"] ok assms by (auto simp: swar_ok_def comp_def)
  moreover have "map (\<lambda>b. swar_nib b mod 16 + swar_nib b div 16) bs = map (\<lambda>b. ones (byte_bits b)) bs"
    using ok by (auto simp: swar_ok_def)
  ultimately show ?thesis unfolding swar_sum_def Let_def s2 by simp
qed

lemma unat_and: "unat (a AND b) = unat a AND unat b"
  by (rule unsigned_and_eq)

lemma unat_shr: "unat (drop_bit n y) = unat y div 2 ^ n"
  by (rule trans [OF unat_drop_bit_eq drop_bit_eq_div])

lemma swar_word:
  fixes x :: u64
  defines "s1 \<equiv> x - drop_bit 1 (x AND 0xAAAAAAAAAAAAAAAA)"
  defines "s2 \<equiv> (s1 AND 0x3333333333333333) + (drop_bit 2 s1 AND 0x3333333333333333)"
  shows "unat ((s2 + drop_bit 4 s2) AND 0x0F0F0F0F0F0F0F0F) = swar_sum (unat x)"
proof -
  have le_and: "unat a \<le> m \<Longrightarrow> unat (a AND b) \<le> m" "unat (b AND a) \<le> unat a" for a b :: u64 and m
    using word_and_le1[of b a] word_and_le2[of a b] by (auto simp: word_le_nat_alt intro: order_trans)
  have "unat (drop_bit 1 (x AND 0xAAAAAAAAAAAAAAAA)) \<le> unat x"
    using le_and(1)[of x "unat x" "0xAAAAAAAAAAAAAAAA"]
    unfolding unat_shr by (meson div_le_dividend order_refl order_trans)
  moreover have "unat (0xAAAAAAAAAAAAAAAA :: u64) = 0xAAAAAAAAAAAAAAAA" by simp
  ultimately have u1: "unat s1 = unat x - (unat x AND 0xAAAAAAAAAAAAAAAA) div 2"
    unfolding s1_def by (subst unat_sub) (simp_all only: word_le_nat_alt unat_shr unat_and power_one_right)
  have c: "unat (0x3333333333333333 :: u64) = 0x3333333333333333" by simp
  have b1: "unat (s1 AND 0x3333333333333333) \<le> 0x3333333333333333"
    and b2: "unat (drop_bit 2 s1 AND 0x3333333333333333) \<le> 0x3333333333333333"
    using le_and(2)[of _ "0x3333333333333333"] by (simp_all only: c)
  then have u2: "unat s2 = (unat s1 AND 0x3333333333333333) + (unat s1 div 4 AND 0x3333333333333333)"
    and b3: "unat s2 \<le> 0x6666666666666666"
    unfolding s2_def unat_plus_if'
    by (simp_all add: unat_shr unat_and)
  have "unat (s2 + drop_bit 4 s2) = unat s2 + unat s2 div 16"
    using b3 div_le_dividend [of "unat s2" 16] unat_shr [of 4 s2] by (subst unat_plus_if') auto
  then show ?thesis by (simp add: swar_sum_def u2 u1 unat_and Let_def)
qed

definition prefix_sums :: "nat list \<Rightarrow> nat list" where
  "prefix_sums cs = map (\<lambda>i. sum_list (take (Suc i) cs)) [0..<length cs]"

lemma prefix_sums_8:
  "prefix_sums [c0, c1, c2, c3, c4, c5, c6, c7] =
    [c0, c0+c1, c0+c1+c2, c0+c1+c2+c3, c0+c1+c2+c3+c4, c0+c1+c2+c3+c4+c5, c0+c1+c2+c3+c4+c5+c6,
     c0+c1+c2+c3+c4+c5+c6+c7]"
  by (simp add: prefix_sums_def upt_conv_Cons)

lemma byte_sums:
  assumes "length cs = 8" "\<forall>c \<in> set cs. c \<le> 8"
  shows "hval 8 cs * 0x0101010101010101 mod 2 ^ 64 = hval 8 (prefix_sums cs)"
    "\<forall>p \<in> set (prefix_sums cs). p \<le> 64" "length (prefix_sums cs) = 8"
proof -
  obtain c0 c1 c2 c3 c4 c5 c6 c7 where cs: "cs = [c0, c1, c2, c3, c4, c5, c6, c7]"
    using assms(1) by (rule list8_cases)
  show bd: "\<forall>p \<in> set (prefix_sums cs). p \<le> 64" and len: "length (prefix_sums cs) = 8"
    using assms(2) unfolding cs prefix_sums_8 by simp_all
  have "hval 8 cs * 0x0101010101010101 = hval 8 (prefix_sums cs)
     + hval 8 [c1+c2+c3+c4+c5+c6+c7, c2+c3+c4+c5+c6+c7, c3+c4+c5+c6+c7, c4+c5+c6+c7, c5+c6+c7, c6+c7, c7] * 2 ^ 64"
    unfolding cs prefix_sums_8 by simp
  moreover have "hval 8 (prefix_sums cs) < 2 ^ (8 * 8)"
    using hval_less[of "prefix_sums cs" 8] bd len by fastforce
  ultimately show "hval 8 cs * 0x0101010101010101 mod 2 ^ 64 = hval 8 (prefix_sums cs)"
    by (simp only: mod_mult_self1) simp
qed

lemma filter_le_sorted:
  "sorted ps \<Longrightarrow> filter (\<lambda>p. p \<le> k) ps = takeWhile (\<lambda>p. p \<le> k) ps" for k :: nat
proof (induction ps)
  case (Cons p ps)
  then show ?case by (cases "p \<le> k"; cases ps) (auto simp: filter_empty_conv)
qed simp

lemma unat_OR_msb:
  assumes "k < 64"
  shows "unat ((of_nat k * 0x0101010101010101 :: u64) OR 0x8080808080808080) = hval 8 (replicate 8 (k + 128))"
proof -
  have u: "unat (of_nat k * 0x0101010101010101 :: u64) = hval 8 (replicate 8 k)"
    using assms by (simp add: hval_ones unat_word_ariths unat_of_nat)
  have "k AND 128 = 0" using msb_of_byte[of k] assms by simp
  then have "hval 8 (replicate 8 k) AND 0x8080808080808080 = 0"
    using hval_and_const[of "replicate 8 k" 128] assms unfolding replicate_8 by simp
  then have "unat (of_nat k * 0x0101010101010101 :: u64) OR 0x8080808080808080 = hval 8 (replicate 8 k) + 0x8080808080808080"
    unfolding u by (simp only: disjunctive_add_eq_or)
  then show ?thesis by (simp add: unsigned_or_eq) (simp add: replicate_8)
qed

lemma select_ref_bytes:
  assumes c: "c < length bs" and lo: "sum_list (map (\<lambda>b. ones (byte_bits b)) (take c bs)) \<le> k"
    and hi: "k < sum_list (map (\<lambda>b. ones (byte_bits b)) (take (Suc c) bs))"
  shows "select_ref (concat (map byte_bits bs)) k =
    8 * c + select_ref (byte_bits (bs ! c)) (k - sum_list (map (\<lambda>b. ones (byte_bits b)) (take c bs)))"
proof -
  have split: "bs = take c bs @ bs ! c # drop (Suc c) bs" by (rule id_take_nth_drop [OF c])
  have cnt: "ones (concat (map byte_bits xs)) = sum_list (map (\<lambda>b. ones (byte_bits b)) xs)" for xs
    by (induction xs) auto
  have len: "length (concat (map byte_bits xs)) = 8 * length xs" for xs
    by (induction xs) (auto simp: byte_bits_def)
  have "select_ref (concat (map byte_bits bs)) k
      = select_ref (concat (map byte_bits (take c bs)) @ byte_bits (bs ! c) @ concat (map byte_bits (drop (Suc c) bs))) k"
    by (subst split) simp
  moreover have "k - sum_list (map (\<lambda>b. ones (byte_bits b)) (take c bs)) < ones (byte_bits (bs ! c))"
    using hi lo by (simp add: take_Suc_conv_app_nth c)
  ultimately show ?thesis
    using lo c by (simp add: select_ref_append cnt len min_def)
qed

section \<open>Selection\<close>

definition word_bytes :: "u64 \<Rightarrow> nat list" where
  "word_bytes x = map (\<lambda>j. unat x div 2 ^ (8 * j) mod 2 ^ 8) [0..<8]"

lemma word_bytes:
  "length (word_bytes x) = 8" "\<forall>b \<in> set (word_bytes x). b < 256" "unat x = hval 8 (word_bytes x)"
proof -
  have "unat x < 2 ^ 64" using unsigned_less [of x] by simp
  then show "unat x = hval 8 (word_bytes x)"
    using hval_digits [of 8 "unat x" 8] by (simp add: word_bytes_def del: upt_rec_numeral)
qed (auto simp: word_bytes_def)

lemma word_bytes_nth: "c < 8 \<Longrightarrow> word_bytes x ! c = unat (drop_bit (8 * c) x AND 0xFF)"
proof -
  have "unat (drop_bit (8 * c) x AND 0xFF) = take_bit 8 (unat x div 2 ^ (8 * c))"
    unfolding unat_and unat_shr by (simp add: take_bit_eq_mask mask_eq_exp_minus_1)
  then show "c < 8 \<Longrightarrow> ?thesis" by (simp add: word_bytes_def take_bit_eq_mod)
qed

lemma word_bits_bytes: "map (bit x) [0..<64] = concat (map byte_bits (word_bytes x))" for x :: u64
proof -
  have "map (bit (hval 8 (word_bytes x))) [0..<8 * 8] = concat (map (\<lambda>b. map (bit b) [0..<8]) (word_bytes x))"
    using bits_hval [of "word_bytes x" 8] word_bytes [of x] by simp
  moreover have "bit (unat x) = bit x" by (auto simp: fun_eq_iff bit_unsigned_iff dest: bit_imp_le_length)
  ultimately show ?thesis by (simp add: byte_bits_upt[abs_def] flip: word_bytes(3))
qed

lemma ones_map: "ones (map f xs) = length (filter f xs)"
  by (simp add: filter_map comp_def)

lemma popcnt_ones: "popcnt x = int (ones (map (bit x) [0..<64]))"
  unfolding popcnt_def ones_map ..

lemma popcnt_bytes: "popcnt x = int (sum_list (map (\<lambda>b. ones (byte_bits b)) (word_bytes x)))"
proof -
  have "ones (concat (map byte_bits bs)) = sum_list (map (\<lambda>b. ones (byte_bits b)) bs)" for bs
    by (induction bs) auto
  then show ?thesis by (simp add: popcnt_ones word_bits_bytes)
qed

lemma popcnt_hval:
  assumes "unat x = hval 8 bs" "length bs = 8" "\<forall>b \<in> set bs. b < 256"
  shows "word_bytes x = bs"
proof (rule nth_equalityI)
  fix i assume i: "i < length (word_bytes x)"
  have gen: "hval 8 bs div 2 ^ (8 * i) mod 2 ^ 8 = bs ! i" if "i < length bs" "\<forall>b \<in> set bs. b < 256" for bs i
    using that
  proof (induction bs arbitrary: i)
    case (Cons b bs)
    show ?case
    proof (cases i)
      case 0 with Cons.prems show ?thesis by simp
    next
      case (Suc j)
      have "(b + 256 * hval 8 bs) div 2 ^ (8 * i) = (b + 256 * hval 8 bs) div 256 div 2 ^ (8 * j)"
        unfolding div_mult2_eq [symmetric] by (simp add: Suc power_add)
      with Cons Suc show ?thesis by simp
    qed
  qed simp
  show "word_bytes x ! i = bs ! i"
    using i gen [of i bs] assms by (simp add: word_bytes_def)
qed (simp add: word_bytes assms)

lemma sorted_prefix_sums: "sorted (prefix_sums cs)"
proof -
  have "sum_list (take (Suc i) cs) \<le> sum_list (take (Suc j) cs)" if "i \<le> j" for i j
  proof -
    have "take (Suc j) cs = take (Suc i) cs @ take (j - i) (drop (Suc i) cs)"
      using that take_add [of "Suc i" "j - i" cs] by simp
    then show ?thesis by simp
  qed
  then show ?thesis by (auto simp: prefix_sums_def sorted_iff_nth_mono)
qed

text \<open>The place computed by the comparison of all byte sums at once.\<close>

lemma geq_place:
  fixes k :: nat and byteSums :: u64
  assumes k: "k < 64" and bS: "unat byteSums = hval 8 ps" and len: "length ps = 8"
    and ps: "\<forall>p \<in> set ps. p \<le> 64" and sorted: "sorted ps"
  shows "popcnt ((((of_nat k * 0x0101010101010101) OR 0x8080808080808080) - byteSums) AND 0x8080808080808080)
    = int (length (takeWhile (\<lambda>p. p \<le> k) ps))"
proof -
  let ?d = "((of_nat k * 0x0101010101010101) OR 0x8080808080808080) - byteSums :: u64"
  have "ps ! i \<le> k + 128" if "i < 8" for i
  proof -
    have "ps ! i \<le> 64" using ps nth_mem [of i ps] that len by simp
    then show ?thesis by simp
  qed
  then have "list_all2 (\<le>) ps (replicate 8 (k + 128))"
    using len by (simp add: list_all2_conv_all_nth)
  moreover have "map2 (-) (replicate 8 (k + 128)) ps = map (\<lambda>p. k + 128 - p) ps"
    using len by (simp add: zip_replicate1 comp_def)
  ultimately have sub: "hval 8 (replicate 8 (k + 128)) - hval 8 ps = hval 8 (map (\<lambda>p. k + 128 - p) ps)
      \<and> hval 8 ps \<le> hval 8 (replicate 8 (k + 128))"
    using hval_sub [of ps "replicate 8 (k + 128)" 8] by simp
  then have "unat ?d = hval 8 (map (\<lambda>p. k + 128 - p) ps)"
    by (subst unat_sub) (simp_all add: word_le_nat_alt unat_OR_msb [OF k] bS)
  moreover have "k + 128 - p < 256" for p using k by simp
  ultimately have "unat (?d AND 0x8080808080808080) = hval 8 (map (\<lambda>p. (k + 128 - p) AND 128) ps)"
    using hval_and_const [of "map (\<lambda>p. k + 128 - p) ps" 128] len by (simp add: unat_and comp_def)
  also have "map (\<lambda>p. (k + 128 - p) AND 128) ps = map (\<lambda>p. if p \<le> k then 128 else 0) ps"
    using msb_of_byte k ps by (intro map_cong) auto
  finally have "word_bytes (?d AND 0x8080808080808080) = map (\<lambda>p. if p \<le> k then 128 else 0) ps"
    using len by (intro popcnt_hval) auto
  then have "popcnt (?d AND 0x8080808080808080) = int (sum_list (map (\<lambda>p. if p \<le> k then 1 else 0) ps))"
    by (simp add: popcnt_bytes comp_def if_distrib [of byte_bits] if_distrib [of ones] cong: if_cong)
      (simp add: byte_bits_def bit_0 cong: if_cong)
  also have "sum_list (map (\<lambda>p. if p \<le> k then 1 else 0) ps) = length (filter (\<lambda>p. p \<le> k) ps)"
    by (induction ps) auto
  finally show ?thesis using filter_le_sorted [OF sorted] by simp
qed

lemma byte_of_shifted:
  fixes w :: u64
  assumes "unat w = hval 8 ps" "length ps = 8" "\<forall>p \<in> set ps. p \<le> 64" "c < 8"
  shows "unat (drop_bit (8 * c) (push_bit 8 w) AND 0xFF) = (case c of 0 \<Rightarrow> 0 | Suc i \<Rightarrow> ps ! i)"
proof (cases c)
  case 0
  have "push_bit 8 w AND mask 8 = 0"
    by (rule bit_word_eqI) (auto simp: bit_simps)
  then have "push_bit 8 w AND 0xFF = 0" by (simp add: mask_eq_exp_minus_1)
  with 0 show ?thesis by simp
next
  case (Suc i)
  have "drop_bit (8 * c) (push_bit 8 w) AND mask 8 = drop_bit (8 * i) w AND mask 8"
    using assms(4) Suc by (intro bit_word_eqI) (auto simp: bit_simps)
  then have "drop_bit (8 * c) (push_bit 8 w) AND 0xFF = drop_bit (8 * i) w AND 0xFF"
    by (simp add: mask_eq_exp_minus_1)
  moreover have "word_bytes w = ps"
    using assms by (intro popcnt_hval) force+
  ultimately show ?thesis using word_bytes_nth [of i w] assms(4) Suc by simp
qed

lemma table_index:
  fixes x y :: u64
  assumes "n - m < 8" "m \<le> n" "unat (y AND 0xFF) = m"
  shows "unat ((x AND 0xFF) OR push_bit 8 (of_nat n - (y AND 0xFF))) = unat (x AND 0xFF) + 256 * (n - m)"
proof -
  have "y AND 0xFF = of_nat m" by (simp flip: assms(3))
  then have r: "of_nat n - (y AND 0xFF) = (of_nat (n - m) :: u64)" using assms(2) by simp
  have "(x AND mask 8) AND push_bit 8 z = 0" for z :: u64
    by (rule bit_word_eqI) (auto simp: bit_simps)
  from this [of "of_nat (n - m)"] have "(x AND 0xFF) AND push_bit 8 (of_nat (n - m)) = 0"
    by (simp add: mask_eq_exp_minus_1)
  from disjunctive_add_eq_or [OF this]
  have "(x AND 0xFF) OR push_bit 8 (of_nat (n - m)) = (x AND 0xFF) + push_bit 8 (of_nat (n - m))" by simp
  moreover have "unat (push_bit 8 (of_nat (n - m) :: u64)) = 256 * (n - m)"
    using assms(1) by (simp add: push_bit_eq_mult unat_word_ariths unat_of_nat del: of_nat_diff)
  moreover have "unat (x AND 0xFF) < 256"
    using word_and_le1 [of x "0xFF"] by (simp add: word_le_nat_alt)
  ultimately show ?thesis using assms(1) by (simp add: r unat_word_ariths)
qed

lemma select64_correct:
  assumes "0 \<le> k"
  shows "select64 x k = of_nat (select_ref (map (bit x) [0..<64]) (nat k))"
proof (cases "k \<ge> popcnt x")
  case True
  then have "ones (map (bit x) [0..<64]) \<le> nat k" by (simp add: popcnt_ones)
  from select_ref_none [OF this] True show ?thesis by (simp add: select64_def)
next
  case False
  define bs where "bs = word_bytes x"
  define cs where "cs = map (\<lambda>b. ones (byte_bits b)) bs"
  define ps where "ps = prefix_sums cs"
  define n where "n = nat k"
  define c where "c = length (takeWhile (\<lambda>p. p \<le> n) ps)"
  define byteSums :: u64 where "byteSums = (let s1 = x - drop_bit 1 (x AND 0xAAAAAAAAAAAAAAAA);
    s2 = (s1 AND 0x3333333333333333) + (drop_bit 2 s1 AND 0x3333333333333333)
    in ((s2 + drop_bit 4 s2) AND 0x0F0F0F0F0F0F0F0F) * 0x0101010101010101)"
  have bs: "length bs = 8" "\<forall>b \<in> set bs. b < 256" "unat x = hval 8 bs"
    unfolding bs_def by (rule word_bytes)+
  have cs: "length cs = 8" "\<forall>c \<in> set cs. c \<le> 8" using bs ones_byte_le by (auto simp: cs_def)
  note ps = byte_sums [OF cs, folded ps_def]
  have bS: "unat byteSums = hval 8 ps"
    unfolding byteSums_def Let_def ps(1) [symmetric]
    using swar_word [of x] swar_sum_bytes [OF bs(1,2)] bs(3)
    by (simp add: unat_word_ariths cs_def)
  have nx: "n < sum_list cs" and k: "k = int n"
    using False assms by (simp_all add: popcnt_bytes n_def cs_def bs_def)
  have nth_ps: "ps ! i = sum_list (take (Suc i) cs)" if "i < 8" for i
    using that by (simp add: ps_def prefix_sums_def cs)
  then have last: "ps ! 7 = sum_list cs" using cs by simp
  then have n64: "n < 64" using nx ps(2,3) nth_mem [of 7 ps] by fastforce
  have place: "popcnt ((((of_nat n * 0x0101010101010101) OR 0x8080808080808080) - byteSums) AND 0x8080808080808080) = int c"
    unfolding c_def by (rule geq_place [OF n64 bS ps(3,2)]) (simp add: ps_def sorted_prefix_sums)
  have c8: "c < 8"
  proof (rule ccontr)
    assume "\<not> c < 8"
    then have "takeWhile (\<lambda>p. p \<le> n) ps = ps"
      using ps(3) by (metis c_def length_takeWhile_le linorder_not_less order_antisym takeWhile_eq_take take_all)
    then have "ps ! 7 \<le> n" using ps(3) nth_mem [of 7 ps] by (simp add: takeWhile_eq_all_conv)
    with nx last show False by simp
  qed
  have lo: "sum_list (take c cs) \<le> n"
  proof (cases c)
    case (Suc i)
    then have "ps ! i \<le> n"
      using nth_mem [of i "takeWhile (\<lambda>p. p \<le> n) ps"] set_takeWhileD takeWhile_nth [of i "\<lambda>p. p \<le> n" ps]
      unfolding c_def by fastforce
    with Suc c8 nth_ps show ?thesis by simp
  qed simp
  have hi: "n < sum_list (take (Suc c) cs)"
    using nth_length_takeWhile [of "\<lambda>p. p \<le> n" ps] c8 ps(3) nth_ps [of c] by (simp add: c_def)
  have shifted: "unat (drop_bit (8 * c) (push_bit 8 byteSums) AND 0xFF) = sum_list (take c cs)"
    using byte_of_shifted [OF bS ps(3,2) c8] c8 nth_ps by (cases c) auto
  have rest: "n - sum_list (take c cs) < ones (byte_bits (bs ! c))"
    using lo hi c8 cs(1) by (simp add: take_Suc_conv_app_nth) (simp add: cs_def bs)
  then have idx: "unat ((drop_bit (8 * c) x AND 0xFF) OR
      push_bit 8 (of_nat n - (drop_bit (8 * c) (push_bit 8 byteSums) AND 0xFF)))
     = bs ! c + 256 * (n - sum_list (take c cs))"
    using table_index [OF _ lo shifted] ones_byte_le [of "bs ! c"] word_bytes_nth [OF c8, of x]
    by (simp add: bs_def)
  have "unat (of_nat c :: u64) = c" using c8 by (simp add: unat_of_nat)
  then have "select64 x k = of_nat (8 * c) + of_nat (kSelectInByte ! (bs ! c + 256 * (n - sum_list (take c cs))))"
    using False place idx c8 unfolding select64_def byteSums_def k
    by (simp add: Let_def unat_word_ariths mult.commute)
  also have "\<dots> = of_nat (8 * c + select_ref (byte_bits (bs ! c)) (n - sum_list (take c cs)))"
    using kSelectInByte_nth [of "bs ! c" "n - sum_list (take c cs)"] rest ones_byte_le [of "bs ! c"] bs c8 by simp
  also have "\<dots> = of_nat (select_ref (map (bit x) [0..<64]) n)"
    using select_ref_bytes [of c bs n] lo hi c8 bs(1)
    by (simp add: word_bits_bytes take_map cs_def flip: bs_def)
  finally show ?thesis by (simp add: n_def)
qed

end
