(* ===== verification/GQF_Block.thy ===== *)
theory GQF_Block
  imports Byte_Mem Rank_Select
begin

unbundle bit_operations_syntax

text \<open>
  The state of a counting quotient filter (\<^verbatim>\<open>terrace/code/include/gqf/gqf_int.h\<close>) and the
  primitives of \<^verbatim>\<open>terrace/code/src/gqf/gqf.c\<close> that read and write its blocks without
  interpreting them: metadata words, occupied and runend bits, block offsets and slots.
  The blocks are the bytes behind \<^verbatim>\<open>qf->blocks\<close>; a block is a packed \<^verbatim>\<open>qfblock\<close>: a 16-bit
  offset at byte 0, the occupieds word at byte 2, the runends word at byte 10 and
  \<open>8 * bits_per_slot\<close> bytes of slots from byte 18 (\<^verbatim>\<open>QF_BITS_PER_SLOT\<close> is 0, so the slot width is
  a run-time value).  Sizes and indices are naturals (the code keeps them in \<^verbatim>\<open>uint64_t\<close> and they stay
  below the size of the allocation); remainders, hashes, counts and the element counters are words.
\<close>

section \<open>State\<close>

datatype qf_hashmode = QF_HASH_DEFAULT | QF_HASH_INVERTIBLE | QF_HASH_NONE

datatype resize_fn = Resize_null | Resize_malloc | Resize_file

record qfruntime =
  fd :: int
  filepath :: "string option"
  container_resize :: resize_fn
  num_locks :: nat
  metadata_lock :: int
  locks :: "int list"

record qfmetadata =
  magic_endian_number :: u64
  hash_mode :: qf_hashmode
  auto_resize :: u32
  total_size_in_bytes :: nat
  md_seed :: u32
  nslots :: nat
  xnslots :: nat
  key_bits :: nat
  value_bits :: nat
  key_remainder_bits :: nat
  bits_per_slot :: nat
  md_range :: nat
  nblocks :: nat
  nelts :: u64
  ndistinct_elts :: u64
  noccupied_slots :: u64

record quotient_filter =
  runtimedata :: qfruntime
  metadata :: qfmetadata
  blocks :: mem

type_synonym QF = quotient_filter

datatype md_field = occupieds | runends

abbreviation QF_SLOTS_PER_BLOCK :: nat where "QF_SLOTS_PER_BLOCK \<equiv> 64"

abbreviation qf_bps :: "QF \<Rightarrow> nat" where "qf_bps qf \<equiv> bits_per_slot (metadata qf)"

section \<open>Primitives\<close>

definition MAX_VALUE :: "nat \<Rightarrow> u64" where
  "MAX_VALUE nbits = push_bit nbits 1 - 1"

definition BITMASK :: "nat \<Rightarrow> u64" where
  "BITMASK nbits = (if nbits = 64 then 0xffffffffffffffff else MAX_VALUE nbits)"

definition sizeof_qfblock :: nat where "sizeof_qfblock = 2 + 8 + 8"

definition get_block :: "QF \<Rightarrow> nat \<Rightarrow> nat" where
  "get_block qf block_index =
     block_index * (sizeof_qfblock + QF_SLOTS_PER_BLOCK * qf_bps qf div 8)"

definition block_off :: "QF \<Rightarrow> nat \<Rightarrow> u16" where
  "block_off qf b = load16 (blocks qf) (get_block qf b)"

definition set_block_off :: "QF \<Rightarrow> nat \<Rightarrow> u16 \<Rightarrow> QF" where
  "set_block_off qf b v = qf\<lparr>blocks := store16 (blocks qf) (get_block qf b) v\<rparr>"

fun field_offset :: "md_field \<Rightarrow> nat" where
  "field_offset occupieds = 2"
| "field_offset runends = 10"

definition md_addr :: "QF \<Rightarrow> md_field \<Rightarrow> nat \<Rightarrow> nat" where
  "md_addr qf f slot_index = get_block qf (slot_index div QF_SLOTS_PER_BLOCK) + field_offset f
     + 8 * ((slot_index mod QF_SLOTS_PER_BLOCK) div 64)"

definition METADATA_WORD :: "QF \<Rightarrow> md_field \<Rightarrow> nat \<Rightarrow> u64" where
  "METADATA_WORD qf f slot_index = load64 (blocks qf) (md_addr qf f slot_index)"

definition set_METADATA_WORD :: "QF \<Rightarrow> md_field \<Rightarrow> nat \<Rightarrow> u64 \<Rightarrow> QF" where
  "set_METADATA_WORD qf f slot_index w =
     qf\<lparr>blocks := store64 (blocks qf) (md_addr qf f slot_index) w\<rparr>"

text \<open>The three read-modify-write forms the code uses on one metadata bit: \<^verbatim>\<open>|=\<close>, \<^verbatim>\<open>&= ~\<close> and \<^verbatim>\<open>^=\<close>.\<close>

definition md_set_bit :: "QF \<Rightarrow> md_field \<Rightarrow> nat \<Rightarrow> QF" where
  "md_set_bit qf f i = set_METADATA_WORD qf f i
     (METADATA_WORD qf f i OR push_bit ((i mod QF_SLOTS_PER_BLOCK) mod 64) 1)"

definition md_clear_bit :: "QF \<Rightarrow> md_field \<Rightarrow> nat \<Rightarrow> QF" where
  "md_clear_bit qf f i = set_METADATA_WORD qf f i
     (METADATA_WORD qf f i AND NOT (push_bit ((i mod QF_SLOTS_PER_BLOCK) mod 64) 1))"

definition md_flip_bit :: "QF \<Rightarrow> md_field \<Rightarrow> nat \<Rightarrow> QF" where
  "md_flip_bit qf f i = set_METADATA_WORD qf f i (METADATA_WORD qf f i XOR push_bit (i mod 64) 1)"

definition is_runend :: "QF \<Rightarrow> nat \<Rightarrow> bool" where
  "is_runend qf index \<longleftrightarrow>
     drop_bit ((index mod QF_SLOTS_PER_BLOCK) mod 64) (METADATA_WORD qf runends index) AND 1 \<noteq> 0"

definition is_occupied :: "QF \<Rightarrow> nat \<Rightarrow> bool" where
  "is_occupied qf index \<longleftrightarrow>
     drop_bit ((index mod QF_SLOTS_PER_BLOCK) mod 64) (METADATA_WORD qf occupieds index) AND 1 \<noteq> 0"

definition slot_addr :: "QF \<Rightarrow> nat \<Rightarrow> nat" where
  "slot_addr qf index = get_block qf (index div QF_SLOTS_PER_BLOCK) + sizeof_qfblock
     + (index mod QF_SLOTS_PER_BLOCK) * qf_bps qf div 8"

definition slot_shift :: "QF \<Rightarrow> nat \<Rightarrow> nat" where
  "slot_shift qf index = (index mod QF_SLOTS_PER_BLOCK) * qf_bps qf mod 8"

definition get_slot :: "QF \<Rightarrow> nat \<Rightarrow> u64" where
  "get_slot qf index =
     drop_bit (slot_shift qf index) (load64 (blocks qf) (slot_addr qf index)) AND BITMASK (qf_bps qf)"

definition set_slot :: "QF \<Rightarrow> nat \<Rightarrow> u64 \<Rightarrow> QF" where
  "set_slot qf index value' =
    (let t = load64 (blocks qf) (slot_addr qf index);
         m = BITMASK (qf_bps qf);
         v = value';
         shift = slot_shift qf index;
         m = push_bit shift m;
         v = push_bit shift v;
         t = t AND NOT m;
         t = t OR v
     in qf\<lparr>blocks := store64 (blocks qf) (slot_addr qf index) t\<rparr>)"

text \<open>The occupieds and the runends word of one block, as \<^verbatim>\<open>get_block(qf, b)->occupieds[0]\<close> reads them.\<close>

abbreviation occ_word :: "QF \<Rightarrow> nat \<Rightarrow> u64" where "occ_word qf b \<equiv> METADATA_WORD qf occupieds (64 * b)"
abbreviation run_word :: "QF \<Rightarrow> nat \<Rightarrow> u64" where "run_word qf b \<equiv> METADATA_WORD qf runends (64 * b)"

section \<open>Layout: where each bit of the filter lies\<close>

definition block_bits :: "QF \<Rightarrow> nat" where "block_bits qf = 144 + 64 * qf_bps qf"

fun field_bit :: "md_field \<Rightarrow> nat" where
  "field_bit occupieds = 16"
| "field_bit runends = 80"

definition md_pos :: "QF \<Rightarrow> md_field \<Rightarrow> nat \<Rightarrow> nat" where
  "md_pos qf f i = block_bits qf * (i div 64) + (field_bit f + i mod 64)"

definition slot_pos :: "QF \<Rightarrow> nat \<Rightarrow> nat" where
  "slot_pos qf i = block_bits qf * (i div 64) + (144 + (i mod 64) * qf_bps qf)"

text \<open>The slot width the packed accesses support: \<^verbatim>\<open>gqf_int.h\<close> allows run-time widths up to 56.\<close>

definition width_ok :: "QF \<Rightarrow> bool" where
  "width_ok qf \<longleftrightarrow> 1 < qf_bps qf \<and> qf_bps qf \<le> 56"

lemma get_block_bits: "8 * get_block qf b = block_bits qf * b"
  by (simp add: get_block_def sizeof_qfblock_def block_bits_def algebra_simps)

lemma md_addr_bits: "8 * md_addr qf f i = block_bits qf * (i div 64) + field_bit f"
  by (cases f) (simp_all add: md_addr_def get_block_bits distrib_left div_less)

lemma slot_addr_bits: "8 * slot_addr qf i + slot_shift qf i = slot_pos qf i"
  by (simp add: slot_addr_def slot_pos_def slot_shift_def get_block_bits distrib_left sizeof_qfblock_def)

lemma block_pos_eq:
  fixes s b :: nat
  assumes "c < s" "c' < s"
  shows "s * b + c = s * b' + c' \<longleftrightarrow> b = b' \<and> c = c'"
  using assms by (metis add.commute div_mult_self2 div_less mod_mult_self2 mod_less less_nat_zero_code
      mult.commute div_eq_0_iff add_0)

lemma block_pos_range:
  fixes s b :: nat
  assumes "c + n \<le> s" "c' < s"
  shows "s * b + c \<le> s * b' + c' \<and> s * b' + c' < s * b + c + n \<longleftrightarrow> b = b' \<and> c \<le> c' \<and> c' < c + n"
proof
  assume *: "s * b + c \<le> s * b' + c' \<and> s * b' + c' < s * b + c + n"
  then obtain d where d: "d < n" "s * b + (c + d) = s * b' + c'"
    by (metis add.assoc add_less_cancel_left le_Suc_ex)
  then have "b = b' \<and> c + d = c'" using assms block_pos_eq [of "c + d" s c' b b'] by simp
  with d show "b = b' \<and> c \<le> c' \<and> c' < c + n" by auto
qed auto


lemma md_pos_eq: "md_pos qf f i = md_pos qf g j \<longleftrightarrow> f = g \<and> i = j"
proof -
  have lt: "field_bit h + k mod 64 < block_bits qf" for h k
    using mod_less_divisor [of 64 k] by (cases h) (auto simp: block_bits_def intro: order_less_le_trans)
  note eq = block_pos_eq [OF lt [of f i] lt [of g j], of "i div 64" "j div 64"]
  have "field_bit f + i mod 64 = field_bit g + j mod 64 \<longleftrightarrow> f = g \<and> i mod 64 = j mod 64"
    using mod_less_divisor [of 64 i] mod_less_divisor [of 64 j] by (cases f; cases g) auto
  then show ?thesis unfolding md_pos_def eq
    by (metis div_mult_mod_eq)
qed

lemma slot_end: "144 + (i mod 64) * w + w \<le> 144 + 64 * w" for i w :: nat
proof -
  have "(i mod 64 + 1) * w \<le> 64 * w" by (rule mult_le_mono1) (simp add: Suc_leI)
  then show ?thesis by simp
qed

lemma slot_pos_md_pos: "\<not> (slot_pos qf i \<le> md_pos qf f j \<and> md_pos qf f j < slot_pos qf i + qf_bps qf)"
proof -
  have c: "144 + (i mod 64) * qf_bps qf + qf_bps qf \<le> block_bits qf"
    unfolding block_bits_def by (rule slot_end)
  have "field_bit f + j mod 64 < 144" by (cases f) auto
  then show ?thesis
    unfolding slot_pos_def md_pos_def using block_pos_range [OF c, of "field_bit f + j mod 64" "i div 64" "j div 64"]
    by (auto simp: block_bits_def)
qed

lemma slot_pos_slot_pos:
  assumes "k < qf_bps qf"
  shows "slot_pos qf i \<le> slot_pos qf j + k \<and> slot_pos qf j + k < slot_pos qf i + qf_bps qf \<longleftrightarrow> i = j"
proof
  assume *: "slot_pos qf i \<le> slot_pos qf j + k \<and> slot_pos qf j + k < slot_pos qf i + qf_bps qf"
  have c: "144 + (i mod 64) * qf_bps qf + qf_bps qf \<le> block_bits qf"
    and d: "144 + (j mod 64) * qf_bps qf + k < block_bits qf"
    unfolding block_bits_def using slot_end [of i "qf_bps qf"] slot_end [of j "qf_bps qf"] assms by linarith+
  from * have "i div 64 = j div 64 \<and> (i mod 64) * qf_bps qf \<le> (j mod 64) * qf_bps qf + k
      \<and> (j mod 64) * qf_bps qf + k < (i mod 64 + 1) * qf_bps qf"
    using block_pos_range [OF c d, of "i div 64" "j div 64"] by (simp add: slot_pos_def add.assoc)
  moreover have "(j mod 64) * qf_bps qf + k < (j mod 64 + 1) * qf_bps qf" using assms by simp
  ultimately have "i div 64 = j div 64" "(i mod 64) * qf_bps qf < (j mod 64 + 1) * qf_bps qf"
      "(j mod 64) * qf_bps qf < (i mod 64 + 1) * qf_bps qf"
    by linarith+
  then have "i div 64 = j div 64" "i mod 64 < j mod 64 + 1" "j mod 64 < i mod 64 + 1"
    by (simp_all only: mult_less_cancel2)
  then show "i = j" by (metis div_mult_mod_eq less_Suc_eq Suc_eq_plus1 not_less_eq)
qed (use assms in simp)

lemma offset_md_pos: "\<not> (block_bits qf * b \<le> md_pos qf f j \<and> md_pos qf f j < block_bits qf * b + 16)"
proof -
  have d: "field_bit f + j mod 64 < block_bits qf" by (cases f) (auto simp: block_bits_def)
  show ?thesis using block_pos_range [of 0 16, OF _ d, of b "j div 64"]
    by (cases f) (auto simp: md_pos_def block_bits_def)
qed

lemma offset_slot_pos:
  assumes "k < qf_bps qf"
  shows "\<not> (block_bits qf * b \<le> slot_pos qf j + k \<and> slot_pos qf j + k < block_bits qf * b + 16)"
proof -
  have d: "144 + (j mod 64) * qf_bps qf + k < block_bits qf"
    unfolding block_bits_def using slot_end [of j "qf_bps qf"] assms by linarith
  show ?thesis using block_pos_range [of 0 16, OF _ d, of b "j div 64"]
    by (auto simp: slot_pos_def block_bits_def add.assoc)
qed

lemma md_pos_offset: "k < 16 \<Longrightarrow> md_pos qf f i \<noteq> block_bits qf * b + k"
  using offset_md_pos [of qf b f i] by auto

lemma slot_pos_offset:
  assumes "k < 16"
  shows "\<not> (slot_pos qf i \<le> block_bits qf * b + k \<and> block_bits qf * b + k < slot_pos qf i + qf_bps qf)"
proof
  assume *: "slot_pos qf i \<le> block_bits qf * b + k \<and> block_bits qf * b + k < slot_pos qf i + qf_bps qf"
  then obtain d where "d < qf_bps qf" "block_bits qf * b + k = slot_pos qf i + d"
    by (metis add_less_cancel_left le_Suc_ex)
  with offset_slot_pos [of d qf b i] assms show False by simp
qed

lemma offset_offset:
  "k < 16 \<Longrightarrow> block_bits qf * b \<le> block_bits qf * b' + k \<and> block_bits qf * b' + k < block_bits qf * b + 16 \<longleftrightarrow> b = b'"
  using block_pos_range [of 0 16 "block_bits qf" k b b'] by (auto simp: block_bits_def)


section \<open>Effect of the primitives on the bits\<close>

lemma BITMASK_mask: "n \<le> 64 \<Longrightarrow> BITMASK n = mask n"
  by (auto simp: BITMASK_def MAX_VALUE_def mask_eq_exp_minus_1)

lemma bit_BITMASK: "n \<le> 64 \<Longrightarrow> bit (BITMASK n) k \<longleftrightarrow> k < n"
  by (auto simp: BITMASK_mask bit_simps)

lemma bit_METADATA_WORD:
  "bit (METADATA_WORD qf f i) k \<longleftrightarrow> k < 64 \<and> membit (blocks qf) (block_bits qf * (i div 64) + (field_bit f + k))"
  by (simp add: METADATA_WORD_def mem_simps md_addr_bits add.assoc)

lemma and_1_bit: "drop_bit n w AND 1 \<noteq> 0 \<longleftrightarrow> bit w n" for w :: u64
  by (auto simp: and_one_eq bit_iff_odd_drop_bit mod_2_eq_odd)

lemma is_runend_membit: "is_runend qf i \<longleftrightarrow> membit (blocks qf) (md_pos qf runends i)"
  by (simp add: is_runend_def and_1_bit bit_METADATA_WORD md_pos_def)

lemma is_occupied_membit: "is_occupied qf i \<longleftrightarrow> membit (blocks qf) (md_pos qf occupieds i)"
  by (simp add: is_occupied_def and_1_bit bit_METADATA_WORD md_pos_def)

lemma bit_occ_word: "bit (occ_word qf b) k \<longleftrightarrow> k < 64 \<and> is_occupied qf (64 * b + k)"
  by (auto simp: bit_METADATA_WORD is_occupied_membit md_pos_def)

lemma bit_run_word: "bit (run_word qf b) k \<longleftrightarrow> k < 64 \<and> is_runend qf (64 * b + k)"
  by (auto simp: bit_METADATA_WORD is_runend_membit md_pos_def)

lemma bit_get_slot:
  assumes "width_ok qf"
  shows "bit (get_slot qf i) k \<longleftrightarrow> k < qf_bps qf \<and> membit (blocks qf) (slot_pos qf i + k)"
proof -
  have "slot_shift qf i < 8" by (simp add: slot_shift_def)
  then show ?thesis using assms
    by (auto simp: get_slot_def bit_and_iff bit_drop_bit_eq mem_simps bit_BITMASK width_ok_def
        slot_addr_bits [symmetric] add.assoc)
qed

lemma bit_block_off: "bit (block_off qf b) k \<longleftrightarrow> k < 16 \<and> membit (blocks qf) (block_bits qf * b + k)"
  by (simp add: block_off_def mem_simps get_block_bits)

lemma membit_set_METADATA_WORD:
  "membit (blocks (set_METADATA_WORD qf f i w)) p \<longleftrightarrow>
    (if block_bits qf * (i div 64) + field_bit f \<le> p \<and> p < block_bits qf * (i div 64) + field_bit f + 64
     then bit w (p - (block_bits qf * (i div 64) + field_bit f)) else membit (blocks qf) p)"
  by (simp add: set_METADATA_WORD_def mem_simps md_addr_bits)

lemma membit_md_bit_op:
  assumes "\<And>k. k < 64 \<Longrightarrow> bit w k \<longleftrightarrow> (if k = i mod 64 then b else bit (METADATA_WORD qf f i) k)"
  shows "membit (blocks (set_METADATA_WORD qf f i w)) p \<longleftrightarrow> (if p = md_pos qf f i then b else membit (blocks qf) p)"
proof (cases "block_bits qf * (i div 64) + field_bit f \<le> p \<and> p < block_bits qf * (i div 64) + field_bit f + 64")
  case True
  then obtain k where "k < 64" "p = block_bits qf * (i div 64) + field_bit f + k"
    by (metis add_less_cancel_left le_Suc_ex)
  then show ?thesis using assms [of k]
    by (simp add: membit_set_METADATA_WORD bit_METADATA_WORD md_pos_def add.assoc)
next
  case False
  then have "p \<noteq> md_pos qf f i" by (auto simp: md_pos_def)
  with False show ?thesis by (subst membit_set_METADATA_WORD) auto
qed

lemma membit_md_set_bit:
  "membit (blocks (md_set_bit qf f i)) p \<longleftrightarrow> p = md_pos qf f i \<or> membit (blocks qf) p"
  unfolding md_set_bit_def by (subst membit_md_bit_op [where b = True]) (auto simp: bit_simps)

lemma membit_md_clear_bit:
  "membit (blocks (md_clear_bit qf f i)) p \<longleftrightarrow> p \<noteq> md_pos qf f i \<and> membit (blocks qf) p"
  unfolding md_clear_bit_def by (subst membit_md_bit_op [where b = False]) (auto simp: bit_simps)

lemma membit_md_flip_bit:
  "membit (blocks (md_flip_bit qf f i)) p \<longleftrightarrow>
     (if p = md_pos qf f i then \<not> membit (blocks qf) p else membit (blocks qf) p)"
  unfolding md_flip_bit_def
  by (subst membit_md_bit_op [where b = "\<not> bit (METADATA_WORD qf f i) (i mod 64)"])
    (auto simp: bit_simps bit_METADATA_WORD md_pos_def)

lemma membit_set_slot:
  assumes "width_ok qf" "v \<le> BITMASK (qf_bps qf)"
  shows "membit (blocks (set_slot qf i v)) p \<longleftrightarrow>
    (if slot_pos qf i \<le> p \<and> p < slot_pos qf i + qf_bps qf then bit v (p - slot_pos qf i)
     else membit (blocks qf) p)"
proof -
  have w: "qf_bps qf \<le> 56" and s: "slot_shift qf i < 8"
    using assms by (simp_all add: width_ok_def slot_shift_def)
  have "take_bit (qf_bps qf) v = v"
    using assms(2) w BITMASK_mask [of "qf_bps qf"] by (simp add: mask_le_iff)
  then have v: "bit v k \<Longrightarrow> k < qf_bps qf" for k by (metis bit_take_bit_iff)
  let ?a = "8 * slot_addr qf i"
  show ?thesis
  proof (cases "?a \<le> p \<and> p < ?a + 64")
    case True
    then obtain k where "k < 64" "p = ?a + k" by (metis add_less_cancel_left le_Suc_ex)
    then show ?thesis using w s v [of "k - slot_shift qf i"]
      by (auto simp: set_slot_def Let_def mem_simps bit_simps bit_BITMASK slot_addr_bits [symmetric])
  next
    case False
    then show ?thesis using w s
      by (auto simp: set_slot_def Let_def mem_simps slot_addr_bits [symmetric])
  qed
qed

lemma membit_set_block_off:
  "membit (blocks (set_block_off qf b v)) p \<longleftrightarrow>
    (if block_bits qf * b \<le> p \<and> p < block_bits qf * b + 16 then bit v (p - block_bits qf * b)
     else membit (blocks qf) p)"
  by (simp add: set_block_off_def mem_simps get_block_bits)


section \<open>The filter seen as bits, slots and offsets\<close>

text \<open>No primitive write touches the header or the run-time data.\<close>

lemma frame_metadata [simp]:
  "metadata (set_METADATA_WORD qf f i w) = metadata qf" "metadata (md_set_bit qf f i) = metadata qf"
  "metadata (md_clear_bit qf f i) = metadata qf" "metadata (md_flip_bit qf f i) = metadata qf"
  "metadata (set_slot qf i v) = metadata qf" "metadata (set_block_off qf b o') = metadata qf"
  by (simp_all add: set_METADATA_WORD_def md_set_bit_def md_clear_bit_def md_flip_bit_def set_slot_def
      set_block_off_def Let_def)

lemma frame_runtimedata [simp]:
  "runtimedata (set_METADATA_WORD qf f i w) = runtimedata qf" "runtimedata (md_set_bit qf f i) = runtimedata qf"
  "runtimedata (md_clear_bit qf f i) = runtimedata qf" "runtimedata (md_flip_bit qf f i) = runtimedata qf"
  "runtimedata (set_slot qf i v) = runtimedata qf" "runtimedata (set_block_off qf b o') = runtimedata qf"
  by (simp_all add: set_METADATA_WORD_def md_set_bit_def md_clear_bit_def md_flip_bit_def set_slot_def
      set_block_off_def Let_def)

lemma pos_cong:
  assumes "metadata qf' = metadata qf"
  shows "md_pos qf' = md_pos qf" "slot_pos qf' = slot_pos qf" "block_bits qf' = block_bits qf"
    "width_ok qf' = width_ok qf"
  using assms by (auto simp: fun_eq_iff md_pos_def slot_pos_def block_bits_def width_ok_def)

lemmas frame_pos [simp] =
  pos_cong [OF frame_metadata(1)] pos_cong [OF frame_metadata(2)] pos_cong [OF frame_metadata(3)]
  pos_cong [OF frame_metadata(4)] pos_cong [OF frame_metadata(5)] pos_cong [OF frame_metadata(6)]

lemma slot_eqI:
  assumes "width_ok qf" "width_ok qf'" "qf_bps qf' = qf_bps qf"
    and "\<And>k. k < qf_bps qf \<Longrightarrow> membit (blocks qf') (slot_pos qf' i + k) = membit (blocks qf) (slot_pos qf j + k)"
  shows "get_slot qf' i = get_slot qf j"
  by (rule bit_word_eqI) (use assms in \<open>auto simp: bit_get_slot\<close>)

lemma offset_eqI:
  assumes "\<And>k. k < 16 \<Longrightarrow> membit (blocks qf') (block_bits qf' * b + k) = membit (blocks qf) (block_bits qf * b + k)"
  shows "block_off qf' b = block_off qf b"
  by (rule bit_word_eqI) (use assms in \<open>auto simp: bit_block_off\<close>)

lemma view_runend [view_simps]:
  "is_runend (md_set_bit qf f i) j \<longleftrightarrow> (f = runends \<and> j = i) \<or> is_runend qf j"
  "is_runend (md_clear_bit qf f i) j \<longleftrightarrow> \<not> (f = runends \<and> j = i) \<and> is_runend qf j"
  "is_runend (md_flip_bit qf f i) j \<longleftrightarrow> (is_runend qf j \<noteq> (f = runends \<and> j = i))"
  "is_runend (set_block_off qf b o') j = is_runend qf j"
  by (auto simp: is_runend_membit membit_md_set_bit membit_md_clear_bit membit_md_flip_bit
      membit_set_block_off md_pos_eq offset_md_pos)

lemma view_occupied [view_simps]:
  "is_occupied (md_set_bit qf f i) j \<longleftrightarrow> (f = occupieds \<and> j = i) \<or> is_occupied qf j"
  "is_occupied (md_clear_bit qf f i) j \<longleftrightarrow> \<not> (f = occupieds \<and> j = i) \<and> is_occupied qf j"
  "is_occupied (md_flip_bit qf f i) j \<longleftrightarrow> (is_occupied qf j \<noteq> (f = occupieds \<and> j = i))"
  "is_occupied (set_block_off qf b o') j = is_occupied qf j"
  by (auto simp: is_occupied_membit membit_md_set_bit membit_md_clear_bit membit_md_flip_bit
      membit_set_block_off md_pos_eq offset_md_pos)

lemma view_slot_write [view_simps]:
  assumes "width_ok qf" "v \<le> BITMASK (qf_bps qf)"
  shows "is_runend (set_slot qf i v) j = is_runend qf j" "is_occupied (set_slot qf i v) j = is_occupied qf j"
    "block_off (set_slot qf i v) b = block_off qf b"
  using assms slot_pos_md_pos slot_pos_offset
  by (auto simp: is_runend_membit is_occupied_membit membit_set_slot intro!: offset_eqI)

lemma slot_pos_md_pos': "k < qf_bps qf \<Longrightarrow> slot_pos qf i + k \<noteq> md_pos qf f j"
  using slot_pos_md_pos [of qf i f j] by auto

lemma view_slot [view_simps]:
  assumes "width_ok qf"
  shows "get_slot (md_set_bit qf f i) j = get_slot qf j" "get_slot (md_clear_bit qf f i) j = get_slot qf j"
    "get_slot (md_flip_bit qf f i) j = get_slot qf j" "get_slot (set_block_off qf b o') j = get_slot qf j"
  using assms slot_pos_md_pos' offset_slot_pos
  by (auto simp: membit_md_set_bit membit_md_clear_bit membit_md_flip_bit membit_set_block_off intro!: slot_eqI)

lemma view_offset [view_simps]:
  "block_off (md_set_bit qf f i) b = block_off qf b" "block_off (md_clear_bit qf f i) b = block_off qf b"
  "block_off (md_flip_bit qf f i) b = block_off qf b"
  using md_pos_offset
  by (auto simp: membit_md_set_bit membit_md_clear_bit membit_md_flip_bit intro!: offset_eqI) metis+

lemma get_set_slot:
  assumes "width_ok qf" "v \<le> BITMASK (qf_bps qf)"
  shows "get_slot (set_slot qf i v) j = (if i = j then v else get_slot qf j)"
proof (rule bit_word_eqI)
  fix k assume "k < LENGTH(64)"
  have "take_bit (qf_bps qf) v = v"
    using assms BITMASK_mask [of "qf_bps qf"] by (simp add: mask_le_iff width_ok_def)
  then have v: "bit v k \<Longrightarrow> k < qf_bps qf" by (metis bit_take_bit_iff)
  show "bit (get_slot (set_slot qf i v) j) k = bit (if i = j then v else get_slot qf j) k"
    using assms v slot_pos_slot_pos [of k qf i j] by (auto simp: bit_get_slot membit_set_slot)
qed

lemma get_set_block_off: "block_off (set_block_off qf b v) b' = (if b = b' then v else block_off qf b')"
proof (rule bit_word_eqI)
  fix k assume "k < LENGTH(16)"
  then show "bit (block_off (set_block_off qf b v) b') k = bit (if b = b' then v else block_off qf b') k"
    using offset_offset [of k qf b b'] by (auto simp: bit_block_off membit_set_block_off)
qed

lemma get_slot_le: "get_slot qf i \<le> BITMASK (qf_bps qf)"
  by (simp add: get_slot_def word_and_le1)

section \<open>Slots and offsets as indexed stores\<close>

interpretation slots: cell_store get_slot set_slot width_ok "\<lambda>qf v. v \<le> BITMASK (qf_bps qf)"
  by unfold_locales (auto simp: get_set_slot get_slot_le)

interpretation offsets: cell_store block_off set_block_off "\<lambda>_. True" "\<lambda>_ _. True"
  by unfold_locales (auto simp: get_set_block_off)

end
