(* ===== verification/GQF_Run.thy ===== *)
theory GQF_Run
  imports GQF_Block
begin

unbundle bit_operations_syntax

text \<open>
  Run navigation of \<^verbatim>\<open>terrace/code/src/gqf/gqf.c\<close>: rank and select on metadata words, the end of
  the run of a bucket, the empty-slot tests and the search for the first empty slot.
  A computation that may not return is an option: \<open>None\<close> is "does not return normally".
\<close>

section \<open>Definitions\<close>

definition popcntv :: "u64 \<Rightarrow> nat \<Rightarrow> int" where
  "popcntv val ignore =
     (if ignore mod 64 \<noteq> 0 then popcnt (val AND NOT (BITMASK (ignore mod 64))) else popcnt val)"

definition bitrank :: "u64 \<Rightarrow> nat \<Rightarrow> int" where
  "bitrank val pos = popcnt (val AND (push_bit pos 2 - 1))"

definition bitselectv :: "u64 \<Rightarrow> nat \<Rightarrow> int \<Rightarrow> u64" where
  "bitselectv val ignore rank = bitselect (val AND NOT (BITMASK (ignore mod 64))) rank"

text \<open>The offset field has 16 bits, so \<^verbatim>\<open>sizeof(offset) > 1\<close> holds and the field is always trusted.\<close>

definition block_offset :: "QF \<Rightarrow> nat \<Rightarrow> nat" where
  "block_offset qf blockidx = unat (block_off qf blockidx)"

partial_function (option) run_end_scan :: "QF \<Rightarrow> nat \<Rightarrow> nat \<Rightarrow> int \<Rightarrow> (nat \<times> nat) option" where
  "run_end_scan qf runend_block_index runend_ignore_bits runend_rank =
    (let runend_rank = runend_rank - popcntv (run_word qf runend_block_index) runend_ignore_bits;
         runend_block_index = runend_block_index + 1;
         runend_block_offset = unat (bitselectv (run_word qf runend_block_index) 0 runend_rank)
     in if runend_block_offset = QF_SLOTS_PER_BLOCK
        then run_end_scan qf runend_block_index 0 runend_rank
        else Some (runend_block_index, runend_block_offset))"

definition run_end :: "QF \<Rightarrow> nat \<Rightarrow> nat option" where
  "run_end qf hash_bucket_index =
    (let bucket_block_index = hash_bucket_index div QF_SLOTS_PER_BLOCK;
         bucket_intrablock_offset = hash_bucket_index mod QF_SLOTS_PER_BLOCK;
         bucket_blocks_offset = block_offset qf bucket_block_index;
         bucket_intrablock_rank = bitrank (occ_word qf bucket_block_index) bucket_intrablock_offset
     in if bucket_intrablock_rank = 0 then
          (if bucket_blocks_offset \<le> bucket_intrablock_offset then Some hash_bucket_index
           else Some (QF_SLOTS_PER_BLOCK * bucket_block_index + bucket_blocks_offset - 1))
        else
          let runend_block_index = bucket_block_index + bucket_blocks_offset div QF_SLOTS_PER_BLOCK;
              runend_ignore_bits = bucket_blocks_offset mod QF_SLOTS_PER_BLOCK;
              runend_rank = bucket_intrablock_rank - 1;
              runend_block_offset =
                unat (bitselectv (run_word qf runend_block_index) runend_ignore_bits runend_rank);
              finish = (\<lambda>blk off.
                let runend_index = QF_SLOTS_PER_BLOCK * blk + off
                in if runend_index < hash_bucket_index then hash_bucket_index else runend_index)
          in if runend_block_offset = QF_SLOTS_PER_BLOCK then
               (if bucket_blocks_offset = 0 \<and> bucket_intrablock_rank = 0 then Some hash_bucket_index
                else map_option (\<lambda>(blk, off). finish blk off)
                       (run_end_scan qf runend_block_index runend_ignore_bits runend_rank))
             else Some (finish runend_block_index runend_block_offset))"

definition offset_lower_bound :: "QF \<Rightarrow> nat \<Rightarrow> int" where
  "offset_lower_bound qf slot_index =
    (let b = slot_index div QF_SLOTS_PER_BLOCK;
         slot_offset = slot_index mod QF_SLOTS_PER_BLOCK;
         boffset = unat (block_off qf b);
         occ = occ_word qf b AND BITMASK (slot_offset + 1)
     in if boffset \<le> slot_offset then
          let rends = drop_bit boffset (run_word qf b AND BITMASK slot_offset)
          in popcnt occ - popcnt rends
        else to_int32 (int boffset - int slot_offset + popcnt occ))"

definition is_empty :: "QF \<Rightarrow> nat \<Rightarrow> bool" where
  "is_empty qf slot_index \<longleftrightarrow> offset_lower_bound qf slot_index = 0"

definition might_be_empty :: "QF \<Rightarrow> nat \<Rightarrow> bool" where
  "might_be_empty qf slot_index \<longleftrightarrow> \<not> is_occupied qf slot_index \<and> \<not> is_runend qf slot_index"

definition probably_is_empty :: "QF \<Rightarrow> nat \<Rightarrow> bool" where
  "probably_is_empty qf slot_index \<longleftrightarrow>
     get_slot qf slot_index = 0 \<and> \<not> is_occupied qf slot_index \<and> \<not> is_runend qf slot_index"

partial_function (option) find_first_empty_slot :: "QF \<Rightarrow> nat \<Rightarrow> nat option" where
  "find_first_empty_slot qf from =
    (let t = offset_lower_bound qf from
     in if t = 0 then Some from else find_first_empty_slot qf (to_u64 (int from + t)))"

fun find_next_n_empty_slots :: "QF \<Rightarrow> nat \<Rightarrow> nat \<Rightarrow> nat list \<Rightarrow> nat list option" where
  "find_next_n_empty_slots qf from 0 indices = Some indices"
| "find_next_n_empty_slots qf from (Suc n) indices = do {
     e \<leftarrow> find_first_empty_slot qf from;
     find_next_n_empty_slots qf (e + 1) n (indices[n := e])
   }"

section \<open>The run structure a filter keeps\<close>

text \<open>
  \<open>occ\<close> marks the buckets that have a run, \<open>rend\<close> the last slot of each run, \<open>off\<close> the offset of
  each block, and \<open>N\<close> the number of slots.  A run never ends before its bucket, every run ends
  in the table, and the offset of a block is the least distance past its start at which
  the runs of all earlier buckets have ended.
\<close>

definition runs_ok :: "(nat \<Rightarrow> bool) \<Rightarrow> (nat \<Rightarrow> bool) \<Rightarrow> nat \<Rightarrow> bool" where
  "runs_ok occ rend N \<longleftrightarrow> (\<forall>k \<le> N. nbelow rend k \<le> nbelow occ k) \<and> nbelow rend N = nbelow occ N"

definition offsets_ok :: "(nat \<Rightarrow> bool) \<Rightarrow> (nat \<Rightarrow> bool) \<Rightarrow> (nat \<Rightarrow> nat) \<Rightarrow> nat \<Rightarrow> bool" where
  "offsets_ok occ rend off nb \<longleftrightarrow>
    (\<forall>b < nb. nbelow rend (64 * b + off b) = nbelow occ (64 * b) \<and>
       (\<forall>d < off b. nbelow rend (64 * b + d) < nbelow occ (64 * b)))"

definition run_inv :: "QF \<Rightarrow> bool" where
  "run_inv qf \<longleftrightarrow>
    runs_ok (is_occupied qf) (is_runend qf) (64 * nblocks (metadata qf)) \<and>
    offsets_ok (is_occupied qf) (is_runend qf) (block_offset qf) (nblocks (metadata qf))"

text \<open>A slot is free when every run of a bucket up to it has ended before it.\<close>

definition slot_free :: "QF \<Rightarrow> nat \<Rightarrow> bool" where
  "slot_free qf x \<longleftrightarrow> nbelow (is_occupied qf) (Suc x) = nbelow (is_runend qf) x"

text \<open>Reference definition of the end of the run of a bucket.\<close>

definition is_run_end :: "QF \<Rightarrow> nat \<Rightarrow> nat \<Rightarrow> bool" where
  "is_run_end qf x r \<longleftrightarrow> x \<le> r \<and> nbelow (is_runend qf) (Suc r) = nbelow (is_occupied qf) (Suc x) \<and>
     (\<forall>s. x \<le> s \<and> s < r \<longrightarrow> nbelow (is_runend qf) (Suc s) \<noteq> nbelow (is_occupied qf) (Suc x))"

section \<open>Words count positions\<close>

lemma popcnt_cnt: "popcnt w = int (nbelow (bit w) 64)"
  by (simp add: popcnt_def nbelow_def)

lemma popcnt_mask:
  "n \<le> 64 \<Longrightarrow> popcnt (w AND BITMASK n) = int (nbelow (bit w) n)"
  unfolding popcnt_cnt
  by (subst cnt_bounded [of n]) (auto simp: bit_and_iff bit_BITMASK intro!: arg_cong [where f = int] cnt_cong)

lemma cnt_word:
  assumes "\<And>k. k < n \<Longrightarrow> bit w k \<longleftrightarrow> P (a + k)"
  shows "nbelow (bit w) n = nbelow P (a + n) - nbelow P a"
proof -
  have "nbelow (bit w) n = nbelow (\<lambda>k. P (a + k)) n" by (rule cnt_cong) (use assms in auto)
  then show ?thesis by (simp add: cnt_add) (simp add: nbelow_def)
qed

lemma bitrank_occ:
  assumes "k < 64"
  shows "bitrank (occ_word qf b) k = int (nbelow (is_occupied qf) (64 * b + Suc k) - nbelow (is_occupied qf) (64 * b))"
proof -
  have "push_bit k 2 - 1 = (BITMASK (Suc k) :: u64)"
    using assms by (simp add: BITMASK_mask mask_eq_exp_minus_1 push_bit_eq_mult mult.commute)
  then have "bitrank (occ_word qf b) k = int (nbelow (bit (occ_word qf b)) (Suc k))"
    using assms by (simp only: bitrank_def popcnt_mask Suc_leI)
  also have "nbelow (bit (occ_word qf b)) (Suc k) = nbelow (is_occupied qf) (64 * b + Suc k) - nbelow (is_occupied qf) (64 * b)"
    by (rule cnt_word) (use assms in \<open>auto simp: bit_occ_word\<close>)
  finally show ?thesis .
qed

lemma popcntv_run:
  assumes "i < 64"
  shows "popcntv (run_word qf b) i = int (nbelow (is_runend qf) (64 * Suc b) - nbelow (is_runend qf) (64 * b + i))"
proof -
  have w: "popcntv (run_word qf b) i = int (nbelow (\<lambda>k. i \<le> k \<and> bit (run_word qf b) k) 64)"
    using assms by (auto simp: popcntv_def popcnt_cnt bit_simps bit_BITMASK not_less
        intro!: arg_cong [where f = int] cnt_cong)
  have "nbelow (bit (run_word qf b)) n = nbelow (is_runend qf) (64 * b + n) - nbelow (is_runend qf) (64 * b)" if "n \<le> 64" for n
    by (rule cnt_word) (use that in \<open>auto simp: bit_run_word\<close>)
  from this [of 64] this [of i] cnt_shifted [of i 64 "bit (run_word qf b)"] assms
  have "nbelow (\<lambda>k. i \<le> k \<and> bit (run_word qf b) k) 64 = nbelow (is_runend qf) (64 * b + 64) - nbelow (is_runend qf) (64 * b + i)"
    using cnt_mono [of "64 * b" "64 * b + i" "is_runend qf"] by simp
  with w show ?thesis by (simp add: add.commute)
qed

lemma bitselectv_run:
  fixes qf :: QF and b i :: nat and r :: int
  assumes i: "i < 64" and r: "0 \<le> r"
  defines "y \<equiv> unat (bitselectv (run_word qf b) i r)"
  shows "y \<le> 64"
    and "y < 64 \<Longrightarrow> i \<le> y \<and> is_runend qf (64 * b + y) \<and>
           int (nbelow (is_runend qf) (64 * b + y)) = int (nbelow (is_runend qf) (64 * b + i)) + r"
    and "y = 64 \<Longrightarrow> int (nbelow (is_runend qf) (64 * Suc b)) \<le> int (nbelow (is_runend qf) (64 * b + i)) + r"
proof -
  define w where "w = run_word qf b AND NOT (BITMASK (i mod 64))"
  let ?l = "map (bit w) [0..<64]"
  have bw: "bit w k \<longleftrightarrow> k < 64 \<and> i \<le> k \<and> is_runend qf (64 * b + k)" for k
    using i by (auto simp: w_def bit_simps bit_BITMASK bit_run_word)
  have y: "y = select_ref ?l (nat r)"
  proof -
    have "select_ref ?l (nat r) < 2 ^ 64" using select_ref_le [of ?l "nat r"] by simp
    then show ?thesis using select64_correct [OF r, of w]
      by (simp add: y_def bitselectv_def bitselect_def w_def unat_of_nat)
  qed
  show "y \<le> 64" using select_ref_le [of ?l "nat r"] by (simp add: y)
  have ones: "ones (map (bit w) [0..<n]) = nbelow (bit w) n" for n
    by (simp add: nbelow_def filter_map comp_def)
  have cw: "nbelow (bit w) n = nbelow (is_runend qf) (64 * b + n) - nbelow (is_runend qf) (64 * b + i)" if "i \<le> n" "n \<le> 64" for n
  proof -
    have "nbelow (bit w) n = nbelow (\<lambda>k. i \<le> k \<and> bit (run_word qf b) k) n"
      by (rule cnt_cong) (use that in \<open>auto simp: bw bit_run_word\<close>)
    moreover have "nbelow (bit (run_word qf b)) m = nbelow (is_runend qf) (64 * b + m) - nbelow (is_runend qf) (64 * b)" if "m \<le> 64" for m
      by (rule cnt_word) (use that in \<open>auto simp: bit_run_word\<close>)
    note this [of n] this [of i]
    ultimately show ?thesis using that i cnt_shifted [of i n "bit (run_word qf b)"] 
      cnt_mono [of "64 * b" "64 * b + i" "is_runend qf"] by simp
  qed
  show "i \<le> y \<and> is_runend qf (64 * b + y) \<and>
           int (nbelow (is_runend qf) (64 * b + y)) = int (nbelow (is_runend qf) (64 * b + i)) + r" if "y < 64"
  proof -
    have "nat r < ones ?l" using that select_ref_none [of ?l "nat r"] by (force simp: y)
    from select_ref_some [OF this, folded y] have "bit w y" "ones (take y ?l) = nat r"
      using that by simp_all
    moreover have "take y ?l = map (bit w) [0..<y]" using that by (simp add: take_map)
    ultimately have "bit w y" "nbelow (bit w) y = nat r" using ones [of y] by simp_all
    then show ?thesis using cw [of y] bw [of y] r cnt_mono [of "64 * b + i" "64 * b + y" "is_runend qf"] by auto
  qed
  show "int (nbelow (is_runend qf) (64 * Suc b)) \<le> int (nbelow (is_runend qf) (64 * b + i)) + r" if "y = 64"
  proof -
    have "ones ?l \<le> nat r"
      using that select_ref_some [of "nat r" ?l] by (force simp: y not_less [symmetric])
    then have "nbelow (bit w) 64 \<le> nat r" using ones [of 64] by simp
    then show ?thesis using cw [of 64] i r by (simp add: add.commute)
  qed
qed

section \<open>The end of a run\<close>

lemma run_end_scan_correct:
  assumes "i < 64" "0 \<le> r" "T = int (nbelow (is_runend qf) (64 * b + i)) + r"
    and "int (nbelow (is_runend qf) (64 * Suc b)) \<le> T" "T < int (nbelow (is_runend qf) (64 * nb))"
  shows "\<exists>blk off. run_end_scan qf b i r = Some (blk, off) \<and> is_runend qf (64 * blk + off) \<and> 
    int (nbelow (is_runend qf) (64 * blk + off)) = T"
  using assms
proof (induction "nb - b" arbitrary: b i r)
  case 0
  then have "64 * nb \<le> 64 * Suc b" by simp
  from cnt_mono [OF this, of "is_runend qf"] 0 show ?case by simp
next
  case (Suc d)
  let ?r = "r - popcntv (run_word qf b) i"
  let ?y = "unat (bitselectv (run_word qf (Suc b)) 0 ?r)"
  have r': "T = int (nbelow (is_runend qf) (64 * Suc b)) + ?r"
    using Suc.prems cnt_mono [of "64 * b + i" "64 * Suc b" "is_runend qf"] by (simp add: popcntv_run)
  then have r0: "0 \<le> ?r" using Suc.prems by linarith
  note sel = bitselectv_run [OF zero_less_numeral r0, where qf = qf and b = "Suc b"]
  show ?case
  proof (cases "?y = 64")
    case True
    have "\<exists>blk off. run_end_scan qf (Suc b) 0 ?r = Some (blk, off) \<and> is_runend qf (64 * blk + off) \<and> 
        int (nbelow (is_runend qf) (64 * blk + off)) = T"
      using Suc.hyps(2) r0 r' sel(3) [OF True] Suc.prems(5) by (intro Suc.hyps(1)) simp_all
    with True show ?thesis by (subst run_end_scan.simps) (simp add: Let_def)
  next
    case False
    then show ?thesis using sel(1,2) r' by (subst run_end_scan.simps) (simp add: Let_def)
  qed
qed

lemma is_run_endI:
  assumes "runs_ok (is_occupied qf) (is_runend qf) N" "Suc x \<le> N"
    and "is_runend qf p" "Suc (nbelow (is_runend qf) p) = nbelow (is_occupied qf) (Suc x)"
  shows "is_run_end qf x (if p < x then x else p)"
proof (cases "p < x")
  case True
  have "nbelow (is_runend qf) (Suc x) \<le> nbelow (is_occupied qf) (Suc x)"
    using assms by (simp add: runs_ok_def)
  moreover have "nbelow (is_runend qf) (Suc p) \<le> nbelow (is_runend qf) (Suc x)"
    using True by (intro cnt_mono) simp
  ultimately show ?thesis using True assms by (simp add: is_run_end_def cnt_Suc [of _ p])
next
  case False
  have "nbelow (is_runend qf) (Suc s) \<le> nbelow (is_runend qf) p" if "s < p" for s
    using that by (intro cnt_mono) simp
  then show ?thesis using False assms by (fastforce simp: is_run_end_def cnt_Suc [of _ p])
qed

lemma run_end_correct_aux:
  assumes inv: "run_inv qf" and x: "x < 64 * nblocks (metadata qf)"
  shows "\<exists>r. run_end qf x = Some r \<and> is_run_end qf x r"
proof -
  let ?o = "is_occupied qf" and ?e = "is_runend qf" and ?N = "64 * nblocks (metadata qf)"
  define b so off where "b = x div 64" and "so = x mod 64" and "off = block_offset qf b"
  have xb: "x = 64 * b + so" "so < 64" by (simp_all add: b_def so_def)
  have b: "b < nblocks (metadata qf)" using x by (simp add: b_def less_mult_imp_div_less mult.commute)
  have ro: "runs_ok ?o ?e ?N" using inv by (simp add: run_inv_def)
  have offs: "nbelow ?e (64 * b + off) = nbelow ?o (64 * b)" "\<And>d. d < off \<Longrightarrow> nbelow ?e (64 * b + d) < nbelow ?o (64 * b)"
    using inv b by (auto simp: run_inv_def offsets_ok_def off_def)
  have rank: "bitrank (occ_word qf b) so = int (nbelow ?o (Suc x) - nbelow ?o (64 * b))"
    using bitrank_occ [OF xb(2), of qf b] xb(1) by simp
  have mono: "nbelow ?o (64 * b) \<le> nbelow ?o (Suc x)" using xb by (intro cnt_mono) simp
  show ?thesis
  proof (cases "nbelow ?o (Suc x) = nbelow ?o (64 * b)")
    case True
    then have r: "run_end qf x = Some (if off \<le> so then x else 64 * b + off - 1)"
      using rank by (simp add: run_end_def Let_def b_def so_def off_def)
    show ?thesis
    proof (cases "off \<le> so")
      case le: True
      have "nbelow ?e (64 * b + off) \<le> nbelow ?e (Suc x)" using le xb by (intro cnt_mono) simp
      moreover have "nbelow ?e (Suc x) \<le> nbelow ?o (Suc x)" using ro x by (simp add: runs_ok_def)
      ultimately show ?thesis using r le True offs(1) by (simp add: is_run_end_def)
    next
      case False
      have "nbelow ?e (Suc s) < nbelow ?o (64 * b)" if "x \<le> s" "s < 64 * b + off - 1" for s
        using offs(2) [of "Suc s - 64 * b"] that xb by simp
      then show ?thesis using r False True offs(1) xb by (fastforce simp: is_run_end_def)
    qed
  next
    case False
    define k where "k = bitrank (occ_word qf b) so - 1"
    define B i where "B = b + off div 64" and "i = off mod 64"
    define y where "y = unat (bitselectv (run_word qf B) i k)"
    have Bi: "64 * B + i = 64 * b + off" "i < 64" by (simp_all add: B_def i_def)
    have k: "0 \<le> k" "int (nbelow ?e (64 * B + i)) + k = int (nbelow ?o (Suc x)) - 1"
      using False mono offs(1) by (simp_all add: k_def rank Bi)
    have r: "run_end qf x = (if y = 64 then map_option (\<lambda>(blk, d). if 64 * blk + d < x then x else 64 * blk + d)
        (run_end_scan qf B i k) else Some (if 64 * B + y < x then x else 64 * B + y))"
      using False mono rank
      by (simp add: run_end_def Let_def k_def y_def B_def i_def off_def b_def so_def)
    note sel = bitselectv_run [OF Bi(2) k(1), where qf = qf and b = B, folded y_def]
    have last: "int (nbelow ?o (Suc x)) - 1 < int (nbelow ?e ?N)"
      using ro cnt_mono [of "Suc x" ?N ?o] x False mono by (simp add: runs_ok_def)
    have fin: "is_run_end qf x (if p < x then x else p)"
      if "?e p" "int (nbelow ?e p) = int (nbelow ?o (Suc x)) - 1" for p
      using that x by (intro is_run_endI [OF ro]) auto
    show ?thesis
    proof (cases "y = 64")
      case True
      from run_end_scan_correct [OF Bi(2) k(1) refl, where qf = qf and b = B and nb = "nblocks (metadata qf)"] sel(3) [OF True] k last
      obtain blk d where "run_end_scan qf B i k = Some (blk, d)" "?e (64 * blk + d)"
        "int (nbelow ?e (64 * blk + d)) = int (nbelow ?o (Suc x)) - 1" by (auto simp: k(2))
      then show ?thesis using r True fin [of "64 * blk + d"] by simp
    next
      case False
      then show ?thesis using r sel(1,2) fin [of "64 * B + y"] k by simp
    qed
  qed
qed

section \<open>Empty slots\<close>

lemma popcnt_runs_between:
  assumes "a \<le> k" "k < 64"
  shows "popcnt (drop_bit a (run_word qf b AND BITMASK k)) =
    int (nbelow (is_runend qf) (64 * b + k) - nbelow (is_runend qf) (64 * b + a))"
proof -
  define w where "w = drop_bit a (run_word qf b AND BITMASK k)"
  have bw: "bit w j \<longleftrightarrow> a + j < k \<and> is_runend qf (64 * b + a + j)" for j
    using assms by (auto simp: w_def bit_simps bit_BITMASK bit_run_word add.assoc)
  have "nbelow (bit w) 64 = nbelow (bit w) (k - a)" using assms by (intro cnt_bounded) (auto simp: bw)
  also have "\<dots> = nbelow (is_runend qf) (64 * b + a + (k - a)) - nbelow (is_runend qf) (64 * b + a)"
    by (rule cnt_word) (auto simp: bw)
  finally show ?thesis unfolding w_def [symmetric] using assms by (simp add: popcnt_cnt)
qed

text \<open>
  The lower bound in terms of the counts: inside the part of the block that earlier runs do not
  reach it is the exact backlog of unfinished runs, before it a positive distance.
\<close>

lemma offset_lower_bound_cnt:
  assumes inv: "run_inv qf" and x: "x < 64 * nblocks (metadata qf)"
  defines "b \<equiv> x div 64"
  shows "offset_lower_bound qf x =
    (if block_offset qf b \<le> x mod 64 then int (nbelow (is_occupied qf) (Suc x)) - int (nbelow (is_runend qf) x)
     else int (block_offset qf b - x mod 64) + int (nbelow (is_occupied qf) (Suc x) - nbelow (is_occupied qf) (64 * b)))"
proof -
  let ?o = "is_occupied qf" and ?e = "is_runend qf"
  define so where "so = x mod 64"
  have xb: "x = 64 * b + so" "so < 64" by (simp_all add: b_def so_def)
  have b: "b < nblocks (metadata qf)" using x by (simp add: b_def less_mult_imp_div_less mult.commute)
  have offs: "nbelow ?e (64 * b + block_offset qf b) = nbelow ?o (64 * b)"
    using inv b by (auto simp: run_inv_def offsets_ok_def)
  have mono: "nbelow ?o (64 * b) \<le> nbelow ?o (Suc x)" using xb by (intro cnt_mono) simp
  have "nbelow (bit (occ_word qf b)) (Suc so) = nbelow ?o (64 * b + Suc so) - nbelow ?o (64 * b)"
    by (rule cnt_word) (use xb in \<open>auto simp: bit_occ_word\<close>)
  then have occ: "popcnt (occ_word qf b AND BITMASK (so + 1)) = int (nbelow ?o (Suc x) - nbelow ?o (64 * b))"
    using xb by (simp add: popcnt_mask)
  show ?thesis
  proof (cases "block_offset qf b \<le> so")
    case True
    have "nbelow ?e (64 * b + block_offset qf b) \<le> nbelow ?e x" using True xb by (intro cnt_mono) simp
    moreover have "popcnt (drop_bit (block_offset qf b) (run_word qf b AND BITMASK so)) =
        int (nbelow ?e x - nbelow ?e (64 * b + block_offset qf b))"
      using popcnt_runs_between [OF True xb(2), of qf b] by (simp flip: xb(1))
    ultimately show ?thesis using True occ offs mono
      by (simp add: offset_lower_bound_def Let_def block_offset_def flip: b_def so_def)
  next
    case False
    have "block_offset qf b < 2 ^ 16" using unsigned_less [of "block_off qf b"] by (simp add: block_offset_def)
    moreover have "nbelow ?o (Suc x) \<le> nbelow ?o (64 * b) + Suc so"
      using cnt_le_add [of ?o "64 * b" "Suc so"] xb by simp
    ultimately have "to_int32 (int (block_offset qf b) - int so + int (nbelow ?o (Suc x) - nbelow ?o (64 * b))) =
        int (block_offset qf b) - int so + int (nbelow ?o (Suc x) - nbelow ?o (64 * b))"
      using False xb(2) by (intro to_int32_small) simp_all
    then show ?thesis using False occ
      by (simp add: offset_lower_bound_def Let_def flip: b_def so_def block_offset_def)
  qed
qed

lemma cnt_free_bound:
  assumes "nbelow P a + n \<le> nbelow Q (Suc x)" "a \<le> s" "s < a + n" "x \<le> s"
  shows "nbelow P s < nbelow Q (Suc s)"
proof -
  have "nbelow P (a + (s - a)) \<le> nbelow P a + (s - a)" by (rule cnt_le_add)
  moreover have "nbelow Q (Suc x) \<le> nbelow Q (Suc s)" using assms by (intro cnt_mono) simp
  ultimately show ?thesis using assms by simp
qed

lemma offset_lower_bound_skip:
  assumes inv: "run_inv qf" and x: "x < 64 * nblocks (metadata qf)"
  shows "0 \<le> offset_lower_bound qf x" (is ?nonneg)
    and "offset_lower_bound qf x = 0 \<longleftrightarrow> slot_free qf x" (is ?zero)
    and "x \<le> s \<Longrightarrow> int s < int x + offset_lower_bound qf x \<Longrightarrow> \<not> slot_free qf s"
proof -
  let ?o = "is_occupied qf" and ?e = "is_runend qf" and ?b = "x div 64"
  have b: "?b < nblocks (metadata qf)" using x by (simp add: less_mult_imp_div_less mult.commute)
  have offs: "nbelow ?e (64 * ?b + block_offset qf ?b) = nbelow ?o (64 * ?b)"
      "\<And>d. d < block_offset qf ?b \<Longrightarrow> nbelow ?e (64 * ?b + d) < nbelow ?o (64 * ?b)"
    using inv b by (auto simp: run_inv_def offsets_ok_def)
  have xb: "64 * ?b + x mod 64 = x" by simp
  have mono: "nbelow ?o (64 * ?b) \<le> nbelow ?o (Suc x)" using xb by (intro cnt_mono) linarith
  have le: "nbelow ?e x \<le> nbelow ?o (Suc x)"
    using inv x by (intro le_trans [OF _ cnt_mono [of x "Suc x" ?o]]) (simp_all add: run_inv_def runs_ok_def)
  note olb = offset_lower_bound_cnt [OF inv x]
  show ?nonneg using le by (simp add: olb)
  show ?zero
    using le mono offs(2) [of "x mod 64"] xb by (auto simp: olb slot_free_def not_le)
  show "\<not> slot_free qf s" if s: "x \<le> s" "int s < int x + offset_lower_bound qf x"
  proof (cases "block_offset qf ?b \<le> x mod 64")
    case True
    then have "s < x + (nbelow ?o (Suc x) - nbelow ?e x)" using s le by (simp add: olb)
    then show ?thesis using s(1) le cnt_free_bound [of ?e x "nbelow ?o (Suc x) - nbelow ?e x" ?o x s]
      by (simp add: slot_free_def)
  next
    case False
    show ?thesis
    proof (cases "s < 64 * ?b + block_offset qf ?b")
      case True
      have "nbelow ?e s < nbelow ?o (64 * ?b)" using offs(2) [of "s - 64 * ?b"] True s xb by simp
      moreover have "nbelow ?o (64 * ?b) \<le> nbelow ?o (Suc s)" using s xb by (intro cnt_mono) linarith
      ultimately show ?thesis by (simp add: slot_free_def)
    next
      case ge: False
      have "s < 64 * ?b + block_offset qf ?b + (nbelow ?o (Suc x) - nbelow ?o (64 * ?b))"
        using s(2) False by (simp add: olb) (use xb in linarith)
      then show ?thesis using ge s False mono offs(1)
          cnt_free_bound [of ?e "64 * ?b + block_offset qf ?b" "nbelow ?o (Suc x) - nbelow ?o (64 * ?b)" ?o x s]
        by (simp add: slot_free_def)
    qed
  qed
qed

lemma find_first_empty_slot_correct_aux:
  assumes "run_inv qf" "64 * nblocks (metadata qf) < 2 ^ 64"
    and "x \<le> e" "e < 64 * nblocks (metadata qf)" "slot_free qf e" "\<And>s. x \<le> s \<Longrightarrow> s < e \<Longrightarrow> \<not> slot_free qf s"
  shows "find_first_empty_slot qf x = Some e"
  using assms(3-)
proof (induction "e - x" arbitrary: x rule: less_induct)
  case less
  then have x: "x < 64 * nblocks (metadata qf)" by simp
  let ?t = "offset_lower_bound qf x"
  note skip = offset_lower_bound_skip [OF assms(1) x]
  show ?case
  proof (cases "?t = 0")
    case True
    then have "x = e" using skip(2) less.prems by (metis le_neq_implies_less order_refl)
    with True show ?thesis by (subst find_first_empty_slot.simps) simp
  next
    case False
    have le: "int x + ?t \<le> int e" using skip(3) [of e] less.prems by linarith
    then have to: "to_u64 (int x + ?t) = nat (int x + ?t)"
      using skip(1) less.prems(2) assms(2) by (intro to_u64_small) simp_all
    have "find_first_empty_slot qf (nat (int x + ?t)) = Some e"
      using False skip(1) le less.prems by (intro less.hyps) auto
    with False to show ?thesis by (subst find_first_empty_slot.simps) (simp add: Let_def)
  qed
qed

lemma is_empty_slot_free:
  "run_inv qf \<Longrightarrow> x < 64 * nblocks (metadata qf) \<Longrightarrow> is_empty qf x \<longleftrightarrow> slot_free qf x"
  by (simp add: is_empty_def offset_lower_bound_skip(2))

end
