(* ===== verification/GQF_Shift.thy ===== *)
theory GQF_Shift
  imports GQF_Run
begin

unbundle bit_operations_syntax

text \<open>
  Moving slots and runend bits up in \<^verbatim>\<open>terrace/code/src/gqf/gqf.c\<close>: the word-wise shift
  \<^verbatim>\<open>shift_into_b\<close>, the loops over whole words of \<^verbatim>\<open>shift_remainders\<close> and \<^verbatim>\<open>shift_runends\<close>, and
  \<^verbatim>\<open>shift_slots\<close>.  The two loops work on different word arrays (the slot bytes of all blocks, the runends
  words of all blocks), so their correctness is proved once over the contract \<open>word_array\<close>.
\<close>

section \<open>Definitions\<close>

definition shift_into_b :: "u64 \<Rightarrow> u64 \<Rightarrow> nat \<Rightarrow> nat \<Rightarrow> nat \<Rightarrow> u64" where
  "shift_into_b a b bstart bend amount =
    (let a_component = (if bstart = 0 then drop_bit (64 - amount) a else 0);
         b_shifted_mask = push_bit bstart (BITMASK (bend - bstart));
         b_shifted = push_bit amount (b_shifted_mask AND b) AND b_shifted_mask;
         b_mask = NOT b_shifted_mask
     in a_component OR b_shifted OR (b AND b_mask))"

text \<open>
  The downward loop both shifts run, from word \<open>first + n\<close> to word \<open>first\<close>: every word but the lowest
  takes the top bits of the word below, and only the topmost word is cut at \<open>bend\<close>.
\<close>

fun shift_words :: "('s \<Rightarrow> nat \<Rightarrow> u64) \<Rightarrow> ('s \<Rightarrow> nat \<Rightarrow> u64 \<Rightarrow> 's) \<Rightarrow> 's \<Rightarrow> nat \<Rightarrow> nat \<Rightarrow> nat \<Rightarrow> nat \<Rightarrow> nat \<Rightarrow> 's" where
  "shift_words rd wr s first 0 bstart bend amount =
     wr s first (shift_into_b 0 (rd s first) bstart bend amount)"
| "shift_words rd wr s first (Suc n) bstart bend amount =
     shift_words rd wr
       (wr s (first + Suc n) (shift_into_b (rd s (first + n)) (rd s (first + Suc n)) 0 bend amount))
       first n bstart 64 amount"

definition remainder_word_addr :: "QF \<Rightarrow> nat \<Rightarrow> nat" where
  "remainder_word_addr qf i = get_block qf (i div qf_bps qf) + sizeof_qfblock + 8 * (i mod qf_bps qf)"

definition REMAINDER_WORD :: "QF \<Rightarrow> nat \<Rightarrow> u64" where
  "REMAINDER_WORD qf i = load64 (blocks qf) (remainder_word_addr qf i)"

definition set_REMAINDER_WORD :: "QF \<Rightarrow> nat \<Rightarrow> u64 \<Rightarrow> QF" where
  "set_REMAINDER_WORD qf i w = qf\<lparr>blocks := store64 (blocks qf) (remainder_word_addr qf i) w\<rparr>"

definition shift_remainders :: "QF \<Rightarrow> nat \<Rightarrow> nat \<Rightarrow> QF" where
  "shift_remainders qf start_index empty_index =
    (let last_word = (empty_index + 1) * qf_bps qf div 64;
         first_word = start_index * qf_bps qf div 64;
         bend = (empty_index + 1) * qf_bps qf mod 64;
         bstart = start_index * qf_bps qf mod 64
     in shift_words REMAINDER_WORD set_REMAINDER_WORD qf first_word (last_word - first_word) bstart bend (qf_bps qf))"

text \<open>
  \<^verbatim>\<open>shift_slots(qf, first, last, distance)\<close> is called with \<open>last + 1 \<ge> first\<close>; the argument here is
  \<open>stop = last + 1\<close>, so that an empty range at index 0 needs no negative number.
\<close>

definition shift_slots :: "QF \<Rightarrow> nat \<Rightarrow> nat \<Rightarrow> nat \<Rightarrow> QF" where
  "shift_slots qf first stop distance =
    (if distance = 1 then shift_remainders qf first stop
     else copy_up get_slot set_slot qf first (stop - first) distance)"

definition runends_word :: "QF \<Rightarrow> nat \<Rightarrow> u64" where
  "runends_word qf w = METADATA_WORD qf runends (64 * w)"

definition set_runends_word :: "QF \<Rightarrow> nat \<Rightarrow> u64 \<Rightarrow> QF" where
  "set_runends_word qf w v = set_METADATA_WORD qf runends (64 * w) v"

definition shift_runends :: "QF \<Rightarrow> nat \<Rightarrow> nat \<Rightarrow> nat \<Rightarrow> QF" where
  "shift_runends qf first stop distance =
    (let first_word = first div 64;
         bstart = first mod 64;
         last_word = (stop + distance) div 64;
         bend = (stop + distance) mod 64
     in if last_word \<noteq> first_word then
          (let qf = set_runends_word qf last_word
                 (shift_into_b (runends_word qf (last_word - 1)) (runends_word qf last_word) 0 bend distance)
           in shift_words runends_word set_runends_word qf first_word (last_word - 1 - first_word) bstart 64 distance)
        else shift_words runends_word set_runends_word qf first_word 0 bstart bend distance)"

section \<open>Word arrays\<close>

text \<open>A word array seen as one long bit sequence.\<close>

definition wbit :: "('s \<Rightarrow> nat \<Rightarrow> u64) \<Rightarrow> 's \<Rightarrow> nat \<Rightarrow> bool" where
  "wbit rd s p = bit (rd s (p div 64)) (p mod 64)"

lemma wbit_at: "k < 64 \<Longrightarrow> wbit rd s (64 * w + k) = bit (rd s w) k"
  by (simp add: wbit_def)

lemma bit_shift_into_b:
  assumes "bstart \<le> bend" "bend \<le> 64" "0 < amount" "amount < 64" "k < 64"
  shows "bit (shift_into_b a b bstart bend amount) k \<longleftrightarrow>
    (if bstart \<le> k \<and> k < bend then (bstart + amount \<le> k \<and> bit b (k - amount)) else bit b k) \<or>
    (bstart = 0 \<and> k < amount \<and> bit a (64 - amount + k))"
proof -
  have "bit a j \<Longrightarrow> j < 64" for j using bit_imp_le_length [of a j] by simp
  from this [of "64 + k - amount"] assms show ?thesis unfolding shift_into_b_def Let_def
    by (auto simp: bit_simps bit_BITMASK split: if_splits)
qed

locale word_array =
  fixes rd :: "'s \<Rightarrow> nat \<Rightarrow> u64"
    and wr :: "'s \<Rightarrow> nat \<Rightarrow> u64 \<Rightarrow> 's"
    and ok :: "'s \<Rightarrow> bool"
  assumes rd_wr: "ok s \<Longrightarrow> rd (wr s i v) j = (if i = j then v else rd s j)"
    and ok_wr: "ok s \<Longrightarrow> ok (wr s i v)"
begin

lemma wbit_wr:
  "ok s \<Longrightarrow> wbit rd (wr s i v) p \<longleftrightarrow> (if p div 64 = i then bit v (p mod 64) else wbit rd s p)"
  by (simp add: wbit_def rd_wr)

lemma shift_words_ok: "ok s \<Longrightarrow> ok (shift_words rd wr s first n bstart bend amount)"
  by (induction n arbitrary: s bend) (simp_all add: ok_wr)

text \<open>
  The effect of the loop on the bit sequence: what lies outside the range stays, and a bit at least
  \<open>amount\<close> above the start of the range comes from \<open>amount\<close> below.  The top word takes whatever the
  word below holds in its last \<open>amount\<close> bits, so those at the end of the range have to be clear.
\<close>

lemma wbit_shift_words:
  assumes "ok s" "bstart < 64" "bend \<le> 64" "0 < amount" "amount < 64" "n = 0 \<longrightarrow> bstart \<le> bend"
    and clear: "\<And>p. p < 64 * (first + n) \<Longrightarrow> 64 * (first + n) + bend \<le> p + amount \<Longrightarrow> \<not> wbit rd s p"
    and p: "p < 64 * first + bstart \<or> 64 * first + bstart + amount \<le> p"
  shows "wbit rd (shift_words rd wr s first n bstart bend amount) p \<longleftrightarrow>
    (if 64 * first + bstart \<le> p \<and> p < 64 * (first + n) + bend then wbit rd s (p - amount) else wbit rd s p)"
  using assms
proof (induction n arbitrary: s bend)
  case 0
  define W k where "W = p div 64" and "k = p mod 64"
  have pk: "p = 64 * W + k" "k < 64" by (simp_all add: W_def k_def)
  let ?v = "shift_into_b 0 (rd s first) bstart bend amount"
  have v: "bit ?v k \<longleftrightarrow> (if bstart \<le> k \<and> k < bend then bstart + amount \<le> k \<and> bit (rd s first) (k - amount)
      else bit (rd s first) k)"
    using 0 pk(2) by (simp add: bit_shift_into_b)
  show ?case
  proof (cases "W = first")
    case True
    then have "bstart + amount \<le> k \<Longrightarrow> wbit rd s (p - amount) = bit (rd s first) (k - amount)"
      using pk by (subst wbit_at [symmetric, of "k - amount" rd s first]) auto
    then show ?thesis using 0 pk True by (auto simp: wbit_wr wbit_at rd_wr v)
  next
    case False
    then have "\<not> (64 * first + bstart \<le> p \<and> p < 64 * first + bend)" using pk 0 by linarith
    then show ?thesis using 0(1) False by (auto simp: wbit_wr W_def)
  qed
next
  case (Suc n)
  define W k L where "W = p div 64" and "k = p mod 64" and "L = first + Suc n"
  have pk: "p = 64 * W + k" "k < 64" by (simp_all add: W_def k_def)
  let ?v = "shift_into_b (rd s (first + n)) (rd s L) 0 bend amount"
  let ?s = "wr s L ?v"
  have IH: "wbit rd (shift_words rd wr ?s first n bstart 64 amount) p =
      (if 64 * first + bstart \<le> p \<and> p < 64 * (first + n) + 64 then wbit rd ?s (p - amount) else wbit rd ?s p)"
    using Suc.prems by (intro Suc.IH) (auto simp: ok_wr)
  consider "W < L" | "W = L" | "L < W" by linarith
  then show ?case
  proof cases
    case 1
    then have "(p - amount) div 64 < L" using pk by (simp add: less_mult_imp_div_less)
    then show ?thesis using IH 1 pk Suc.prems(1) by (simp add: L_def wbit_wr)
  next
    case 2
    have "wbit rd s (64 * L + k - amount) = bit (rd s (first + n)) (64 - amount + k)" if "k < amount"
      using that Suc.prems(5) by (subst wbit_at [symmetric, of _ rd]) (auto simp: L_def algebra_simps)
    moreover have "wbit rd s (64 * L + k - amount) = bit (rd s L) (k - amount)" if "amount \<le> k"
      using that pk by (subst wbit_at [symmetric, of _ rd]) auto
    moreover have "bit ?v k \<longleftrightarrow> (if k < bend then amount \<le> k \<and> bit (rd s L) (k - amount) else bit (rd s L) k) \<or>
       (k < amount \<and> bit (rd s (first + n)) (64 - amount + k))"
      using Suc.prems pk(2) by (subst bit_shift_into_b) auto
    moreover have "\<not> wbit rd s (64 * L + k - amount)" if "bend \<le> k" "k < amount"
      using Suc.prems(5,7) that by (simp add: L_def)
    ultimately have v: "bit ?v k \<longleftrightarrow> (if k < bend then wbit rd s (64 * L + k - amount) else bit (rd s L) k)"
      by (cases "k < amount") auto
    have "\<not> p < 64 * (first + n) + 64" "64 * first + bstart \<le> p"
      and iff: "p < 64 * (first + Suc n) + bend \<longleftrightarrow> k < bend"
      using pk 2 Suc.prems(2) by (simp_all add: L_def)
    then have "wbit rd (shift_words rd wr s first (Suc n) bstart bend amount) p = wbit rd ?s p"
      using IH by (simp add: L_def)
    also have "\<dots> = bit ?v k" using 2 Suc.prems(1) by (simp add: wbit_wr W_def k_def)
    finally show ?thesis using v iff \<open>64 * first + bstart \<le> p\<close> pk 2 by (simp add: wbit_at)
  next
    case 3
    then show ?thesis using IH pk Suc.prems(1,3) by (simp add: L_def wbit_wr wbit_at rd_wr)
  qed
qed

end

section \<open>The runends words\<close>

lemma bit_METADATA_WORD_set:
  assumes "k < 64"
  shows "bit (METADATA_WORD (set_METADATA_WORD qf f i v) f j) k =
     bit (if i div 64 = j div 64 then v else METADATA_WORD qf f j) k"
proof -
  have c: "field_bit f + 64 \<le> block_bits qf" "field_bit f + k < block_bits qf"
    using assms by (cases f; simp add: block_bits_def)+
  show ?thesis unfolding bit_METADATA_WORD membit_set_METADATA_WORD frame_pos
    using block_pos_range [OF c, of "i div 64" "j div 64"] assms
    by (cases "i div 64 = j div 64") (auto simp: bit_METADATA_WORD add.assoc)
qed

interpretation rw: word_array runends_word set_runends_word "\<lambda>_. True"
proof unfold_locales
  show "runends_word (set_runends_word s i v) j = (if i = j then v else runends_word s j)" for s :: QF and i j v
    by (rule bit_word_eqI) (simp add: runends_word_def set_runends_word_def bit_METADATA_WORD_set)
qed simp

lemma wbit_runends: "wbit runends_word qf p = is_runend qf p"
  by (simp add: wbit_def runends_word_def is_runend_membit bit_METADATA_WORD md_pos_def)

text \<open>What the bits, slots and offsets other than the runends keep when runends words are written.\<close>

definition same_but_runends :: "QF \<Rightarrow> QF \<Rightarrow> bool" where
  "same_but_runends qf qf' \<longleftrightarrow> metadata qf' = metadata qf \<and> runtimedata qf' = runtimedata qf \<and>
     is_occupied qf' = is_occupied qf \<and> block_off qf' = block_off qf \<and>
     (width_ok qf \<longrightarrow> get_slot qf' = get_slot qf)"

lemma same_but_runends_refl: "same_but_runends qf qf"
  by (simp add: same_but_runends_def)

lemma same_but_runends_trans: "same_but_runends a b \<Longrightarrow> same_but_runends b c \<Longrightarrow> same_but_runends a c"
  by (auto simp: same_but_runends_def width_ok_def)

lemma membit_set_runends_other:
  assumes "\<And>k. k < 64 \<Longrightarrow> p \<noteq> md_pos qf runends (64 * w + k)"
  shows "membit (blocks (set_runends_word qf w v)) p = membit (blocks qf) p"
proof -
  have False if p: "block_bits qf * w + 80 \<le> p" "p < block_bits qf * w + 80 + 64"
  proof -
    from p obtain k where k: "p = block_bits qf * w + 80 + k" "k < 64" by (metis add_less_cancel_left le_Suc_ex)
    then have "p = md_pos qf runends (64 * w + k)" by (simp add: md_pos_def)
    with assms k(2) show False by blast
  qed
  then show ?thesis by (auto simp: set_runends_word_def membit_set_METADATA_WORD)
qed

lemma same_but_runends_set: "same_but_runends qf (set_runends_word qf w v)"
proof -
  have m: "metadata (set_runends_word qf w v) = metadata qf" by (simp add: set_runends_word_def)
  note pos = pos_cong [OF m]
  have "is_occupied (set_runends_word qf w v) i = is_occupied qf i" for i
    by (simp add: is_occupied_membit pos md_pos_eq membit_set_runends_other)
  moreover have "block_off (set_runends_word qf w v) b = block_off qf b" for b
    by (rule offset_eqI) (metis pos(3) membit_set_runends_other md_pos_offset)
  moreover have "get_slot (set_runends_word qf w v) i = get_slot qf i" if "width_ok qf" for i
    by (rule slot_eqI) (use that in \<open>auto simp: pos m slot_pos_md_pos' membit_set_runends_other\<close>)
  ultimately show ?thesis by (simp add: same_but_runends_def m fun_eq_iff) (simp add: set_runends_word_def)
qed

lemma same_but_runends_words:
  "same_but_runends qf (shift_words runends_word set_runends_word qf first n bstart bend amount)"
  by (induction n arbitrary: qf bend) (simp_all add: same_but_runends_set, metis same_but_runends_set same_but_runends_trans)

text \<open>The unrolled first step of the code is one more round of the loop.\<close>

lemma shift_runends_words:
  assumes "first \<le> stop + distance"
  shows "shift_runends qf first stop distance =
     shift_words runends_word set_runends_word qf (first div 64) ((stop + distance) div 64 - first div 64)
       (first mod 64) ((stop + distance) mod 64) distance"
proof (cases "(stop + distance) div 64 = first div 64")
  case False
  then have "first div 64 < (stop + distance) div 64" using div_le_mono [OF assms, of 64] by linarith
  then obtain n where "(stop + distance) div 64 = first div 64 + Suc n" by (metis add_Suc_right less_imp_Suc_add)
  then show ?thesis by (simp add: shift_runends_def Let_def)
qed (simp add: shift_runends_def Let_def)

lemma is_runend_shift_runends:
  assumes "first \<le> stop" "0 < d" "d < 64"
    and clear: "\<And>p. stop \<le> p \<Longrightarrow> p < stop + d \<Longrightarrow> p div 64 < (stop + d) div 64 \<Longrightarrow> \<not> is_runend qf p"
    and p: "p < first \<or> first + d \<le> p"
  shows "is_runend (shift_runends qf first stop d) p =
    (if first \<le> p \<and> p < stop + d then is_runend qf (p - d) else is_runend qf p)"
proof -
  define F L where "F = first div 64" and "L = (stop + d) div 64"
  have FL: "F \<le> L" using assms by (simp add: F_def L_def div_le_mono)
  have f: "64 * F + first mod 64 = first" "64 * (F + (L - F)) + (stop + d) mod 64 = stop + d"
    using FL by (simp_all add: F_def L_def)
  have "first mod 64 \<le> (stop + d) mod 64" if "L - F = 0"
  proof -
    have "64 * F + first mod 64 \<le> 64 * F + (stop + d) mod 64" using that f FL assms(1) by simp
    then show ?thesis by simp
  qed
  moreover have "\<not> wbit runends_word qf q" if "q < 64 * (F + (L - F))" "64 * (F + (L - F)) + (stop + d) mod 64 \<le> q + d" for q
    using that f clear [of q] FL by (simp add: wbit_runends L_def less_mult_imp_div_less mult.commute)
  ultimately have "wbit runends_word (shift_words runends_word set_runends_word qf F (L - F) (first mod 64) ((stop + d) mod 64) d) p =
    (if first \<le> p \<and> p < stop + d then wbit runends_word qf (p - d) else wbit runends_word qf p)"
    using rw.wbit_shift_words [where s = qf and bstart = "first mod 64" and bend = "(stop + d) mod 64" and amount = d
        and first = F and n = "L - F" and p = p] assms(2,3) p unfolding f by simp
  then show ?thesis using assms by (simp add: wbit_runends shift_runends_words F_def L_def)
qed

lemma same_but_runends_shift: "first \<le> stop \<Longrightarrow> same_but_runends qf (shift_runends qf first stop d)"
  by (simp add: shift_runends_words same_but_runends_words)

section \<open>The slot bytes as words\<close>

text \<open>The position in memory of a bit of the slot sequence, all blocks' slots laid end to end.\<close>

definition spos :: "QF \<Rightarrow> nat \<Rightarrow> nat" where
  "spos qf p = block_bits qf * (p div (64 * qf_bps qf)) + (144 + p mod (64 * qf_bps qf))"

lemma spos_word:
  assumes "k < 64"
  shows "spos qf (64 * w + k) = block_bits qf * (w div qf_bps qf) + (144 + (64 * (w mod qf_bps qf) + k))"
  using assms by (simp add: spos_def div_mult2_eq mod_mult2_eq)

lemma spos_slot: "k < qf_bps qf \<Longrightarrow> spos qf (i * qf_bps qf + k) = slot_pos qf i + k"
  by (simp add: spos_def slot_pos_def mult.commute [of 64] div_mult2_eq mod_mult2_eq mult.commute)

lemma remainder_word_addr_bits:
  "8 * remainder_word_addr qf w = block_bits qf * (w div qf_bps qf) + (144 + 64 * (w mod qf_bps qf))"
  by (simp add: remainder_word_addr_def distrib_left get_block_bits sizeof_qfblock_def)

lemma bit_REMAINDER_WORD: "bit (REMAINDER_WORD qf w) k \<longleftrightarrow> k < 64 \<and> membit (blocks qf) (spos qf (64 * w + k))"
  by (auto simp: REMAINDER_WORD_def mem_simps remainder_word_addr_bits spos_word add.assoc)

lemma wbit_REMAINDER: "wbit REMAINDER_WORD qf p = membit (blocks qf) (spos qf p)"
  by (simp add: wbit_def bit_REMAINDER_WORD)

lemma remainder_word_range:
  assumes "width_ok qf" "c < block_bits qf"
  shows "block_bits qf * (w div qf_bps qf) + (144 + 64 * (w mod qf_bps qf)) \<le> block_bits qf * b + c \<and>
     block_bits qf * b + c < block_bits qf * (w div qf_bps qf) + (144 + 64 * (w mod qf_bps qf)) + 64 \<longleftrightarrow>
     w div qf_bps qf = b \<and> 144 + 64 * (w mod qf_bps qf) \<le> c \<and> c < 144 + 64 * (w mod qf_bps qf) + 64"
proof -
  have "w mod qf_bps qf + 1 \<le> qf_bps qf" using assms(1) by (simp add: width_ok_def Suc_leI)
  then have "144 + 64 * (w mod qf_bps qf) + 64 \<le> block_bits qf" unfolding block_bits_def by simp
  from block_pos_range [OF this assms(2)] show ?thesis .
qed

lemma membit_set_REMAINDER_WORD:
  "membit (blocks (set_REMAINDER_WORD qf w v)) p \<longleftrightarrow>
    (if block_bits qf * (w div qf_bps qf) + (144 + 64 * (w mod qf_bps qf)) \<le> p \<and>
        p < block_bits qf * (w div qf_bps qf) + (144 + 64 * (w mod qf_bps qf)) + 64
     then bit v (p - (block_bits qf * (w div qf_bps qf) + (144 + 64 * (w mod qf_bps qf))))
     else membit (blocks qf) p)"
  by (simp add: set_REMAINDER_WORD_def mem_simps remainder_word_addr_bits)

definition same_but_slots :: "QF \<Rightarrow> QF \<Rightarrow> bool" where
  "same_but_slots qf qf' \<longleftrightarrow> metadata qf' = metadata qf \<and> runtimedata qf' = runtimedata qf \<and>
     is_occupied qf' = is_occupied qf \<and> is_runend qf' = is_runend qf \<and> block_off qf' = block_off qf"

lemma same_but_slots_refl: "same_but_slots qf qf"
  by (simp add: same_but_slots_def)

lemma same_but_slots_trans: "same_but_slots a b \<Longrightarrow> same_but_slots b c \<Longrightarrow> same_but_slots a c"
  by (auto simp: same_but_slots_def)

lemma same_but_slots_width: "same_but_slots a b \<Longrightarrow> width_ok b = width_ok a"
  by (auto simp: same_but_slots_def width_ok_def)

lemma frame_REMAINDER [simp]:
  "metadata (set_REMAINDER_WORD qf w v) = metadata qf" "runtimedata (set_REMAINDER_WORD qf w v) = runtimedata qf"
  by (simp_all add: set_REMAINDER_WORD_def)

lemma membit_set_REMAINDER_below:
  assumes "width_ok qf" "c < 144"
  shows "membit (blocks (set_REMAINDER_WORD qf w v)) (block_bits qf * b + c) = membit (blocks qf) (block_bits qf * b + c)"
  unfolding membit_set_REMAINDER_WORD
  using remainder_word_range [of qf c w b] assms by (auto simp: block_bits_def)

lemma same_but_slots_set: "width_ok qf \<Longrightarrow> same_but_slots qf (set_REMAINDER_WORD qf w v)"
proof -
  assume w: "width_ok qf"
  note pos = pos_cong [OF frame_REMAINDER(1), of qf w v]
  note below = membit_set_REMAINDER_below [OF w]
  have "membit (blocks (set_REMAINDER_WORD qf w v)) (md_pos qf f i) = membit (blocks qf) (md_pos qf f i)" for f i
    unfolding md_pos_def by (rule below) (cases f; simp)
  moreover have "block_off (set_REMAINDER_WORD qf w v) b = block_off qf b" for b
    by (rule offset_eqI) (simp add: pos below)
  ultimately show ?thesis
    by (simp add: same_but_slots_def fun_eq_iff is_occupied_membit is_runend_membit pos)
qed

interpretation sw: word_array REMAINDER_WORD set_REMAINDER_WORD width_ok
proof unfold_locales
  fix s :: QF and i j v assume w: "width_ok s"
  show "REMAINDER_WORD (set_REMAINDER_WORD s i v) j = (if i = j then v else REMAINDER_WORD s j)"
  proof (rule bit_word_eqI)
    fix k assume "k < LENGTH(64)"
    then have k: "k < 64" by simp
    let ?c = "144 + (64 * (j mod qf_bps s) + k)"
    have "j mod qf_bps s + 1 \<le> qf_bps s" using w by (simp add: width_ok_def Suc_leI)
    then have c: "?c < block_bits s" using k unfolding block_bits_def by simp
    have sp: "spos (set_REMAINDER_WORD s i v) = spos s" by (simp add: fun_eq_iff spos_def block_bits_def)
    have "i = j \<longleftrightarrow> i div qf_bps s = j div qf_bps s \<and> i mod qf_bps s = j mod qf_bps s"
      by (metis div_mult_mod_eq)
    moreover have "144 + 64 * (i mod qf_bps s) \<le> ?c \<and> ?c < 144 + 64 * (i mod qf_bps s) + 64 \<longleftrightarrow> i mod qf_bps s = j mod qf_bps s"
      using k by linarith
    ultimately have "block_bits s * (i div qf_bps s) + (144 + 64 * (i mod qf_bps s)) \<le> spos s (64 * j + k) \<and>
     spos s (64 * j + k) < block_bits s * (i div qf_bps s) + (144 + 64 * (i mod qf_bps s)) + 64 \<longleftrightarrow> i = j"
      unfolding spos_word [OF k] remainder_word_range [OF w c] by blast
    then show "bit (REMAINDER_WORD (set_REMAINDER_WORD s i v) j) k = bit (if i = j then v else REMAINDER_WORD s j) k"
      using k unfolding bit_REMAINDER_WORD sp membit_set_REMAINDER_WORD
      by (cases "i = j") (auto simp: bit_REMAINDER_WORD, simp_all add: spos_word)
  qed
qed (simp add: width_ok_def)

lemma same_but_slots_words:
  "width_ok qf \<Longrightarrow> same_but_slots qf (shift_words REMAINDER_WORD set_REMAINDER_WORD qf first n bstart bend amount)"
proof (induction n arbitrary: qf bend)
  case (Suc n)
  note one = same_but_slots_set [OF Suc.prems]
  show ?case unfolding shift_words.simps
    by (rule same_but_slots_trans [OF one Suc.IH]) (simp only: same_but_slots_width [OF one] Suc.prems)
qed (simp add: same_but_slots_set)

lemma bit_get_slot_wbit:
  assumes "width_ok qf" "k < qf_bps qf"
  shows "bit (get_slot qf i) k = wbit REMAINDER_WORD qf (i * qf_bps qf + k)"
  using assms by (simp add: bit_get_slot wbit_REMAINDER spos_slot)

lemma wbit_shift_remainders:
  assumes w: "width_ok qf" and se: "s \<le> e" and z: "get_slot qf e = 0"
    and p: "p < s * qf_bps qf \<or> s * qf_bps qf + qf_bps qf \<le> p"
  shows "wbit REMAINDER_WORD (shift_remainders qf s e) p =
    (if s * qf_bps qf \<le> p \<and> p < (e + 1) * qf_bps qf then wbit REMAINDER_WORD qf (p - qf_bps qf)
     else wbit REMAINDER_WORD qf p)"
proof -
  define B F L where "B = qf_bps qf" and "F = s * B div 64" and "L = (e + 1) * B div 64"
  have B: "0 < B" "B < 64" using w by (simp_all add: width_ok_def B_def)
  have q: "shift_remainders qf s e = shift_words REMAINDER_WORD set_REMAINDER_WORD qf F (L - F)
      (s * B mod 64) ((e + 1) * B mod 64) B"
    by (simp add: shift_remainders_def Let_def B_def F_def L_def)
  have sB: "s * B \<le> (e + 1) * B" using se by (intro mult_le_mono1) simp
  then have FL: "F \<le> L" by (simp add: F_def L_def div_le_mono)
  have f: "64 * F + s * B mod 64 = s * B" "64 * (F + (L - F)) + (e + 1) * B mod 64 = (e + 1) * B"
    using FL by (simp_all add: F_def L_def)
  have le: "s * B mod 64 \<le> (e + 1) * B mod 64" if "L - F = 0"
  proof -
    have "64 * F + s * B mod 64 \<le> 64 * F + (e + 1) * B mod 64" using that f FL sB by simp
    then show ?thesis by simp
  qed
  have clear: "\<not> wbit REMAINDER_WORD qf p" if "p < 64 * (F + (L - F))" "(e + 1) * B \<le> p + B" for p
  proof -
    define k where "k = p - e * B"
    have "e * B + B \<le> p + B" "p < e * B + B" using that f(2) by (simp_all add: distrib_right)
    then have "p = e * B + k" "k < B" by (simp_all add: k_def)
    then show ?thesis using bit_get_slot_wbit [OF w, of k e] z by (simp add: B_def)
  qed
  show ?thesis
    using sw.wbit_shift_words [OF w, where bstart = "s * B mod 64" and bend = "(e + 1) * B mod 64" and amount = B
        and first = F and n = "L - F" and p = p] B p le clear unfolding q f B_def [symmetric] by simp
qed

lemma same_but_slots_shift_remainders: "width_ok qf \<Longrightarrow> same_but_slots qf (shift_remainders qf s e)"
  by (simp add: shift_remainders_def Let_def same_but_slots_words)

text \<open>Shifting moves every slot of the range up by one; the slot at the start is left for the caller to fill.\<close>

lemma get_slot_shift_remainders:
  assumes w: "width_ok qf" and se: "s \<le> e" and z: "get_slot qf e = 0" and j: "j \<noteq> s"
  shows "get_slot (shift_remainders qf s e) j = (if s < j \<and> j \<le> e then get_slot qf (j - 1) else get_slot qf j)"
proof -
  define B where "B = qf_bps qf"
  let ?q = "shift_remainders qf s e"
  have wb: "wbit REMAINDER_WORD ?q (j * B + k) = (if s < j \<and> j \<le> e then wbit REMAINDER_WORD qf ((j - 1) * B + k)
      else wbit REMAINDER_WORD qf (j * B + k))" if k: "k < B" for k
  proof -
    have "j < s \<Longrightarrow> (j + 1) * B \<le> s * B" "s < j \<Longrightarrow> (s + 1) * B \<le> j * B" "e < j \<Longrightarrow> (e + 1) * B \<le> j * B"
      by (intro mult_le_mono1; simp)+
    then have "j < s \<Longrightarrow> j * B + k < s * B" "s < j \<Longrightarrow> s * B + B \<le> j * B + k"
        "e < j \<Longrightarrow> \<not> j * B + k < (e + 1) * B"
      using k by (auto simp: distrib_right)
    moreover have "j * B + k < (e + 1) * B" if "j \<le> e"
      using mult_le_mono1 [OF that, of B] k unfolding distrib_right mult_1 by linarith
    moreover have "s < j \<Longrightarrow> j * B + k - B = (j - 1) * B + k" by (cases j) simp_all
    ultimately show ?thesis using wbit_shift_remainders [OF w se z, of "j * B + k", folded B_def] j
      by (cases "s < j"; cases "j \<le> e") auto
  qed
  have m: "metadata ?q = metadata qf" and w': "width_ok ?q"
    using same_but_slots_shift_remainders [OF w, of s e] w by (auto simp: same_but_slots_def width_ok_def)
  show ?thesis
  proof (rule bit_word_eqI)
    fix k
    show "bit (get_slot ?q j) k = bit (if s < j \<and> j \<le> e then get_slot qf (j - 1) else get_slot qf j) k"
      using wb [of k] bit_get_slot_wbit [OF w', of k] bit_get_slot_wbit [OF w, of k] bit_get_slot [OF w] bit_get_slot [OF w']
      by (cases "k < B") (simp_all add: m B_def)
  qed
qed

lemma same_but_slots_set_slot:
  "width_ok qf \<Longrightarrow> v \<le> BITMASK (qf_bps qf) \<Longrightarrow> same_but_slots qf (set_slot qf i v)"
  by (simp add: same_but_slots_def fun_eq_iff view_simps)

lemma same_but_slots_copy_up: "width_ok qf \<Longrightarrow> same_but_slots qf (copy_up get_slot set_slot qf i n d)"
proof (induction n arbitrary: qf)
  case (Suc n)
  note one = same_but_slots_set_slot [OF Suc.prems get_slot_le, of "i + n + d" "i + n"]
  show ?case unfolding copy_up.simps
    by (rule same_but_slots_trans [OF one Suc.IH]) (simp only: same_but_slots_width [OF one] Suc.prems)
qed (simp add: same_but_slots_refl)

lemma same_but_slots_shift_slots: "width_ok qf \<Longrightarrow> same_but_slots qf (shift_slots qf first stop d)"
  by (simp add: shift_slots_def same_but_slots_shift_remainders same_but_slots_copy_up)

lemma get_slot_shift_slots:
  assumes "width_ok qf" "first \<le> stop" "0 < d" "d = 1 \<longrightarrow> get_slot qf stop = 0" "j < first \<or> first + d \<le> j"
  shows "get_slot (shift_slots qf first stop d) j =
    (if first \<le> j \<and> j < stop + d then get_slot qf (j - d) else get_slot qf j)"
  using assms by (auto simp: shift_slots_def get_slot_shift_remainders slots.rd_copy_up)

end
