(* ===== verification/GQF_Lock.thy ===== *)
theory GQF_Lock
  imports GQF_Block
begin

unbundle bit_operations_syntax

text \<open>
  Region locks of \<^verbatim>\<open>terrace/code/src/gqf/gqf.c\<close>: one spin lock per \<^verbatim>\<open>NUM_SLOTS_TO_LOCK\<close> slots and one for
  the element counters.  The first part models the calls of one thread, where a wait on a lock
  that is held never returns (\<open>None\<close>) because nobody else runs.  The second part interleaves the atomic
  operations on the lock words of any number of threads as a step relation.
\<close>

section \<open>Definitions\<close>

definition QF_NO_LOCK :: u8 where "QF_NO_LOCK = 0x01"
definition QF_TRY_ONCE_LOCK :: u8 where "QF_TRY_ONCE_LOCK = 0x02"
definition QF_WAIT_FOR_LOCK :: u8 where "QF_WAIT_FOR_LOCK = 0x04"
definition QF_KEY_IS_HASH :: u8 where "QF_KEY_IS_HASH = 0x08"

definition GET_NO_LOCK :: "u8 \<Rightarrow> u8" where "GET_NO_LOCK flag = flag AND QF_NO_LOCK"
definition GET_WAIT_FOR_LOCK :: "u8 \<Rightarrow> u8" where "GET_WAIT_FOR_LOCK flag = flag AND QF_WAIT_FOR_LOCK"
definition GET_KEY_HASH :: "u8 \<Rightarrow> u8" where "GET_KEY_HASH flag = flag AND QF_KEY_IS_HASH"

abbreviation NUM_SLOTS_TO_LOCK :: nat where "NUM_SLOTS_TO_LOCK \<equiv> 65536"
abbreviation CLUSTER_SIZE :: nat where "CLUSTER_SIZE \<equiv> 16384"

text \<open>On the value of a lock word: the result of the call and the new value.\<close>

definition qf_spin_lock :: "int \<Rightarrow> u8 \<Rightarrow> (bool \<times> int) option" where
  "qf_spin_lock v flag =
    (if GET_WAIT_FOR_LOCK flag \<noteq> QF_WAIT_FOR_LOCK then Some (v = 0, 1)
     else if v \<noteq> 0 then None else Some (True, 1))"

definition qf_spin_unlock :: "int \<Rightarrow> int" where "qf_spin_unlock v = 0"

abbreviation qf_locks :: "QF \<Rightarrow> int list" where "qf_locks qf \<equiv> locks (runtimedata qf)"

definition set_locks :: "QF \<Rightarrow> int list \<Rightarrow> QF" where
  "set_locks qf ls = qf\<lparr>runtimedata := (runtimedata qf)\<lparr>locks := ls\<rparr>\<rparr>"

definition lock_at :: "QF \<Rightarrow> nat \<Rightarrow> u8 \<Rightarrow> (bool \<times> QF) option" where
  "lock_at qf i flag =
    (if i < length (qf_locks qf)
     then map_option (\<lambda>(r, v). (r, set_locks qf ((qf_locks qf)[i := v]))) (qf_spin_lock (qf_locks qf ! i) flag)
     else None)"

definition unlock_at :: "QF \<Rightarrow> nat \<Rightarrow> QF option" where
  "unlock_at qf i =
    (if i < length (qf_locks qf)
     then Some (set_locks qf ((qf_locks qf)[i := qf_spin_unlock (qf_locks qf ! i)])) else None)"

definition qf_lock :: "QF \<Rightarrow> nat \<Rightarrow> bool \<Rightarrow> u8 \<Rightarrow> (bool \<times> QF) option" where
  "qf_lock qf hash_bucket_index small runtime_lock =
    (let hash_bucket_lock_offset = hash_bucket_index mod NUM_SLOTS_TO_LOCK;
         l = hash_bucket_index div NUM_SLOTS_TO_LOCK
     in if small then do {
          (got, qf) \<leftarrow> lock_at qf l runtime_lock;
          if \<not> got then Some (False, qf)
          else if NUM_SLOTS_TO_LOCK - hash_bucket_lock_offset \<le> CLUSTER_SIZE then do {
            (got, qf) \<leftarrow> lock_at qf (l + 1) runtime_lock;
            if \<not> got then do { qf \<leftarrow> unlock_at qf l; Some (False, qf) } else Some (True, qf)
          } else Some (True, qf)
        } else do {
          (got, qf) \<leftarrow> (if hash_bucket_index \<ge> NUM_SLOTS_TO_LOCK \<and> hash_bucket_lock_offset \<le> CLUSTER_SIZE
                        then lock_at qf (l - 1) runtime_lock else Some (True, qf));
          if \<not> got then Some (False, qf) else do {
            (got, qf) \<leftarrow> lock_at qf l runtime_lock;
            if \<not> got then do {
              qf \<leftarrow> (if hash_bucket_index \<ge> NUM_SLOTS_TO_LOCK \<and> hash_bucket_lock_offset \<le> CLUSTER_SIZE
                     then unlock_at qf (l - 1) else Some qf);
              Some (False, qf)
            } else do {
              (got, qf) \<leftarrow> lock_at qf (l + 1) runtime_lock;
              if \<not> got then do {
                qf \<leftarrow> unlock_at qf l;
                qf \<leftarrow> (if hash_bucket_index \<ge> NUM_SLOTS_TO_LOCK \<and> hash_bucket_lock_offset \<le> CLUSTER_SIZE
                       then unlock_at qf (l - 1) else Some qf);
                Some (False, qf)
              } else Some (True, qf)
            }
          }
        })"

definition qf_unlock :: "QF \<Rightarrow> nat \<Rightarrow> bool \<Rightarrow> QF option" where
  "qf_unlock qf hash_bucket_index small =
    (let hash_bucket_lock_offset = hash_bucket_index mod NUM_SLOTS_TO_LOCK;
         l = hash_bucket_index div NUM_SLOTS_TO_LOCK
     in if small then do {
          qf \<leftarrow> (if NUM_SLOTS_TO_LOCK - hash_bucket_lock_offset \<le> CLUSTER_SIZE then unlock_at qf (l + 1) else Some qf);
          unlock_at qf l
        } else do {
          qf \<leftarrow> unlock_at qf (l + 1);
          qf \<leftarrow> unlock_at qf l;
          if hash_bucket_index \<ge> NUM_SLOTS_TO_LOCK \<and> hash_bucket_lock_offset \<le> CLUSTER_SIZE
          then unlock_at qf (l - 1) else Some qf
        })"

text \<open>The counters of the header that are changed under \<^verbatim>\<open>metadata_lock\<close>.\<close>

datatype md_counter = Nelts | Ndistinct_elts | Noccupied_slots

fun add_counter :: "qfmetadata \<Rightarrow> md_counter \<Rightarrow> int \<Rightarrow> qfmetadata" where
  "add_counter md Nelts c = md\<lparr>nelts := nelts md + word_of_int c\<rparr>"
| "add_counter md Ndistinct_elts c = md\<lparr>ndistinct_elts := ndistinct_elts md + word_of_int c\<rparr>"
| "add_counter md Noccupied_slots c = md\<lparr>noccupied_slots := noccupied_slots md + word_of_int c\<rparr>"

text \<open>The third argument of \<^verbatim>\<open>modify_metadata\<close> is a C \<^verbatim>\<open>int\<close>: the conversion at the call is part of it.\<close>

definition modify_metadata :: "QF \<Rightarrow> md_counter \<Rightarrow> int \<Rightarrow> QF option" where
  "modify_metadata qf fld cnt =
    (case qf_spin_lock (metadata_lock (runtimedata qf)) QF_WAIT_FOR_LOCK of
       None \<Rightarrow> None
     | Some (_, v) \<Rightarrow>
         Some (qf\<lparr>metadata := add_counter (metadata qf) fld (to_int32 cnt),
                 runtimedata := (runtimedata qf)\<lparr>metadata_lock := qf_spin_unlock v\<rparr>\<rparr>))"

section \<open>One thread\<close>

text \<open>The locks a call takes, in the order it takes them.\<close>

definition needed_locks :: "nat \<Rightarrow> bool \<Rightarrow> nat list" where
  "needed_locks i small =
    (if small then i div NUM_SLOTS_TO_LOCK #
         (if NUM_SLOTS_TO_LOCK - i mod NUM_SLOTS_TO_LOCK \<le> CLUSTER_SIZE then [i div NUM_SLOTS_TO_LOCK + 1] else [])
     else (if i \<ge> NUM_SLOTS_TO_LOCK \<and> i mod NUM_SLOTS_TO_LOCK \<le> CLUSTER_SIZE then [i div NUM_SLOTS_TO_LOCK - 1] else [])
       @ [i div NUM_SLOTS_TO_LOCK, i div NUM_SLOTS_TO_LOCK + 1])"

fun set_all :: "int list \<Rightarrow> nat list \<Rightarrow> int \<Rightarrow> int list" where
  "set_all ls [] v = ls"
| "set_all ls (i # is) v = set_all (ls[i := v]) is v"

definition lock_values_ok :: "QF \<Rightarrow> bool" where
  "lock_values_ok qf \<longleftrightarrow> (\<forall>v \<in> set (qf_locks qf). v = 0 \<or> v = 1)"

definition waits :: "u8 \<Rightarrow> bool" where
  "waits flag \<longleftrightarrow> GET_WAIT_FOR_LOCK flag = QF_WAIT_FOR_LOCK"

lemma needed_locks_ascending: "sorted_wrt (<) (needed_locks i small)"
  by (auto simp: needed_locks_def)

lemma div_pos_locks: "NUM_SLOTS_TO_LOCK \<le> i \<Longrightarrow> 0 < i div NUM_SLOTS_TO_LOCK"
  by (simp add: div_greater_zero_iff)

lemma needed_locks_bound:
  assumes "i < n" "l \<in> set (needed_locks i small)"
  shows "l < n div NUM_SLOTS_TO_LOCK + 2"
proof -
  have "i div NUM_SLOTS_TO_LOCK \<le> n div NUM_SLOTS_TO_LOCK" using assms(1) by (intro div_le_mono) simp
  with assms(2) show ?thesis by (auto simp: needed_locks_def split: if_splits)
qed

lemma set_locks_simps [simp]:
  "qf_locks (set_locks qf ls) = ls" "set_locks (set_locks qf a) b = set_locks qf b"
  "metadata (set_locks qf ls) = metadata qf" "blocks (set_locks qf ls) = blocks qf"
  "set_locks qf (qf_locks qf) = qf"
  by (simp_all add: set_locks_def)

lemma list_update_undo: "xs ! i = v \<Longrightarrow> xs[i := v] = xs" "xs ! i = v \<Longrightarrow> xs[i := u, i := v] = xs"
  by (metis list_update_id list_update_overwrite)+

lemma lock_at_simps:
  assumes "i < length ls" "ls ! i = 0 \<or> ls ! i = 1"
  shows "lock_at (set_locks qf ls) i flag =
    (if ls ! i = 0 then Some (True, set_locks qf (ls[i := 1]))
     else if waits flag then None else Some (False, set_locks qf ls))"
  using assms by (auto simp: lock_at_def qf_spin_lock_def waits_def list_update_undo)

lemma unlock_at_simps: "i < length ls \<Longrightarrow> unlock_at (set_locks qf ls) i = Some (set_locks qf (ls[i := 0]))"
  by (simp add: unlock_at_def qf_spin_unlock_def)

lemma qf_lock_on:
  fixes qf :: QF
  assumes r: "\<forall>l \<in> set (needed_locks i small). l < length ls \<and> (ls ! l = 0 \<or> ls ! l = 1)"
  shows "qf_lock (set_locks qf ls) i small flag =
    (if \<forall>l \<in> set (needed_locks i small). ls ! l = 0
     then Some (True, set_locks qf (set_all ls (needed_locks i small) 1))
     else if waits flag then None else Some (False, set_locks qf ls))"
proof (cases small)
  case True
  show ?thesis using r True
    by (cases "NUM_SLOTS_TO_LOCK - i mod NUM_SLOTS_TO_LOCK \<le> CLUSTER_SIZE")
      (auto simp: qf_lock_def needed_locks_def Let_def lock_at_simps unlock_at_simps list_update_undo)
next
  case False
  show ?thesis
  proof (cases "NUM_SLOTS_TO_LOCK \<le> i \<and> i mod NUM_SLOTS_TO_LOCK \<le> CLUSTER_SIZE")
    case True
    define l where "l = i div NUM_SLOTS_TO_LOCK - 1"
    have l: "i div NUM_SLOTS_TO_LOCK = Suc l" using True div_pos_locks [of i] by (simp add: l_def)
    have n: "needed_locks i small = [l, Suc l, Suc (Suc l)]"
      using True \<open>\<not> small\<close> by (simp add: needed_locks_def l)
    have len: "l < length ls" "Suc l < length ls" "Suc (Suc l) < length ls"
      and v: "ls ! l = 0 \<or> ls ! l = 1" "ls ! Suc l = 0 \<or> ls ! Suc l = 1"
        "ls ! Suc (Suc l) = 0 \<or> ls ! Suc (Suc l) = 1" using r by (simp_all add: n)
    have sw: "ls[l := 1, Suc l := 0, l := 0] = ls" if "ls ! l = 0" "ls ! Suc l = 0"
      using that by (simp add: list_update_undo list_update_swap [of "Suc l" l])
    show ?thesis unfolding n qf_lock_def Let_def l using True \<open>\<not> small\<close> len
      by (cases "ls ! l = 0"; cases "ls ! Suc l = 0"; cases "ls ! Suc (Suc l) = 0")
        (use v sw in \<open>simp_all add: lock_at_simps unlock_at_simps list_update_undo\<close>)
  next
    case F: False
    define l where "l = i div NUM_SLOTS_TO_LOCK"
    have n: "needed_locks i small = [l, Suc l]" using F \<open>\<not> small\<close> by (simp add: needed_locks_def l_def)
    have len: "l < length ls" "Suc l < length ls"
      and v: "ls ! l = 0 \<or> ls ! l = 1" "ls ! Suc l = 0 \<or> ls ! Suc l = 1" using r by (simp_all add: n)
    show ?thesis unfolding n qf_lock_def Let_def l_def [symmetric] if_not_P [OF F] if_not_P [OF \<open>\<not> small\<close>] using len
      by (cases "ls ! l = 0"; cases "ls ! Suc l = 0")
        (use v in \<open>simp_all add: lock_at_simps unlock_at_simps list_update_undo\<close>)
  qed
qed

lemma set_all_append: "set_all ls (xs @ ys) v = set_all (set_all ls xs v) ys v"
  by (induction xs arbitrary: ls) auto

lemma length_set_all [simp]: "length (set_all ls xs v) = length ls"
  by (induction xs arbitrary: ls) auto

lemma nth_set_all: "i < length ls \<Longrightarrow> set_all ls xs v ! i = (if i \<in> set xs then v else ls ! i)"
  by (induction xs arbitrary: ls) (auto simp: nth_list_update)

lemma qf_unlock_on:
  assumes "\<forall>l \<in> set (needed_locks i small). l < length ls"
  shows "qf_unlock (set_locks qf ls) i small = Some (set_locks qf (set_all ls (needed_locks i small) 0))"
proof -
  have sw: "ls[Suc n := 0, n := 0] = ls[n := 0, Suc n := 0]" for n
    by (rule list_update_swap) simp
  show ?thesis
  proof (cases "\<not> small \<and> NUM_SLOTS_TO_LOCK \<le> i \<and> i mod NUM_SLOTS_TO_LOCK \<le> CLUSTER_SIZE")
    case True
    define l where "l = i div NUM_SLOTS_TO_LOCK - 1"
    have l: "i div NUM_SLOTS_TO_LOCK = Suc l" using True div_pos_locks [of i] by (simp add: l_def)
    have "ls[Suc (Suc l) := 0, Suc l := 0, l := 0] = ls[l := 0, Suc l := 0, Suc (Suc l) := 0]"
      by (metis list_update_swap n_not_Suc_n Suc_n_not_n)
    then show ?thesis using assms True
      by (auto simp: qf_unlock_def needed_locks_def Let_def unlock_at_simps l)
  next
    case False
    then show ?thesis using assms sw
      by (auto simp: qf_unlock_def needed_locks_def Let_def unlock_at_simps split: if_splits)
  qed
qed

section \<open>Any number of threads\<close>

text \<open>
  A thread takes the locks of one call in order with \<^verbatim>\<open>__sync_lock_test_and_set\<close> (spinning, as under
  \<^verbatim>\<open>QF_WAIT_FOR_LOCK\<close>), works, and gives them back in the reverse order, as \<^verbatim>\<open>qf_unlock\<close> does.  Each
  atomic operation on a lock word is one step.
\<close>

datatype phase = Idle | Acquiring "nat list" "nat list" | Releasing "nat list"

record lstate =
  word_of :: "nat \<Rightarrow> int"
  threads :: "phase list"

fun held :: "phase \<Rightarrow> nat set" where
  "held Idle = {}"
| "held (Acquiring h w) = set h"
| "held (Releasing h) = set h"

fun ordered :: "phase \<Rightarrow> bool" where
  "ordered Idle = True"
| "ordered (Acquiring h w) = sorted_wrt (<) (h @ w)"
| "ordered (Releasing h) = distinct h"

inductive lstep :: "lstate \<Rightarrow> lstate \<Rightarrow> bool" where
  start: "t < length (threads s) \<Longrightarrow> threads s ! t = Idle \<Longrightarrow>
    lstep s (s\<lparr>threads := (threads s)[t := Acquiring [] (needed_locks i small)]\<rparr>)"
| acquire: "t < length (threads s) \<Longrightarrow> threads s ! t = Acquiring h (l # w) \<Longrightarrow>
    qf_spin_lock (word_of s l) QF_WAIT_FOR_LOCK = Some (True, v) \<Longrightarrow>
    lstep s (s\<lparr>word_of := (word_of s)(l := v), threads := (threads s)[t := Acquiring (h @ [l]) w]\<rparr>)"
| finish: "t < length (threads s) \<Longrightarrow> threads s ! t = Acquiring h [] \<Longrightarrow>
    lstep s (s\<lparr>threads := (threads s)[t := Releasing (rev h)]\<rparr>)"
| release: "t < length (threads s) \<Longrightarrow> threads s ! t = Releasing (l # h) \<Longrightarrow>
    lstep s (s\<lparr>word_of := (word_of s)(l := qf_spin_unlock (word_of s l)), threads := (threads s)[t := Releasing h]\<rparr>)"
| return: "t < length (threads s) \<Longrightarrow> threads s ! t = Releasing [] \<Longrightarrow>
    lstep s (s\<lparr>threads := (threads s)[t := Idle]\<rparr>)"

definition linit :: "nat \<Rightarrow> lstate" where
  "linit n = \<lparr>word_of = (\<lambda>_. 0), threads = replicate n Idle\<rparr>"

inductive lreach :: "nat \<Rightarrow> lstate \<Rightarrow> bool" for n where
  lreach_init: "lreach n (linit n)"
| lreach_step: "lreach n s \<Longrightarrow> lstep s s' \<Longrightarrow> lreach n s'"

definition linv :: "lstate \<Rightarrow> bool" where
  "linv s \<longleftrightarrow>
    (\<forall>t < length (threads s). ordered (threads s ! t)) \<and>
    (\<forall>t < length (threads s). \<forall>u < length (threads s). t \<noteq> u \<longrightarrow> held (threads s ! t) \<inter> held (threads s ! u) = {}) \<and>
    (\<forall>l. word_of s l \<noteq> 0 \<longleftrightarrow> (\<exists>t < length (threads s). l \<in> held (threads s ! t)))"

lemma spin_lock_wait: "qf_spin_lock v QF_WAIT_FOR_LOCK = Some (True, u) \<longleftrightarrow> v = 0 \<and> u = 1"
  by (auto simp: qf_spin_lock_def GET_WAIT_FOR_LOCK_def QF_WAIT_FOR_LOCK_def)

lemma linv_update:
  assumes inv: "linv s" and t: "t < length (threads s)" and s': "threads s' = (threads s)[t := p]"
    and p: "ordered p" "\<And>u. u < length (threads s) \<Longrightarrow> u \<noteq> t \<Longrightarrow> held p \<inter> held (threads s ! u) = {}"
    and w: "\<And>l. word_of s' l \<noteq> 0 \<longleftrightarrow> l \<in> held p \<or> (\<exists>u < length (threads s). u \<noteq> t \<and> l \<in> held (threads s ! u))"
  shows "linv s'"
proof -
  have "(\<exists>u < length (threads s). l \<in> held ((threads s)[t := p] ! u)) \<longleftrightarrow>
      l \<in> held p \<or> (\<exists>u < length (threads s). u \<noteq> t \<and> l \<in> held (threads s ! u))" for l
    using t by (auto simp: nth_list_update)
  moreover have "held ((threads s)[t := p] ! u) \<inter> held ((threads s)[t := p] ! v) = {}"
    if "u < length (threads s)" "v < length (threads s)" "u \<noteq> v" for u v
    using that p(2) [of u] p(2) [of v] inv t by (cases "u = t"; cases "v = t") (auto simp: linv_def)
  moreover have "ordered ((threads s)[t := p] ! u)" if "u < length (threads s)" for u
    using that inv t p(1) by (auto simp: nth_list_update linv_def)
  ultimately show ?thesis using w by (simp add: linv_def s')
qed

lemma linv_word:
  assumes "linv s" "t < length (threads s)"
  shows "word_of s l \<noteq> 0 \<longleftrightarrow> l \<in> held (threads s ! t) \<or> (\<exists>u < length (threads s). u \<noteq> t \<and> l \<in> held (threads s ! u))"
  using assms unfolding linv_def by metis

lemma linv_ordered: "linv s \<Longrightarrow> t < length (threads s) \<Longrightarrow> ordered (threads s ! t)"
  by (simp add: linv_def)

lemma linv_disjoint:
  "linv s \<Longrightarrow> t < length (threads s) \<Longrightarrow> u < length (threads s) \<Longrightarrow> u \<noteq> t \<Longrightarrow>
   held (threads s ! t) \<inter> held (threads s ! u) = {}"
  by (simp add: linv_def)

lemma lstep_linv: "lstep s s' \<Longrightarrow> linv s \<Longrightarrow> linv s'"
proof (induction rule: lstep.induct)
  case (start t s i small)
  show ?case by (rule linv_update [OF start(3,1), of _ "Acquiring [] (needed_locks i small)"])
      (use start linv_word [OF start(3,1)] in \<open>simp_all add: needed_locks_ascending\<close>)
next
  case (acquire t s h l w v)
  from linv_ordered [OF acquire(4,1)] have "ordered (threads s ! t)" .
  moreover have "word_of s l = 0" "v = 1" using acquire by (simp_all add: spin_lock_wait)
  ultimately show ?case using acquire linv_word [OF acquire(4,1)] linv_disjoint [OF acquire(4,1)]
    by (intro linv_update [OF acquire(4,1), of _ "Acquiring (h @ [l]) w"]) auto
next
  case (finish t s h)
  from linv_ordered [OF finish(3,1)] have "ordered (threads s ! t)" .
  then have "distinct (rev h)" using finish by (simp add: strict_sorted_iff)
  then show ?case using finish linv_word [OF finish(3,1)] linv_disjoint [OF finish(3,1)]
    by (intro linv_update [OF finish(3,1), of _ "Releasing (rev h)"]) simp_all
next
  case (release t s l h)
  from linv_ordered [OF release(3,1)] have "ordered (threads s ! t)" .
  then show ?case using release linv_word [OF release(3,1)] linv_disjoint [OF release(3,1)]
    by (intro linv_update [OF release(3,1), of _ "Releasing h"]) (auto simp: qf_spin_unlock_def)
next
  case (return t s)
  show ?case by (rule linv_update [OF return(3,1), of _ Idle]) (use return linv_word [OF return(3,1)] in simp_all)
qed

lemma linit_linv: "linv (linit n)"
  by (simp add: linv_def linit_def)

lemma lreach_linv: "lreach n s \<Longrightarrow> linv s"
  by (induction rule: lreach.induct) (auto simp: linit_linv intro: lstep_linv)

text \<open>A thread inside a call can move unless the lock it wants next is held.\<close>

definition can_move :: "lstate \<Rightarrow> nat \<Rightarrow> bool" where
  "can_move s t \<longleftrightarrow> (\<exists>s'. lstep s s' \<and> threads s' ! t \<noteq> threads s ! t)"

lemma can_moveI:
  assumes "t < length (threads s)" "threads s ! t \<noteq> Idle"
    and "\<And>h l w. threads s ! t = Acquiring h (l # w) \<Longrightarrow> word_of s l = 0"
  shows "can_move s t"
proof (cases "threads s ! t")
  case (Acquiring h w)
  show ?thesis
  proof (cases w)
    case Nil
    with lstep.finish [OF assms(1)] Acquiring assms(1) show ?thesis unfolding can_move_def by force
  next
    case (Cons l w')
    then have "qf_spin_lock (word_of s l) QF_WAIT_FOR_LOCK = Some (True, 1)"
      using assms(3) Acquiring by (simp add: spin_lock_wait)
    with lstep.acquire [OF assms(1)] Acquiring Cons assms(1) show ?thesis unfolding can_move_def by force
  qed
next
  case (Releasing h)
  with lstep.release [OF assms(1)] lstep.return [OF assms(1)] assms(1) show ?thesis
    unfolding can_move_def by (cases h) force+
qed (use assms in simp)

lemma blocked_chain:
  assumes inv: "linv s" and stuck: "\<And>u. u < length (threads s) \<Longrightarrow> threads s ! u \<noteq> Idle \<Longrightarrow> \<not> can_move s u"
    and t: "t < length (threads s)" "threads s ! t = Acquiring h (l # w)"
  shows "\<exists>u < length (threads s). \<exists>h' l' w'. threads s ! u = Acquiring h' (l' # w') \<and> l < l'"
proof -
  have "word_of s l \<noteq> 0" using can_moveI [OF t(1)] stuck [OF t(1)] t(2) by auto
  then obtain u where u: "u < length (threads s)" "l \<in> held (threads s ! u)" using inv by (auto simp: linv_def)
  then have ni: "threads s ! u \<noteq> Idle" by auto
  from can_moveI [OF u(1) ni] stuck [OF u(1) ni]
  obtain h' l' w' where a: "threads s ! u = Acquiring h' (l' # w')" by auto
  from linv_ordered [OF inv u(1)] have "l < l'" using u(2) by (auto simp: a sorted_wrt_append)
  with u(1) a show ?thesis by blast
qed

lemma no_deadlock_aux:
  assumes inv: "linv s" and t: "t < length (threads s)" "threads s ! t \<noteq> Idle"
  shows "\<exists>u < length (threads s). threads s ! u \<noteq> Idle \<and> can_move s u"
proof (rule ccontr)
  assume "\<not> ?thesis"
  then have stuck: "\<not> can_move s u" if "u < length (threads s)" "threads s ! u \<noteq> Idle" for u using that by blast
  let ?W = "{l. \<exists>u < length (threads s). \<exists>h w. threads s ! u = Acquiring h (l # w)}"
  have "?W \<subseteq> (\<lambda>p. case p of Acquiring h (l # w) \<Rightarrow> l | _ \<Rightarrow> 0) ` set (threads s)"
    by (force simp: in_set_conv_nth image_iff)
  then have fin: "finite ?W" by (rule finite_subset) simp
  have ne: "?W \<noteq> {}" using can_moveI [OF t] stuck [OF t] t(1) by blast
  from Max_in [OF fin ne] obtain u h w where u: "u < length (threads s)" "threads s ! u = Acquiring h (Max ?W # w)" by auto
  from blocked_chain [OF inv stuck u] obtain l' where "l' \<in> ?W" "Max ?W < l'" by blast
  with Max_ge [OF fin this(1)] show False by simp
qed

end
