(* ===== verification/GQF_Counter.thy ===== *)
theory GQF_Counter
  imports GQF_Run
begin

unbundle bit_operations_syntax

text \<open>
  Variable-length counters of \<^verbatim>\<open>terrace/code/src/gqf/gqf.c\<close>: \<^verbatim>\<open>encode_counter\<close>, \<^verbatim>\<open>decode_counter\<close> and
  \<^verbatim>\<open>next_slot\<close>.  The encoder writes downwards from the end of a buffer; the model returns the words
  from the returned pointer to the end of the buffer.
\<close>

section \<open>Definitions\<close>

text \<open>
  The do-while loop over the digits, on the words written so far.  It divides by \<open>base\<close>: a base of 0
  traps and a base of 1 never ends, both \<open>None\<close> here.
\<close>

function encode_digits :: "u64 \<Rightarrow> u64 \<Rightarrow> u64 \<Rightarrow> u64 list \<Rightarrow> u64 list option" where
  "encode_digits remainder base counter p =
    (if base < 2 then None
     else let digit = counter mod base + 1;
              digit = (if remainder \<noteq> 0 \<and> digit \<ge> remainder then digit + 1 else digit);
              p = digit # p;
              counter = counter div base
          in if counter = 0 then Some p else encode_digits remainder base counter p)"
  by pat_completeness auto

termination
proof (relation "measure (\<lambda>(remainder, base, counter, p). unat counter)", goal_cases)
  case (2 remainder base counter x xa xb xc)
  then have "2 \<le> unat base" by (simp add: word_less_nat_alt not_less)
  moreover have "0 < unat counter" using 2 by (metis div_0 gr_zeroI unat_eq_zero word_div_def unat_0 word_arith_nat_div)
  ultimately show ?case using 2 by (simp add: unat_div)
qed simp

declare encode_digits.simps [simp del]

definition encode_counter :: "QF \<Rightarrow> u64 \<Rightarrow> u64 \<Rightarrow> u64 list option" where
  "encode_counter qf remainder counter =
    (let base = push_bit (qf_bps qf) 1 - 1
     in if counter = 0 then Some []
        else if counter = 1 then Some [remainder]
        else if counter = 2 then Some [remainder, remainder]
        else if counter = 3 \<and> remainder = 0 then Some [remainder, remainder, remainder]
        else if counter = 3 \<and> remainder > 0 then Some [remainder, 0, remainder]
        else let p = (if remainder = 0 then [remainder, remainder] else [remainder]);
                 base = (if remainder = 0 then base else base - 1);
                 counter = (if remainder \<noteq> 0 then counter - 3 else counter - 4)
             in do {
               p \<leftarrow> encode_digits remainder base counter p;
               let p = (if remainder \<noteq> 0 \<and> hd p \<ge> remainder then 0 # p else p);
               Some (remainder # p)
             })"

text \<open>The digit loop of the decoder; \<open>end\<close> is a keyword, so the index is \<open>end'\<close>.\<close>

partial_function (option) decode_digits :: "QF \<Rightarrow> u64 \<Rightarrow> u64 \<Rightarrow> u64 \<Rightarrow> u64 \<Rightarrow> nat \<Rightarrow> (u64 \<times> nat) option" where
  "decode_digits qf rem base cnt digit end' =
    (if digit \<noteq> rem \<and> \<not> is_runend qf end' then
       let digit = (if digit > rem then digit - 1 else digit);
           digit = (if digit \<noteq> 0 \<and> rem \<noteq> 0 then digit - 1 else digit)
       in decode_digits qf rem base (cnt * base + digit) (get_slot qf (end' + 1)) (end' + 1)
     else Some (cnt, end'))"

text \<open>The index of the last slot of the counter, its remainder and its count.\<close>

definition decode_counter :: "QF \<Rightarrow> nat \<Rightarrow> (nat \<times> u64 \<times> u64) option" where
  "decode_counter qf index =
    (let rem = get_slot qf index
     in if is_runend qf index then Some (index, rem, 1)
        else let digit = get_slot qf (index + 1)
             in if is_runend qf (index + 1) then
                  Some (index + (if digit = rem then 1 else 0), rem, if digit = rem then 2 else 1)
                else if rem > 0 \<and> digit \<ge> rem then
                  Some (index + (if digit = rem then 1 else 0), rem, if digit = rem then 2 else 1)
                else if rem > 0 \<and> digit = 0 \<and> get_slot qf (index + 2) = rem then Some (index + 2, rem, 3)
                else if rem = 0 \<and> digit = 0 then
                  (if get_slot qf (index + 2) = 0 then Some (index + 2, rem, 3) else Some (index + 1, rem, 2))
                else do {
                  (cnt, end') \<leftarrow> decode_digits qf rem (push_bit (qf_bps qf) 1 - (if rem \<noteq> 0 then 2 else 1)) 0 digit (index + 1);
                  if rem \<noteq> 0 then Some (end', rem, cnt + 3)
                  else if is_runend qf end' \<or> get_slot qf (end' + 1) \<noteq> 0 then Some (index, rem, 1)
                  else Some (end' + 1, rem, cnt + 4)
                })"

function next_slot_scan :: "QF \<Rightarrow> u64 \<Rightarrow> nat \<Rightarrow> nat" where
  "next_slot_scan qf rem current =
    (if get_slot qf current = rem \<and> current \<le> nslots (metadata qf) then next_slot_scan qf rem (current + 1) else current)"
  by pat_completeness auto

termination
  by (relation "measure (\<lambda>(qf, rem, current). Suc (nslots (metadata qf)) - current)") auto

declare next_slot_scan.simps [simp del]

definition next_slot :: "QF \<Rightarrow> nat \<Rightarrow> nat" where
  "next_slot qf current = next_slot_scan qf (get_slot qf current) (current + 1)"

section \<open>Digits\<close>

definition enc_digit :: "u64 \<Rightarrow> u64 \<Rightarrow> u64" where
  "enc_digit rem d = (if rem \<noteq> 0 \<and> d + 1 \<ge> rem then d + 1 + 1 else d + 1)"

definition dec_digit :: "u64 \<Rightarrow> u64 \<Rightarrow> u64" where
  "dec_digit rem e = (let e = (if e > rem then e - 1 else e) in if e \<noteq> 0 \<and> rem \<noteq> 0 then e - 1 else e)"

definition horner :: "u64 \<Rightarrow> u64 \<Rightarrow> u64 \<Rightarrow> u64 list \<Rightarrow> u64" where
  "horner rem base c ds = foldl (\<lambda>cnt e. cnt * base + dec_digit rem e) c ds"

text \<open>The base of the digits and the largest value of a slot.\<close>

definition digit_base :: "QF \<Rightarrow> u64 \<Rightarrow> u64" where
  "digit_base qf rem = push_bit (qf_bps qf) 1 - (if rem \<noteq> 0 then 2 else 1)"

lemma unat_pow2: "n < 64 \<Longrightarrow> unat (push_bit n 1 :: u64) = 2 ^ n"
proof -
  assume "n < 64"
  then have "(2::nat) ^ n < 2 ^ 64" by (intro power_strict_increasing) auto
  moreover have "(push_bit n 1 :: u64) = of_nat (2 ^ n)" by (simp add: push_bit_eq_mult)
  ultimately show ?thesis using unat_of_nat [where 'a = 64, of "2 ^ n"] by simp
qed

lemma pow2_bounds:
  assumes "width_ok qf"
  shows "4 \<le> (2::nat) ^ qf_bps qf" "(2::nat) ^ qf_bps qf \<le> 2 ^ 56"
proof -
  have "(2::nat) ^ 2 \<le> 2 ^ qf_bps qf" using assms by (intro power_increasing) (auto simp: width_ok_def)
  then show "4 \<le> (2::nat) ^ qf_bps qf" by simp
  show "(2::nat) ^ qf_bps qf \<le> 2 ^ 56" using assms by (intro power_increasing) (auto simp: width_ok_def)
qed

lemma unat_BITMASK: "width_ok qf \<Longrightarrow> unat (BITMASK (qf_bps qf)) = 2 ^ qf_bps qf - 1"
  using unat_pow2 [of "qf_bps qf"] by (simp add: BITMASK_def MAX_VALUE_def width_ok_def word_le_nat_alt unat_sub)

lemma unat_digit_base:
  assumes "width_ok qf"
  shows "unat (digit_base qf rem) = 2 ^ qf_bps qf - (if rem \<noteq> 0 then 2 else 1)"
proof -
  have u: "unat (push_bit (qf_bps qf) 1 :: u64) = 2 ^ qf_bps qf" using assms by (intro unat_pow2) (simp add: width_ok_def)
  then show ?thesis using pow2_bounds [OF assms] by (simp add: digit_base_def unat_sub word_le_nat_alt)
qed

lemma enc_digit:
  assumes "width_ok qf" "d < digit_base qf rem" "rem \<le> BITMASK (qf_bps qf)"
  shows "enc_digit rem d \<noteq> 0" "enc_digit rem d \<noteq> rem" "enc_digit rem d \<le> BITMASK (qf_bps qf)"
    "dec_digit rem (enc_digit rem d) = d"
proof -
  have r: "unat rem \<le> 2 ^ qf_bps qf - 1" using assms unat_BITMASK by (simp add: word_le_nat_alt)
  have r0: "rem \<noteq> 0 \<longleftrightarrow> unat rem \<noteq> 0" by (simp add: unat_eq_zero)
  have d: "unat d < 2 ^ qf_bps qf - (if rem \<noteq> 0 then 2 else 1)"
    using assms unat_digit_base by (simp add: word_less_nat_alt)
  have d1: "unat (d + 1) = unat d + 1" and d2: "unat (d + 1 + 1) = unat d + 2"
    using d pow2_bounds [OF assms(1)] by (simp_all add: unat_word_ariths split: if_splits)
  then have d10: "d + 1 \<noteq> 0" by (metis add_is_0 unat_0 zero_neq_one)
  have e: "unat (enc_digit rem d) = (if unat rem \<noteq> 0 \<and> unat rem \<le> unat d + 1 then unat d + 2 else unat d + 1)"
    by (simp only: enc_digit_def r0 word_le_nat_alt d1 d2 split: if_split) auto
  show "enc_digit rem d \<noteq> 0" using e by (auto simp: unat_eq_zero [symmetric] split: if_splits)
  show "enc_digit rem d \<noteq> rem" using e by (auto split: if_splits)
  show "enc_digit rem d \<le> BITMASK (qf_bps qf)"
    using e d pow2_bounds [OF assms(1)] by (auto simp: word_le_nat_alt unat_BITMASK [OF assms(1)] r0 split: if_splits)
  show "dec_digit rem (enc_digit rem d) = d"
    using e d1 d2 d10
    by (auto simp: add.commute [of 1] dec_digit_def Let_def enc_digit_def r0 word_less_nat_alt word_le_nat_alt)
qed

lemma horner_snoc: "horner rem base c (ds @ [e]) = horner rem base c ds * base + dec_digit rem e"
  by (simp add: horner_def)

lemma base_ge_2: "width_ok qf \<Longrightarrow> \<not> digit_base qf rem < 2"
  using pow2_bounds [of qf] unat_digit_base [of qf rem] by (auto simp: word_less_nat_alt split: if_splits)

lemma encode_digits_unfold:
  "width_ok qf \<Longrightarrow> encode_digits rem (digit_base qf rem) c p =
     (let e = enc_digit rem (c mod digit_base qf rem); q = c div digit_base qf rem
      in if q = 0 then Some (e # p) else encode_digits rem (digit_base qf rem) q (e # p))"
  by (subst encode_digits.simps) (simp add: base_ge_2 enc_digit_def Let_def)

lemma digits_halve:
  assumes "width_ok qf" "unat c < 2 ^ Suc k"
  shows "unat (c div digit_base qf rem) < 2 ^ k"
proof -
  have "2 \<le> unat (digit_base qf rem)" using base_ge_2 [OF assms(1)] by (simp add: word_less_nat_alt not_less)
  then have "unat c div unat (digit_base qf rem) \<le> unat c div 2" by (intro div_le_mono2) auto
  with assms(2) show ?thesis by (simp add: unat_div)
qed

lemma mod_base_less: "width_ok qf \<Longrightarrow> c mod digit_base qf rem < digit_base qf rem"
  using base_ge_2 [of qf rem] by (intro word_mod_less_divisor) (auto simp: word_less_nat_alt)

lemma encode_digits_spec:
  assumes w: "width_ok qf" and r: "rem \<le> BITMASK (qf_bps qf)"
  shows "\<exists>ds. encode_digits rem (digit_base qf rem) c p = Some (ds @ p) \<and> ds \<noteq> [] \<and>
    (\<forall>e \<in> set ds. e \<noteq> 0 \<and> e \<noteq> rem \<and> e \<le> BITMASK (qf_bps qf)) \<and> horner rem (digit_base qf rem) 0 ds = c \<and>
    (\<forall>k. unat c < 2 ^ k \<longrightarrow> length ds \<le> max 1 k)"
proof (induction "unat c" arbitrary: c p rule: less_induct)
  case less
  define b where "b = digit_base qf rem"
  define e q where "e = enc_digit rem (c mod b)" and "q = c div b"
  have e: "e \<noteq> 0 \<and> e \<noteq> rem \<and> e \<le> BITMASK (qf_bps qf)" "dec_digit rem e = c mod b"
    using enc_digit [OF w mod_base_less [OF w] r] by (simp_all add: e_def b_def)
  have qe: "q * b + dec_digit rem e = c" by (simp add: e q_def word_mod_div_equality)
  have un: "encode_digits rem b c p = (if q = 0 then Some (e # p) else encode_digits rem b q (e # p))"
    using encode_digits_unfold [OF w, of rem c p] by (simp add: b_def e_def q_def Let_def)
  show ?case
  proof (cases "q = 0")
    case True
    then show ?thesis using un e qe by (intro exI [of _ "[e]"]) (simp add: b_def horner_def)
  next
    case False
    then have "c \<noteq> 0" by (auto simp: q_def)
    then have "unat q < unat c" using base_ge_2 [OF w, of rem]
      by (auto simp: q_def b_def unat_div word_less_nat_alt intro!: div_less_dividend simp flip: unat_eq_zero)
    from less.hyps [OF this, of "e # p"] obtain ds where ds: "encode_digits rem b q (e # p) = Some (ds @ e # p)" "ds \<noteq> []"
      "\<forall>e \<in> set ds. e \<noteq> 0 \<and> e \<noteq> rem \<and> e \<le> BITMASK (qf_bps qf)" "horner rem b 0 ds = q"
      "\<And>k. unat q < 2 ^ k \<Longrightarrow> length ds \<le> max 1 k" by (auto simp: b_def)
    have "length (ds @ [e]) \<le> max 1 k" if k: "unat c < 2 ^ k" for k
    proof (cases k)
      case 0
      with k \<open>c \<noteq> 0\<close> show ?thesis by (simp add: unat_eq_zero)
    next
      case (Suc m)
      have q: "unat q < 2 ^ m" using digits_halve [OF w, of c m rem] k Suc by (simp add: q_def b_def)
      have "m \<noteq> 0" using q False by (cases m) (auto simp: unat_eq_zero)
      with ds(5) [OF q] Suc show ?thesis by simp
    qed
    then show ?thesis using un False ds e qe
      by (intro exI [of _ "ds @ [e]"]) (auto simp: horner_snoc simp flip: b_def)
  qed
qed

lemma horner_Cons: "horner rem base c (e # ds) = horner rem base (c * base + dec_digit rem e) ds"
  by (simp add: horner_def)

lemma decode_digits_unfold:
  "decode_digits qf rem base cnt digit i =
    (if digit \<noteq> rem \<and> \<not> is_runend qf i
     then decode_digits qf rem base (cnt * base + dec_digit rem digit) (get_slot qf (i + 1)) (i + 1)
     else Some (cnt, i))"
  by (subst decode_digits.simps) (simp add: dec_digit_def Let_def)

lemma decode_digits_run:
  assumes "\<And>j. j < length ds \<Longrightarrow> get_slot qf (i + j) = ds ! j \<and> \<not> is_runend qf (i + j)"
    and "rem \<notin> set ds" "get_slot qf (i + length ds) = rem"
  shows "decode_digits qf rem base cnt (get_slot qf i) i = Some (horner rem base cnt ds, i + length ds)"
  using assms
proof (induction ds arbitrary: i cnt)
  case Nil
  then show ?case by (subst decode_digits.simps) (simp add: horner_def)
next
  case (Cons d ds)
  have d: "get_slot qf i = d" "\<not> is_runend qf i" "d \<noteq> rem" using Cons.prems(1) [of 0] Cons.prems(2) by auto
  have "decode_digits qf rem base (cnt * base + dec_digit rem d) (get_slot qf (Suc i)) (Suc i) =
      Some (horner rem base (cnt * base + dec_digit rem d) ds, Suc i + length ds)"
    using Cons.prems(1) [of "Suc _"] Cons.prems(2,3) by (intro Cons.IH) auto
  then show ?case using d by (subst decode_digits_unfold) (simp add: horner_Cons)
qed

section \<open>Decoding what was encoded\<close>

definition holds :: "QF \<Rightarrow> nat \<Rightarrow> u64 list \<Rightarrow> bool" where
  "holds qf i xs \<longleftrightarrow> (\<forall>j < length xs. get_slot qf (i + j) = xs ! j)"

definition no_runend :: "QF \<Rightarrow> nat \<Rightarrow> nat \<Rightarrow> bool" where
  "no_runend qf a b \<longleftrightarrow> (\<forall>j. a \<le> j \<and> j < b \<longrightarrow> \<not> is_runend qf j)"

text \<open>
  What may follow a counter of \<open>rem\<close> whose last slot is \<open>i\<close>: the end of the run, or a larger remainder; and behind
  a single 0 no two adjacent zero slots before the end of the run, which would read as the end of an
  extended counter of 0.
\<close>

definition counter_follow :: "QF \<Rightarrow> u64 \<Rightarrow> u64 \<Rightarrow> nat \<Rightarrow> bool" where
  "counter_follow qf rem count i \<longleftrightarrow> is_runend qf i \<or>
    (rem < get_slot qf (i + 1) \<and>
     (rem = 0 \<and> count = 1 \<longrightarrow> (\<exists>e > i. is_runend qf e \<and>
        (\<forall>j. i < j \<and> j < e \<longrightarrow> get_slot qf j \<noteq> 0 \<or> get_slot qf (j + 1) \<noteq> 0))))"

lemma holds_Nil [simp]: "holds qf i []"
  by (simp add: holds_def)

lemma holds_Cons [simp]: "holds qf i (x # xs) \<longleftrightarrow> get_slot qf i = x \<and> holds qf (Suc i) xs"
  by (simp add: holds_def All_less_Suc2)

lemma holds_append [simp]: "holds qf i (xs @ ys) \<longleftrightarrow> holds qf i xs \<and> holds qf (i + length xs) ys"
  by (induction xs arbitrary: i) auto

lemma decode_digits_zero:
  assumes "i \<le> e" "is_runend qf e" "\<And>j. i \<le> j \<Longrightarrow> j < e \<Longrightarrow> get_slot qf j \<noteq> 0 \<or> get_slot qf (j + 1) \<noteq> 0"
  shows "\<exists>c z. decode_digits qf 0 base cnt (get_slot qf i) i = Some (c, z) \<and> (is_runend qf z \<or> get_slot qf (z + 1) \<noteq> 0)"
  using assms
proof (induction "e - i" arbitrary: i cnt)
  case 0
  then show ?case by (subst decode_digits_unfold) auto
next
  case (Suc n)
  show ?case
  proof (cases "get_slot qf i \<noteq> 0 \<and> \<not> is_runend qf i")
    case True
    then have "\<exists>c z. decode_digits qf 0 base (cnt * base + dec_digit 0 (get_slot qf i)) (get_slot qf (i + 1)) (i + 1) = Some (c, z) \<and>
        (is_runend qf z \<or> get_slot qf (z + 1) \<noteq> 0)"
      using Suc.hyps(2) Suc.prems by (intro Suc.hyps(1)) auto
    with True show ?thesis by (subst decode_digits_unfold) simp
  next
    case False
    moreover have "i < e" using Suc.hyps(2) by simp
    ultimately show ?thesis using Suc.prems(3) [of i] by (subst decode_digits_unfold) auto
  qed
qed

lemma word_count_cases:
  fixes c :: u64
  obtains "c = 0" | "c = 1" | "c = 2" | "c = 3" | "3 < unat c" "c \<noteq> 0" "c \<noteq> 1" "c \<noteq> 2" "c \<noteq> 3"
proof (cases "3 < unat c")
  case True
  then have "c \<noteq> 0" "c \<noteq> 1" "c \<noteq> 2" "c \<noteq> 3" by auto
  with True that(5) show ?thesis by blast
next
  case False
  then consider "unat c = 0" | "unat c = 1" | "unat c = 2" | "unat c = 3" by linarith
  then have "of_nat (unat c) \<in> {0, 1, 2, 3 :: u64}" by cases simp_all
  then have "c \<in> {0, 1, 2, 3}" by simp
  with that(1-4) show ?thesis by blast
qed

lemma encode_counter_big:
  assumes w: "width_ok qf" and r: "rem \<le> BITMASK (qf_bps qf)" and c: "3 < unat c"
  shows "\<exists>ds. encode_counter qf rem c = Some (rem # (if rem \<noteq> 0 \<and> hd ds \<ge> rem then [0] else []) @ ds @ (if rem = 0 then [0, 0] else [rem])) \<and>
    ds \<noteq> [] \<and> (\<forall>e \<in> set ds. e \<noteq> 0 \<and> e \<noteq> rem \<and> e \<le> BITMASK (qf_bps qf)) \<and>
    horner rem (digit_base qf rem) 0 ds = c - (if rem = 0 then 4 else 3) \<and> length ds \<le> 64"
proof -
  let ?c = "c - (if rem = 0 then 4 else 3)" and ?p = "if rem = 0 then [rem, rem] else [rem]"
  from encode_digits_spec [OF w r, of ?c ?p] obtain ds where
    ds: "encode_digits rem (digit_base qf rem) ?c ?p = Some (ds @ ?p)" "ds \<noteq> []"
      "\<forall>e \<in> set ds. e \<noteq> 0 \<and> e \<noteq> rem \<and> e \<le> BITMASK (qf_bps qf)" "horner rem (digit_base qf rem) 0 ds = ?c"
      "unat ?c < 2 ^ 64 \<Longrightarrow> length ds \<le> max 1 64" by blast
  have "length ds \<le> 64" using ds(5) unsigned_less [of ?c] by simp
  moreover have "c \<noteq> 0" "c \<noteq> 1" "c \<noteq> 2" "c \<noteq> 3" using c by auto
  moreover have "digit_base qf rem = (if rem = 0 then push_bit (qf_bps qf) 1 - 1 else push_bit (qf_bps qf) 1 - 1 - 1)"
    by (simp add: digit_base_def)
  ultimately show ?thesis using ds(1-4) by (intro exI [of _ ds]) (auto simp: encode_counter_def Let_def)
qed

lemma decode_counter_small:
  assumes "encode_counter qf rem c = Some es" "unat c \<le> 3" "c \<noteq> 0" "holds qf i es" "no_runend qf i (i + length es - 1)"
    and follow: "counter_follow qf rem c (i + length es - 1)"
  shows "decode_counter qf i = Some (i + length es - 1, rem, c)"
proof (cases c rule: word_count_cases)
  case 2
  then have es: "es = [rem]" "get_slot qf i = rem" using assms by (auto simp: encode_counter_def)
  have zero: "\<exists>d z. decode_digits qf 0 (push_bit (qf_bps qf) 1 - 1) 0 (get_slot qf (i + 1)) (i + 1) = Some (d, z) \<and>
      (is_runend qf z \<or> get_slot qf (z + 1) \<noteq> 0)" if "rem = 0" "\<not> is_runend qf i"
  proof -
    from follow that 2 es obtain e where "i < e" "is_runend qf e"
      "\<And>j. i < j \<Longrightarrow> j < e \<Longrightarrow> get_slot qf j \<noteq> 0 \<or> get_slot qf (j + 1) \<noteq> 0" by (auto simp: counter_follow_def)
    then show ?thesis by (intro decode_digits_zero [of _ e]) auto
  qed
  show ?thesis
  proof (cases "rem = 0 \<and> \<not> is_runend qf i")
    case True
    with zero obtain d z where "decode_digits qf 0 (push_bit (qf_bps qf) 1 - 1) 0 (get_slot qf (i + 1)) (i + 1) = Some (d, z)"
      "is_runend qf z \<or> get_slot qf (z + 1) \<noteq> 0" by blast
    then show ?thesis using follow 2 True es by (auto simp: decode_counter_def counter_follow_def Let_def)
  next
    case False
    then show ?thesis using follow 2 es by (auto simp: decode_counter_def counter_follow_def Let_def word_gt_0)
  qed
next
  case 3
  then have "es = [rem, rem]" "get_slot qf i = rem" "get_slot qf (i + 1) = rem" using assms by (auto simp: encode_counter_def)
  then show ?thesis using follow 3 assms(5)
    by (auto simp: decode_counter_def counter_follow_def Let_def no_runend_def word_gt_0)
next
  case 4
  then have "es = [rem, 0, rem]" "get_slot qf i = rem" "get_slot qf (i + 1) = 0" "get_slot qf (i + 2) = rem"
    using assms by (auto simp: encode_counter_def word_gt_0 split: if_splits)
  then show ?thesis using 4 assms(5)
    by (auto simp: decode_counter_def Let_def no_runend_def word_gt_0 not_le)
qed (use assms in auto)

lemma decode_digits_lead_0:
  assumes "rem \<noteq> 0" "get_slot qf i = 0" "\<not> is_runend qf i"
  shows "decode_digits qf rem base 0 (get_slot qf i) i = decode_digits qf rem base 0 (get_slot qf (i + 1)) (i + 1)"
  using assms by (subst decode_digits_unfold) (simp add: dec_digit_def)

lemma decode_counter_big:
  assumes w: "width_ok qf" and r: "rem \<le> BITMASK (qf_bps qf)" and c: "3 < unat c"
    and es: "encode_counter qf rem c = Some es" "holds qf i es" "no_runend qf i (i + length es - 1)"
  shows "decode_counter qf i = Some (i + length es - 1, rem, c)"
proof -
  let ?b = "digit_base qf rem" and ?c = "c - (if rem = 0 then 4 else 3)"
  from encode_counter_big [OF w r c] es(1) obtain ds where
    es': "es = rem # (if rem \<noteq> 0 \<and> hd ds \<ge> rem then [0] else []) @ ds @ (if rem = 0 then [0, 0] else [rem])"
    and ds: "ds \<noteq> []" "\<forall>e \<in> set ds. e \<noteq> 0 \<and> e \<noteq> rem" and h: "horner rem ?b 0 ds = ?c"
    by auto
  define k where "k = (if rem \<noteq> 0 \<and> hd ds \<ge> rem then 1 else 0 :: nat)"
  have len: "length es = 1 + k + length ds + (if rem = 0 then 2 else 1)" by (simp add: es' k_def)
  have nr: "\<not> is_runend qf j" if "i \<le> j" "j \<le> i + k + length ds" for j
    using es(3) that by (simp add: no_runend_def len split: if_splits)
  have s: "get_slot qf i = rem" "holds qf (i + 1 + k) ds" "get_slot qf (i + 1 + k + length ds) = rem"
      "rem = 0 \<Longrightarrow> get_slot qf (i + 1 + k + length ds + 1) = 0" "k = 1 \<Longrightarrow> get_slot qf (i + 1) = 0"
  proof -
    have "es = rem # replicate k 0 @ ds @ (if rem = 0 then [0, 0] else [rem])" by (simp add: es' k_def)
    then have h: "get_slot qf i = rem" "holds qf (Suc i) (replicate k 0)" "holds qf (i + 1 + k) ds"
        "holds qf (i + 1 + k + length ds) (if rem = 0 then [0, 0] else [rem])" using es(2) by simp_all
    from h show "get_slot qf i = rem" "holds qf (i + 1 + k) ds" by blast+
    from h(4) show "get_slot qf (i + 1 + k + length ds) = rem"
      "rem = 0 \<Longrightarrow> get_slot qf (i + 1 + k + length ds + 1) = 0" by (cases "rem = 0"; simp)+
    from h(2) show "k = 1 \<Longrightarrow> get_slot qf (i + 1) = 0" by simp
  qed
  have hd: "get_slot qf (i + 1 + k) = hd ds" "hd ds \<in> set ds" using s(2) ds(1) by (cases ds; simp)+
  have at: "get_slot qf (i + 1 + k + j) = ds ! j \<and> \<not> is_runend qf (i + 1 + k + j)" if "j < length ds" for j
    using s(2) that nr [of "i + 1 + k + j"] by (simp add: holds_def)
  have "decode_digits qf rem ?b 0 (get_slot qf (i + 1 + k)) (i + 1 + k) = Some (?c, i + 1 + k + length ds)"
    unfolding h [symmetric] by (rule decode_digits_run) (use at ds(2) s(3) in auto)
  then have run: "decode_digits qf rem ?b 0 (get_slot qf (i + 1)) (i + 1) = Some (?c, i + 1 + k + length ds)"
    using decode_digits_lead_0 [of rem qf "i + 1" ?b] s(5) nr [of "i + 1"] by (auto simp: k_def split: if_splits)
  have first: "\<not> (rem > 0 \<and> get_slot qf (i + 1) \<ge> rem)" "rem = 0 \<Longrightarrow> get_slot qf (i + 1) \<noteq> 0"
      "\<not> (rem > 0 \<and> get_slot qf (i + 1) = 0 \<and> get_slot qf (i + 2) = rem)"
    using hd ds(2) s(5) by (auto simp: k_def word_gt_0 not_le split: if_splits)
  have nr': "\<not> is_runend qf i" "\<not> is_runend qf (i + 1)" using nr [of i] nr [of "i + 1"] ds(1) by (cases ds; simp)+
  have fin: "\<not> is_runend qf (i + 1 + k + length ds)" if "rem = 0"
    using that es(3) by (simp add: no_runend_def len)
  show ?thesis
    using run first nr' fin s(1,4) unfolding decode_counter_def Let_def digit_base_def
    by (cases "rem = 0") (auto simp: len word_gt_0)
qed

lemma decode_encode_aux:
  assumes "width_ok qf" "rem \<le> BITMASK (qf_bps qf)" "c \<noteq> 0"
    and "encode_counter qf rem c = Some es" "holds qf i es" "no_runend qf i (i + length es - 1)"
    and "counter_follow qf rem c (i + length es - 1)"
  shows "decode_counter qf i = Some (i + length es - 1, rem, c)"
  using assms decode_counter_small [OF assms(4) _ assms(3,5,6,7)] decode_counter_big [OF assms(1,2) _ assms(4-6)]
  by (cases "unat c \<le> 3") auto

lemma encode_counter_length:
  assumes "width_ok qf" "rem \<le> BITMASK (qf_bps qf)"
  shows "\<exists>es. encode_counter qf rem c = Some es \<and> length es \<le> 67 \<and> (\<forall>e \<in> set es. e \<le> BITMASK (qf_bps qf)) \<and>
    (c \<noteq> 0 \<longrightarrow> es \<noteq> [] \<and> hd es = rem \<and> last es = rem)"
proof (cases c rule: word_count_cases)
  case 5
  from encode_counter_big [OF assms 5(1)] assms(2) show ?thesis by auto
qed (use assms(2) in \<open>auto simp: encode_counter_def word_gt_0\<close>)

end
