(* ===== verification/GQF_Insert.thy ===== *)
theory GQF_Insert
  imports GQF_Shift GQF_Lock GQF_Counter
begin

unbundle bit_operations_syntax

text \<open>
  Insertion into a counting quotient filter (\<^verbatim>\<open>terrace/code/src/gqf/gqf.c\<close>): the routine that replaces the slots
  of a counter and makes room for the ones it grows by, \<^verbatim>\<open>insert1\<close>, which adds one occurrence by
  incrementing the encoded counter in place, and \<^verbatim>\<open>insert\<close>, which adds any number.
  Every operation returns the result of the C function with the new filter; \<open>None\<close> is a call that
  does not return (a scan without end, \<^verbatim>\<open>abort\<close>, a wait for a lock nobody releases) or that
  leaves the arrays it uses.
\<close>

section \<open>Definitions\<close>

definition QF_NO_SPACE :: int where "QF_NO_SPACE = - 1"
definition QF_COULDNT_LOCK :: int where "QF_COULDNT_LOCK = - 2"
definition QF_DOESNT_EXIST :: int where "QF_DOESNT_EXIST = - 3"
definition QF_INVALID :: int where "QF_INVALID = - 4"
definition QFI_INVALID :: int where "QFI_INVALID = - 5"

subsection \<open>Replacing the slots of a counter by more slots\<close>

text \<open>The two loops that shift the gaps between consecutive empty slots, \<open>j\<close> counting up.\<close>

fun shift_gaps :: "(QF \<Rightarrow> nat \<Rightarrow> nat \<Rightarrow> nat \<Rightarrow> QF) \<Rightarrow> nat list \<Rightarrow> QF \<Rightarrow> nat \<Rightarrow> nat \<Rightarrow> QF" where
  "shift_gaps sh empties qf j 0 = qf"
| "shift_gaps sh empties qf j (Suc n) =
     shift_gaps sh empties (sh qf (empties ! (j + 1) + 1) (empties ! j) (j + 1)) (j + 1) n"

fun clear_runends :: "QF \<Rightarrow> nat list \<Rightarrow> QF" where
  "clear_runends qf [] = qf"
| "clear_runends qf (i # is) = clear_runends (md_clear_bit qf runends i) is"

text \<open>The inner while loop of the offset update.\<close>

function count_preceding :: "nat list \<Rightarrow> nat \<Rightarrow> nat \<Rightarrow> nat \<Rightarrow> nat" where
  "count_preceding empties ninserts i npreceding_empties =
    (if npreceding_empties < ninserts \<and> empties ! (ninserts - 1 - npreceding_empties) div QF_SLOTS_PER_BLOCK < i
     then count_preceding empties ninserts i (npreceding_empties + 1) else npreceding_empties)"
  by pat_completeness auto

termination by (relation "measure (\<lambda>(empties, ninserts, i, npreceding_empties). ninserts - npreceding_empties)") auto

declare count_preceding.simps [simp del]

fun add_offsets :: "nat list \<Rightarrow> nat \<Rightarrow> QF \<Rightarrow> nat list \<Rightarrow> nat \<Rightarrow> QF" where
  "add_offsets empties ninserts qf [] npreceding_empties = qf"
| "add_offsets empties ninserts qf (i # is) npreceding_empties =
    (let npreceding_empties = count_preceding empties ninserts i npreceding_empties;
         offset = unat (block_off qf i) + ninserts - npreceding_empties
     in add_offsets empties ninserts
          (if offset < 65535 then set_block_off qf i (of_nat offset) else set_block_off qf i 255)
          is npreceding_empties)"

definition insert_replace_slots_and_shift_remainders_and_runends_and_offsets ::
    "QF \<Rightarrow> int \<Rightarrow> nat \<Rightarrow> nat \<Rightarrow> u64 list \<Rightarrow> nat \<Rightarrow> (bool \<times> QF) option" where
  "insert_replace_slots_and_shift_remainders_and_runends_and_offsets qf operation bucket_index overwrite_index
       remainders noverwrites =
    (let total_remainders = length remainders;
         ninserts = total_remainders - noverwrites;
         insert_index = overwrite_index + noverwrites;
         finish = (\<lambda>qf. do {
           let qf = write_list set_slot qf overwrite_index remainders;
           qf \<leftarrow> modify_metadata qf Noccupied_slots (int total_remainders - int noverwrites);
           Some (True, qf)
         })
     in if int total_remainders - int noverwrites > 0 then do {
          empties \<leftarrow> (if ninserts \<le> 67 then find_next_n_empty_slots qf insert_index ninserts (replicate ninserts 0) else None);
          if empties ! 0 \<ge> xnslots (metadata qf) then Some (False, qf)
          else do {
            let qf = shift_gaps shift_slots empties qf 0 (ninserts - 1);
            let qf = shift_slots qf insert_index (empties ! (ninserts - 1)) ninserts;
            let qf = shift_gaps shift_runends empties qf 0 (ninserts - 1);
            let qf = shift_runends qf insert_index (empties ! (ninserts - 1)) ninserts;
            let qf = clear_runends qf [overwrite_index + noverwrites ..< overwrite_index + total_remainders - 1];
            qf \<leftarrow> (if operation = 0 then Some (md_set_bit qf runends (overwrite_index + total_remainders - 1))
                   else if operation = 1 then
                     Some (md_set_bit (md_clear_bit qf runends (overwrite_index + noverwrites - 1)) runends
                             (overwrite_index + total_remainders - 1))
                   else if operation = 2 then Some (md_clear_bit qf runends (overwrite_index + total_remainders - 1))
                   else None);
            let qf = add_offsets empties ninserts qf
                       [bucket_index div QF_SLOTS_PER_BLOCK + 1 ..< empties ! 0 div QF_SLOTS_PER_BLOCK + 1] 0;
            finish qf
          }
        } else finish qf)"

subsection \<open>Adding one occurrence\<close>

text \<open>The scan for the terminator of a counter of 0.\<close>

function zero_scan :: "QF \<Rightarrow> nat \<Rightarrow> nat \<Rightarrow> nat" where
  "zero_scan qf t runend_index =
    (if t < runend_index \<and> get_slot qf t \<noteq> 0 then zero_scan qf (t + 1) runend_index else t)"
  by pat_completeness auto

termination by (relation "measure (\<lambda>(qf, t, runend_index). runend_index - t)") auto

declare zero_scan.simps [simp del]

definition zero_terminator_of :: "QF \<Rightarrow> nat \<Rightarrow> nat \<Rightarrow> nat" where
  "zero_terminator_of qf runstart_index runend_index =
    (let t = zero_scan qf (runstart_index + 1) runend_index
     in if t < runend_index \<and> get_slot qf (t + 1) = 0 then t + 1
        else if runstart_index < runend_index \<and> get_slot qf (runstart_index + 1) = 0 then runstart_index + 1
        else runstart_index)"

text \<open>The two nested loops that skip the counters of smaller remainders.\<close>

function skip_counter :: "QF \<Rightarrow> nat \<Rightarrow> nat \<Rightarrow> u64 \<Rightarrow> nat" where
  "skip_counter qf runstart_index runend_index current_remainder =
    (if runstart_index < runend_index \<and> get_slot qf runstart_index \<noteq> current_remainder
     then skip_counter qf (runstart_index + 1) runend_index current_remainder else runstart_index)"
  by pat_completeness auto

termination by (relation "measure (\<lambda>(qf, s, e, r). e - s)") auto

declare skip_counter.simps [simp del]

lemma skip_counter_ge: "s \<le> skip_counter qf s e r"
proof (induction qf s e r rule: skip_counter.induct)
  case (1 qf s e r)
  then show ?case by (subst skip_counter.simps) auto
qed

function skip_counters :: "QF \<Rightarrow> nat \<Rightarrow> nat \<Rightarrow> u64 \<Rightarrow> u64 \<Rightarrow> nat \<times> u64" where
  "skip_counters qf runstart_index runend_index current_remainder hash_remainder =
    (if current_remainder < hash_remainder \<and> runstart_index \<le> runend_index then
       let s = (if runstart_index < runend_index \<and> get_slot qf (runstart_index + 1) < current_remainder
                then skip_counter qf (runstart_index + 2) runend_index current_remainder + 1
                else runstart_index + 1)
       in skip_counters qf s runend_index (get_slot qf s) hash_remainder
     else (runstart_index, current_remainder))"
  by pat_completeness auto

termination
proof (relation "measure (\<lambda>(qf, s, e, r, h). Suc e - s)", goal_cases)
  case (2 qf s e r h s')
  then show ?case using skip_counter_ge [of "s + 2" qf e r] by (auto split: if_splits)
qed simp

declare skip_counters.simps [simp del]

text \<open>The scan for the least significant digit of an extended counter; it ends at the closing remainder.\<close>

partial_function (option) lsd_scan :: "QF \<Rightarrow> nat \<Rightarrow> u64 \<Rightarrow> nat option" where
  "lsd_scan qf insert_index hash_remainder =
    (if get_slot qf (insert_index + 1) \<noteq> hash_remainder then lsd_scan qf (insert_index + 1) hash_remainder
     else Some insert_index)"

text \<open>The body of the increment loop on one digit: the new digit and the carry.\<close>

definition incr_digit :: "QF \<Rightarrow> u64 \<Rightarrow> u64 \<Rightarrow> u64 \<times> bool" where
  "incr_digit qf current_remainder digit =
    (let digit = (if digit = 0 then (if digit + 1 = current_remainder then digit + 1 + 1 else digit + 1) else digit);
         digit = (digit + 1) AND BITMASK (qf_bps qf);
         (digit, carry) = (if digit = 0 then (digit + 1, True) else (digit, False));
         digit = (if digit = current_remainder then (digit + 1) AND BITMASK (qf_bps qf) else digit)
     in if digit = 0 then (digit + 1, True) else (digit, carry))"

fun incr_loop :: "QF \<Rightarrow> nat \<Rightarrow> u64 \<Rightarrow> nat \<Rightarrow> QF \<times> nat \<times> u64 \<times> bool" where
  "incr_loop qf runstart_index current_remainder insert_index =
    (let (digit, carry) = incr_digit qf current_remainder (get_slot qf insert_index);
         qf = set_slot qf insert_index digit;
         insert_index = insert_index - 1
     in if insert_index > runstart_index \<and> carry then incr_loop qf runstart_index current_remainder insert_index
        else (qf, insert_index, digit, carry))"

declare incr_loop.simps [simp del]

text \<open>
  What to do with the counter of the remainder: the operation (\<open>- 1\<close> when the counter was incremented in place), the
  slot to insert at and its value.
\<close>

definition insert1_plan :: "QF \<Rightarrow> nat \<Rightarrow> nat \<Rightarrow> u64 \<Rightarrow> (QF \<times> int \<times> nat \<times> u64) option" where
  "insert1_plan qf runstart_index runend_index hash_remainder =
    (let current_remainder = get_slot qf runstart_index;
         zero_terminator = (if current_remainder = 0 then zero_terminator_of qf runstart_index runend_index else runstart_index);
         (runstart_index, current_remainder) =
           (if current_remainder = 0 \<and> hash_remainder \<noteq> 0
            then (zero_terminator + 1, get_slot qf (zero_terminator + 1)) else (runstart_index, current_remainder));
         (runstart_index, current_remainder) = skip_counters qf runstart_index runend_index current_remainder hash_remainder
     in if runstart_index > runend_index then do {
          qf \<leftarrow> modify_metadata qf Ndistinct_elts 1;
          Some (qf, 1, runstart_index, hash_remainder)
        } else if current_remainder \<noteq> hash_remainder then do {
          qf \<leftarrow> modify_metadata qf Ndistinct_elts 1;
          Some (qf, 2, runstart_index, hash_remainder)
        } else if runstart_index = runend_index \<or>
                  hash_remainder > 0 \<and> get_slot qf (runstart_index + 1) > hash_remainder \<or>
                  hash_remainder = 0 \<and> zero_terminator = runstart_index then
          Some (qf, 2, runstart_index, hash_remainder)
        else if hash_remainder > 0 \<and> get_slot qf (runstart_index + 1) = hash_remainder \<or>
                hash_remainder = 0 \<and> zero_terminator = runstart_index + 1 then
          Some (qf, 2, runstart_index + 1, 0)
        else if hash_remainder = 0 \<and> zero_terminator = runstart_index + 2 then
          Some (qf, 2, runstart_index + 1, 1)
        else do {
          insert_index \<leftarrow> lsd_scan qf (runstart_index + 1) hash_remainder;
          let (qf, insert_index, digit, carry) = incr_loop qf runstart_index current_remainder insert_index;
          if insert_index = runstart_index \<and> (carry \<or> current_remainder \<noteq> 0 \<and> digit \<ge> current_remainder)
          then Some (qf, 2, runstart_index + 1, if carry then 2 else 0)
          else Some (qf, - 1, insert_index, hash_remainder)
        })"

fun incr_offsets :: "QF \<Rightarrow> nat list \<Rightarrow> QF" where
  "incr_offsets qf [] = qf"
| "incr_offsets qf (i # is) =
    incr_offsets (if unat (block_off qf i) < 65535 then set_block_off qf i (block_off qf i + 1) else qf) is"

text \<open>
  The insertion of the planned slot.  The test for a full table asks for an empty slot that is both
  past the table and before the run, so it never holds: \<open>False\<close> stands for \<^verbatim>\<open>return QF_NO_SPACE\<close>.
\<close>

definition insert1_shift :: "QF \<Rightarrow> int \<Rightarrow> nat \<Rightarrow> nat \<Rightarrow> nat \<Rightarrow> u64 \<Rightarrow> (bool \<times> QF) option" where
  "insert1_shift qf operation hash_bucket_index runend_index insert_index new_value = do {
     empty_slot_index \<leftarrow> find_first_empty_slot qf (runend_index + 1);
     if empty_slot_index \<ge> xnslots (metadata qf) \<and> empty_slot_index < runend_index + 1 then Some (False, qf)
     else do {
       let qf = shift_remainders qf insert_index empty_slot_index;
       let qf = set_slot qf insert_index new_value;
       let qf = shift_runends qf insert_index empty_slot_index 1;
       qf \<leftarrow> (if operation = 0 then Some (md_set_bit qf runends insert_index)
              else if operation = 1 then
                Some (md_set_bit (md_clear_bit qf runends (insert_index - 1)) runends insert_index)
              else if operation = 2 then Some (md_clear_bit qf runends insert_index)
              else None);
       let qf = incr_offsets qf [hash_bucket_index div QF_SLOTS_PER_BLOCK + 1 ..< empty_slot_index div QF_SLOTS_PER_BLOCK + 1];
       qf \<leftarrow> modify_metadata qf Noccupied_slots 1;
       Some (True, qf)
     }
   }"

definition hash_remainder_of :: "QF \<Rightarrow> u128 \<Rightarrow> u64" where
  "hash_remainder_of qf hash = ucast (hash AND ucast (BITMASK (qf_bps qf)))"

definition hash_bucket_of :: "QF \<Rightarrow> u128 \<Rightarrow> nat" where
  "hash_bucket_of qf hash = unat (ucast (drop_bit (qf_bps qf) hash) :: u64)"

text \<open>The start of the run of a bucket, after the end of the run of the bucket before.\<close>

definition run_start :: "QF \<Rightarrow> nat \<Rightarrow> nat option" where
  "run_start qf hash_bucket_index =
    (if hash_bucket_index = 0 then Some 0 else map_option Suc (run_end qf (hash_bucket_index - 1)))"

definition insert1 :: "QF \<Rightarrow> u128 \<Rightarrow> u8 \<Rightarrow> (int \<times> QF) option" where
  "insert1 qf hash runtime_lock =
    (let hash_remainder = hash_remainder_of qf hash;
         hash_bucket_index = hash_bucket_of qf hash
     in do {
       (locked, qf) \<leftarrow> (if GET_NO_LOCK runtime_lock \<noteq> QF_NO_LOCK
                        then qf_lock qf hash_bucket_index True runtime_lock else Some (True, qf));
       if \<not> locked then Some (QF_COULDNT_LOCK, qf) else do {
         (space, ret_distance, qf) \<leftarrow>
           (if is_empty qf hash_bucket_index then do {
              let qf = md_set_bit qf runends hash_bucket_index;
              let qf = set_slot qf hash_bucket_index hash_remainder;
              let qf = md_set_bit qf occupieds hash_bucket_index;
              qf \<leftarrow> modify_metadata qf Ndistinct_elts 1;
              qf \<leftarrow> modify_metadata qf Noccupied_slots 1;
              qf \<leftarrow> modify_metadata qf Nelts 1;
              Some (True, 0, qf)
            } else do {
              runend_index \<leftarrow> run_end qf hash_bucket_index;
              runstart_index \<leftarrow> run_start qf hash_bucket_index;
              (qf, operation, insert_index, new_value) \<leftarrow>
                (if is_occupied qf hash_bucket_index
                 then insert1_plan qf runstart_index runend_index hash_remainder
                 else do {
                   qf \<leftarrow> modify_metadata qf Ndistinct_elts 1;
                   Some (qf, 0, runend_index + 1, hash_remainder)
                 });
              (space, ret_distance, qf) \<leftarrow>
                (if operation \<ge> 0 then do {
                   (space, qf) \<leftarrow> insert1_shift qf operation hash_bucket_index runend_index insert_index new_value;
                   Some (space, to_int32 (int insert_index - int hash_bucket_index), qf)
                 } else Some (True, 0, qf));
              if \<not> space then Some (False, ret_distance, qf) else do {
                qf \<leftarrow> modify_metadata qf Nelts 1;
                Some (True, ret_distance, md_set_bit qf occupieds hash_bucket_index)
              }
            });
         if \<not> space then Some (QF_NO_SPACE, qf) else do {
           qf \<leftarrow> (if GET_NO_LOCK runtime_lock \<noteq> QF_NO_LOCK then qf_unlock qf hash_bucket_index True else Some qf);
           Some (ret_distance, qf)
         }
       }
     })"

subsection \<open>Adding any number of occurrences\<close>

text \<open>The loop that walks the counters of a run to the one of \<open>hash_remainder\<close>, or past it.\<close>

partial_function (option) find_counter ::
    "QF \<Rightarrow> u64 \<Rightarrow> nat \<Rightarrow> nat \<Rightarrow> u64 \<Rightarrow> u64 \<Rightarrow> (nat \<times> nat \<times> u64 \<times> u64) option" where
  "find_counter qf hash_remainder runstart_index current_end current_remainder current_count =
    (if current_remainder < hash_remainder \<and> \<not> is_runend qf current_end then do {
       let runstart_index = current_end + 1;
       (current_end, current_remainder, current_count) \<leftarrow> decode_counter qf runstart_index;
       find_counter qf hash_remainder runstart_index current_end current_remainder current_count
     } else Some (runstart_index, current_end, current_remainder, current_count))"

text \<open>The call with the slots of the counter, and what the caller does with its result.\<close>

definition insert_at ::
    "QF \<Rightarrow> int \<Rightarrow> nat \<Rightarrow> nat \<Rightarrow> u64 list \<Rightarrow> nat \<Rightarrow> bool \<Rightarrow> (bool \<times> int \<times> QF) option" where
  "insert_at qf operation hash_bucket_index index p noverwrites fresh = do {
     (ret, qf) \<leftarrow> insert_replace_slots_and_shift_remainders_and_runends_and_offsets qf operation hash_bucket_index index p noverwrites;
     if \<not> ret then Some (False, 0, qf) else do {
       qf \<leftarrow> (if fresh then modify_metadata qf Ndistinct_elts 1 else Some qf);
       Some (True, to_int32 (int index - int hash_bucket_index), qf)
     }
   }"

text \<open>The case of a slot in use.\<close>

definition insert_nonempty :: "QF \<Rightarrow> u64 \<Rightarrow> nat \<Rightarrow> u64 \<Rightarrow> (bool \<times> int \<times> QF) option" where
  "insert_nonempty qf hash_remainder hash_bucket_index count = do {
     runstart_index \<leftarrow> run_start qf hash_bucket_index;
     (space, ret_distance, qf) \<leftarrow>
       (if \<not> is_occupied qf hash_bucket_index then do {
          p \<leftarrow> encode_counter qf hash_remainder count;
          insert_at qf 0 hash_bucket_index runstart_index p 0 True
        } else do {
          (current_end, current_remainder, current_count) \<leftarrow> decode_counter qf runstart_index;
          (runstart_index, current_end, current_remainder, current_count) \<leftarrow>
            find_counter qf hash_remainder runstart_index current_end current_remainder current_count;
          if current_remainder < hash_remainder then do {
            p \<leftarrow> encode_counter qf hash_remainder count;
            insert_at qf 1 hash_bucket_index (current_end + 1) p 0 True
          } else if current_remainder = hash_remainder then do {
            p \<leftarrow> encode_counter qf hash_remainder (current_count + count);
            insert_at qf (if is_runend qf current_end then 1 else 2) hash_bucket_index runstart_index p
              (current_end - runstart_index + 1) False
          } else do {
            p \<leftarrow> encode_counter qf hash_remainder count;
            insert_at qf 2 hash_bucket_index runstart_index p 0 True
          }
        });
     if \<not> space then Some (False, ret_distance, qf) else do {
       let qf = md_set_bit qf occupieds hash_bucket_index;
       qf \<leftarrow> modify_metadata qf Nelts (uint count);
       Some (True, ret_distance, qf)
     }
   }"

text \<open>
  \<^verbatim>\<open>insert\<close> fills an empty slot with one occurrence and calls itself for the rest; the call finds the slot in
  use, so it takes the other branch.  The result of the inner call is dropped, and so is its lack of space.
\<close>

partial_function (option) insert_qf :: "QF \<Rightarrow> u128 \<Rightarrow> u64 \<Rightarrow> u8 \<Rightarrow> (int \<times> QF) option" where
  "insert_qf qf hash count runtime_lock =
    (let hash_remainder = hash_remainder_of qf hash;
         hash_bucket_index = hash_bucket_of qf hash
     in do {
       (locked, qf) \<leftarrow> (if GET_NO_LOCK runtime_lock \<noteq> QF_NO_LOCK
                        then qf_lock qf hash_bucket_index False runtime_lock else Some (True, qf));
       if \<not> locked then Some (QF_COULDNT_LOCK, qf) else do {
         runend_index \<leftarrow> run_end qf hash_bucket_index;
         (space, ret_distance, qf) \<leftarrow>
           (if might_be_empty qf hash_bucket_index \<and> runend_index = hash_bucket_index then do {
              let qf = md_set_bit qf runends hash_bucket_index;
              let qf = set_slot qf hash_bucket_index hash_remainder;
              let qf = md_set_bit qf occupieds hash_bucket_index;
              qf \<leftarrow> modify_metadata qf Ndistinct_elts 1;
              qf \<leftarrow> modify_metadata qf Noccupied_slots 1;
              qf \<leftarrow> modify_metadata qf Nelts 1;
              if count > 1 then do {
                (_, qf) \<leftarrow> insert_qf qf hash (count - 1) QF_NO_LOCK;
                Some (True, 0, qf)
              } else Some (True, 0, qf)
            } else insert_nonempty qf hash_remainder hash_bucket_index count);
         if \<not> space then Some (QF_NO_SPACE, qf) else do {
           qf \<leftarrow> (if GET_NO_LOCK runtime_lock \<noteq> QF_NO_LOCK then qf_unlock qf hash_bucket_index False else Some qf);
           Some (ret_distance, qf)
         }
       }
     })"

end
