(* ===== verification/Hashutil.thy ===== *)
theory Hashutil
  imports Byte_Mem
begin

unbundle bit_operations_syntax

text \<open>
  The hash functions of \<^verbatim>\<open>terrace/code/src/gqf/hashutil.c\<close>: MurmurHash64A and MurmurHash64B
  on byte arrays, and the invertible integer hash \<open>hash_64\<close> with its inverse \<open>hash_64i\<close>.
  The results are that \<open>hash_64\<close> and \<open>hash_64i\<close> are mutually inverse on the k-bit integers for
  every width, and that MurmurHash64A loses nothing on the 8-byte keys the filter hashes.
\<close>

section \<open>Definitions\<close>

definition murmur64A_m :: u64 where "murmur64A_m = 0xc6a4a7935bd1e995"

definition murmur64A_mix :: "u64 \<Rightarrow> u64" where
  "murmur64A_mix k0 = (let k = k0 * murmur64A_m; k = k XOR drop_bit 47 k in k * murmur64A_m)"

fun murmur64A_body :: "nat \<Rightarrow> u8 list \<Rightarrow> u64 \<Rightarrow> u64 \<times> u8 list" where
  "murmur64A_body 0 data h = (h, data)"
| "murmur64A_body (Suc n) data h =
     murmur64A_body n (drop 8 data) ((h XOR murmur64A_mix (ld_bytes 8 data)) * murmur64A_m)"

definition murmur64A_tail :: "nat \<Rightarrow> u8 list \<Rightarrow> u64 \<Rightarrow> u64" where
  "murmur64A_tail r data2 h =
    (let h = (if r \<ge> 7 then h XOR push_bit 48 (ucast (data2 ! 6)) else h);
         h = (if r \<ge> 6 then h XOR push_bit 40 (ucast (data2 ! 5)) else h);
         h = (if r \<ge> 5 then h XOR push_bit 32 (ucast (data2 ! 4)) else h);
         h = (if r \<ge> 4 then h XOR push_bit 24 (ucast (data2 ! 3)) else h);
         h = (if r \<ge> 3 then h XOR push_bit 16 (ucast (data2 ! 2)) else h);
         h = (if r \<ge> 2 then h XOR push_bit 8 (ucast (data2 ! 1)) else h)
     in if r \<ge> 1 then (h XOR ucast (data2 ! 0)) * murmur64A_m else h)"

definition MurmurHash64A :: "u8 list \<Rightarrow> nat \<Rightarrow> u32 \<Rightarrow> u64" where
  "MurmurHash64A key len seed =
    (let h = ucast seed XOR (of_nat len * murmur64A_m);
         (h, data2) = murmur64A_body (len div 8) key h;
         h = murmur64A_tail (len mod 8) data2 h;
         h = h XOR drop_bit 47 h;
         h = h * murmur64A_m
     in h XOR drop_bit 47 h)"

definition murmur64B_m :: u32 where "murmur64B_m = 0x5bd1e995"

definition murmur64B_mix :: "u32 \<Rightarrow> u32" where
  "murmur64B_mix k0 = (let k = k0 * murmur64B_m; k = k XOR drop_bit 24 k in k * murmur64B_m)"

fun murmur64B_body :: "nat \<Rightarrow> u8 list \<Rightarrow> u32 \<Rightarrow> u32 \<Rightarrow> u32 \<times> u32 \<times> nat \<times> u8 list" where
  "murmur64B_body len data h1 h2 =
    (if len \<ge> 8 then
       let h1 = h1 * murmur64B_m; h1 = h1 XOR murmur64B_mix (ld_bytes 4 data);
           h2 = h2 * murmur64B_m; h2 = h2 XOR murmur64B_mix (ld_bytes 4 (drop 4 data))
       in murmur64B_body (len - 8) (drop 8 data) h1 h2
     else if len \<ge> 4 then
       let h1 = h1 * murmur64B_m; h1 = h1 XOR murmur64B_mix (ld_bytes 4 data)
       in (h1, h2, len - 4, drop 4 data)
     else (h1, h2, len, data))"

declare murmur64B_body.simps [simp del]

definition murmur64B_tail :: "nat \<Rightarrow> u8 list \<Rightarrow> u32 \<Rightarrow> u32" where
  "murmur64B_tail len data h2 =
    (let h2 = (if len = 3 then h2 XOR push_bit 16 (ucast (data ! 2)) else h2);
         h2 = (if 2 \<le> len \<and> len \<le> 3 then h2 XOR push_bit 8 (ucast (data ! 1)) else h2)
     in if 1 \<le> len \<and> len \<le> 3 then (h2 XOR ucast (data ! 0)) * murmur64B_m else h2)"

definition MurmurHash64B :: "u8 list \<Rightarrow> nat \<Rightarrow> u32 \<Rightarrow> u64" where
  "MurmurHash64B key len seed =
    (let h1 = seed XOR of_nat len;
         (h1, h2, len', data) = murmur64B_body len key h1 0;
         h2 = murmur64B_tail len' data h2;
         h1 = (h1 XOR drop_bit 18 h2) * murmur64B_m;
         h2 = (h2 XOR drop_bit 22 h1) * murmur64B_m;
         h1 = (h1 XOR drop_bit 17 h2) * murmur64B_m;
         h2 = (h2 XOR drop_bit 19 h1) * murmur64B_m
     in push_bit 32 (ucast h1) OR ucast h2)"

definition hash_64 :: "u64 \<Rightarrow> u64 \<Rightarrow> u64" where
  "hash_64 key mask' =
    (let key = (NOT key + push_bit 21 key) AND mask';
         key = key XOR drop_bit 24 key;
         key = ((key + push_bit 3 key) + push_bit 8 key) AND mask';
         key = key XOR drop_bit 14 key;
         key = ((key + push_bit 2 key) + push_bit 4 key) AND mask';
         key = key XOR drop_bit 28 key
     in (key + push_bit 31 key) AND mask')"

definition hash_64i :: "u64 \<Rightarrow> u64 \<Rightarrow> u64" where
  "hash_64i key mask' =
    (let tmp = key - push_bit 31 key;
         key = (key - push_bit 31 tmp) AND mask';
         tmp = key XOR drop_bit 28 key;
         key = key XOR drop_bit 28 tmp;
         key = (key * 14933078535860113213) AND mask';
         tmp = key XOR drop_bit 14 key;
         tmp = key XOR drop_bit 14 tmp;
         tmp = key XOR drop_bit 14 tmp;
         key = key XOR drop_bit 14 tmp;
         key = (key * 15244667743933553977) AND mask';
         tmp = key XOR drop_bit 24 key;
         key = key XOR drop_bit 24 tmp;
         tmp = NOT key;
         tmp = NOT (key - push_bit 21 tmp);
         tmp = NOT (key - push_bit 21 tmp)
     in NOT (key - push_bit 21 tmp) AND mask')"

section \<open>Arithmetic modulo a power of two on words\<close>

lemma tb_add: "take_bit k (take_bit k a + take_bit k b) = take_bit k (a + b)" for a b :: "'a::len word"
  by transfer (simp add: take_bit_add)

lemma tb_mult: "take_bit k (take_bit k a * take_bit k b) = take_bit k (a * b)" for a b :: "'a::len word"
  by transfer (simp add: take_bit_mult)

lemma tb_diff: "take_bit k (take_bit k a - take_bit k b) = take_bit k (a - b)" for a b :: "'a::len word"
  by transfer (simp add: take_bit_diff)

lemma tb_cong_mult: "take_bit k a = take_bit k b \<Longrightarrow> take_bit k (a * c) = take_bit k (b * c)" for a b c :: "'a::len word"
  by (metis tb_mult)

lemma tb_cong_diff: "take_bit k a = take_bit k b \<Longrightarrow> take_bit k c = take_bit k d \<Longrightarrow>
    take_bit k (a - c) = take_bit k (b - d)" for a b c d :: "'a::len word"
  by (metis tb_diff)

lemma tb_cong_not: "take_bit k a = take_bit k b \<Longrightarrow> take_bit k (NOT a) = take_bit k (NOT b)" for a b :: "'a::len word"
proof -
  assume "take_bit k a = take_bit k b"
  then have "take_bit k (- 1 - a) = take_bit k (- 1 - b)" by (rule tb_cong_diff [OF refl])
  then show ?thesis by (simp only: not_eq_complement minus_diff_commute [of _ 1])
qed

lemma tb_cong_shl: "take_bit k a = take_bit k b \<Longrightarrow> take_bit k (push_bit n a) = take_bit k (push_bit n b)" for a b :: "'a::len word"
  unfolding push_bit_eq_mult by (rule tb_cong_mult)

lemmas tb_congs = tb_cong_diff tb_cong_not tb_cong_shl

section \<open>Inverting each step\<close>

lemma push_bit_small: "64 \<le> n \<Longrightarrow> push_bit n x = 0" for x :: u64
  by (simp add: bit_eq_iff bit_push_bit_iff)

lemma drop_bit_large: "64 \<le> n \<Longrightarrow> drop_bit n x = 0" for x :: u64
  by (rule bit_word_eqI) (simp add: bit_simps)

lemmas shift_algebra = drop_bit_xor drop_bit_drop_bit xor.assoc xor.left_commute

lemma inv_xorshift_28: "y = x XOR drop_bit 28 x \<Longrightarrow> y XOR drop_bit 28 (y XOR drop_bit 28 y) = x" for x :: u64
  by (simp add: shift_algebra drop_bit_large)

lemma inv_xorshift_24: "y = x XOR drop_bit 24 x \<Longrightarrow> y XOR drop_bit 24 (y XOR drop_bit 24 y) = x" for x :: u64
  by (simp add: shift_algebra drop_bit_large)

lemma inv_xorshift_14:
  "y = x XOR drop_bit 14 x \<Longrightarrow>
   y XOR drop_bit 14 (y XOR drop_bit 14 (y XOR drop_bit 14 (y XOR drop_bit 14 y))) = x" for x :: u64
  by (simp add: shift_algebra drop_bit_large)

lemma word64_overflow:
  "(9903520314283042199192993793 :: u64) = 1" "(19342813113834066795298816 :: u64) = 0"
  by (simp_all add: word_uint_eq_iff)

lemma inv_add_shl_31:
  "take_bit k ((let y = x + push_bit 31 x in y - push_bit 31 (y - push_bit 31 y))) = take_bit k x" for x :: u64
  by (simp add: push_bit_eq_mult algebra_simps word64_overflow)

lemma inv_not_shl_21:
  fixes x :: u64
  defines "y \<equiv> NOT x + push_bit 21 x"
  shows "NOT (y - push_bit 21 (NOT (y - push_bit 21 (NOT (y - push_bit 21 (NOT y)))))) = x"
  unfolding y_def by (simp add: push_bit_eq_mult not_eq_complement algebra_simps word64_overflow)


section \<open>The invertible hash\<close>

lemma take_bit_xorshift: "take_bit k x = x \<Longrightarrow> take_bit k (x XOR drop_bit n x) = x XOR drop_bit n x" for x :: u64
proof -
  assume "take_bit k x = x"
  then have "bit x i \<Longrightarrow> i < k" for i by (metis bit_take_bit_iff)
  then show ?thesis by (intro bit_word_eqI) (force simp: bit_simps)
qed

lemma hash_64_step1:
  "take_bit k x = x \<Longrightarrow> z = take_bit k (NOT x + push_bit 21 x) \<Longrightarrow>
   take_bit k (NOT (z - push_bit 21 (NOT (z - push_bit 21 (NOT (z - push_bit 21 (NOT z))))))) = x" for x :: u64
proof -
  assume x: "take_bit k x = x" and z: "z = take_bit k (NOT x + push_bit 21 x)"
  let ?y = "NOT x + push_bit 21 x"
  have "take_bit k z = take_bit k ?y" by (simp add: z)
  then have "take_bit k (NOT (z - push_bit 21 (NOT (z - push_bit 21 (NOT (z - push_bit 21 (NOT z)))))))
    = take_bit k (NOT (?y - push_bit 21 (NOT (?y - push_bit 21 (NOT (?y - push_bit 21 (NOT ?y)))))))"
    by (intro tb_congs)
  then show ?thesis unfolding inv_not_shl_21 x .
qed

lemma hash_64_step7:
  "take_bit k x = x \<Longrightarrow> z = take_bit k (x + push_bit 31 x) \<Longrightarrow>
   take_bit k (z - push_bit 31 (z - push_bit 31 z)) = x" for x :: u64
proof -
  assume x: "take_bit k x = x" and z: "z = take_bit k (x + push_bit 31 x)"
  let ?y = "x + push_bit 31 x"
  have "take_bit k z = take_bit k ?y" by (simp add: z)
  then have "take_bit k (z - push_bit 31 (z - push_bit 31 z)) = take_bit k (?y - push_bit 31 (?y - push_bit 31 ?y))"
    by (intro tb_congs)
  then show ?thesis using inv_add_shl_31 [of k x] x by (simp add: Let_def)
qed

lemma hash_64_mult_step:
  "take_bit k x = x \<Longrightarrow> c * d = 1 \<Longrightarrow> take_bit k (take_bit k (x * c) * d) = x" for x c d :: u64
proof -
  assume x: "take_bit k x = x" and c: "c * d = 1"
  have "take_bit k (take_bit k (x * c) * d) = take_bit k (x * c * d)"
    by (rule tb_cong_mult) simp
  with x c show ?thesis by (simp add: mult.assoc)
qed

lemma hash_64_steps:
  "x + push_bit 3 x + push_bit 8 x = x * 265" "x + push_bit 2 x + push_bit 4 x = x * 21" for x :: u64
  by (simp_all add: push_bit_eq_mult algebra_simps)

lemma hash_inverse_constants: "(265 :: u64) * 15244667743933553977 = 1" "(21 :: u64) * 14933078535860113213 = 1"
  by (simp_all add: word_uint_eq_iff)

lemma hash_64i_hash_64_aux:
  assumes "x \<le> mask k"
  shows "hash_64i (hash_64 x (mask k)) (mask k) = x"
proof -
  have x: "take_bit k x = x" using assms by (simp add: mask_le_iff)
  define a1 where "a1 = take_bit k (NOT x + push_bit 21 x)"
  define a2 where "a2 = a1 XOR drop_bit 24 a1"
  define a3 where "a3 = take_bit k (a2 * 265)"
  define a4 where "a4 = a3 XOR drop_bit 14 a3"
  define a5 where "a5 = take_bit k (a4 * 21)"
  define a6 where "a6 = a5 XOR drop_bit 28 a5"
  define a7 where "a7 = take_bit k (a6 + push_bit 31 a6)"
  have fx: "take_bit k a1 = a1" "take_bit k a3 = a3" "take_bit k a5 = a5"
    by (simp_all add: a1_def a3_def a5_def)
  then have fx': "take_bit k a2 = a2" "take_bit k a4 = a4" "take_bit k a6 = a6"
    by (simp_all only: a2_def a4_def a6_def take_bit_xorshift)
  have h: "hash_64 x (mask k) = a7"
    unfolding hash_64_def Let_def take_bit_eq_mask [symmetric] hash_64_steps
    by (simp only: a1_def a2_def a3_def a4_def a5_def a6_def a7_def)
  have b6: "take_bit k (a7 - push_bit 31 (a7 - push_bit 31 a7)) = a6"
    by (rule hash_64_step7 [OF fx'(3)]) (simp add: a7_def)
  have b5: "a6 XOR drop_bit 28 (a6 XOR drop_bit 28 a6) = a5"
    by (rule inv_xorshift_28) (simp add: a6_def)
  have b4: "take_bit k (a5 * 14933078535860113213) = a4"
    unfolding a5_def by (rule hash_64_mult_step [OF fx'(2) hash_inverse_constants(2)])
  have b3: "a4 XOR drop_bit 14 (a4 XOR drop_bit 14 (a4 XOR drop_bit 14 (a4 XOR drop_bit 14 a4))) = a3"
    by (rule inv_xorshift_14) (simp add: a4_def)
  have b2: "take_bit k (a3 * 15244667743933553977) = a2"
    unfolding a3_def by (rule hash_64_mult_step [OF fx'(1) hash_inverse_constants(1)])
  have b1: "a2 XOR drop_bit 24 (a2 XOR drop_bit 24 a2) = a1"
    by (rule inv_xorshift_24) (simp add: a2_def)
  have b0: "take_bit k (NOT (a1 - push_bit 21 (NOT (a1 - push_bit 21 (NOT (a1 - push_bit 21 (NOT a1))))))) = x"
    by (rule hash_64_step1 [OF x]) (simp add: a1_def)
  show ?thesis
    unfolding h hash_64i_def Let_def take_bit_eq_mask [symmetric]
    by (simp only: b6 b5 b4 b3 b2 b1 b0)
qed

lemma hash_64_le_mask: "hash_64 x (mask k) \<le> mask k"
  by (simp add: hash_64_def Let_def word_and_le1)

lemma hash_64_bij: "bij_betw (\<lambda>x. hash_64 x (mask k)) {x. x \<le> mask k} {x. x \<le> mask k}"
proof -
  have inj: "inj_on (\<lambda>x. hash_64 x (mask k)) {x. x \<le> mask k}"
    by (rule inj_on_inverseI [where g = "\<lambda>y. hash_64i y (mask k)"]) (simp add: hash_64i_hash_64_aux)
  moreover have "(\<lambda>x. hash_64 x (mask k)) ` {x. x \<le> mask k} \<subseteq> {x. x \<le> mask k}"
    using hash_64_le_mask by auto
  ultimately show ?thesis by (simp add: bij_betw_def endo_inj_surj)
qed

lemma hash_64_hash_64i_aux:
  assumes "y \<le> mask k"
  shows "hash_64 (hash_64i y (mask k)) (mask k) = y"
proof -
  have "y \<in> (\<lambda>x. hash_64 x (mask k)) ` {x. x \<le> mask k}"
    using hash_64_bij [of k] assms by (simp add: bij_betw_def)
  then show ?thesis using hash_64i_hash_64_aux by auto
qed

section \<open>MurmurHash64A on 8-byte keys\<close>

lemma xorshift_47_inj: "x XOR drop_bit 47 x = y XOR drop_bit 47 y \<Longrightarrow> x = y" for x y :: u64
proof -
  have "(z XOR drop_bit 47 z) XOR drop_bit 47 (z XOR drop_bit 47 z) = z" for z :: u64
    by (simp add: shift_algebra drop_bit_large)
  then show "x XOR drop_bit 47 x = y XOR drop_bit 47 y \<Longrightarrow> x = y" by metis
qed

lemma murmur64A_m_inj: "x * murmur64A_m = y * murmur64A_m \<Longrightarrow> x = y"
proof -
  have "murmur64A_m * 6879827495036328381 = 1" by (simp add: murmur64A_m_def word_uint_eq_iff)
  then have inv: "z * murmur64A_m * 6879827495036328381 = z" for z
    by (simp only: mult.assoc mult_1_right)
  show "x = y" if "x * murmur64A_m = y * murmur64A_m"
    using inv [of x] unfolding that inv by (rule sym)
qed

lemma murmur64A_mix_inj: "murmur64A_mix x = murmur64A_mix y \<Longrightarrow> x = y"
  unfolding murmur64A_mix_def Let_def
  by (drule murmur64A_m_inj, drule xorshift_47_inj, drule murmur64A_m_inj)

lemma xor_left_inj: "h XOR x = h XOR y \<Longrightarrow> x = y" for x y h :: "'a::len word"
  by (metis xor.assoc xor.left_neutral xor_self_eq)

lemma ld_bytes_inj:
  assumes "length xs = 8" "length ys = 8" "ld_bytes 8 xs = (ld_bytes 8 ys :: u64)"
  shows "xs = ys"
proof (rule nth_equalityI)
  fix j assume j: "j < length xs"
  show "xs ! j = ys ! j"
  proof (rule bit_word_eqI)
    fix i assume "i < LENGTH(8)"
    then have "(8 * j + i) div 8 = j" "(8 * j + i) mod 8 = i" "8 * j + i < 64" using j assms by auto
    then show "bit (xs ! j) i = bit (ys ! j) i"
      using bit_ld_bytes [of xs 8 "8 * j + i", where ?'a = 64] bit_ld_bytes [of ys 8 "8 * j + i", where ?'a = 64] assms by simp
  qed
qed (simp add: assms)

lemma MurmurHash64A_8:
  "MurmurHash64A key 8 seed = (let h = (ucast seed XOR (8 * murmur64A_m) XOR murmur64A_mix (ld_bytes 8 key)) * murmur64A_m;
     h = (h XOR drop_bit 47 h) * murmur64A_m in h XOR drop_bit 47 h)"
proof -
  have "murmur64A_body 1 key h = ((h XOR murmur64A_mix (ld_bytes 8 key)) * murmur64A_m, drop 8 key)" for h
    unfolding One_nat_def by (simp del: ld_bytes.simps)
  then show ?thesis by (simp add: MurmurHash64A_def murmur64A_tail_def Let_def xor.assoc)
qed


lemma MurmurHash64A_8_inj:
  assumes "length xs = 8" "length ys = 8" "MurmurHash64A xs 8 seed = MurmurHash64A ys 8 seed"
  shows "xs = ys"
proof -
  let ?h = "ucast seed XOR (8 * murmur64A_m)"
  have "?h XOR murmur64A_mix (ld_bytes 8 xs) = ?h XOR murmur64A_mix (ld_bytes 8 ys)"
    using assms(3) [unfolded MurmurHash64A_8 Let_def, THEN xorshift_47_inj, THEN murmur64A_m_inj,
        THEN xorshift_47_inj, THEN murmur64A_m_inj]
    by (simp only: xor.assoc)
  from this [THEN xor_left_inj, THEN murmur64A_mix_inj]
  show ?thesis by (rule ld_bytes_inj [OF assms(1,2)])
qed

end
