(* ===== verification/GQF_Query.thy ===== *)
theory GQF_Query
  imports GQF_Insert Hashutil
begin

unbundle bit_operations_syntax

text \<open>
  Read operations of \<^verbatim>\<open>terrace/code/src/gqf/gqf.c\<close>: the hash of a key, the lookups \<^verbatim>\<open>qf_count_key_value\<close>,
  \<^verbatim>\<open>qf_query\<close> and \<^verbatim>\<open>qf_get_unique_index\<close>, the accessors of the header, and iterators.  An iterator
  keeps a pointer to its filter; the model passes the filter beside it.
\<close>

section \<open>Definitions\<close>

subsection \<open>Hashes\<close>

text \<open>The block of code every operation on a key starts with.\<close>

definition hash_key :: "QF \<Rightarrow> u64 \<Rightarrow> u8 \<Rightarrow> u64" where
  "hash_key qf key flags =
    (if GET_KEY_HASH flags \<noteq> QF_KEY_IS_HASH then
       (case hash_mode (metadata qf) of
          QF_HASH_DEFAULT \<Rightarrow> of_nat (unat (MurmurHash64A (word_bytes_le key) 8 (md_seed (metadata qf))) mod md_range (metadata qf))
        | QF_HASH_INVERTIBLE \<Rightarrow> hash_64 key (BITMASK (key_bits (metadata qf)))
        | QF_HASH_NONE \<Rightarrow> key)
     else key)"

definition key_value_hash :: "QF \<Rightarrow> u64 \<Rightarrow> u64 \<Rightarrow> u64" where
  "key_value_hash qf key value =
     push_bit (value_bits (metadata qf)) key OR (value AND BITMASK (value_bits (metadata qf)))"

subsection \<open>Lookups\<close>

definition lookup_start :: "QF \<Rightarrow> nat \<Rightarrow> nat option" where
  "lookup_start qf hash_bucket_index = do {
     runstart_index \<leftarrow> run_start qf hash_bucket_index;
     Some (if runstart_index < hash_bucket_index then hash_bucket_index else runstart_index)
   }"

partial_function (option) count_loop :: "QF \<Rightarrow> u64 \<Rightarrow> nat \<Rightarrow> u64 option" where
  "count_loop qf hash_remainder runstart_index = do {
     (current_end, current_remainder, current_count) \<leftarrow> decode_counter qf runstart_index;
     if current_remainder = hash_remainder then Some current_count
     else if \<not> is_runend qf current_end then count_loop qf hash_remainder (current_end + 1)
     else Some 0
   }"

definition qf_count_key_value :: "QF \<Rightarrow> u64 \<Rightarrow> u64 \<Rightarrow> u8 \<Rightarrow> u64 option" where
  "qf_count_key_value qf key value flags =
    (let hash = key_value_hash qf (hash_key qf key flags) value;
         hash_remainder = hash AND BITMASK (qf_bps qf);
         hash_bucket_index = unat (drop_bit (qf_bps qf) hash)
     in if \<not> is_occupied qf hash_bucket_index then Some 0
        else do {
          runstart_index \<leftarrow> lookup_start qf hash_bucket_index;
          count_loop qf hash_remainder runstart_index
        })"

text \<open>\<^verbatim>\<open>qf_query\<close> also stores a value through a pointer, on every round of its loop: the second component.\<close>

partial_function (option) query_loop :: "QF \<Rightarrow> u64 \<Rightarrow> nat \<Rightarrow> (u64 \<times> u64) option" where
  "query_loop qf hash_remainder runstart_index = do {
     (current_end, current_remainder, current_count) \<leftarrow> decode_counter qf runstart_index;
     let value = current_remainder AND BITMASK (value_bits (metadata qf));
     if drop_bit (value_bits (metadata qf)) current_remainder = hash_remainder then Some (current_count, value)
     else if \<not> is_runend qf current_end then query_loop qf hash_remainder (current_end + 1)
     else Some (0, value)
   }"

definition qf_query :: "QF \<Rightarrow> u64 \<Rightarrow> u64 \<Rightarrow> u8 \<Rightarrow> (u64 \<times> u64) option" where
  "qf_query qf key value flags =
    (let hash = hash_key qf key flags;
         hash_remainder = hash AND BITMASK (key_remainder_bits (metadata qf));
         hash_bucket_index = unat (drop_bit (key_remainder_bits (metadata qf)) hash)
     in if \<not> is_occupied qf hash_bucket_index then Some (0, value)
        else do {
          runstart_index \<leftarrow> lookup_start qf hash_bucket_index;
          query_loop qf hash_remainder runstart_index
        })"

partial_function (option) index_loop :: "QF \<Rightarrow> u64 \<Rightarrow> nat \<Rightarrow> int option" where
  "index_loop qf hash_remainder runstart_index = do {
     (current_end, current_remainder, current_count) \<leftarrow> decode_counter qf runstart_index;
     if current_remainder = hash_remainder then Some (int runstart_index)
     else if \<not> is_runend qf current_end then index_loop qf hash_remainder (current_end + 1)
     else Some QF_DOESNT_EXIST
   }"

definition qf_get_unique_index :: "QF \<Rightarrow> u64 \<Rightarrow> u64 \<Rightarrow> u8 \<Rightarrow> int option" where
  "qf_get_unique_index qf key value flags =
    (let hash = key_value_hash qf (hash_key qf key flags) value;
         hash_remainder = hash AND BITMASK (qf_bps qf);
         hash_bucket_index = unat (drop_bit (qf_bps qf) hash)
     in if \<not> is_occupied qf hash_bucket_index then Some QF_DOESNT_EXIST
        else do {
          runstart_index \<leftarrow> lookup_start qf hash_bucket_index;
          index_loop qf hash_remainder runstart_index
        })"

subsection \<open>Accessors\<close>

definition qf_get_hashmode :: "QF \<Rightarrow> qf_hashmode" where "qf_get_hashmode qf = hash_mode (metadata qf)"
definition qf_get_hash_seed :: "QF \<Rightarrow> u64" where "qf_get_hash_seed qf = ucast (md_seed (metadata qf))"
definition qf_get_hash_range :: "QF \<Rightarrow> nat" where "qf_get_hash_range qf = md_range (metadata qf)"
definition qf_is_auto_resize_enabled :: "QF \<Rightarrow> bool" where
  "qf_is_auto_resize_enabled qf \<longleftrightarrow> auto_resize (metadata qf) = 1"
definition qf_get_total_size_in_bytes :: "QF \<Rightarrow> nat" where
  "qf_get_total_size_in_bytes qf = total_size_in_bytes (metadata qf)"
definition qf_get_nslots :: "QF \<Rightarrow> nat" where "qf_get_nslots qf = nslots (metadata qf)"
definition qf_get_num_occupied_slots :: "QF \<Rightarrow> u64" where "qf_get_num_occupied_slots qf = noccupied_slots (metadata qf)"
definition qf_get_num_key_bits :: "QF \<Rightarrow> nat" where "qf_get_num_key_bits qf = key_bits (metadata qf)"
definition qf_get_num_value_bits :: "QF \<Rightarrow> nat" where "qf_get_num_value_bits qf = value_bits (metadata qf)"
definition qf_get_num_key_remainder_bits :: "QF \<Rightarrow> nat" where
  "qf_get_num_key_remainder_bits qf = key_remainder_bits (metadata qf)"
definition qf_get_bits_per_slot :: "QF \<Rightarrow> nat" where "qf_get_bits_per_slot qf = bits_per_slot (metadata qf)"
definition qf_get_sum_of_counts :: "QF \<Rightarrow> u64" where "qf_get_sum_of_counts qf = nelts (metadata qf)"
definition qf_get_num_distinct_key_value_pairs :: "QF \<Rightarrow> u64" where
  "qf_get_num_distinct_key_value_pairs qf = ndistinct_elts (metadata qf)"

subsection \<open>Iterators\<close>

record quotient_filter_iterator =
  run :: nat
  current :: nat
  num_clusters :: nat

type_synonym QFi = quotient_filter_iterator

abbreviation UINT64_MAX :: nat where "UINT64_MAX \<equiv> 0xffffffffffffffff"

text \<open>The loop to the first block from \<open>block_index\<close> on with an occupied bucket; it may stop one block past the last.\<close>

function scan_blocks :: "QF \<Rightarrow> nat \<Rightarrow> nat \<Rightarrow> nat \<times> nat" where
  "scan_blocks qf block_index idx =
    (if idx = 64 \<and> block_index < nblocks (metadata qf)
     then scan_blocks qf (block_index + 1) (unat (bitselect (occ_word qf (block_index + 1)) 0))
     else (block_index, idx))"
  by pat_completeness auto

termination by (relation "measure (\<lambda>(qf, b, idx). nblocks (metadata qf) - b)") auto

declare scan_blocks.simps [simp del]

definition first_occupied_from :: "QF \<Rightarrow> nat \<Rightarrow> nat" where
  "first_occupied_from qf position =
    (let block_index = position div QF_SLOTS_PER_BLOCK;
         idx = unat (bitselect (occ_word qf block_index) 0);
         (block_index, idx) = scan_blocks qf block_index idx
     in block_index * QF_SLOTS_PER_BLOCK + idx)"

definition qf_iterator_from_position :: "QF \<Rightarrow> QFi \<Rightarrow> nat \<Rightarrow> (int \<times> QFi) option" where
  "qf_iterator_from_position qf qfi position =
    (if position = UINT64_MAX then Some (QFI_INVALID, qfi\<lparr>current := UINT64_MAX\<rparr>)
     else let position = (if \<not> is_occupied qf position then first_occupied_from qf position else position)
          in do {
            start \<leftarrow> run_start qf position;
            let start = (if start < position then position else start);
            let qfi = qfi\<lparr>num_clusters := 0, run := position, current := start\<rparr>;
            Some (if start \<ge> nslots (metadata qf) then QFI_INVALID else int start, qfi)
          })"

partial_function (option) find_ge_loop :: "QF \<Rightarrow> u64 \<Rightarrow> nat \<Rightarrow> (bool \<times> nat) option" where
  "find_ge_loop qf hash_remainder runstart_index = do {
     (current_end, current_remainder, current_count) \<leftarrow> decode_counter qf runstart_index;
     if current_remainder \<ge> hash_remainder then Some (True, runstart_index)
     else if \<not> is_runend qf current_end then find_ge_loop qf hash_remainder (current_end + 1)
     else Some (False, current_end + 1)
   }"

definition qf_iterator_from_key_value :: "QF \<Rightarrow> QFi \<Rightarrow> u64 \<Rightarrow> u64 \<Rightarrow> u8 \<Rightarrow> (int \<times> QFi) option" where
  "qf_iterator_from_key_value qf qfi key value flags =
    (if unat key \<ge> md_range (metadata qf) then Some (QFI_INVALID, qfi\<lparr>current := UINT64_MAX\<rparr>)
     else let qfi = qfi\<lparr>num_clusters := 0\<rparr>;
              hash = key_value_hash qf (hash_key qf key flags) value;
              hash_remainder = hash AND BITMASK (qf_bps qf);
              hash_bucket_index = unat (drop_bit (qf_bps qf) hash)
          in do {
            (flag, runstart_index) \<leftarrow>
              (if is_occupied qf hash_bucket_index then do {
                 runstart_index \<leftarrow> lookup_start qf hash_bucket_index;
                 find_ge_loop qf hash_remainder runstart_index
               } else Some (False, 0));
            qfi \<leftarrow> (if flag then Some (qfi\<lparr>run := hash_bucket_index, current := runstart_index\<rparr>)
                    else do {
                      let position = first_occupied_from qf hash_bucket_index;
                      start \<leftarrow> run_start qf position;
                      Some (qfi\<lparr>run := position, current := if start < position then position else start\<rparr>)
                    });
            Some (if current qfi \<ge> nslots (metadata qf) then QFI_INVALID else int (current qfi), qfi)
          })"

definition qfi_end :: "QF \<Rightarrow> QFi \<Rightarrow> bool" where
  "qfi_end qf qfi \<longleftrightarrow> current qfi \<ge> xnslots (metadata qf)"

text \<open>The result, and the key, value and count stored through the pointers (unchanged at the end).\<close>

definition qfi_get :: "QF \<Rightarrow> QFi \<Rightarrow> u64 \<times> u64 \<times> u64 \<Rightarrow> (int \<times> u64 \<times> u64 \<times> u64) option" where
  "qfi_get qf qfi kvc =
    (if qfi_end qf qfi then Some (QFI_INVALID, kvc)
     else do {
       (_, current_remainder, current_count) \<leftarrow> decode_counter qf (current qfi);
       let value = current_remainder AND BITMASK (value_bits (metadata qf));
       let current_remainder = drop_bit (value_bits (metadata qf)) current_remainder;
       let key = push_bit (key_remainder_bits (metadata qf)) (of_nat (run qfi)) OR current_remainder;
       Some (0, key, value, current_count)
     })"

definition qfi_get_key :: "QF \<Rightarrow> QFi \<Rightarrow> (int \<times> u64 \<times> u64 \<times> u64) option" where
  "qfi_get_key qf qfi = do {
     (ret, key, value, count) \<leftarrow> qfi_get qf qfi (0, 0, 0);
     if ret = 0 then
       (case hash_mode (metadata qf) of
          QF_HASH_DEFAULT \<Rightarrow> Some (QF_INVALID, 0, 0, 0)
        | QF_HASH_INVERTIBLE \<Rightarrow> Some (ret, hash_64i key (BITMASK (key_bits (metadata qf))), value, count)
        | QF_HASH_NONE \<Rightarrow> Some (ret, key, value, count))
     else Some (ret, key, value, count)
   }"

definition qfi_get_hash :: "QF \<Rightarrow> QFi \<Rightarrow> (int \<times> u64 \<times> u64 \<times> u64) option" where
  "qfi_get_hash qf qfi = qfi_get qf qfi (0, 0, 0)"

definition qfi_next :: "QF \<Rightarrow> QFi \<Rightarrow> (int \<times> QFi) option" where
  "qfi_next qf qfi =
    (if qfi_end qf qfi then Some (QFI_INVALID, qfi)
     else do {
       (current_end, _, _) \<leftarrow> decode_counter qf (current qfi);
       let qfi = qfi\<lparr>current := current_end\<rparr>;
       if \<not> is_runend qf (current qfi) then
         let qfi = qfi\<lparr>current := current qfi + 1\<rparr>
         in Some (if qfi_end qf qfi then QFI_INVALID else 0, qfi)
       else
         let block_index = run qfi div QF_SLOTS_PER_BLOCK;
             rank = bitrank (occ_word qf block_index) (run qfi mod QF_SLOTS_PER_BLOCK);
             next_run = unat (bitselect (occ_word qf block_index) rank);
             (block_index, next_run) = scan_blocks qf block_index next_run
         in if block_index = nblocks (metadata qf)
            then Some (QFI_INVALID, qfi\<lparr>run := xnslots (metadata qf), current := xnslots (metadata qf)\<rparr>)
            else let qfi = qfi\<lparr>run := block_index * QF_SLOTS_PER_BLOCK + next_run, current := current qfi + 1\<rparr>
                 in Some (0, if current qfi < run qfi then qfi\<lparr>current := run qfi\<rparr> else qfi)
     })"

section \<open>Runs as lists of counters\<close>

text \<open>
  The contents of a run: remainders with their counts, in the order of the slots.  \<open>run_layout qf i es\<close> says that the
  slots from \<open>i\<close> on hold the encodings of \<open>es\<close>, remainders ascending, and that the run ends with the last of them.
\<close>

type_synonym entries = "(u64 \<times> u64) list"

fun run_layout :: "QF \<Rightarrow> nat \<Rightarrow> entries \<Rightarrow> bool" where
  "run_layout qf i [] = False"
| "run_layout qf i ((r, c) # es) =
    (case encode_counter qf r c of
       None \<Rightarrow> False
     | Some ss \<Rightarrow> c \<noteq> 0 \<and> r \<le> BITMASK (qf_bps qf) \<and> holds qf i ss \<and> no_runend qf i (i + length ss - 1) \<and>
         (if es = [] then is_runend qf (i + length ss - 1)
          else \<not> is_runend qf (i + length ss - 1) \<and> r < fst (hd es) \<and> run_layout qf (i + length ss) es))"

definition count_of :: "entries \<Rightarrow> u64 \<Rightarrow> u64" where
  "count_of es r = (case map_of es r of None \<Rightarrow> 0 | Some c \<Rightarrow> c)"

text \<open>No two adjacent zero slots.\<close>

definition no_zz :: "u64 list \<Rightarrow> bool" where
  "no_zz xs \<longleftrightarrow> (\<forall>j. Suc j < length xs \<longrightarrow> xs ! j \<noteq> 0 \<or> xs ! Suc j \<noteq> 0)"

lemma no_zz_nz: "0 \<notin> set xs \<Longrightarrow> no_zz xs"
  unfolding no_zz_def by (metis Suc_lessD nth_mem)

lemma no_zz_Cons: "x \<noteq> 0 \<Longrightarrow> no_zz xs \<Longrightarrow> no_zz (x # xs)"
  unfolding no_zz_def by (auto simp: nth_Cons split: nat.split)

lemma encode_nonzero:
  assumes "width_ok qf" "r \<le> BITMASK (qf_bps qf)" "encode_counter qf r c = Some ss" "r \<noteq> 0" "c \<noteq> 0"
  shows "no_zz ss" "ss \<noteq> []" "hd ss = r" "last ss = r"
proof -
  show "ss \<noteq> []" "hd ss = r" "last ss = r"
    using encode_counter_length [OF assms(1,2), of c] assms(3,5) by auto
  show "no_zz ss"
  proof (cases c rule: word_count_cases)
    case 5
    from encode_counter_big [OF assms(1,2) 5(1)] assms(3,4) obtain ds where
      ss: "ss = r # (if r \<le> hd ds then [0] else []) @ ds @ [r]" "ds \<noteq> []" "\<forall>e \<in> set ds. e \<noteq> 0" by auto
    have "no_zz (ds @ [r])" using ss assms(4) by (intro no_zz_nz) auto
    moreover have "no_zz (0 # ds @ [r])" using ss calculation
      by (cases ds) (auto simp: no_zz_def nth_Cons split: nat.split)
    ultimately show ?thesis using ss assms(4) by (auto intro!: no_zz_Cons)
  qed (use assms in \<open>auto simp: encode_counter_def no_zz_def word_gt_0 nth_Cons less_Suc_eq split: if_splits nat.split\<close>)
qed

lemma layout_no_zz:
  assumes "width_ok qf" "run_layout qf i es" "\<forall>x \<in> set es. fst x \<noteq> 0"
  shows "get_slot qf i \<noteq> 0 \<and> (\<exists>e \<ge> i. is_runend qf e \<and> (\<forall>j. i \<le> j \<and> j < e \<longrightarrow> get_slot qf j \<noteq> 0 \<or> get_slot qf (j + 1) \<noteq> 0))"
  using assms(2,3)
proof (induction es arbitrary: i)
  case (Cons x es)
  obtain r c where x: "x = (r, c)" by force
  from Cons.prems x obtain ss where ss: "encode_counter qf r c = Some ss" "c \<noteq> 0" "r \<le> BITMASK (qf_bps qf)" "holds qf i ss"
    and r: "r \<noteq> 0" by (auto split: option.splits)
  note nz = encode_nonzero [OF assms(1) ss(3,1) r ss(2)]
  have at: "get_slot qf (i + k) = ss ! k" if "k < length ss" for k using ss(4) that by (simp add: holds_def)
  have len: "0 < length ss" using nz(2) by simp
  have first: "get_slot qf i \<noteq> 0" using at [of 0] len nz(2,3) r by (simp add: hd_conv_nth)
  have lst: "get_slot qf (i + length ss - 1) \<noteq> 0" using at [of "length ss - 1"] len nz(2,4) r by (simp add: last_conv_nth)
  have inner: "get_slot qf j \<noteq> 0 \<or> get_slot qf (j + 1) \<noteq> 0" if "i \<le> j" "j < i + length ss - 1" for j
    using that at [of "j - i"] at [of "Suc (j - i)"] nz(1) by (auto simp: no_zz_def Suc_diff_le)
  show ?case
  proof (cases "es = []")
    case True
    then have "is_runend qf (i + length ss - 1)" using Cons.prems x ss by simp
    moreover have "i \<le> i + length ss - 1" using len by linarith
    ultimately show ?thesis using first inner by blast
  next
    case False
    then have "run_layout qf (i + length ss) es" using Cons.prems x ss by simp
    from Cons.IH [OF this] Cons.prems(2) obtain e where e: "i + length ss \<le> e" "is_runend qf e"
      "\<And>j. i + length ss \<le> j \<Longrightarrow> j < e \<Longrightarrow> get_slot qf j \<noteq> 0 \<or> get_slot qf (j + 1) \<noteq> 0" by auto
    have "get_slot qf j \<noteq> 0 \<or> get_slot qf (j + 1) \<noteq> 0" if "i \<le> j" "j < e" for j
      using inner [of j] lst e(3) [of j] that by (cases "j < i + length ss - 1"; cases "j = i + length ss - 1") auto
    with first e show ?thesis by (intro conjI exI [of _ e]) auto
  qed
qed simp

lemma layout_ascending: "run_layout qf i ((r, c) # es) \<Longrightarrow> \<forall>x \<in> set es. r < fst x"
proof (induction es arbitrary: i r c)
  case (Cons x es)
  obtain r' c' where x: "x = (r', c')" by force
  from Cons.prems x obtain k where "r < r'" "run_layout qf k ((r', c') # es)" by (auto split: option.splits)
  with Cons.IH [OF this(2)] x show ?case by (auto intro: less_trans)
qed simp

lemma decode_layout:
  assumes w: "width_ok qf" and l: "run_layout qf i ((r, c) # es)"
  shows "\<exists>ss. encode_counter qf r c = Some ss \<and> ss \<noteq> [] \<and> decode_counter qf i = Some (i + length ss - 1, r, c) \<and>
    (if es = [] then is_runend qf (i + length ss - 1)
     else \<not> is_runend qf (i + length ss - 1) \<and> run_layout qf (i + length ss) es)"
proof -
  from l obtain ss where ss: "encode_counter qf r c = Some ss" "c \<noteq> 0" "r \<le> BITMASK (qf_bps qf)" "holds qf i ss"
      "no_runend qf i (i + length ss - 1)"
    and rest: "if es = [] then is_runend qf (i + length ss - 1)
      else \<not> is_runend qf (i + length ss - 1) \<and> r < fst (hd es) \<and> run_layout qf (i + length ss) es"
    by (auto split: option.splits)
  have ne: "ss \<noteq> []" using encode_counter_length [OF w ss(3), of c] ss(1,2) by auto
  have "counter_follow qf r c (i + length ss - 1)"
  proof (cases es)
    case Nil
    then show ?thesis using rest by (simp add: counter_follow_def)
  next
    case (Cons x es')
    obtain r' c' where x: "x = (r', c')" by force
    have lay: "run_layout qf (i + length ss) es" "r < r'" using rest Cons x by auto
    then obtain ss' where ss': "encode_counter qf r' c' = Some ss'" "c' \<noteq> 0" "r' \<le> BITMASK (qf_bps qf)" "holds qf (i + length ss) ss'"
      using Cons x by (auto split: option.splits)
    then have "ss' \<noteq> []" "hd ss' = r'" using encode_counter_length [OF w ss'(3), of c'] by auto
    then have next_slot: "get_slot qf (i + length ss) = r'" using ss'(4) by (cases ss') auto
    have "\<forall>x \<in> set es. fst x \<noteq> 0" using layout_ascending [OF l] by (auto simp: word_gt_0 dest!: bspec)
    from layout_no_zz [OF w lay(1) this] obtain e where "i + length ss \<le> e" "is_runend qf e"
      "\<forall>j. i + length ss \<le> j \<and> j < e \<longrightarrow> get_slot qf j \<noteq> 0 \<or> get_slot qf (j + 1) \<noteq> 0" by blast
    then have "\<exists>e > i + length ss - 1. is_runend qf e \<and>
        (\<forall>j. i + length ss - 1 < j \<and> j < e \<longrightarrow> get_slot qf j \<noteq> 0 \<or> get_slot qf (j + 1) \<noteq> 0)"
      using ne by (intro exI [of _ e]) (cases ss; auto)
    moreover have "r < get_slot qf (i + length ss - 1 + 1)" using ne lay(2) next_slot by (cases ss) auto
    ultimately show ?thesis unfolding counter_follow_def by blast
  qed
  from decode_encode_aux [OF w ss(3,2,1,4,5) this] ss(1) ne rest show ?thesis by auto
qed

lemma count_loop_layout:
  assumes "width_ok qf" "run_layout qf i es"
  shows "count_loop qf h i = Some (count_of es h)"
  using assms(2)
proof (induction es arbitrary: i)
  case (Cons x es)
  obtain r c where x: "x = (r, c)" by force
  note dec = decode_layout [OF assms(1) Cons.prems [unfolded x]]
  define ss where "ss = the (encode_counter qf r c)"
  have ss: "ss \<noteq> []" "decode_counter qf i = Some (i + length ss - 1, r, c)"
    "es = [] \<Longrightarrow> is_runend qf (i + length ss - 1)"
    "es \<noteq> [] \<Longrightarrow> \<not> is_runend qf (i + length ss - 1) \<and> run_layout qf (i + length ss) es"
    using dec by (auto simp: ss_def)
  have "Suc (i + length ss - 1) = i + length ss" using ss(1) by (cases ss) auto
  with ss x Cons.IH [of "i + length ss"] show ?case
    by (subst count_loop.simps) (cases "es = []"; auto simp: count_of_def)
qed simp

end
