(* ===== verification/GQF_Remove.thy ===== *)
theory GQF_Remove
  imports GQF_Insert
begin

unbundle bit_operations_syntax

text \<open>
  Removal from a counting quotient filter (\<^verbatim>\<open>terrace/code/src/gqf/gqf.c\<close>): the routine that replaces a counter by
  fewer slots and moves the runs behind it back, and \<^verbatim>\<open>_remove\<close>.
\<close>

section \<open>Definitions\<close>

text \<open>The do-while loop to the next occupied bucket below a limit.\<close>

function next_bucket :: "QF \<Rightarrow> nat \<Rightarrow> nat \<Rightarrow> nat" where
  "next_bucket qf current_bucket lim =
    (let current_bucket = current_bucket + 1
     in if current_bucket < lim \<and> \<not> is_occupied qf current_bucket then next_bucket qf current_bucket lim
        else current_bucket)"
  by pat_completeness auto

termination by (relation "measure (\<lambda>(qf, b, lim). lim - b)") auto

declare next_bucket.simps [simp del]

fun wipe_slots :: "QF \<Rightarrow> nat list \<Rightarrow> QF" where
  "wipe_slots qf [] = qf"
| "wipe_slots qf (i # is) = wipe_slots (md_clear_bit (set_slot qf i 0) runends i) is"

text \<open>The loop that shifts slots back one run at a time.\<close>

partial_function (option) shift_back :: "QF \<Rightarrow> nat \<Rightarrow> nat \<Rightarrow> nat \<Rightarrow> QF option" where
  "shift_back qf current_bucket current_slot current_distance =
    (if current_distance > 0 then
       let current_bucket = (if is_runend qf (current_slot + current_distance - 1)
                             then next_bucket qf current_bucket (current_slot + current_distance) else current_bucket)
       in if current_bucket \<le> current_slot then
            let qf = set_slot qf current_slot (get_slot qf (current_slot + current_distance));
                qf = (if is_runend qf current_slot \<noteq> is_runend qf (current_slot + current_distance)
                      then md_flip_bit qf runends current_slot else qf)
            in shift_back qf current_bucket (current_slot + 1) current_distance
          else if current_bucket \<le> current_slot + current_distance then
            let qf = wipe_slots qf [current_slot ..< current_slot + current_distance]
            in shift_back qf current_bucket current_bucket (current_slot + current_distance - current_bucket)
          else shift_back qf current_bucket current_slot 0
     else Some qf)"

text \<open>The loop that recomputes the offsets of the following blocks until one does not change.\<close>

partial_function (option) fix_offsets :: "QF \<Rightarrow> nat \<Rightarrow> QF option" where
  "fix_offsets qf original_block =
    (let last_occupieds_hash_index = QF_SLOTS_PER_BLOCK * original_block + (QF_SLOTS_PER_BLOCK - 1)
     in do {
       runend_index \<leftarrow> run_end qf last_occupieds_hash_index;
       if runend_index div QF_SLOTS_PER_BLOCK = original_block then
         (if unat (block_off qf (original_block + 1)) = 0 then Some qf
          else fix_offsets (set_block_off qf (original_block + 1) 0) (original_block + 1))
       else
         (if unat (block_off qf (original_block + 1)) = runend_index - last_occupieds_hash_index then Some qf
          else fix_offsets (set_block_off qf (original_block + 1) (of_nat (runend_index - last_occupieds_hash_index)))
                 (original_block + 1))
     })"

definition remove_replace_slots_and_shift_remainders_and_runends_and_offsets ::
    "QF \<Rightarrow> bool \<Rightarrow> nat \<Rightarrow> nat \<Rightarrow> u64 list \<Rightarrow> nat \<Rightarrow> (int \<times> QF) option" where
  "remove_replace_slots_and_shift_remainders_and_runends_and_offsets qf operation bucket_index overwrite_index
       remainders old_length =
    (let total_remainders = length remainders;
         qf = write_list set_slot qf overwrite_index remainders;
         qf = (if is_runend qf (overwrite_index + old_length - 1) then
                 (if total_remainders > 0 then md_set_bit qf runends (overwrite_index + total_remainders - 1)
                  else if overwrite_index > bucket_index \<and> \<not> is_runend qf (overwrite_index - 1)
                  then md_set_bit qf runends (overwrite_index - 1) else qf)
               else qf);
         original_bucket = bucket_index;
         current_distance = old_length - total_remainders;
         ret_current_distance = to_int32 (int current_distance)
     in do {
       qf \<leftarrow> shift_back qf bucket_index (overwrite_index + total_remainders) current_distance;
       let qf = (if operation \<and> total_remainders = 0 then md_clear_bit qf occupieds bucket_index else qf);
       qf \<leftarrow> (if old_length > total_remainders then fix_offsets qf (original_bucket div QF_SLOTS_PER_BLOCK) else Some qf);
       let num_slots_freed = to_int32 (int old_length - int total_remainders);
       qf \<leftarrow> modify_metadata qf Noccupied_slots (- num_slots_freed);
       qf \<leftarrow> (if total_remainders = 0 then modify_metadata qf Ndistinct_elts (- 1) else Some qf);
       Some (ret_current_distance, qf)
     })"

text \<open>
  \<^verbatim>\<open>_remove\<close>.  A key that is not there makes it return without giving back the locks it took, and the count
  subtracted from the total is the one asked for, not the one removed.
\<close>

definition remove_qf :: "QF \<Rightarrow> u128 \<Rightarrow> u64 \<Rightarrow> u8 \<Rightarrow> (int \<times> QF) option" where
  "remove_qf qf hash count runtime_lock =
    (let hash_remainder = hash_remainder_of qf hash;
         hash_bucket_index = hash_bucket_of qf hash
     in do {
       (locked, qf) \<leftarrow> (if GET_NO_LOCK runtime_lock \<noteq> QF_NO_LOCK
                        then qf_lock qf hash_bucket_index False runtime_lock else Some (True, qf));
       if \<not> locked then Some (QF_COULDNT_LOCK, qf)
       else if \<not> is_occupied qf hash_bucket_index then Some (QF_DOESNT_EXIST, qf)
       else do {
         runstart_index \<leftarrow> run_start qf hash_bucket_index;
         let original_runstart_index = runstart_index;
         (current_end, current_remainder, current_count) \<leftarrow> decode_counter qf runstart_index;
         (runstart_index, current_end, current_remainder, current_count) \<leftarrow>
           find_counter qf hash_remainder runstart_index current_end current_remainder current_count;
         if current_remainder \<noteq> hash_remainder then Some (QF_DOESNT_EXIST, qf)
         else do {
           let only_item_in_the_run = (original_runstart_index = runstart_index \<and> is_runend qf current_end);
           p \<leftarrow> encode_counter qf hash_remainder (if count > current_count then 0 else current_count - count);
           (ret_numfreedslots, qf) \<leftarrow>
             remove_replace_slots_and_shift_remainders_and_runends_and_offsets qf only_item_in_the_run hash_bucket_index
               runstart_index p (current_end - runstart_index + 1);
           qf \<leftarrow> modify_metadata qf Nelts (uint (- count));
           qf \<leftarrow> (if GET_NO_LOCK runtime_lock \<noteq> QF_NO_LOCK then qf_unlock qf hash_bucket_index False else Some qf);
           Some (ret_numfreedslots, qf)
         }
       }
     })"

end
