(* ===== verification/GQF_API.thy ===== *)
theory GQF_API
  imports GQF_Query GQF_Remove
begin

unbundle bit_operations_syntax

text \<open>
  Creation, update and combination of filters in \<^verbatim>\<open>terrace/code/src/gqf/gqf.c\<close>.  What the C library and the
  operating system decide is a parameter: whether an allocation of a given size succeeds, and the
  container's resize function when it is the one of \<^verbatim>\<open>gqf_file.c\<close>.  An allocation failure makes the code call
  \<^verbatim>\<open>exit\<close>, which is \<open>None\<close>.  \<^verbatim>\<open>qf_insert\<close> and the resize functions call each other; the number of resizes that may be
  nested is a fuel argument, and \<open>None\<close> is also running out of it.
\<close>

section \<open>Definitions\<close>

subsection \<open>Creation\<close>

definition MAGIC_NUMBER :: u64 where "MAGIC_NUMBER = 1018874902021329732"
definition sizeof_qfmetadata :: nat where "sizeof_qfmetadata = 128"
definition sizeof_qfruntime :: nat where "sizeof_qfruntime = 56"
definition sizeof_int :: nat where "sizeof_int = 4"

text \<open>
  \<^verbatim>\<open>nslots + 10*sqrt((double)nslots)\<close>, truncated, is \<open>nslots + isqrt (100 * nslots)\<close> for the powers
  of two that a double represents with room for the sum.
\<close>

definition extra_slots :: "nat \<Rightarrow> nat" where
  "extra_slots n = n + isqrt (100 * n)"

text \<open>The loop that takes one bit off the remainder for every halving, on 64-bit unsigned values.\<close>

function remainder_bits_loop :: "nat \<Rightarrow> nat \<Rightarrow> nat" where
  "remainder_bits_loop key_remainder_bits' n =
    (if n > 1 then remainder_bits_loop ((key_remainder_bits' + (2 ^ 64 - 1)) mod 2 ^ 64) (n div 2)
     else key_remainder_bits')"
  by pat_completeness auto

termination by (relation "measure snd") auto

declare remainder_bits_loop.simps [simp del]

definition zero_mem :: mem where "zero_mem = (\<lambda>_. 0)"

definition zero_runtime :: qfruntime where
  "zero_runtime = \<lparr>fd = 0, filepath = None, container_resize = Resize_null, num_locks = 0, metadata_lock = 0, locks = []\<rparr>"

text \<open>\<open>buffer_len = None\<close> is a null buffer.\<close>

definition qf_init ::
    "(nat \<Rightarrow> bool) \<Rightarrow> QF \<Rightarrow> nat \<Rightarrow> nat \<Rightarrow> nat \<Rightarrow> qf_hashmode \<Rightarrow> u32 \<Rightarrow> nat option \<Rightarrow> (nat \<times> QF) option" where
  "qf_init can_alloc qf nslots' key_bits' value_bits' hash seed buffer_len =
    (let num_slots = nslots';
         xnslots' = extra_slots nslots';
         nblocks' = (xnslots' + QF_SLOTS_PER_BLOCK - 1) div QF_SLOTS_PER_BLOCK;
         key_remainder_bits' = remainder_bits_loop key_bits' nslots';
         bits_per_slot' = key_remainder_bits' + value_bits';
         size = nblocks' * (sizeof_qfblock + QF_SLOTS_PER_BLOCK * bits_per_slot' div 8);
         total_num_bytes = sizeof_qfmetadata + size
     in case buffer_len of
          None \<Rightarrow> Some (total_num_bytes, qf)
        | Some len \<Rightarrow>
            if total_num_bytes > len then Some (total_num_bytes, qf)
            else
              let md = \<lparr>magic_endian_number = MAGIC_NUMBER, hash_mode = hash, auto_resize = 0,
                        total_size_in_bytes = size, md_seed = seed, nslots = num_slots, xnslots = xnslots',
                        key_bits = key_bits', value_bits = value_bits', key_remainder_bits = key_remainder_bits',
                        bits_per_slot = bits_per_slot', md_range = num_slots * 2 ^ key_remainder_bits',
                        nblocks = (xnslots' + QF_SLOTS_PER_BLOCK - 1) div QF_SLOTS_PER_BLOCK,
                        nelts = 0, ndistinct_elts = 0, noccupied_slots = 0\<rparr>;
                  num_locks' = xnslots' div NUM_SLOTS_TO_LOCK + 2
              in if can_alloc (num_locks' * sizeof_int)
                 then Some (total_num_bytes,
                       \<lparr>runtimedata = (runtimedata qf)\<lparr>num_locks := num_locks', container_resize := Resize_malloc,
                          metadata_lock := 0, locks := replicate num_locks' 0\<rparr>,
                        metadata = md, blocks = zero_mem\<rparr>)
                 else None)"

text \<open>
  \<^verbatim>\<open>qf_use\<close> on a buffer that holds a header and blocks.  The lock array has \<^verbatim>\<open>num_locks\<close> entries of run-time
  data that was just cleared, that is none.
\<close>

definition qf_use :: "(nat \<Rightarrow> bool) \<Rightarrow> QF \<Rightarrow> qfmetadata \<times> mem \<Rightarrow> nat \<Rightarrow> (nat \<times> QF) option" where
  "qf_use can_alloc qf buffer buffer_len =
    (let qf = qf\<lparr>metadata := fst buffer\<rparr>
     in if total_size_in_bytes (metadata qf) + sizeof_qfmetadata > buffer_len
        then Some (total_size_in_bytes (metadata qf) + sizeof_qfmetadata, qf)
        else if \<not> can_alloc sizeof_qfruntime then None
        else let rt = zero_runtime
             in if can_alloc (num_locks rt * sizeof_int)
                then Some (sizeof_qfmetadata + total_size_in_bytes (metadata qf),
                      qf\<lparr>blocks := snd buffer, runtimedata := rt\<lparr>metadata_lock := 0, locks := replicate (num_locks rt) 0\<rparr>\<rparr>)
                else None)"

definition qf_malloc ::
    "(nat \<Rightarrow> bool) \<Rightarrow> QF \<Rightarrow> nat \<Rightarrow> nat \<Rightarrow> nat \<Rightarrow> qf_hashmode \<Rightarrow> u32 \<Rightarrow> (bool \<times> QF) option" where
  "qf_malloc can_alloc qf nslots' key_bits' value_bits' hash seed = do {
     (total_num_bytes, qf) \<leftarrow> qf_init can_alloc qf nslots' key_bits' value_bits' hash seed None;
     if \<not> can_alloc total_num_bytes then None
     else if \<not> can_alloc sizeof_qfruntime then None
     else do {
       (init_size, qf) \<leftarrow> qf_init can_alloc (qf\<lparr>runtimedata := zero_runtime\<rparr>) nslots' key_bits' value_bits' hash seed
                           (Some total_num_bytes);
       Some (init_size = total_num_bytes, qf)
     }
   }"

text \<open>
  \<^verbatim>\<open>qf_copy\<close> copies the run-time data, header and block bytes.  The lock array is copied as a
  pointer, so both filters share the locks of the source.
\<close>

definition qf_copy :: "QF \<Rightarrow> QF \<Rightarrow> QF" where
  "qf_copy dest src = dest\<lparr>runtimedata := runtimedata src, metadata := metadata src,
     blocks := (\<lambda>i. if i < total_size_in_bytes (metadata src) then blocks src i else blocks dest i)\<rparr>"

definition qf_reset :: "QF \<Rightarrow> QF" where
  "qf_reset qf = qf\<lparr>metadata := (metadata qf)\<lparr>nelts := 0, ndistinct_elts := 0, noccupied_slots := 0\<rparr>,
     blocks := (\<lambda>i. if i < nblocks (metadata qf) * (sizeof_qfblock + QF_SLOTS_PER_BLOCK * qf_bps qf div 8) then 0
                    else blocks qf i)\<rparr>"

definition qf_set_auto_resize :: "QF \<Rightarrow> bool \<Rightarrow> QF" where
  "qf_set_auto_resize qf enabled = qf\<lparr>metadata := (metadata qf)\<lparr>auto_resize := if enabled then 1 else 0\<rparr>\<rparr>"

subsection \<open>Insertion and resizing\<close>

type_synonym inserter = "QF \<Rightarrow> u64 \<Rightarrow> u64 \<Rightarrow> u64 \<Rightarrow> u8 \<Rightarrow> (int \<times> QF) option"
type_synonym resizer = "QF \<Rightarrow> nat \<Rightarrow> (int \<times> QF) option"

abbreviation fresh_iterator :: QFi where
  "fresh_iterator \<equiv> \<lparr>run = 0, current = 0, num_clusters = 0\<rparr>"

text \<open>The do-while loop that reinserts every key; the first component is the first failure or the number of keys.\<close>

partial_function (option) copy_keys :: "inserter \<Rightarrow> QF \<Rightarrow> QFi \<Rightarrow> QF \<Rightarrow> int \<Rightarrow> (int \<times> QF) option" where
  "copy_keys ins qf qfi new_qf ret_numkeys = do {
     (_, key, value, count) \<leftarrow> qfi_get_hash qf qfi;
     (_, qfi) \<leftarrow> qfi_next qf qfi;
     (ret, new_qf) \<leftarrow> ins new_qf key value count (QF_NO_LOCK OR QF_KEY_IS_HASH);
     if ret < 0 then Some (ret, new_qf)
     else if \<not> qfi_end qf qfi then copy_keys ins qf qfi new_qf (ret_numkeys + 1)
     else Some (ret_numkeys + 1, new_qf)
   }"

definition qf_resize_malloc :: "(nat \<Rightarrow> bool) \<Rightarrow> inserter \<Rightarrow> QF \<Rightarrow> nat \<Rightarrow> (int \<times> QF) option" where
  "qf_resize_malloc can_alloc ins qf nslots' = do {
     (ok, new_qf) \<leftarrow> qf_malloc can_alloc qf nslots' (key_bits (metadata qf)) (value_bits (metadata qf))
                       (hash_mode (metadata qf)) (md_seed (metadata qf));
     if \<not> ok then Some (- 1, qf)
     else do {
       let new_qf = (if auto_resize (metadata qf) \<noteq> 0 then qf_set_auto_resize new_qf True else new_qf);
       (_, qfi) \<leftarrow> qf_iterator_from_position qf fresh_iterator 0;
       (ret, new_qf) \<leftarrow> copy_keys ins qf qfi new_qf 0;
       if ret < 0 then Some (ret, qf) else Some (ret, new_qf)
     }
   }"

text \<open>
  \<open>has_buffer\<close> is whether the buffer pointer is not null; with a null pointer and a large enough
  \<^verbatim>\<open>buffer_len\<close> the code goes on with a header that was never set.
\<close>

definition qf_resize :: "(nat \<Rightarrow> bool) \<Rightarrow> inserter \<Rightarrow> QF \<Rightarrow> nat \<Rightarrow> bool \<Rightarrow> nat \<Rightarrow> (nat \<times> QF) option" where
  "qf_resize can_alloc ins qf nslots' has_buffer buffer_len =
    (if \<not> can_alloc sizeof_qfruntime then None
     else do {
       (init_size, new_qf) \<leftarrow> qf_init can_alloc (qf\<lparr>runtimedata := zero_runtime\<rparr>) nslots' (key_bits (metadata qf))
                               (value_bits (metadata qf)) (hash_mode (metadata qf)) (md_seed (metadata qf))
                               (if has_buffer then Some buffer_len else None);
       if init_size > buffer_len then Some (init_size, qf)
       else if \<not> has_buffer then None
       else do {
         let new_qf = (if auto_resize (metadata qf) \<noteq> 0 then qf_set_auto_resize new_qf True else new_qf);
         (_, qfi) \<leftarrow> qf_iterator_from_position qf fresh_iterator 0;
         (ret, new_qf) \<leftarrow> copy_keys ins qf qfi new_qf 0;
         if ret < 0 then None else Some (init_size, new_qf)
       }
     })"

definition DISTANCE_FROM_HOME_SLOT_CUTOFF :: int where "DISTANCE_FROM_HOME_SLOT_CUTOFF = 100000"

definition insert_dispatch :: "QF \<Rightarrow> u64 \<Rightarrow> u64 \<Rightarrow> u8 \<Rightarrow> (int \<times> QF) option" where
  "insert_dispatch qf hash count flags =
    (if count = 1 then insert1 qf (ucast hash) flags else insert_qf qf (ucast hash) count flags)"

text \<open>The comparison with \<^verbatim>\<open>nslots * 0.75\<close> is exact for the sizes a double represents.\<close>

definition qf_insert_body :: "resizer \<Rightarrow> inserter" where
  "qf_insert_body resize qf key value count flags = do {
     (go, qf) \<leftarrow>
       (if 4 * unat (noccupied_slots (metadata qf)) \<ge> 3 * nslots (metadata qf) then
          (if auto_resize (metadata qf) \<noteq> 0 then do {
             (r, qf) \<leftarrow> resize qf (nslots (metadata qf) * 2);
             Some (\<not> r < 0, qf)
           } else Some (False, qf))
        else Some (True, qf));
     if \<not> go then Some (QF_NO_SPACE, qf)
     else if unat (noccupied_slots (metadata qf)) \<ge> nslots (metadata qf) then Some (QF_NO_SPACE, qf)
     else if count = 0 then Some (0, qf)
     else do {
       let hash = key_value_hash qf (hash_key qf key flags) value;
       (ret, qf) \<leftarrow> insert_dispatch qf hash count flags;
       if ret = QF_NO_SPACE \<or> ret > DISTANCE_FROM_HOME_SLOT_CUTOFF then
         (if auto_resize (metadata qf) \<noteq> 0 then do {
            (r, qf) \<leftarrow> resize qf (nslots (metadata qf) * 2);
            if r > 0 then (if ret = QF_NO_SPACE then insert_dispatch qf hash count flags else Some (ret, qf))
            else Some (QF_NO_SPACE, qf)
          } else Some (QF_NO_SPACE, qf))
       else Some (ret, qf)
     }
   }"

record qf_env =
  can_alloc :: "nat \<Rightarrow> bool"
  file_resize :: "inserter \<Rightarrow> resizer"

definition container_resize_call :: "qf_env \<Rightarrow> inserter \<Rightarrow> resizer" where
  "container_resize_call env ins qf nslots' =
    (case container_resize (runtimedata qf) of
       Resize_null \<Rightarrow> None
     | Resize_malloc \<Rightarrow> qf_resize_malloc (can_alloc env) ins qf nslots'
     | Resize_file \<Rightarrow> file_resize env ins qf nslots')"

fun qf_insert :: "qf_env \<Rightarrow> nat \<Rightarrow> inserter" where
  "qf_insert env 0 = (\<lambda>qf key value count flags. None)"
| "qf_insert env (Suc depth) = qf_insert_body (container_resize_call env (qf_insert env depth))"

subsection \<open>Removal and replacement\<close>

definition qf_remove :: "QF \<Rightarrow> u64 \<Rightarrow> u64 \<Rightarrow> u64 \<Rightarrow> u8 \<Rightarrow> (int \<times> QF) option" where
  "qf_remove qf key value count flags =
    (if count = 0 then Some (0, qf)
     else remove_qf qf (ucast (key_value_hash qf (hash_key qf key flags) value)) count flags)"

definition qf_set_count :: "inserter \<Rightarrow> QF \<Rightarrow> u64 \<Rightarrow> u64 \<Rightarrow> u64 \<Rightarrow> u8 \<Rightarrow> (int \<times> QF) option" where
  "qf_set_count ins qf key value count flags =
    (if count = 0 then Some (0, qf)
     else do {
       cur_count \<leftarrow> qf_count_key_value qf key value flags;
       let delta = sint (count - cur_count);
       if delta = 0 then Some (0, qf)
       else if delta > 0 then ins qf key value (word_of_int delta) flags
       else qf_remove qf key value (word_of_int \<bar>delta\<bar>) flags
     })"

definition qf_delete_key_value :: "QF \<Rightarrow> u64 \<Rightarrow> u64 \<Rightarrow> u8 \<Rightarrow> (int \<times> QF) option" where
  "qf_delete_key_value qf key value flags = do {
     count \<leftarrow> qf_count_key_value qf key value flags;
     if count = 0 then Some (0, qf) else qf_remove qf key value count flags
   }"

definition qf_replace :: "inserter \<Rightarrow> QF \<Rightarrow> u64 \<Rightarrow> u64 \<Rightarrow> u64 \<Rightarrow> u8 \<Rightarrow> (int \<times> QF) option" where
  "qf_replace ins qf key oldvalue newvalue flags = do {
     count \<leftarrow> qf_count_key_value qf key oldvalue flags;
     if count > 0 then do {
       (ret, qf) \<leftarrow> qf_remove qf key oldvalue count flags;
       if ret < 1 then Some (ret, qf) else ins qf key newvalue count flags
     } else ins qf key newvalue count flags
   }"

subsection \<open>Combining filters\<close>

text \<open>The loop of \<^verbatim>\<open>qf_merge\<close> while neither iterator is at its end; the items read last are kept.\<close>

partial_function (option) merge_loop ::
    "inserter \<Rightarrow> QF \<Rightarrow> QF \<Rightarrow> QF \<Rightarrow> QFi \<Rightarrow> QFi \<Rightarrow> u64 \<times> u64 \<times> u64 \<Rightarrow> u64 \<times> u64 \<times> u64 \<Rightarrow> (QF \<times> QFi \<times> QFi) option" where
  "merge_loop ins qfa qfb qfc qfia qfib a b = do {
     (qfc, qfia, qfib, a, b) \<leftarrow>
       (if fst a < fst b then do {
          (_, qfc) \<leftarrow> ins qfc (fst a) (fst (snd a)) (snd (snd a)) (QF_NO_LOCK OR QF_KEY_IS_HASH);
          (_, qfia) \<leftarrow> qfi_next qfa qfia;
          (_, a) \<leftarrow> qfi_get_hash qfa qfia;
          Some (qfc, qfia, qfib, a, b)
        } else do {
          (_, qfc) \<leftarrow> ins qfc (fst b) (fst (snd b)) (snd (snd b)) (QF_NO_LOCK OR QF_KEY_IS_HASH);
          (_, qfib) \<leftarrow> qfi_next qfb qfib;
          (_, b) \<leftarrow> qfi_get_hash qfb qfib;
          Some (qfc, qfia, qfib, a, b)
        });
     if \<not> qfi_end qfa qfia \<and> \<not> qfi_end qfb qfib then merge_loop ins qfa qfb qfc qfia qfib a b
     else Some (qfc, qfia, qfib)
   }"

text \<open>The do-while loop that inserts the rest of one filter while \<^verbatim>\<open>qfi_next\<close> returns 0.\<close>

partial_function (option) drain_loop :: "inserter \<Rightarrow> QF \<Rightarrow> QF \<Rightarrow> QFi \<Rightarrow> QF option" where
  "drain_loop ins qf qfc qfi = do {
     (_, key, value, count) \<leftarrow> qfi_get_hash qf qfi;
     (_, qfc) \<leftarrow> ins qfc key value count (QF_NO_LOCK OR QF_KEY_IS_HASH);
     (r, qfi) \<leftarrow> qfi_next qf qfi;
     if r = 0 then drain_loop ins qf qfc qfi else Some qfc
   }"

definition same_hash :: "QF \<Rightarrow> QF \<Rightarrow> bool \<times> bool" where
  "same_hash a b = (hash_mode (metadata a) = hash_mode (metadata b), md_seed (metadata a) = md_seed (metadata b))"

definition qf_merge :: "inserter \<Rightarrow> QF \<Rightarrow> QF \<Rightarrow> QF \<Rightarrow> QF option" where
  "qf_merge ins qfa qfb qfc = do {
     (_, qfia) \<leftarrow> qf_iterator_from_position qfa fresh_iterator 0;
     (_, qfib) \<leftarrow> qf_iterator_from_position qfb fresh_iterator 0;
     if same_hash qfa qfc = (False, False) \<and> same_hash qfb qfc = (False, False) then None
     else do {
       (_, a) \<leftarrow> qfi_get_hash qfa qfia;
       (_, b) \<leftarrow> qfi_get_hash qfb qfib;
       (qfc, qfia, qfib) \<leftarrow> merge_loop ins qfa qfb qfc qfia qfib a b;
       qfc \<leftarrow> (if \<not> qfi_end qfa qfia then drain_loop ins qfa qfc qfia else Some qfc);
       (if \<not> qfi_end qfb qfib then drain_loop ins qfb qfc qfib else Some qfc)
     }
   }"

text \<open>
  \<^verbatim>\<open>qf_multi_merge\<close>.  The filters still in the array travel with their iterators; \<open>smallest_idx\<close> keeps its
  old value when no key is below \<^verbatim>\<open>UINT64_MAX\<close>.
\<close>

type_synonym item = "u64 \<times> u64 \<times> u64"

fun smallest_of :: "item list \<Rightarrow> nat \<Rightarrow> u64 \<Rightarrow> nat \<Rightarrow> nat" where
  "smallest_of [] i smallest_key smallest_idx = smallest_idx"
| "smallest_of (x # xs) i smallest_key smallest_idx =
    (if fst x < smallest_key then smallest_of xs (i + 1) (fst x) i
     else smallest_of xs (i + 1) smallest_key smallest_idx)"

partial_function (option) multi_inner ::
    "inserter \<Rightarrow> (QF \<times> QFi) list \<Rightarrow> item list \<Rightarrow> QF \<Rightarrow> nat \<Rightarrow> (QF \<times> (QF \<times> QFi) list \<times> nat) option" where
  "multi_inner ins arr items qfr smallest_idx =
    (let smallest_idx = smallest_of items 0 0xffffffffffffffff smallest_idx;
         x = items ! smallest_idx;
         (qf, qfi) = arr ! smallest_idx
     in if smallest_idx \<ge> length arr then None
        else do {
          (_, qfr) \<leftarrow> ins qfr (fst x) (fst (snd x)) (snd (snd x)) (QF_NO_LOCK OR QF_KEY_IS_HASH);
          (_, qfi) \<leftarrow> qfi_next qf qfi;
          (_, x) \<leftarrow> qfi_get_hash qf qfi;
          let arr = arr[smallest_idx := (qf, qfi)];
          if \<not> qfi_end qf qfi then multi_inner ins arr (items[smallest_idx := x]) qfr smallest_idx
          else Some (qfr, arr, smallest_idx)
        })"

fun get_items :: "(QF \<times> QFi) list \<Rightarrow> item list option" where
  "get_items [] = Some []"
| "get_items ((qf, qfi) # arr) = do {
     (_, x) \<leftarrow> qfi_get_hash qf qfi;
     xs \<leftarrow> get_items arr;
     Some (x # xs)
   }"

fun multi_outer :: "inserter \<Rightarrow> nat \<Rightarrow> (QF \<times> QFi) list \<Rightarrow> QF \<Rightarrow> nat \<Rightarrow> (QF \<times> (QF \<times> QFi) list) option" where
  "multi_outer ins 0 arr qfr smallest_idx = Some (qfr, arr)"
| "multi_outer ins (Suc n) arr qfr smallest_idx = do {
     items \<leftarrow> get_items arr;
     (qfr, arr, smallest_idx) \<leftarrow> multi_inner ins arr items qfr smallest_idx;
     multi_outer ins n (take smallest_idx arr @ drop (Suc smallest_idx) arr) qfr smallest_idx
   }"

partial_function (option) multi_rest :: "inserter \<Rightarrow> QF \<Rightarrow> QFi \<Rightarrow> QF \<Rightarrow> QF option" where
  "multi_rest ins qf qfi qfr = do {
     (_, key, value, count) \<leftarrow> qfi_get_hash qf qfi;
     (_, qfr) \<leftarrow> ins qfr key value count (QF_NO_LOCK OR QF_KEY_IS_HASH);
     (_, qfi) \<leftarrow> qfi_next qf qfi;
     if \<not> qfi_end qf qfi then multi_rest ins qf qfi qfr else Some qfr
   }"

fun start_iterators :: "QF \<Rightarrow> QF list \<Rightarrow> (QF \<times> QFi) list option" where
  "start_iterators qfr [] = Some []"
| "start_iterators qfr (qf # qfs) =
    (if same_hash qf qfr = (False, False) then None
     else do {
       (_, qfi) \<leftarrow> qf_iterator_from_position qf fresh_iterator 0;
       rest \<leftarrow> start_iterators qfr qfs;
       Some ((qf, qfi) # rest)
     })"

definition qf_multi_merge :: "inserter \<Rightarrow> QF list \<Rightarrow> QF \<Rightarrow> QF option" where
  "qf_multi_merge ins qf_arr qfr = do {
     arr \<leftarrow> start_iterators qfr qf_arr;
     (qfr, arr) \<leftarrow> multi_outer ins (length qf_arr - 1) arr qfr 0;
     (case arr of
        [] \<Rightarrow> None
      | (qf, qfi) # _ \<Rightarrow> if \<not> qfi_end qf qfi then multi_rest ins qf qfi qfr else Some qfr)
   }"

text \<open>The product of counts over the keys of the larger filter; \<open>acc\<close> wraps at 64 bits.\<close>

partial_function (option) inner_loop :: "QF \<Rightarrow> QF \<Rightarrow> QFi \<Rightarrow> u64 \<Rightarrow> u64 option" where
  "inner_loop qf_mem qf_disk qfi acc = do {
     (_, key, value, count) \<leftarrow> qfi_get_hash qf_disk qfi;
     count_mem \<leftarrow> qf_count_key_value qf_mem key 0 QF_KEY_IS_HASH;
     let acc = (if count_mem > 0 then acc + count * count_mem else acc);
     (r, qfi) \<leftarrow> qfi_next qf_disk qfi;
     if r = 0 then inner_loop qf_mem qf_disk qfi acc else Some acc
   }"

definition mem_disk :: "QF \<Rightarrow> QF \<Rightarrow> QF \<times> QF" where
  "mem_disk qfa qfb =
    (if total_size_in_bytes (metadata qfa) > total_size_in_bytes (metadata qfb) then (qfb, qfa) else (qfa, qfb))"

definition qf_inner_product :: "QF \<Rightarrow> QF \<Rightarrow> u64 option" where
  "qf_inner_product qfa qfb =
    (if same_hash qfa qfb = (False, False) then None
     else let (qf_mem, qf_disk) = mem_disk qfa qfb
          in do {
            (_, qfi) \<leftarrow> qf_iterator_from_position qf_disk fresh_iterator 0;
            inner_loop qf_mem qf_disk qfi 0
          })"

partial_function (option) intersect_loop :: "inserter \<Rightarrow> QF \<Rightarrow> QF \<Rightarrow> QF \<Rightarrow> QFi \<Rightarrow> QF option" where
  "intersect_loop ins qf_mem qf_disk qfr qfi = do {
     (_, key, value, count) \<leftarrow> qfi_get_hash qf_disk qfi;
     c \<leftarrow> qf_count_key_value qf_mem key 0 QF_KEY_IS_HASH;
     (_, qfr) \<leftarrow> (if c > 0 then ins qfr key value count (QF_NO_LOCK OR QF_KEY_IS_HASH) else Some (0, qfr));
     (r, qfi) \<leftarrow> qfi_next qf_disk qfi;
     if r = 0 then intersect_loop ins qf_mem qf_disk qfr qfi else Some qfr
   }"

definition qf_intersect :: "inserter \<Rightarrow> QF \<Rightarrow> QF \<Rightarrow> QF \<Rightarrow> QF option" where
  "qf_intersect ins qfa qfb qfr =
    (if same_hash qfa qfr = (False, False) \<and> same_hash qfb qfr = (False, False) then None
     else let (qf_mem, qf_disk) = mem_disk qfa qfb
          in do {
            (_, qfi) \<leftarrow> qf_iterator_from_position qf_disk fresh_iterator 0;
            intersect_loop ins qf_mem qf_disk qfr qfi
          })"

text \<open>The square root of the wrapped inner product, truncated to an integer.\<close>

definition qf_magnitude :: "QF \<Rightarrow> u64 option" where
  "qf_magnitude qf = map_option (\<lambda>p. of_nat (isqrt (unat p))) (qf_inner_product qf qf)"

section \<open>The contents of a filter\<close>

text \<open>
  The abstract value of a filter: the entries of the run of every bucket.  \<open>contents qf m\<close> relates it to the bytes.
\<close>

definition contents :: "QF \<Rightarrow> (nat \<Rightarrow> entries) \<Rightarrow> bool" where
  "contents qf m \<longleftrightarrow> (\<forall>b < 64 * nblocks (metadata qf).
     (is_occupied qf b \<longrightarrow> (\<exists>s. run_start qf b = Some s \<and> run_layout qf s (m b))) \<and> (\<not> is_occupied qf b \<longrightarrow> m b = []))"

definition qf_inv :: "QF \<Rightarrow> bool" where
  "qf_inv qf \<longleftrightarrow> width_ok qf \<and> run_inv qf \<and> metadata_lock (runtimedata qf) = 0"

lemma run_start_ge:
  assumes "run_inv qf" "b < 64 * nblocks (metadata qf)"
  shows "\<exists>s \<ge> b. run_start qf b = Some s"
proof (cases b)
  case (Suc x)
  with run_end_correct_aux [OF assms(1), of x] assms(2) obtain r where "run_end qf x = Some r" "x \<le> r"
    by (auto simp: is_run_end_def)
  with Suc show ?thesis by (simp add: run_start_def)
qed (simp add: run_start_def)

lemma lookup_start_eq:
  assumes "run_inv qf" "b < 64 * nblocks (metadata qf)"
  shows "lookup_start qf b = run_start qf b"
  using run_start_ge [OF assms] by (auto simp: lookup_start_def)

lemma count_correct_aux:
  assumes "qf_inv qf" "contents qf m"
    and "h = key_value_hash qf (hash_key qf key flags) value" "unat (drop_bit (qf_bps qf) h) < 64 * nblocks (metadata qf)"
  shows "qf_count_key_value qf key value flags =
    Some (count_of (m (unat (drop_bit (qf_bps qf) h))) (h AND BITMASK (qf_bps qf)))"
proof -
  let ?b = "unat (drop_bit (qf_bps qf) h)"
  have inv: "width_ok qf" "run_inv qf" using assms(1) by (simp_all add: qf_inv_def)
  show ?thesis
  proof (cases "is_occupied qf ?b")
    case True
    with assms(2,4) obtain s where "run_start qf ?b = Some s" "run_layout qf s (m ?b)" by (auto simp: contents_def)
    with True show ?thesis using lookup_start_eq [OF inv(2) assms(4)] count_loop_layout [OF inv(1)]
      by (simp add: qf_count_key_value_def Let_def flip: assms(3))
  next
    case False
    with assms(2,4) have "m ?b = []" by (auto simp: contents_def)
    with False show ?thesis by (simp add: qf_count_key_value_def Let_def count_of_def flip: assms(3))
  qed
qed

section \<open>A new filter\<close>

lemma zero_mem_bits:
  assumes "blocks qf = zero_mem"
  shows "\<not> is_occupied qf b" "\<not> is_runend qf b" "block_off qf k = 0"
proof -
  have z: "\<not> membit (blocks qf) p" for p by (simp add: assms zero_mem_def membit_def)
  show "\<not> is_occupied qf b" "\<not> is_runend qf b" using z by (simp_all add: is_occupied_membit is_runend_membit)
  show "block_off qf k = 0" by (rule bit_word_eqI) (simp add: bit_block_off z)
qed

lemma zero_run_inv: "blocks qf = zero_mem \<Longrightarrow> run_inv qf"
proof -
  assume z: "blocks qf = zero_mem"
  have "nbelow (is_occupied qf) k = 0" "nbelow (is_runend qf) k = 0" for k
    by (simp_all add: nbelow_def filter_empty_conv zero_mem_bits [OF z])
  then show ?thesis by (simp add: run_inv_def runs_ok_def offsets_ok_def block_offset_def zero_mem_bits [OF z])
qed

lemma remainder_bits_log:
  "2 ^ k \<le> n \<Longrightarrow> n < 2 ^ Suc k \<Longrightarrow> k \<le> b \<Longrightarrow> b < 2 ^ 64 \<Longrightarrow> remainder_bits_loop b n = b - k"
proof (induction k arbitrary: n b)
  case 0
  then show ?case by (subst remainder_bits_loop.simps) simp
next
  case (Suc k)
  have "b + (2 ^ 64 - 1) = (b - 1) + 2 ^ 64" using Suc.prems by simp
  then have "(b + (2 ^ 64 - 1)) mod 2 ^ 64 = b - 1" using Suc.prems by (simp only: mod_add_self2 mod_less less_imp_diff_less)
  moreover have "remainder_bits_loop (b - 1) (n div 2) = b - 1 - k" using Suc.prems by (intro Suc.IH) auto
  moreover have "(1::nat) < n" using Suc.prems(1) one_le_power [of "2 :: nat" k] unfolding power_Suc by linarith
  ultimately show ?case by (subst remainder_bits_loop.simps) simp
qed

lemma qf_init_spec:
  assumes "qf_init ca qf n kb vb hash seed (Some len) = Some (sz, qf')" "sz \<le> len"
  shows "blocks qf' = zero_mem" "nslots (metadata qf') = n" "xnslots (metadata qf') = extra_slots n"
    "bits_per_slot (metadata qf') = remainder_bits_loop kb n + vb" "key_bits (metadata qf') = kb"
    "value_bits (metadata qf') = vb" "key_remainder_bits (metadata qf') = remainder_bits_loop kb n"
    "nblocks (metadata qf') = (extra_slots n + 63) div 64" "metadata_lock (runtimedata qf') = 0"
    "locks (runtimedata qf') = replicate (extra_slots n div NUM_SLOTS_TO_LOCK + 2) 0"
    "nelts (metadata qf') = 0" "ndistinct_elts (metadata qf') = 0" "noccupied_slots (metadata qf') = 0"
    "sz = sizeof_qfmetadata + total_size_in_bytes (metadata qf')"
    "hash_mode (metadata qf') = hash" "md_seed (metadata qf') = seed" "auto_resize (metadata qf') = 0"
  using assms by (auto simp: qf_init_def Let_def split: if_splits option.splits)

lemma qf_init_inv_aux:
  assumes "qf_init ca qf n kb vb hash seed (Some len) = Some (sz, qf')" "sz \<le> len"
    and "2 ^ k = n" "k \<le> kb" "1 < kb - k + vb" "kb - k + vb \<le> 56" "kb < 2 ^ 64"
  shows "qf_inv qf'" "contents qf' (\<lambda>_. [])" "qf_bps qf' = kb - k + vb"
proof -
  note s = qf_init_spec [OF assms(1,2)]
  have "remainder_bits_loop kb n = kb - k" using assms by (intro remainder_bits_log) auto
  then show "qf_bps qf' = kb - k + vb" using s by simp
  then show "qf_inv qf'" using s zero_run_inv assms by (simp add: qf_inv_def width_ok_def)
  show "contents qf' (\<lambda>_. [])" using zero_mem_bits(1) [OF s(1)] by (simp add: contents_def)
qed

end
