(* ===== verification/GQF_Contents.thy ===== *)
theory GQF_Contents
  imports GQF_API
begin

unbundle bit_operations_syntax

text \<open>
  What updates do to the contents of a filter: runs that keep their slots or are moved as a whole, the
  new run in an empty slot, and the correctness of \<^verbatim>\<open>insert1\<close> on it.
\<close>

section \<open>Moving and keeping runs\<close>

text \<open>The last slot of the run that starts at \<open>s\<close>.\<close>

definition run_last :: "QF \<Rightarrow> nat \<Rightarrow> nat \<Rightarrow> bool" where
  "run_last qf s e \<longleftrightarrow> s \<le> e \<and> is_runend qf e \<and> no_runend qf s e"

lemma layout_Cons:
  "run_layout qf i ((r, c) # es) \<longleftrightarrow>
    (\<exists>ss. encode_counter qf r c = Some ss \<and> c \<noteq> 0 \<and> r \<le> BITMASK (qf_bps qf) \<and> holds qf i ss \<and> no_runend qf i (i + length ss - 1) \<and>
      (if es = [] then is_runend qf (i + length ss - 1)
       else \<not> is_runend qf (i + length ss - 1) \<and> r < fst (hd es) \<and> run_layout qf (i + length ss) es))"
  by (auto split: option.splits)

lemma encode_cong: "qf_bps qf' = qf_bps qf \<Longrightarrow> encode_counter qf' r c = encode_counter qf r c"
  by (simp add: encode_counter_def)

lemma encode_nonempty:
  assumes "encode_counter qf r c = Some ss" "c \<noteq> 0"
  shows "ss \<noteq> []"
  using assms by (auto simp: encode_counter_def Let_def bind_eq_Some_conv split: if_splits)

lemma no_runend_extend:
  assumes "no_runend qf i (i + n - 1)" "\<not> is_runend qf (i + n - 1)" "0 < n" "no_runend qf (i + n) e"
  shows "no_runend qf i e"
  unfolding no_runend_def
proof (intro allI impI)
  fix j assume "i \<le> j \<and> j < e"
  then show "\<not> is_runend qf j" using assms
    by (cases "j < i + n - 1"; cases "j = i + n - 1") (auto simp: no_runend_def)
qed

lemma layout_run_last: "run_layout qf s es \<Longrightarrow> \<exists>e. run_last qf s e"
proof (induction es arbitrary: s)
  case (Cons x es)
  obtain r c where x: "x = (r, c)" by force
  from Cons.prems obtain ss where ss: "encode_counter qf r c = Some ss" "c \<noteq> 0" "no_runend qf s (s + length ss - 1)"
    "if es = [] then is_runend qf (s + length ss - 1)
     else \<not> is_runend qf (s + length ss - 1) \<and> r < fst (hd es) \<and> run_layout qf (s + length ss) es"
    unfolding x layout_Cons by blast
  have ne: "0 < length ss" using encode_nonempty [OF ss(1,2)] by simp
  show ?case
  proof (cases "es = []")
    case True
    moreover have "s \<le> s + length ss - 1" using ne by linarith
    ultimately show ?thesis using ss by (intro exI [of _ "s + length ss - 1"]) (auto simp: run_last_def)
  next
    case False
    then have nx: "\<not> is_runend qf (s + length ss - 1)" "run_layout qf (s + length ss) es" using ss(4) by simp_all
    from Cons.IH [OF nx(2)] obtain e where e: "run_last qf (s + length ss) e" by blast
    then have "no_runend qf s e" using no_runend_extend [OF ss(3) nx(1) ne] by (simp add: run_last_def)
    moreover have "s \<le> e" "is_runend qf e" using e by (simp_all add: run_last_def)
    ultimately show ?thesis unfolding run_last_def by blast
  qed
qed simp

lemma run_last_unique: "run_last qf s e \<Longrightarrow> run_last qf s e' \<Longrightarrow> e = e'"
  unfolding run_last_def no_runend_def by (metis linorder_neqE_nat)

text \<open>A run is where its slots and runend bits are, wherever they were moved to.\<close>

lemma layout_move:
  assumes "run_layout qf s es" "run_last qf s e" "qf_bps qf' = qf_bps qf"
    and "\<And>j. s \<le> j \<Longrightarrow> j \<le> e \<Longrightarrow> get_slot qf' (j + d) = get_slot qf j \<and> is_runend qf' (j + d) = is_runend qf j"
  shows "run_layout qf' (s + d) es"
  using assms
proof (induction es arbitrary: s)
  case (Cons x es)
  obtain r c where x: "x = (r, c)" by force
  from Cons.prems(1) obtain ss where ss: "encode_counter qf r c = Some ss" "c \<noteq> 0" "r \<le> BITMASK (qf_bps qf)"
    "holds qf s ss" "no_runend qf s (s + length ss - 1)"
    "if es = [] then is_runend qf (s + length ss - 1)
     else \<not> is_runend qf (s + length ss - 1) \<and> r < fst (hd es) \<and> run_layout qf (s + length ss) es"
    unfolding x layout_Cons by blast
  have ne: "0 < length ss" using encode_nonempty [OF ss(1,2)] by simp
  have le: "s + length ss - 1 \<le> e"
    using ss(5) Cons.prems(2) by (auto simp: run_last_def no_runend_def not_less [symmetric])
  note mv = Cons.prems(4)
  have h: "holds qf' (s + d) ss" unfolding holds_def
  proof (intro allI impI)
    fix j assume j: "j < length ss"
    then have "get_slot qf' (s + j + d) = get_slot qf (s + j)" using mv [of "s + j"] le by simp
    with j ss(4) show "get_slot qf' (s + d + j) = ss ! j" by (simp add: holds_def add.commute add.left_commute)
  qed
  have nr: "no_runend qf' (s + d) (s + d + length ss - 1)" unfolding no_runend_def
  proof (intro allI impI)
    fix j assume j: "s + d \<le> j \<and> j < s + d + length ss - 1"
    then have "is_runend qf' (j - d + d) = is_runend qf (j - d)" using le by (intro mv [THEN conjunct2]) auto
    moreover have "s \<le> j - d" "j - d < s + length ss - 1" using j by auto
    ultimately show "\<not> is_runend qf' j" using j ss(5) by (simp add: no_runend_def)
  qed
  have lst: "is_runend qf' (s + d + length ss - 1) = is_runend qf (s + length ss - 1)"
  proof -
    have "s \<le> s + length ss - 1" "s + length ss - 1 + d = s + d + length ss - 1" using ne by linarith+
    then show ?thesis using mv [of "s + length ss - 1"] le by (simp only:)
  qed
  show ?case
  proof (cases "es = []")
    case True
    then show ?thesis unfolding x layout_Cons using ss h nr lst encode_cong [OF Cons.prems(3)] Cons.prems(3) by auto
  next
    case False
    then have "run_layout qf (s + length ss) es" "\<not> is_runend qf (s + length ss - 1)" using ss by auto
    moreover have "run_last qf (s + length ss) e"
      using Cons.prems(2) le calculation(2) ne by (auto simp: run_last_def no_runend_def le_less)
    ultimately have "run_layout qf' (s + length ss + d) es" using mv Cons.prems(3) by (intro Cons.IH) auto
    then show ?thesis unfolding x layout_Cons using False ss h nr lst encode_cong [OF Cons.prems(3)] Cons.prems(3)
      by (auto simp: add.commute add.left_commute)
  qed
qed simp

lemma layout_keep:
  "run_layout qf s es \<Longrightarrow> run_last qf s e \<Longrightarrow> qf_bps qf' = qf_bps qf \<Longrightarrow>
   (\<And>j. s \<le> j \<Longrightarrow> j \<le> e \<Longrightarrow> get_slot qf' j = get_slot qf j \<and> is_runend qf' j = is_runend qf j) \<Longrightarrow> run_layout qf' s es"
  using layout_move [of qf s es e qf' 0] by simp

section \<open>Run ends are determined by the counts\<close>

lemma is_run_end_unique: "is_run_end qf x r \<Longrightarrow> is_run_end qf x r' \<Longrightarrow> r = r'"
  unfolding is_run_end_def by (metis linorder_neqE_nat)

lemma run_end_iff:
  assumes "run_inv qf" "x < 64 * nblocks (metadata qf)"
  shows "run_end qf x = Some r \<longleftrightarrow> is_run_end qf x r"
  using run_end_correct_aux [OF assms] is_run_end_unique by auto

lemma run_start_iff:
  assumes "run_inv qf" "y < 64 * nblocks (metadata qf)"
  shows "run_start qf y = Some s \<longleftrightarrow> (if y = 0 then s = 0 else \<exists>r. s = Suc r \<and> is_run_end qf (y - 1) r)"
  using run_end_iff [OF assms(1), of "y - 1"] assms(2) by (auto simp: run_start_def)

lemma run_start_count:
  assumes "run_inv qf" "y < 64 * nblocks (metadata qf)" "run_start qf y = Some s"
  shows "y \<le> s \<and> nbelow (is_runend qf) s = nbelow (is_occupied qf) y"
  using assms(3) unfolding run_start_iff [OF assms(1,2)]
  by (cases y) (auto simp: is_run_end_def)

lemma nbelow_free:
  assumes "runs_ok (is_occupied qf) (is_runend qf) N" "x < N" "slot_free qf x"
  shows "\<not> is_occupied qf x" "\<not> is_runend qf x"
proof -
  have "nbelow (is_runend qf) x \<le> nbelow (is_occupied qf) x" "nbelow (is_runend qf) (Suc x) \<le> nbelow (is_occupied qf) (Suc x)"
    using assms by (simp_all add: runs_ok_def)
  then show "\<not> is_occupied qf x" "\<not> is_runend qf x" using assms(3) by (auto simp: slot_free_def cnt_Suc split: if_splits)
qed

text \<open>A free slot is in no run.\<close>

lemma free_outside_run:
  assumes inv: "run_inv qf" and y: "y < 64 * nblocks (metadata qf)" "is_occupied qf y"
    and s: "run_start qf y = Some s" "run_last qf s e"
    and x: "x < 64 * nblocks (metadata qf)" "slot_free qf x"
  shows "x < s \<or> e < x"
proof (rule ccontr)
  assume "\<not> (x < s \<or> e < x)"
  then have sx: "s \<le> x" "x \<le> e" by auto
  have ro: "runs_ok (is_occupied qf) (is_runend qf) (64 * nblocks (metadata qf))" using inv by (simp add: run_inv_def)
  have c: "y \<le> s" "nbelow (is_runend qf) s = nbelow (is_occupied qf) y" using run_start_count [OF inv y(1) s(1)] by auto
  have "nbelow (is_runend qf) x = nbelow (is_runend qf) s"
    using s(2) sx by (intro cnt_bounded) (auto simp: run_last_def no_runend_def)
  moreover have "nbelow (is_occupied qf) (Suc y) \<le> nbelow (is_occupied qf) (Suc x)" using c sx by (intro cnt_mono) simp
  ultimately show False using c x(2) y(2) by (simp add: slot_free_def cnt_Suc [of _ y])
qed

section \<open>A new run in an empty slot\<close>

lemma nbelow_insert:
  "\<not> P x \<Longrightarrow> nbelow (\<lambda>j. j = x \<or> P j) k = nbelow P k + (if x < k then 1 else 0)"
  by (induction k) (auto simp: cnt_Suc less_Suc_eq)

text \<open>\<open>qf'\<close> is \<open>qf\<close> with bucket \<open>x\<close> occupied by the single slot \<open>x\<close> of value \<open>v\<close>.\<close>

definition filled :: "QF \<Rightarrow> nat \<Rightarrow> u64 \<Rightarrow> QF \<Rightarrow> bool" where
  "filled qf x v qf' \<longleftrightarrow> is_occupied qf' = (\<lambda>j. j = x \<or> is_occupied qf j) \<and> is_runend qf' = (\<lambda>j. j = x \<or> is_runend qf j) \<and>
     get_slot qf' = (get_slot qf)(x := v) \<and> block_off qf' = block_off qf \<and>
     nblocks (metadata qf') = nblocks (metadata qf) \<and> qf_bps qf' = qf_bps qf"

lemma filled_run_inv:
  assumes inv: "run_inv qf" and x: "x < 64 * nblocks (metadata qf)" "slot_free qf x" and f: "filled qf x v qf'"
  shows "run_inv qf'"
proof -
  let ?N = "64 * nblocks (metadata qf)"
  have ro: "runs_ok (is_occupied qf) (is_runend qf) ?N" and oo: "offsets_ok (is_occupied qf) (is_runend qf) (block_offset qf) (nblocks (metadata qf))"
    using inv by (simp_all add: run_inv_def)
  note nf = nbelow_free [OF ro x]
  have o: "nbelow (is_occupied qf') k = nbelow (is_occupied qf) k + (if x < k then 1 else 0)"
    and e: "nbelow (is_runend qf') k = nbelow (is_runend qf) k + (if x < k then 1 else 0)" for k
    using f nf by (simp_all add: filled_def nbelow_insert)
  have nb: "nblocks (metadata qf') = nblocks (metadata qf)" using f by (simp add: filled_def)
  have "\<not> (64 * b \<le> x \<and> x < 64 * b + block_offset qf b)" if "b < nblocks (metadata qf)" for b
  proof
    assume bx: "64 * b \<le> x \<and> x < 64 * b + block_offset qf b"
    then have "nbelow (is_runend qf) (64 * b + (x - 64 * b)) < nbelow (is_occupied qf) (64 * b)"
      using oo that unfolding offsets_ok_def by (metis add_less_cancel_left le_add_diff_inverse)
    moreover have "nbelow (is_occupied qf) (64 * b) \<le> nbelow (is_occupied qf) (Suc x)" using bx by (intro cnt_mono) simp
    ultimately show False using x(2) bx by (simp add: slot_free_def)
  qed
  then have "offsets_ok (is_occupied qf') (is_runend qf') (block_offset qf') (nblocks (metadata qf'))"
    using oo f unfolding offsets_ok_def o e block_offset_def filled_def by fastforce
  moreover have "runs_ok (is_occupied qf') (is_runend qf') (64 * nblocks (metadata qf'))"
    using ro x(1) nb by (simp add: runs_ok_def o e)
  ultimately show ?thesis by (simp add: run_inv_def)
qed

lemma filled_run_end:
  assumes inv: "run_inv qf" and x: "x < 64 * nblocks (metadata qf)" "slot_free qf x" and f: "filled qf x v qf'"
    and r: "is_run_end qf y r"
  shows "is_run_end qf' y r"
proof -
  let ?o = "is_occupied qf" and ?e = "is_runend qf"
  have ro: "runs_ok ?o ?e (64 * nblocks (metadata qf))" using inv by (simp add: run_inv_def)
  note nf = nbelow_free [OF ro x]
  have o: "nbelow (is_occupied qf') k = nbelow ?o k + (if x < k then 1 else 0)"
    and e: "nbelow (is_runend qf') k = nbelow ?e k + (if x < k then 1 else 0)" for k
    using f nf by (simp_all add: filled_def nbelow_insert)
  show ?thesis
  proof (cases "x \<le> y")
    case True
    then show ?thesis using r by (auto simp: is_run_end_def o e)
  next
    case False
    have le: "nbelow ?o (Suc y) \<le> nbelow ?e x"
      using x(2) cnt_mono [of "Suc y" "Suc x" ?o] False by (simp add: slot_free_def)
    have "r < x"
    proof (rule ccontr)
      assume "\<not> r < x"
      then have "nbelow ?e x \<le> nbelow ?e (Suc r)" by (intro cnt_mono) simp
      then have "nbelow ?e (Suc (x - 1)) = nbelow ?o (Suc y)" using le r False by (simp add: is_run_end_def)
      moreover have "y \<le> x - 1" "x - 1 < r" using False \<open>\<not> r < x\<close> by auto
      ultimately show False using r by (auto simp: is_run_end_def)
    qed
    then show ?thesis using r False by (auto simp: is_run_end_def o e)
  qed
qed

lemma filled_run_start:
  assumes inv: "run_inv qf" and x: "x < 64 * nblocks (metadata qf)" "slot_free qf x" and f: "filled qf x v qf'"
    and y: "y < 64 * nblocks (metadata qf)" "run_start qf y = Some s"
  shows "run_start qf' y = Some s"
proof -
  have y'': "y < 64 * nblocks (metadata qf')" using y f by (simp add: filled_def)
  show ?thesis
    using y(2) filled_run_end [OF inv x f] unfolding run_start_iff [OF inv y(1)] run_start_iff [OF filled_run_inv [OF inv x f] y'']
    by (auto split: if_splits)
qed

lemma filled_own_start:
  assumes inv: "run_inv qf" and x: "x < 64 * nblocks (metadata qf)" "slot_free qf x"
  shows "run_start qf x = Some x"
proof -
  obtain s where s: "x \<le> s" "run_start qf x = Some s" using run_start_ge [OF inv x(1)] by blast
  show ?thesis
  proof (cases x)
    case 0
    then show ?thesis by (simp add: run_start_def)
  next
    case (Suc y)
    with s obtain r where r: "s = Suc r" "is_run_end qf y r" using run_start_iff [OF inv x(1)] by auto
    have ro: "runs_ok (is_occupied qf) (is_runend qf) (64 * nblocks (metadata qf))" using inv by (simp add: run_inv_def)
    have "nbelow (is_runend qf) (Suc y) = nbelow (is_occupied qf) (Suc y)"
      using x(2) nbelow_free(1) [OF ro x] Suc by (simp add: slot_free_def cnt_Suc [of _ "Suc y"])
    then have "r = y" using r(2) by (auto simp: is_run_end_def)
    with r s Suc show ?thesis by simp
  qed
qed

lemma filled_contents:
  assumes inv: "run_inv qf" and x: "x < 64 * nblocks (metadata qf)" "slot_free qf x" and f: "filled qf x v qf'"
    and v: "v \<le> BITMASK (qf_bps qf)" and m: "contents qf m"
  shows "contents qf' (m(x := [(v, 1)]))"
  unfolding contents_def
proof (intro allI impI conjI)
  have nb: "nblocks (metadata qf') = nblocks (metadata qf)" "qf_bps qf' = qf_bps qf" using f by (simp_all add: filled_def)
  fix y assume y: "y < 64 * nblocks (metadata qf')"
  note y' = y [unfolded nb]
  show "(m(x := [(v, 1)])) y = []" if "\<not> is_occupied qf' y"
    using that f m y' by (auto simp: contents_def filled_def)
  show "\<exists>s. run_start qf' y = Some s \<and> run_layout qf' s ((m(x := [(v, 1)])) y)" if occ: "is_occupied qf' y"
  proof (cases "y = x")
    case True
    have "run_layout qf' x [(v, 1)]"
      using f v nb by (simp add: encode_counter_def no_runend_def filled_def)
    then show ?thesis using True filled_run_start [OF inv x f x(1) filled_own_start [OF inv x]] by auto
  next
    case False
    then have occ': "is_occupied qf y" using occ f by (simp add: filled_def)
    then obtain s where s: "run_start qf y = Some s" "run_layout qf s (m y)" using m y' by (auto simp: contents_def)
    then obtain e where e: "run_last qf s e" using layout_run_last by blast
    have "x < s \<or> e < x" by (rule free_outside_run [OF inv y' occ' s(1) e x])
    then have "run_layout qf' s (m y)" using f by (intro layout_keep [OF s(2) e]) (auto simp: filled_def)
    then show ?thesis using False filled_run_start [OF inv x f y' s(1)] by auto
  qed
qed

section \<open>Inserting into an empty slot\<close>

lemma modify_metadata_ok:
  "metadata_lock (runtimedata qf) = 0 \<Longrightarrow>
   modify_metadata qf fld c = Some (qf\<lparr>metadata := add_counter (metadata qf) fld (to_int32 c)\<rparr>)"
  by (simp add: modify_metadata_def qf_spin_lock_def qf_spin_unlock_def)

text \<open>Changing the header counters or locks leaves every view of the blocks alone.\<close>

lemma add_counter_frame [simp]:
  "nblocks (add_counter md fld c) = nblocks md" "bits_per_slot (add_counter md fld c) = bits_per_slot md"
  "xnslots (add_counter md fld c) = xnslots md" "nslots (add_counter md fld c) = nslots md"
  by (cases fld; simp)+

lemma views_metadata:
  assumes "blocks qf' = blocks qf" "qf_bps qf' = qf_bps qf"
  shows "is_occupied qf' = is_occupied qf" "is_runend qf' = is_runend qf" "get_slot qf' = get_slot qf" "block_off qf' = block_off qf"
  by (intro ext; use assms in \<open>simp add: is_occupied_def is_runend_def METADATA_WORD_def md_addr_def get_block_def
      get_slot_def slot_addr_def slot_shift_def block_off_def\<close>)+

text \<open>The three writes of the empty-slot case, and the three counters they go with.\<close>

definition fill_slot :: "QF \<Rightarrow> nat \<Rightarrow> u64 \<Rightarrow> QF" where
  "fill_slot qf x v = md_set_bit (set_slot (md_set_bit qf runends x) x v) occupieds x"

lemma fill_slot_frame [simp]: "metadata (fill_slot qf x v) = metadata qf" "runtimedata (fill_slot qf x v) = runtimedata qf"
  by (simp_all add: fill_slot_def)

lemma fill_slot_filled:
  assumes "width_ok qf" "v \<le> BITMASK (qf_bps qf)"
  shows "filled qf x v (fill_slot qf x v)"
  using assms by (auto simp: filled_def fill_slot_def fun_eq_iff view_simps get_set_slot)

lemma filled_cong:
  "filled qf x v q \<Longrightarrow> blocks q' = blocks q \<Longrightarrow> qf_bps q' = qf_bps q \<Longrightarrow> nblocks (metadata q') = nblocks (metadata q) \<Longrightarrow>
   filled qf x v q'"
  by (simp add: filled_def views_metadata [of q' q])

definition count_one :: "QF \<Rightarrow> QF" where
  "count_one qf = qf\<lparr>metadata := add_counter (add_counter (add_counter (metadata qf) Ndistinct_elts 1) Noccupied_slots 1) Nelts 1\<rparr>"

lemma to_int32_1 [simp]: "to_int32 1 = 1"
  by (simp add: to_int32_small)

lemma insert1_empty_eq:
  assumes "qf_inv qf" "GET_NO_LOCK flag = QF_NO_LOCK" "is_empty qf (hash_bucket_of qf hash)"
  shows "insert1 qf hash flag = Some (0, count_one (fill_slot qf (hash_bucket_of qf hash) (hash_remainder_of qf hash)))"
  using assms by (simp add: insert1_def Let_def modify_metadata_ok qf_inv_def count_one_def fill_slot_def)

lemma hash_remainder_le: "hash_remainder_of qf hash \<le> BITMASK (qf_bps qf)"
proof -
  have "ucast (hash AND ucast (BITMASK (qf_bps qf))) = ucast hash AND (BITMASK (qf_bps qf))" for hash :: u128
    by (rule bit_word_eqI) (auto simp: bit_simps)
  then show ?thesis by (simp add: hash_remainder_of_def word_and_le1)
qed

lemma insert1_empty_aux:
  fixes qf :: QF and hash :: u128
  defines "x \<equiv> hash_bucket_of qf hash" and "v \<equiv> hash_remainder_of qf hash"
  assumes inv: "qf_inv qf" and m: "contents qf m" and fl: "GET_NO_LOCK flag = QF_NO_LOCK"
    and x: "x < 64 * nblocks (metadata qf)" "slot_free qf x"
  shows "\<exists>qf'. insert1 qf hash flag = Some (0, qf') \<and> qf_inv qf' \<and> contents qf' (m(x := [(v, 1)])) \<and>
    nelts (metadata qf') = nelts (metadata qf) + 1 \<and> ndistinct_elts (metadata qf') = ndistinct_elts (metadata qf) + 1 \<and>
    noccupied_slots (metadata qf') = noccupied_slots (metadata qf) + 1"
proof -
  let ?q = "count_one (fill_slot qf x v)"
  have w: "width_ok qf" and ri: "run_inv qf" using inv by (simp_all add: qf_inv_def)
  have v: "v \<le> BITMASK (qf_bps qf)" unfolding v_def by (rule hash_remainder_le)
  have "insert1 qf hash flag = Some (0, ?q)"
    unfolding x_def v_def using inv fl is_empty_slot_free [OF ri x(1)] x(2) by (intro insert1_empty_eq) (simp_all add: x_def)
  moreover have f: "filled qf x v ?q"
    by (rule filled_cong [OF fill_slot_filled [OF w v]]) (simp_all add: count_one_def)
  moreover have "qf_inv ?q"
    using filled_run_inv [OF ri x f] inv by (simp add: qf_inv_def count_one_def width_ok_def)
  ultimately show ?thesis using filled_contents [OF ri x f v m] by (intro exI [of _ ?q]) (simp add: count_one_def)
qed

end
