(* ===== verification/GQF_File.thy ===== *)
theory GQF_File
  imports GQF_API
begin

text \<open>
  Filters in files (\<^verbatim>\<open>terrace/code/src/gqf/gqf_file.c\<close>).  A file is its header, its block bytes and the number of
  block bytes it has; a file system maps paths to files.  What the operating system decides (whether a path can be
  created, opened or mapped, the descriptor it returns) is a parameter; where a call fails the code
  calls \<^verbatim>\<open>exit\<close>, which is \<open>None\<close>.  A shared mapping is written back when the file is closed.
\<close>

section \<open>Definitions\<close>

type_synonym qf_file = "qfmetadata \<times> mem \<times> nat"
type_synonym fs = "string \<rightharpoonup> qf_file"

record os_env =
  os_alloc :: "nat \<Rightarrow> bool"
  os_create :: "string \<Rightarrow> bool"
  os_map :: "string \<Rightarrow> bool"
  os_fd :: "string \<Rightarrow> int"

datatype usefile_flag = QF_USEFILE_READ_ONLY | QF_USEFILE_READ_WRITE | Other_flag

definition restrict_mem :: "mem \<Rightarrow> nat \<Rightarrow> mem" where
  "restrict_mem m n = (\<lambda>i. if i < n then m i else 0)"

text \<open>The file a filter stands for.\<close>

definition file_of :: "QF \<Rightarrow> qf_file" where
  "file_of qf = (metadata qf, restrict_mem (blocks qf) (total_size_in_bytes (metadata qf)), total_size_in_bytes (metadata qf))"

definition qf_initfile ::
    "os_env \<Rightarrow> fs \<Rightarrow> QF \<Rightarrow> nat \<Rightarrow> nat \<Rightarrow> nat \<Rightarrow> qf_hashmode \<Rightarrow> u32 \<Rightarrow> string \<Rightarrow> (bool \<times> QF \<times> fs) option" where
  "qf_initfile os fs qf nslots' key_bits' value_bits' hash seed filename = do {
     (total_num_bytes, qf) \<leftarrow> qf_init (os_alloc os) qf nslots' key_bits' value_bits' hash seed None;
     if \<not> os_alloc os sizeof_qfruntime \<or> \<not> os_create os filename \<or> \<not> os_map os filename then None
     else do {
       let qf = qf\<lparr>runtimedata := zero_runtime\<lparr>fd := os_fd os filename\<rparr>\<rparr>;
       (init_size, qf) \<leftarrow> qf_init (os_alloc os) qf nslots' key_bits' value_bits' hash seed (Some total_num_bytes);
       if \<not> os_alloc os (length filename + 1) then None
       else let qf = qf\<lparr>runtimedata := (runtimedata qf)\<lparr>filepath := Some filename, container_resize := Resize_file\<rparr>\<rparr>
            in Some (init_size = total_num_bytes, qf, fs(filename \<mapsto> file_of qf))
     }
   }"

text \<open>The lock array again has the \<^verbatim>\<open>num_locks\<close> of cleared run-time data, that is no entries.\<close>

definition qf_usefile :: "os_env \<Rightarrow> fs \<Rightarrow> QF \<Rightarrow> string \<Rightarrow> usefile_flag \<Rightarrow> (nat \<times> QF) option" where
  "qf_usefile os fs qf filename flag =
    (if flag = Other_flag then Some (0, qf)
     else if \<not> os_alloc os sizeof_qfruntime then None
     else case fs filename of
            None \<Rightarrow> None
          | Some (md, bl, n) \<Rightarrow>
              if \<not> os_alloc os (length filename + 1) \<or> \<not> os_alloc os (num_locks zero_runtime * sizeof_int) \<or> \<not> os_map os filename
              then None
              else if magic_endian_number md \<noteq> MAGIC_NUMBER then None
              else Some (sizeof_qfmetadata + total_size_in_bytes md,
                     \<lparr>runtimedata = zero_runtime\<lparr>fd := os_fd os filename, filepath := Some filename,
                        container_resize := Resize_file, metadata_lock := 0,
                        locks := replicate (num_locks zero_runtime) 0\<rparr>,
                      metadata = md, blocks = bl\<rparr>))"

definition qf_closefile :: "fs \<Rightarrow> QF \<Rightarrow> bool \<times> fs" where
  "qf_closefile fs qf =
    (case filepath (runtimedata qf) of None \<Rightarrow> (True, fs) | Some p \<Rightarrow> (True, fs(p \<mapsto> file_of qf)))"

definition qf_deletefile :: "fs \<Rightarrow> QF \<Rightarrow> (bool \<times> fs) option" where
  "qf_deletefile fs qf =
    (case filepath (runtimedata qf) of
       None \<Rightarrow> None
     | Some path \<Rightarrow> (let (closed, fs) = qf_closefile fs qf in if closed then Some (True, fs(path := None)) else Some (False, fs)))"

text \<open>The decimal digits \<^verbatim>\<open>snprintf\<close> writes for \<^verbatim>\<open>%ld\<close> of a number that is not negative.\<close>

fun decimal :: "nat \<Rightarrow> string" where
  "decimal n = (if n < 10 then [char_of (48 + n)] else decimal (n div 10) @ [char_of (48 + n mod 10)])"

declare decimal.simps [simp del]

definition resized_name :: "string \<Rightarrow> nat \<Rightarrow> string" where
  "resized_name path nslots' =
    (let new_filename_len = length path + 1 + 13
     in take (new_filename_len - 1) (path @ ''_'' @ decimal nslots'))"

definition qf_resize_file :: "os_env \<Rightarrow> fs \<Rightarrow> inserter \<Rightarrow> QF \<Rightarrow> nat \<Rightarrow> (int \<times> QF \<times> fs) option" where
  "qf_resize_file os fs ins qf nslots' =
    (case filepath (runtimedata qf) of
       None \<Rightarrow> None
     | Some path \<Rightarrow>
         if \<not> os_alloc os (length path + 1 + 13) then None
         else if length (path @ ''_'' @ decimal nslots') \<le> length path then Some (- 1, qf, fs)
         else do {
           (ok, new_qf, fs) \<leftarrow> qf_initfile os fs qf nslots' (key_bits (metadata qf)) (value_bits (metadata qf))
                                (hash_mode (metadata qf)) (md_seed (metadata qf)) (resized_name path nslots');
           if \<not> ok then Some (0, qf, fs)
           else do {
             let new_qf = (if auto_resize (metadata qf) \<noteq> 0 then qf_set_auto_resize new_qf True else new_qf);
             (_, qfi) \<leftarrow> qf_iterator_from_position qf fresh_iterator 0;
             (ret, new_qf) \<leftarrow> copy_keys ins qf qfi new_qf 0;
             if ret < 0 then Some (ret, qf, fs)
             else do {
               (_, fs) \<leftarrow> qf_deletefile fs qf;
               let qf = new_qf;
               let fs = fs(resized_name path nslots' := None, path := Some (file_of qf));
               Some (ret, qf\<lparr>runtimedata := (runtimedata qf)\<lparr>filepath := Some path\<rparr>\<rparr>, fs)
             }
           }
         })"

definition qf_serialize :: "os_env \<Rightarrow> fs \<Rightarrow> QF \<Rightarrow> string \<Rightarrow> (nat \<times> fs) option" where
  "qf_serialize os fs qf filename =
    (if \<not> os_create os filename then None
     else Some (sizeof_qfmetadata + total_size_in_bytes (metadata qf), fs(filename \<mapsto> file_of qf)))"

definition qf_deserialize :: "os_env \<Rightarrow> fs \<Rightarrow> QF \<Rightarrow> string \<Rightarrow> (nat \<times> QF) option" where
  "qf_deserialize os fs qf filename =
    (case fs filename of
       None \<Rightarrow> None
     | Some (md, bl, n) \<Rightarrow>
         if \<not> os_alloc os sizeof_qfruntime \<or> \<not> os_alloc os sizeof_qfmetadata then None
         else if magic_endian_number md \<noteq> MAGIC_NUMBER then None
         else
           let num_locks' = xnslots md div NUM_SLOTS_TO_LOCK + 2
           in if \<not> os_alloc os (length filename + 1) \<or> \<not> os_alloc os (num_locks' * sizeof_int) \<or>
                 \<not> os_alloc os (total_size_in_bytes md) \<or> n < total_size_in_bytes md \<or> total_size_in_bytes md = 0
              then None
              else Some (sizeof_qfmetadata + total_size_in_bytes md,
                     \<lparr>runtimedata = zero_runtime\<lparr>filepath := Some filename, num_locks := num_locks', metadata_lock := 0,
                        locks := replicate num_locks' 0\<rparr>,
                      metadata = md, blocks = restrict_mem bl (total_size_in_bytes md)\<rparr>))"

section \<open>Writing and reading back\<close>

lemma deserialize_serialize_aux:
  assumes "qf_serialize os fs qf name = Some (n, fs')" "\<forall>k. os_alloc os k"
    and "magic_endian_number (metadata qf) = MAGIC_NUMBER" "0 < total_size_in_bytes (metadata qf)"
  shows "\<exists>qf'. qf_deserialize os fs' any name = Some (n, qf') \<and> metadata qf' = metadata qf \<and>
    (\<forall>i < total_size_in_bytes (metadata qf). blocks qf' i = blocks qf i) \<and>
    length (locks (runtimedata qf')) = xnslots (metadata qf) div NUM_SLOTS_TO_LOCK + 2"
  using assms by (auto simp: qf_serialize_def qf_deserialize_def file_of_def restrict_mem_def Let_def split: if_splits)

end
