(* ===== verification/Partitioned_Counter.thy ===== *)
theory Partitioned_Counter
  imports Prelude
begin

text \<open>
  The partitioned counter of \<^verbatim>\<open>terrace/code/src/partitioned_counter.c\<close>: one local counter per processor, flushed
  into a global counter when it leaves the interval of the threshold.  First the calls of one thread, then the
  interleaving of the atomic operations of any number of threads.  Counters are 64-bit words (the C type is
  \<^verbatim>\<open>int64_t\<close>, and the atomic operations wrap); comparisons read them as signed.
\<close>

section \<open>Definitions\<close>

record partitioned_counter =
  local_counters :: "u64 list"
  global_counter :: u64
  num_counters :: nat
  threshold :: int

definition PC_ERROR :: int where "PC_ERROR = - 1"

text \<open>
  \<open>num_cpus\<close> is the value of \<^verbatim>\<open>sysconf\<close> and \<open>can_alloc\<close> whether the allocation succeeds.  On an error the
  structure keeps what was stored before.
\<close>

definition pc_init ::
    "int \<Rightarrow> bool \<Rightarrow> partitioned_counter \<Rightarrow> u64 \<Rightarrow> nat \<Rightarrow> int \<Rightarrow> int \<times> partitioned_counter" where
  "pc_init num_cpus can_alloc pc global_counter' num_counters' threshold' =
    (if num_cpus < 0 then (PC_ERROR, pc)
     else let pc = pc\<lparr>num_counters := if num_counters' = 0 then nat num_cpus else min (nat num_cpus) num_counters'\<rparr>
          in if \<not> can_alloc then (PC_ERROR, pc\<lparr>local_counters := []\<rparr>)
             else (0, pc\<lparr>local_counters := replicate (num_counters pc) 0, global_counter := global_counter',
                       threshold := threshold'\<rparr>))"

text \<open>\<open>cpuid\<close> is the value of \<^verbatim>\<open>sched_getcpu\<close>, converted to unsigned by the remainder operation.\<close>

definition counter_id :: "partitioned_counter \<Rightarrow> int \<Rightarrow> nat" where
  "counter_id pc cpuid = nat (cpuid mod 2 ^ 32) mod num_counters pc"

definition over_threshold :: "partitioned_counter \<Rightarrow> u64 \<Rightarrow> bool" where
  "over_threshold pc c \<longleftrightarrow> sint c > threshold pc \<or> sint c < - threshold pc"

definition pc_add :: "partitioned_counter \<Rightarrow> int \<Rightarrow> u64 \<Rightarrow> partitioned_counter" where
  "pc_add pc cpuid count =
    (let id = counter_id pc cpuid;
         cur_count = local_counters pc ! id + count;
         pc = pc\<lparr>local_counters := (local_counters pc)[id := cur_count]\<rparr>
     in if over_threshold pc cur_count then
          let new_count = local_counters pc ! id;
              pc = pc\<lparr>local_counters := (local_counters pc)[id := 0]\<rparr>
          in pc\<lparr>global_counter := global_counter pc + new_count\<rparr>
        else pc)"

fun pc_sync_loop :: "partitioned_counter \<Rightarrow> nat list \<Rightarrow> partitioned_counter" where
  "pc_sync_loop pc [] = pc"
| "pc_sync_loop pc (i # is) =
    (let c = local_counters pc ! i;
         pc = pc\<lparr>local_counters := (local_counters pc)[i := 0]\<rparr>
     in pc_sync_loop (pc\<lparr>global_counter := global_counter pc + c\<rparr>) is)"

definition pc_sync :: "partitioned_counter \<Rightarrow> partitioned_counter" where
  "pc_sync pc = pc_sync_loop pc [0 ..< num_counters pc]"

definition pc_destructor :: "partitioned_counter \<Rightarrow> partitioned_counter" where
  "pc_destructor pc = (pc_sync pc)\<lparr>local_counters := []\<rparr>"

section \<open>One thread\<close>

definition pc_ok :: "partitioned_counter \<Rightarrow> bool" where
  "pc_ok pc \<longleftrightarrow> length (local_counters pc) = num_counters pc \<and> 0 < num_counters pc"

definition pc_total :: "partitioned_counter \<Rightarrow> u64" where
  "pc_total pc = global_counter pc + sum_list (local_counters pc)"

lemma sum_list_upd: "i < length xs \<Longrightarrow> sum_list (xs[i := v]) = sum_list xs - xs ! i + v" for xs :: "u64 list"
  by (induction xs arbitrary: i) (auto split: nat.split)

lemma counter_id_less: "pc_ok pc \<Longrightarrow> counter_id pc cpuid < length (local_counters pc)"
  by (simp add: counter_id_def pc_ok_def)

lemma pc_add_ok: "pc_ok pc \<Longrightarrow> pc_ok (pc_add pc cpuid count)"
  by (simp add: pc_add_def pc_ok_def Let_def)

lemma pc_add_total: "pc_ok pc \<Longrightarrow> pc_total (pc_add pc cpuid count) = pc_total pc + count"
  using counter_id_less [of pc cpuid] by (simp add: pc_add_def pc_total_def Let_def sum_list_upd)

lemma pc_add_bound:
  assumes "pc_ok pc" "0 \<le> threshold pc"
    and "\<forall>c \<in> set (local_counters pc). \<not> over_threshold pc c"
  shows "\<forall>c \<in> set (local_counters (pc_add pc cpuid count)). \<not> over_threshold (pc_add pc cpuid count) c"
proof -
  have set_upd: "c \<in> set (xs[i := v]) \<Longrightarrow> c = v \<or> c \<in> set xs" for c v i and xs :: "u64 list"
    using set_update_subset_insert [of xs i v] by auto
  show ?thesis using assms
    by (auto simp: pc_add_def Let_def over_threshold_def dest!: set_upd)
qed

lemma sync_loop_aux:
  "distinct is \<Longrightarrow> \<forall>i \<in> set is. i < length (local_counters pc) \<Longrightarrow>
   pc_total (pc_sync_loop pc is) = pc_total pc \<and>
   local_counters (pc_sync_loop pc is) = map (\<lambda>i. if i \<in> set is then 0 else local_counters pc ! i) [0 ..< length (local_counters pc)] \<and>
   num_counters (pc_sync_loop pc is) = num_counters pc \<and> threshold (pc_sync_loop pc is) = threshold pc"
proof (induction "is" arbitrary: pc)
  case Nil
  show ?case by (simp add: map_nth)
next
  case (Cons i "is")
  let ?pc = "pc\<lparr>local_counters := (local_counters pc)[i := 0], global_counter := global_counter pc + local_counters pc ! i\<rparr>"
  have eq: "pc_sync_loop pc (i # is) = pc_sync_loop ?pc is" by (simp add: Let_def)
  have t: "pc_total ?pc = pc_total pc" using Cons.prems by (simp add: pc_total_def sum_list_upd)
  have p: "distinct is" "\<forall>i \<in> set is. i < length (local_counters ?pc)" using Cons.prems by simp_all
  show ?case unfolding eq using Cons.IH [OF p] t by (auto simp: nth_list_update)
qed

lemmas sync_loop = sync_loop_aux [THEN conjunct1] sync_loop_aux [THEN conjunct2, THEN conjunct1]
  sync_loop_aux [THEN conjunct2, THEN conjunct2, THEN conjunct1]

lemma pc_sync_spec:
  assumes "pc_ok pc"
  shows "local_counters (pc_sync pc) = replicate (num_counters pc) 0" "global_counter (pc_sync pc) = pc_total pc"
    "pc_ok (pc_sync pc)"
proof -
  have p: "distinct [0 ..< num_counters pc]" "\<forall>i \<in> set [0 ..< num_counters pc]. i < length (local_counters pc)"
    using assms by (simp_all add: pc_ok_def)
  note s = sync_loop [OF p, folded pc_sync_def]
  show l: "local_counters (pc_sync pc) = replicate (num_counters pc) 0"
    unfolding s(2) using assms by (intro nth_equalityI) (simp_all add: pc_ok_def)
  then show "global_counter (pc_sync pc) = pc_total pc" using s(1) by (simp add: pc_total_def sum_list_replicate)
  show "pc_ok (pc_sync pc)" using l s(3) assms by (simp add: pc_ok_def)
qed

section \<open>Any number of threads\<close>

text \<open>
  A thread that adds runs three atomic operations on shared words: add to the local counter, exchange it with 0,
  add the value read to the global counter; the second and third only past the threshold.  A thread
  that synchronises repeats the last two for every counter.  \<open>Carry v is\<close> holds a value taken from a local counter, with
  the counters still to be flushed.
\<close>

datatype pphase = Rest | Flush nat "nat list" | Carry u64 "nat list" | Syncing "nat list"

fun carried :: "pphase \<Rightarrow> u64" where
  "carried (Carry v is) = v"
| "carried _ = 0"

fun targets :: "pphase \<Rightarrow> nat set" where
  "targets Rest = {}"
| "targets (Flush i is) = insert i (set is)"
| "targets (Carry v is) = set is"
| "targets (Syncing is) = set is"

record pstate =
  shared :: partitioned_counter
  phases :: "pphase list"
  added :: u64

inductive pstep :: "pstate \<Rightarrow> pstate \<Rightarrow> bool" where
  add_small: "t < length (phases s) \<Longrightarrow> phases s ! t = Rest \<Longrightarrow> i = counter_id (shared s) cpuid \<Longrightarrow>
    c = local_counters (shared s) ! i + count \<Longrightarrow> \<not> over_threshold (shared s) c \<Longrightarrow>
    pstep s (s\<lparr>shared := (shared s)\<lparr>local_counters := (local_counters (shared s))[i := c]\<rparr>, added := added s + count\<rparr>)"
| add_large: "t < length (phases s) \<Longrightarrow> phases s ! t = Rest \<Longrightarrow> i = counter_id (shared s) cpuid \<Longrightarrow>
    c = local_counters (shared s) ! i + count \<Longrightarrow> over_threshold (shared s) c \<Longrightarrow>
    pstep s (s\<lparr>shared := (shared s)\<lparr>local_counters := (local_counters (shared s))[i := c]\<rparr>,
               phases := (phases s)[t := Flush i []], added := added s + count\<rparr>)"
| exchange: "t < length (phases s) \<Longrightarrow> phases s ! t = Flush i is \<Longrightarrow>
    pstep s (s\<lparr>shared := (shared s)\<lparr>local_counters := (local_counters (shared s))[i := 0]\<rparr>,
               phases := (phases s)[t := Carry (local_counters (shared s) ! i) is]\<rparr>)"
| deposit: "t < length (phases s) \<Longrightarrow> phases s ! t = Carry v is \<Longrightarrow>
    pstep s (s\<lparr>shared := (shared s)\<lparr>global_counter := global_counter (shared s) + v\<rparr>,
               phases := (phases s)[t := Syncing is]\<rparr>)"
| sync_start: "t < length (phases s) \<Longrightarrow> phases s ! t = Rest \<Longrightarrow>
    pstep s (s\<lparr>phases := (phases s)[t := Syncing [0 ..< num_counters (shared s)]]\<rparr>)"
| sync_next: "t < length (phases s) \<Longrightarrow> phases s ! t = Syncing (i # is) \<Longrightarrow>
    pstep s (s\<lparr>phases := (phases s)[t := Flush i is]\<rparr>)"
| sync_done: "t < length (phases s) \<Longrightarrow> phases s ! t = Syncing [] \<Longrightarrow>
    pstep s (s\<lparr>phases := (phases s)[t := Rest]\<rparr>)"

inductive preach :: "pstate \<Rightarrow> pstate \<Rightarrow> bool" for s0 where
  preach_refl: "preach s0 s0"
| preach_step: "preach s0 s \<Longrightarrow> pstep s s' \<Longrightarrow> preach s0 s'"

definition pinv :: "pstate \<Rightarrow> bool" where
  "pinv s \<longleftrightarrow> pc_ok (shared s) \<and> (\<forall>p \<in> set (phases s). targets p \<subseteq> {..< num_counters (shared s)})"

definition conserved :: "pstate \<Rightarrow> u64" where
  "conserved s = pc_total (shared s) + sum_list (map carried (phases s)) - added s"

lemma targets_upd:
  "\<forall>p \<in> set ps. targets p \<subseteq> A \<Longrightarrow> targets q \<subseteq> A \<Longrightarrow> \<forall>p \<in> set (ps[t := q]). targets p \<subseteq> A"
  using set_update_subset_insert [of ps t q] by auto

lemma pinv_targets:
  "pinv s \<Longrightarrow> t < length (phases s) \<Longrightarrow> targets (phases s ! t) \<subseteq> {..< num_counters (shared s)}"
  by (simp add: pinv_def)

lemma pstep_pinv:
  assumes "pstep s s'" "pinv s"
  shows "pinv s' \<and> conserved s' = conserved s"
  using assms
proof (induction rule: pstep.induct)
  case (add_small t s i cpuid c count)
  then have "i < length (local_counters (shared s))" using counter_id_less by (simp add: pinv_def)
  with add_small show ?case by (simp add: pinv_def conserved_def pc_ok_def pc_total_def sum_list_upd)
next
  case (add_large t s i cpuid c count)
  then have i: "i < length (local_counters (shared s))" using counter_id_less by (simp add: pinv_def)
  with add_large have "\<forall>p \<in> set ((phases s)[t := Flush i []]). targets p \<subseteq> {..< num_counters (shared s)}"
    by (intro targets_upd) (auto simp: pinv_def pc_ok_def)
  with i add_large show ?case
    by (simp add: pinv_def conserved_def pc_ok_def pc_total_def sum_list_upd map_update)
next
  case (exchange t s i "is")
  from pinv_targets [OF exchange(3,1)] have "targets (phases s ! t) \<subseteq> {..< num_counters (shared s)}" .
  with exchange have i: "i < length (local_counters (shared s))" by (simp add: pinv_def pc_ok_def)
  from pinv_targets [OF exchange(3,1)] exchange have "\<forall>p \<in> set ((phases s)[t := Carry (local_counters (shared s) ! i) is]). targets p \<subseteq> {..< num_counters (shared s)}"
    by (intro targets_upd) (auto simp: pinv_def)
  with i exchange show ?case
    by (simp add: pinv_def conserved_def pc_ok_def pc_total_def sum_list_upd map_update)
next
  case (deposit t s v "is")
  from pinv_targets [OF deposit(3,1)] have "targets (phases s ! t) \<subseteq> {..< num_counters (shared s)}" .
  with deposit have "\<forall>p \<in> set ((phases s)[t := Syncing is]). targets p \<subseteq> {..< num_counters (shared s)}"
    by (intro targets_upd) (auto simp: pinv_def)
  with deposit show ?case
    by (simp add: pinv_def conserved_def pc_ok_def pc_total_def sum_list_upd map_update)
next
  case (sync_start t s)
  then have "\<forall>p \<in> set ((phases s)[t := Syncing [0 ..< num_counters (shared s)]]). targets p \<subseteq> {..< num_counters (shared s)}"
    by (intro targets_upd) (auto simp: pinv_def)
  with sync_start show ?case
    by (simp add: pinv_def conserved_def pc_total_def sum_list_upd map_update)
next
  case (sync_next t s i "is")
  from pinv_targets [OF sync_next(3,1)] have "targets (phases s ! t) \<subseteq> {..< num_counters (shared s)}" .
  with sync_next have "\<forall>p \<in> set ((phases s)[t := Flush i is]). targets p \<subseteq> {..< num_counters (shared s)}"
    by (intro targets_upd) (auto simp: pinv_def)
  with sync_next show ?case
    by (simp add: pinv_def conserved_def pc_total_def sum_list_upd map_update)
next
  case (sync_done t s)
  then have "\<forall>p \<in> set ((phases s)[t := Rest]). targets p \<subseteq> {..< num_counters (shared s)}"
    by (intro targets_upd) (auto simp: pinv_def)
  with sync_done show ?case by (simp add: pinv_def conserved_def pc_total_def sum_list_upd map_update)
qed

lemma preach_pinv: "preach s0 s \<Longrightarrow> pinv s0 \<Longrightarrow> pinv s \<and> conserved s = conserved s0"
  by (induction rule: preach.induct) (auto dest: pstep_pinv)

end
