(* ===== verification/Terrace_BTree.thy ===== *)
theory Terrace_BTree
  imports Prelude
begin

text \<open>
  Terrace's B-tree, \<^verbatim>\<open>terrace/code/include/btree.h\<close>, in the unweighted build (\<^verbatim>\<open>WEIGHTED\<close> is 0).  A node owns its children, so a tree of
  nodes is a value of a datatype: \<open>keys\<close> are the live keys \<^verbatim>\<open>keys[0 .. num_keys)\<close> and \<open>children\<close> the live children
  \<^verbatim>\<open>children[0 .. num_keys]\<close>, none for a leaf, whose pointers are null.  What lies beyond in the two arrays is never read by the
  functions modelled here.  The overlapping \<^verbatim>\<open>memcpy\<close> calls have the effect of \<^verbatim>\<open>memmove\<close>.  \<open>None\<close> is the dereference of a missing
  child.  The key type is the template parameter \<^verbatim>\<open>T\<close>, any linear order.
\<close>

section \<open>Nodes\<close>

definition MIN_KEYS :: nat where "MIN_KEYS = 64"
definition MAX_KEYS :: nat where "MAX_KEYS = 2 * MIN_KEYS - 1"

datatype 'a BTreeNode = BTreeNode (keys: "'a list") (children: "'a BTreeNode list") (is_leaf: bool)

abbreviation num_keys :: "'a BTreeNode \<Rightarrow> nat" where
  "num_keys x \<equiv> length (keys x)"

text \<open>The number of levels; every recursion below descends one.\<close>

fun height :: "'a BTreeNode \<Rightarrow> nat" where
  "height (BTreeNode ks cs l) = Suc (fold max (map height cs) 0)"

lemma fold_max_le: "fold max xs (a :: nat) \<le> b \<longleftrightarrow> a \<le> b \<and> (\<forall>x \<in> set xs. x \<le> b)"
  by (induction xs arbitrary: a) auto

lemma height_le_iff: "height (BTreeNode ks cs l) \<le> Suc h \<longleftrightarrow> (\<forall>c \<in> set cs. height c \<le> h)"
  by (simp add: fold_max_le)

lemma height_child: "c \<in> set (children x) \<Longrightarrow> height c < height x"
proof (cases x)
  case (BTreeNode ks cs l)
  assume "c \<in> set (children x)"
  then show ?thesis using height_le_iff [of ks cs l "fold max (map height cs) 0"] BTreeNode by auto
qed

lemma height_pos: "0 < height x"
  by (cases x) simp

lemma height_leI: "(\<And>c. c \<in> set cs \<Longrightarrow> height c < h) \<Longrightarrow> 0 < h \<Longrightarrow> height (BTreeNode ks cs l) \<le> h"
  by (cases h) (auto simp: height_le_iff less_Suc_eq_le simp del: height.simps)

text \<open>The scan that \<^verbatim>\<open>find\<close>, \<^verbatim>\<open>insertNonFull\<close> and \<^verbatim>\<open>findKey\<close> share: the first position whose key is not below \<open>k\<close>.\<close>

fun findKey :: "'a::linorder list \<Rightarrow> 'a \<Rightarrow> nat" where
  "findKey [] k = 0"
| "findKey (y # ys) k = (if y < k then Suc (findKey ys k) else 0)"

definition nth_child :: "'a BTreeNode \<Rightarrow> nat \<Rightarrow> 'a BTreeNode option" where
  "nth_child x i = (if i < length (children x) then Some (children x ! i) else None)"

lemma nth_child_height: "nth_child x i = Some c \<Longrightarrow> height c < height x"
  by (auto simp: nth_child_def height_child split: if_splits)

section \<open>Lookup and traversal\<close>

text \<open>\<^verbatim>\<open>find\<close> returns the node that holds the key.\<close>

datatype 'a found = Found "'a BTreeNode" | Not_found | Null_dereference

function find_node :: "'a::linorder BTreeNode \<Rightarrow> 'a \<Rightarrow> 'a found" where
  "find_node x k =
    (let i = findKey (keys x) k in
     if i < num_keys x \<and> keys x ! i = k then Found x
     else if is_leaf x then Not_found
     else case nth_child x i of None \<Rightarrow> Null_dereference | Some c \<Rightarrow> find_node c k)"
  by pat_completeness auto

termination find_node
  by (relation "measure (\<lambda>(x, k). height x)") (auto dest: nth_child_height)

declare find_node.simps [simp del]

definition BTree_find :: "'a::linorder BTreeNode option \<Rightarrow> 'a \<Rightarrow> 'a found" where
  "BTree_find root k = (case root of None \<Rightarrow> Not_found | Some x \<Rightarrow> find_node x k)"

text \<open>The order in which \<^verbatim>\<open>traverse\<close> prints the keys: each child before the key to its right.\<close>

fun interleave :: "'a list list \<Rightarrow> 'a list \<Rightarrow> 'a list" where
  "interleave (c # cs) (k # ks) = c @ k # interleave cs ks"
| "interleave (c # cs) [] = c"
| "interleave [] ks = []"

fun traverse :: "'a BTreeNode \<Rightarrow> 'a list" where
  "traverse (BTreeNode ks cs l) = (if l then ks else interleave (map traverse cs) ks)"

text \<open>\<^verbatim>\<open>map_tree\<close> visits the keys of a node first, then its children.\<close>

fun map_tree :: "'a BTreeNode \<Rightarrow> 'a list" where
  "map_tree (BTreeNode ks cs l) = ks @ (if l then [] else concat (map map_tree cs))"

fun sum_keys :: "u32 BTreeNode \<Rightarrow> u64" where
  "sum_keys (BTreeNode ks cs l) =
    (if l then sum_list (map ucast ks) else sum_list (map sum_keys cs) + sum_list (map ucast ks))"

fun get_num_nodes :: "'a BTreeNode \<Rightarrow> u32" where
  "get_num_nodes (BTreeNode ks cs l) = (if l then 1 else 1 + sum_list (map get_num_nodes cs))"

section \<open>Insertion\<close>

text \<open>
  \<^verbatim>\<open>splitChild\<close> splits the full child \<open>i\<close> at its middle key, which moves up.  (The copy of the child pointers asks for
  \<^verbatim>\<open>MAX_KEYS\<close> of them and so reads past the array; the \<^verbatim>\<open>MIN_KEYS\<close> live ones are what the new node uses.)
\<close>

definition splitChild :: "nat \<Rightarrow> 'a BTreeNode \<Rightarrow> 'a BTreeNode \<Rightarrow> 'a BTreeNode" where
  "splitChild i c x =
    (let z = BTreeNode (take (MIN_KEYS - 1) (drop MIN_KEYS (keys c))) (drop MIN_KEYS (children c)) (is_leaf c);
         c' = BTreeNode (take (MIN_KEYS - 1) (keys c)) (take MIN_KEYS (children c)) (is_leaf c)
     in BTreeNode (take i (keys x) @ keys c ! (MIN_KEYS - 1) # drop i (keys x))
          (take i (children x) @ c' # z # drop (i + 1) (children x)) (is_leaf x))"

definition set_child :: "'a BTreeNode \<Rightarrow> nat \<Rightarrow> 'a BTreeNode \<Rightarrow> 'a BTreeNode" where
  "set_child x i c = BTreeNode (keys x) ((children x)[i := c]) (is_leaf x)"

lemma height_splitChild:
  assumes "nth_child x i = Some c" "nth_child (splitChild i c x) j = Some d"
  shows "height d < height x"
proof -
  have c: "c \<in> set (children x)" using assms(1) by (auto simp: nth_child_def split: if_splits)
  have "d \<in> set (children (splitChild i c x))" using assms(2) by (auto simp: nth_child_def split: if_splits)
  then have "d \<in> set (children x) \<or> set (children d) \<subseteq> set (children c)"
    unfolding splitChild_def Let_def by (auto dest: in_set_takeD in_set_dropD)
  then show ?thesis
  proof
    assume "set (children d) \<subseteq> set (children c)"
    then have "height (BTreeNode (keys d) (children d) (is_leaf d)) \<le> height c"
      by (intro height_leI) (auto simp: height_pos intro: height_child)
    then show ?thesis using height_child [OF c] by simp
  qed (rule height_child)
qed

function insertNonFull :: "'a::linorder \<Rightarrow> 'a BTreeNode \<Rightarrow> ('a BTreeNode \<times> bool) option" where
  "insertNonFull k x =
    (let idx = findKey (keys x) k in
     if idx < num_keys x \<and> keys x ! idx = k then Some (x, False)
     else if is_leaf x then Some (BTreeNode (take idx (keys x) @ k # drop idx (keys x)) (children x) True, True)
     else case nth_child x idx of
         None \<Rightarrow> None
       | Some c \<Rightarrow>
           if num_keys c = MAX_KEYS then
             (let x' = splitChild idx c x in
              if keys x' ! idx = k then Some (x', False)
              else let idx' = (if keys x' ! idx < k then idx + 1 else idx) in
                case nth_child x' idx' of
                    None \<Rightarrow> None
                  | Some d \<Rightarrow> map_option (\<lambda>(d', b). (set_child x' idx' d', b)) (insertNonFull k d))
           else map_option (\<lambda>(c', b). (set_child x idx c', b)) (insertNonFull k c))"
  by pat_completeness auto

termination insertNonFull
  by (relation "measure (\<lambda>(k, x). height x)") (auto dest: nth_child_height height_splitChild)

declare insertNonFull.simps [simp del]

text \<open>\<^verbatim>\<open>BTree::insert\<close>: the new tree and the answer.\<close>

definition BTree_insert :: "'a::linorder \<Rightarrow> 'a BTreeNode option \<Rightarrow> ('a BTreeNode option \<times> bool) option" where
  "BTree_insert k root =
    (case root of
       None \<Rightarrow> Some (Some (BTreeNode [k] [] True), True)
     | Some r \<Rightarrow>
         if num_keys r = MAX_KEYS then
           (let s = BTreeNode [] [r] False;
                s = splitChild 0 r s;
                i = (if keys s ! 0 < k then 1 else 0)
            in case nth_child s i of
                 None \<Rightarrow> None
               | Some c \<Rightarrow> map_option (\<lambda>(c', b). (Some (set_child s i c'), b)) (insertNonFull k c))
         else map_option (\<lambda>(r', b). (Some r', b)) (insertNonFull k r))"

section \<open>Removal\<close>

definition removeFromLeaf :: "nat \<Rightarrow> 'a BTreeNode \<Rightarrow> 'a BTreeNode" where
  "removeFromLeaf idx x = BTreeNode (take idx (keys x) @ drop (idx + 1) (keys x)) (children x) (is_leaf x)"

text \<open>The last key of the rightmost leaf, the first key of the leftmost.\<close>

function getPred :: "'a BTreeNode \<Rightarrow> 'a option" where
  "getPred cur =
    (if is_leaf cur then (if keys cur = [] then None else Some (keys cur ! (num_keys cur - 1)))
     else case nth_child cur (num_keys cur) of None \<Rightarrow> None | Some c \<Rightarrow> getPred c)"
  by pat_completeness auto

termination getPred
  by (relation "measure height") (auto dest: nth_child_height)

function getSucc :: "'a BTreeNode \<Rightarrow> 'a option" where
  "getSucc cur =
    (if is_leaf cur then (if keys cur = [] then None else Some (keys cur ! 0))
     else case nth_child cur 0 of None \<Rightarrow> None | Some c \<Rightarrow> getSucc c)"
  by pat_completeness auto

termination getSucc
  by (relation "measure height") (auto dest: nth_child_height)

declare getPred.simps [simp del] getSucc.simps [simp del]

lemma height_children_le:
  assumes "set (children d) \<subseteq> set (children a) \<union> set (children b)" "a \<in> set (children x)" "b \<in> set (children x)"
  shows "height d < height x"
proof -
  have "height (BTreeNode (keys d) (children d) (is_leaf d)) \<le> max (height a) (height b)"
  proof (rule height_leI)
    fix c assume "c \<in> set (children d)"
    with assms(1) have "height c < height a \<or> height c < height b" by (auto intro: height_child)
    then show "height c < max (height a) (height b)" by auto
  qed (simp add: height_pos less_max_iff_disj)
  moreover have "height a < height x" "height b < height x" using assms(2,3) by (auto intro: height_child)
  ultimately show ?thesis by simp
qed

text \<open>
  Moving a key from a sibling through the parent, and joining two children around the key between them.  \<open>None\<close>: the child pointer to
  move is not a live one.
\<close>

definition borrowFromPrev :: "nat \<Rightarrow> 'a BTreeNode \<Rightarrow> 'a BTreeNode option" where
  "borrowFromPrev idx x =
    (let child = children x ! idx; sibling = children x ! (idx - 1);
         child' = BTreeNode (keys x ! (idx - 1) # keys child)
                    (if is_leaf child then children child else children sibling ! num_keys sibling # children child) (is_leaf child);
         sibling' = BTreeNode (take (num_keys sibling - 1) (keys sibling)) (take (num_keys sibling) (children sibling)) (is_leaf sibling)
     in if \<not> is_leaf child \<and> length (children sibling) \<le> num_keys sibling then None
        else Some (BTreeNode ((keys x)[idx - 1 := keys sibling ! (num_keys sibling - 1)])
          ((children x)[idx := child', idx - 1 := sibling']) (is_leaf x)))"

definition borrowFromNext :: "nat \<Rightarrow> 'a BTreeNode \<Rightarrow> 'a BTreeNode option" where
  "borrowFromNext idx x =
    (let child = children x ! idx; sibling = children x ! (idx + 1);
         child' = BTreeNode (keys child @ [keys x ! idx])
                    (if is_leaf child then children child else children child @ [children sibling ! 0]) (is_leaf child);
         sibling' = BTreeNode (drop 1 (keys sibling)) (if is_leaf sibling then children sibling else drop 1 (children sibling)) (is_leaf sibling)
     in if \<not> is_leaf child \<and> children sibling = [] then None
        else Some (BTreeNode ((keys x)[idx := keys sibling ! 0]) ((children x)[idx := child', idx + 1 := sibling']) (is_leaf x)))"

definition merge_children :: "nat \<Rightarrow> 'a BTreeNode \<Rightarrow> 'a BTreeNode" where
  "merge_children idx x =
    (let child = children x ! idx; sibling = children x ! (idx + 1);
         child' = BTreeNode (take (MIN_KEYS - 1) (keys child) @ keys x ! idx # keys sibling)
                    (if is_leaf child then children child else take MIN_KEYS (children child) @ children sibling) (is_leaf child)
     in BTreeNode (take idx (keys x) @ drop (idx + 1) (keys x))
          (take idx (children x) @ child' # drop (idx + 2) (children x)) (is_leaf x))"

text \<open>\<open>None\<close>: there is no child or sibling where the code looks for one.\<close>

definition fill_child :: "nat \<Rightarrow> 'a BTreeNode \<Rightarrow> 'a BTreeNode option" where
  "fill_child idx x =
    (if length (children x) \<le> idx \<or> (idx \<noteq> num_keys x \<and> length (children x) \<le> idx + 1) then None
     else if idx \<noteq> 0 \<and> num_keys (children x ! (idx - 1)) \<ge> MIN_KEYS then borrowFromPrev idx x
     else if idx \<noteq> num_keys x \<and> num_keys (children x ! (idx + 1)) \<ge> MIN_KEYS then borrowFromNext idx x
     else if idx \<noteq> num_keys x then Some (merge_children idx x)
     else if idx = 0 then None
     else Some (merge_children (idx - 1) x))"

lemma height_merge_children:
  assumes "idx + 1 < length (children x)" "d \<in> set (children (merge_children idx x))"
  shows "height d < height x"
proof -
  have "d \<in> set (children x) \<or> set (children d) \<subseteq> set (children (children x ! idx)) \<union> set (children (children x ! (idx + 1)))"
    using assms(2) unfolding merge_children_def Let_def by (auto dest: in_set_takeD in_set_dropD split: if_splits)
  then show ?thesis using assms(1) by (auto intro: height_child height_children_le)
qed

lemma height_borrowFromPrev:
  assumes "borrowFromPrev idx x = Some x'" "idx < length (children x)" "d \<in> set (children x')"
  shows "height d < height x"
proof -
  have "d \<in> set (children x) \<or> set (children d) \<subseteq> set (children (children x ! idx)) \<union> set (children (children x ! (idx - 1)))"
    using assms(1,3) unfolding borrowFromPrev_def Let_def
    by (auto split: if_splits dest!: set_update_subset_insert [THEN subsetD] in_set_takeD)
  then show ?thesis using assms(2) by (auto intro: height_child height_children_le)
qed

lemma height_borrowFromNext:
  assumes "borrowFromNext idx x = Some x'" "idx + 1 < length (children x)" "d \<in> set (children x')"
  shows "height d < height x"
proof -
  have "d \<in> set (children x) \<or> set (children d) \<subseteq> set (children (children x ! idx)) \<union> set (children (children x ! (idx + 1)))"
    using assms(1,3) unfolding borrowFromNext_def Let_def
    by (auto split: if_splits dest!: set_update_subset_insert [THEN subsetD] in_set_dropD)
  then show ?thesis using assms(2) by (auto intro: height_child height_children_le)
qed

lemma height_fill_child:
  assumes "fill_child idx x = Some x'" "nth_child x' j = Some d"
  shows "height d < height x"
proof -
  have d: "d \<in> set (children x')" using assms(2) by (auto simp: nth_child_def split: if_splits)
  consider "borrowFromPrev idx x = Some x'" "idx < length (children x)" | "borrowFromNext idx x = Some x'" "idx + 1 < length (children x)"
    | i where "x' = merge_children i x" "i + 1 < length (children x)"
    using assms(1) by (auto simp: fill_child_def not_le split: if_splits)
  then show ?thesis
    by cases (use d in \<open>auto intro: height_borrowFromPrev height_borrowFromNext height_merge_children\<close>)
qed

lemma height_merged: "nth_child x (Suc idx) = Some c \<Longrightarrow> nth_child (merge_children idx x) idx = Some d \<Longrightarrow> height d < height x"
  by (auto simp: nth_child_def split: if_splits intro: height_merge_children)

text \<open>\<^verbatim>\<open>remove\<close> and \<^verbatim>\<open>removeFromNonLeaf\<close> call each other; the answers of the inner calls are not used.\<close>

function remove_node :: "'a::linorder \<Rightarrow> 'a BTreeNode \<Rightarrow> ('a BTreeNode \<times> bool) option"
  and removeFromNonLeaf :: "nat \<Rightarrow> 'a BTreeNode \<Rightarrow> 'a BTreeNode option" where
  "remove_node k x =
    (let idx = findKey (keys x) k in
     if idx < num_keys x \<and> keys x ! idx = k then
       (if is_leaf x then Some (removeFromLeaf idx x, True) else map_option (\<lambda>x'. (x', True)) (removeFromNonLeaf idx x))
     else if is_leaf x then Some (x, False)
     else case nth_child x idx of
         None \<Rightarrow> None
       | Some c \<Rightarrow>
           if num_keys c < MIN_KEYS then
             (case fill_child idx x of
                None \<Rightarrow> None
              | Some x' \<Rightarrow>
                  let i = (if idx = num_keys x \<and> idx > num_keys x' then idx - 1 else idx) in
                  case nth_child x' i of
                    None \<Rightarrow> None
                  | Some d \<Rightarrow> map_option (\<lambda>(d', b). (set_child x' i d', True)) (remove_node k d))
           else map_option (\<lambda>(c', b). (set_child x idx c', True)) (remove_node k c))"
| "removeFromNonLeaf idx x =
    (case nth_child x idx of
       None \<Rightarrow> None
     | Some c \<Rightarrow>
         if num_keys c \<ge> MIN_KEYS then
           (case getPred c of
              None \<Rightarrow> None
            | Some pred \<Rightarrow>
                map_option (\<lambda>(c', b). BTreeNode ((keys x)[idx := pred]) ((children x)[idx := c']) (is_leaf x)) (remove_node pred c))
         else case nth_child x (idx + 1) of
             None \<Rightarrow> None
           | Some d \<Rightarrow>
               if num_keys d \<ge> MIN_KEYS then
                 (case getSucc d of
                    None \<Rightarrow> None
                  | Some succ \<Rightarrow>
                      map_option (\<lambda>(d', b). BTreeNode ((keys x)[idx := succ]) ((children x)[idx + 1 := d']) (is_leaf x)) (remove_node succ d))
               else (let k = keys x ! idx; x' = merge_children idx x in
                 case nth_child x' idx of
                   None \<Rightarrow> None
                 | Some e \<Rightarrow> map_option (\<lambda>(e', b). set_child x' idx e') (remove_node k e)))"
  by pat_completeness auto

termination
  by (relation "measure (case_sum (\<lambda>(k, x). 2 * height x + 1) (\<lambda>(idx, x). 2 * height x))")
    (auto dest: nth_child_height height_fill_child height_merged)

declare remove_node.simps [simp del] removeFromNonLeaf.simps [simp del]

definition BTree_remove :: "'a::linorder \<Rightarrow> 'a BTreeNode option \<Rightarrow> ('a BTreeNode option \<times> bool) option" where
  "BTree_remove k root =
    (case root of
       None \<Rightarrow> Some (None, False)
     | Some r \<Rightarrow>
         (case remove_node k r of
            None \<Rightarrow> None
          | Some (r', ret) \<Rightarrow>
              if num_keys r' = 0 then (if is_leaf r' then Some (None, ret) else map_option (\<lambda>c. (Some c, ret)) (nth_child r' 0))
              else Some (Some r', ret)))"

section \<open>Iteration\<close>

text \<open>The iterator keeps the path to the current node, top first, each with the index of the key to visit when it is on top again.\<close>

record 'a NodeIterator =
  it_stack :: "('a BTreeNode \<times> nat) list"
  cur_node :: "'a BTreeNode"
  cur_idx :: nat

fun push_left :: "'a BTreeNode \<Rightarrow> ('a BTreeNode \<times> nat) list \<Rightarrow> ('a BTreeNode \<times> nat) list" where
  "push_left (BTreeNode ks [] l) st = (BTreeNode ks [] l, 0) # st"
| "push_left (BTreeNode ks (c # cs) l) st = push_left c ((BTreeNode ks (c # cs) l, 0) # st)"

definition new_NodeIterator :: "'a BTreeNode \<Rightarrow> 'a NodeIterator" where
  "new_NodeIterator node = (let st = push_left node [] in \<lparr>it_stack = st, cur_node = fst (hd st), cur_idx = 0\<rparr>)"

definition it_deref :: "'a NodeIterator \<Rightarrow> 'a" where
  "it_deref it = keys (cur_node it) ! cur_idx it"

definition it_done :: "'a NodeIterator \<Rightarrow> bool" where
  "it_done it = (it_stack it = [])"

text \<open>\<^verbatim>\<open>num_keys - 1\<close> in 32 bits.\<close>

definition last_idx :: "'a BTreeNode \<Rightarrow> nat" where
  "last_idx x = (num_keys x + (2 ^ 32 - 1)) mod 2 ^ 32"

definition it_next :: "'a NodeIterator \<Rightarrow> 'a NodeIterator option" where
  "it_next it =
    (if is_leaf (cur_node it) then
       if cur_idx it < last_idx (cur_node it) then Some (it\<lparr>cur_idx := cur_idx it + 1\<rparr>)
       else (case tl (it_stack it) of
               [] \<Rightarrow> Some (it\<lparr>it_stack := []\<rparr>)
             | (x, i) # st \<Rightarrow> Some \<lparr>it_stack = (x, i + 1) # st, cur_node = x, cur_idx = i\<rparr>)
     else
       let st = (if cur_idx it = last_idx (cur_node it) then tl (it_stack it) else it_stack it);
           st = (case nth_child (cur_node it) (cur_idx it + 1) of None \<Rightarrow> st | Some c \<Rightarrow> push_left c st)
       in case st of [] \<Rightarrow> None | (x, i) # _ \<Rightarrow> Some \<lparr>it_stack = st, cur_node = x, cur_idx = 0\<rparr>)"

text \<open>The loop \<^verbatim>\<open>while (!it.done()) { ... *it ...; ++it; }\<close>, for at most \<open>n\<close> rounds: the keys visited and the last state.\<close>

fun iterate :: "nat \<Rightarrow> 'a NodeIterator \<Rightarrow> ('a list \<times> 'a NodeIterator) option" where
  "iterate 0 it = Some ([], it)"
| "iterate (Suc n) it =
    (if it_done it then Some ([], it)
     else Option.bind (it_next it) (\<lambda>it'. map_option (\<lambda>(ys, e). (it_deref it # ys, e)) (iterate n it')))"

section \<open>The shape of a tree\<close>

text \<open>
  A node of level \<open>h\<close> with at least \<open>m\<close> keys: all leaves are on level 0, a node has one more child than keys, at most \<^verbatim>\<open>MAX_KEYS\<close> keys, and
  every node below has at least \<^verbatim>\<open>MIN_KEYS - 1\<close>.
\<close>

fun shape :: "nat \<Rightarrow> nat \<Rightarrow> 'a BTreeNode \<Rightarrow> bool" where
  "shape 0 m (BTreeNode ks cs l) = (l \<and> cs = [] \<and> m \<le> length ks \<and> length ks \<le> MAX_KEYS)"
| "shape (Suc h) m (BTreeNode ks cs l) =
    (\<not> l \<and> length cs = Suc (length ks) \<and> m \<le> length ks \<and> length ks \<le> MAX_KEYS \<and> list_all (shape h (MIN_KEYS - 1)) cs)"

definition tree_ok :: "'a::linorder BTreeNode option \<Rightarrow> bool" where
  "tree_ok root = (case root of None \<Rightarrow> True | Some r \<Rightarrow> (\<exists>h. shape h 1 r) \<and> sorted_wrt (<) (traverse r))"

definition tree_keys :: "'a BTreeNode option \<Rightarrow> 'a list" where
  "tree_keys root = (case root of None \<Rightarrow> [] | Some r \<Rightarrow> traverse r)"

lemma shape_leaf_iff: "shape h m x \<Longrightarrow> is_leaf x \<longleftrightarrow> h = 0"
  by (cases h; cases x) auto

lemma shape_mono: "shape h m x \<Longrightarrow> m' \<le> m \<Longrightarrow> shape h m' x"
  by (cases h; cases x) auto

lemma shape_min: "shape h m x \<Longrightarrow> m \<le> num_keys x"
  by (cases h; cases x) auto

lemma shape_max: "shape h m x \<Longrightarrow> num_keys x \<le> MAX_KEYS"
  by (cases h; cases x) auto

lemma shape_raise: "shape h m x \<Longrightarrow> m' \<le> num_keys x \<Longrightarrow> shape h m' x"
  by (cases h; cases x) auto

lemma shape_0: "shape 0 m x \<longleftrightarrow> is_leaf x \<and> children x = [] \<and> m \<le> num_keys x \<and> num_keys x \<le> MAX_KEYS"
  by (cases x) auto

lemma shape_Suc: "shape (Suc h) m x \<longleftrightarrow> \<not> is_leaf x \<and> length (children x) = Suc (num_keys x) \<and> m \<le> num_keys x \<and>
    num_keys x \<le> MAX_KEYS \<and> (\<forall>i < length (children x). shape h (MIN_KEYS - 1) (children x ! i))"
  by (cases x) (auto simp: list_all_length)

section \<open>Keys in order\<close>

text \<open>The keys to the left of child \<open>i\<close>, and to its right.\<close>

definition left_of :: "'a BTreeNode list \<Rightarrow> 'a list \<Rightarrow> 'a list" where
  "left_of cs ks = concat (map2 (\<lambda>c k. traverse c @ [k]) cs ks)"

definition right_of :: "'a list \<Rightarrow> 'a BTreeNode list \<Rightarrow> 'a list" where
  "right_of ks cs = concat (map2 (\<lambda>k c. k # traverse c) ks cs)"

lemma left_of_simps [simp]: "left_of [] ks = []" "left_of cs [] = []" "left_of (c # cs) (k # ks) = traverse c @ k # left_of cs ks"
  by (simp_all add: left_of_def)

lemma right_of_simps [simp]: "right_of [] cs = []" "right_of ks [] = []" "right_of (k # ks) (c # cs) = k # traverse c @ right_of ks cs"
  by (simp_all add: right_of_def)

lemma left_of_append: "length cs = length ks \<Longrightarrow> left_of (cs @ cs') (ks @ ks') = left_of cs ks @ left_of cs' ks'"
  by (simp add: left_of_def)

lemma right_of_append: "length cs = length ks \<Longrightarrow> right_of (ks @ ks') (cs @ cs') = right_of ks cs @ right_of ks' cs'"
  by (simp add: right_of_def)

lemma interleave_split:
  "length cs = length ks \<Longrightarrow> length cs' = length ks' \<Longrightarrow>
   interleave (map traverse (cs @ c # cs')) (ks @ ks') = left_of cs ks @ traverse c @ right_of ks' cs'"
proof (induction cs ks rule: list_induct2)
  case Nil
  then show ?case
  proof (induction cs' ks' arbitrary: c rule: list_induct2)
    case (Cons d cs' k ks')
    then show ?case by (cases cs') auto
  qed simp
qed simp

text \<open>The decomposition of an inner node at child \<open>i\<close>.\<close>

lemma node_at:
  assumes "\<not> l" "length cs = length ks" "length cs' = length ks'"
  shows "traverse (BTreeNode (ks @ ks') (cs @ c # cs') l) = left_of cs ks @ traverse c @ right_of ks' cs'"
  using assms interleave_split [of cs ks cs' ks' c] by simp

lemma node_split:
  assumes "\<not> is_leaf x" "length (children x) = Suc (num_keys x)" "i \<le> num_keys x"
  obtains ks ks' cs cs' where "x = BTreeNode (ks @ ks') (cs @ children x ! i # cs') False" "length ks = i" "length cs = i"
    "length cs' = length ks'"
proof
  show "x = BTreeNode (take i (keys x) @ drop i (keys x)) (take i (children x) @ children x ! i # drop (Suc i) (children x)) False"
    using assms by (cases x) (simp add: id_take_nth_drop [symmetric])
qed (use assms in auto)

section \<open>The scan\<close>

lemma findKey_le: "findKey ks k \<le> length ks"
  by (induction ks) auto

lemma findKey_below: "i < findKey ks k \<Longrightarrow> ks ! i < k"
  by (induction ks arbitrary: i) (auto simp: nth_Cons' split: if_splits)

lemma findKey_stop: "findKey ks k < length ks \<Longrightarrow> k \<le> ks ! findKey ks k"
  by (induction ks) (auto split: if_splits)

lemma findKey_sorted:
  assumes "sorted_wrt (<) ks" "i < length ks"
  shows "i < findKey ks k \<longleftrightarrow> ks ! i < k"
  using assms
proof (induction ks arbitrary: i)
  case (Cons y ys)
  then show ?case by (cases i) (auto simp: nth_Cons' dest: nth_mem order_less_trans)
qed simp

end
