(* ===== verification/BTree_Correct.thy ===== *)
theory BTree_Correct
  imports Terrace_BTree
begin

text \<open>
  The B-tree keeps a sorted list of keys: the shape of the tree is an invariant of insertion and removal, insertion refines insertion into
  the sorted list of the keys in traversal order, removal refines removal from it, lookup is membership, and the iterator visits exactly
  this list.
\<close>

section \<open>Sorted lists\<close>

definition ins_list :: "'a::linorder \<Rightarrow> 'a list \<Rightarrow> 'a list" where
  "ins_list k xs = (if k \<in> set xs then xs else takeWhile (\<lambda>y. y < k) xs @ k # dropWhile (\<lambda>y. y < k) xs)"

definition del_list :: "'a \<Rightarrow> 'a list \<Rightarrow> 'a list" where
  "del_list k xs = filter (\<lambda>y. y \<noteq> k) xs"

abbreviation strict_sorted :: "'a::linorder list \<Rightarrow> bool" where
  "strict_sorted \<equiv> sorted_wrt (<)"

lemma set_ins_list: "set (ins_list k xs) = insert k (set xs)"
proof -
  have "set (takeWhile (\<lambda>y. y < k) xs) \<union> set (dropWhile (\<lambda>y. y < k) xs) = set xs"
    by (metis set_append takeWhile_dropWhile_id)
  then show ?thesis by (auto simp: ins_list_def)
qed

lemma sorted_ins_list: "strict_sorted xs \<Longrightarrow> strict_sorted (ins_list k xs)"
proof (induction xs)
  case (Cons x xs)
  have "ins_list k (x # xs) = (if x < k then x # ins_list k xs else if x = k then x # xs else k # x # xs)"
    using Cons.prems by (auto simp: ins_list_def)
  with Cons show ?case by (auto simp: set_ins_list)
qed (simp add: ins_list_def)

lemma ins_list_mid:
  assumes "\<forall>y \<in> set L. y < k" "\<forall>y \<in> set R. k < y"
  shows "ins_list k (L @ M @ R) = L @ ins_list k M @ R"
proof (cases "k \<in> set M")
  case True
  then show ?thesis by (simp add: ins_list_def)
next
  case False
  have R: "takeWhile (\<lambda>y. y < k) R = []" "dropWhile (\<lambda>y. y < k) R = R" using assms(2) by (cases R; auto)+
  have "takeWhile (\<lambda>y. y < k) (M @ R) = takeWhile (\<lambda>y. y < k) M" "dropWhile (\<lambda>y. y < k) (M @ R) = dropWhile (\<lambda>y. y < k) M @ R"
    by (induction M) (auto simp: R)
  moreover have "takeWhile (\<lambda>y. y < k) (L @ zs) = L @ takeWhile (\<lambda>y. y < k) zs" "dropWhile (\<lambda>y. y < k) (L @ zs) = dropWhile (\<lambda>y. y < k) zs" for zs
    using assms(1) by (auto simp: takeWhile_append2 dropWhile_append2)
  ultimately show ?thesis using False assms by (auto simp: ins_list_def)
qed

lemma del_list_id: "k \<notin> set xs \<Longrightarrow> del_list k xs = xs"
  by (auto simp: del_list_def filter_id_conv)

lemma del_list_append [simp]: "del_list k (xs @ ys) = del_list k xs @ del_list k ys"
  by (simp add: del_list_def)

lemma del_list_mid: "k \<notin> set L \<Longrightarrow> k \<notin> set R \<Longrightarrow> del_list k (L @ M @ R) = L @ del_list k M @ R"
  by (simp add: del_list_id)

lemma findKey_takeWhile: "take (findKey ks k) ks = takeWhile (\<lambda>y. y < k) ks" "drop (findKey ks k) ks = dropWhile (\<lambda>y. y < k) ks"
  by (induction ks) auto

lemma findKey_mem: "strict_sorted ks \<Longrightarrow> k \<in> set ks \<longleftrightarrow> findKey ks k < length ks \<and> ks ! findKey ks k = k"
proof (induction ks)
  case (Cons y ys)
  then show ?case by auto
qed simp

lemma findKey_split:
  assumes "strict_sorted (ks @ ks')" "length ks = findKey (ks @ ks') k" "k \<notin> set (ks @ ks')"
  shows "\<forall>y \<in> set ks. y < k" "\<forall>y \<in> set ks'. k < y"
proof -
  have "y < k" if "y \<in> set ks" for y
    using that findKey_below [of _ "ks @ ks'" k] assms(2) by (metis in_set_conv_nth nth_append)
  then show "\<forall>y \<in> set ks. y < k" ..
  have "ks' = dropWhile (\<lambda>y. y < k) (ks @ ks')" using findKey_takeWhile(2) [of "ks @ ks'" k] assms(2) by (metis append_eq_conv_conj)
  then have "ks' \<noteq> [] \<Longrightarrow> \<not> hd ks' < k" by (metis hd_dropWhile)
  then show "\<forall>y \<in> set ks'. k < y" using assms(1,3) by (cases ks') (auto simp: sorted_wrt_append not_less intro: order_less_le_trans)
qed

section \<open>Order in a node\<close>

lemma left_of_below:
  assumes "length cs = length ks" "strict_sorted (left_of cs ks)" "\<forall>y \<in> set ks. y < k"
  shows "\<forall>y \<in> set (left_of cs ks). y < k"
  using assms
proof (induction cs ks rule: list_induct2)
  case (Cons c cs y ys)
  then show ?case by (auto simp: sorted_wrt_append intro: order_less_trans)
qed simp

lemma right_of_above:
  assumes "length cs = length ks" "strict_sorted (right_of ks cs)" "\<forall>y \<in> set ks. k < y"
  shows "\<forall>y \<in> set (right_of ks cs). k < y"
  using assms
proof (induction cs ks rule: list_induct2)
  case (Cons c cs y ys)
  then show ?case by (auto simp: sorted_wrt_append intro: order_less_trans)
qed simp

lemma keys_in_interleave: "length cs = Suc (length ks) \<Longrightarrow> set ks \<subseteq> set (interleave cs ks)"
proof (induction ks arbitrary: cs)
  case (Cons k ks)
  then show ?case by (cases cs) (auto dest: Cons.IH)
qed simp

lemma interleave_sorted_keys: "length cs = Suc (length ks) \<Longrightarrow> strict_sorted (interleave cs ks) \<Longrightarrow> strict_sorted ks"
proof (induction ks arbitrary: cs)
  case (Cons k ks)
  then obtain c cs' where cs: "cs = c # cs'" "length cs' = Suc (length ks)" by (cases cs) auto
  with Cons.prems have "strict_sorted (interleave cs' ks)" "\<forall>y \<in> set (interleave cs' ks). k < y" by (auto simp: sorted_wrt_append)
  with Cons.IH [of cs'] keys_in_interleave [of cs' ks] cs show ?case by auto
qed simp

lemma keys_sorted: "shape h m x \<Longrightarrow> strict_sorted (traverse x) \<Longrightarrow> strict_sorted (keys x)"
  by (cases h; cases x) (auto dest: interleave_sorted_keys [rotated])

lemma keys_traverse: "shape h m x \<Longrightarrow> set (keys x) \<subseteq> set (traverse x)"
proof (cases h; cases x)
  fix h' ks cs l assume "shape h m x" "h = Suc h'" "x = BTreeNode ks cs l"
  then show ?thesis using keys_in_interleave [of "map traverse cs" ks] by auto
qed auto

text \<open>Replacing child \<open>i\<close>, when \<open>k\<close> belongs there.\<close>

lemma child_range:
  assumes "strict_sorted (left_of cs ks @ M @ right_of ks' cs')" "length cs = length ks" "length cs' = length ks'"
    "\<forall>y \<in> set ks. y < k" "\<forall>y \<in> set ks'. k < y"
  shows "\<forall>y \<in> set (left_of cs ks). y < k" "\<forall>y \<in> set (right_of ks' cs'). k < y"
  using left_of_below [OF assms(2) _ assms(4)] right_of_above [OF assms(3) _ assms(5)] assms(1) by (auto simp: sorted_wrt_append)

lemma interleave_join:
  "length cs = Suc (length ks) \<Longrightarrow> cs' \<noteq> [] \<Longrightarrow> interleave (cs @ cs') (ks @ m # ks') = interleave cs ks @ m # interleave cs' ks'"
proof (induction ks arbitrary: cs)
  case Nil
  then obtain c where "cs = [c]" by (cases cs) auto
  with Nil show ?case by simp
next
  case (Cons k ks)
  then show ?case by (cases cs) auto
qed

section \<open>Lookup\<close>

lemma node_child:
  assumes "shape (Suc h) m x" "i \<le> num_keys x"
  obtains ks ks' cs c cs' where "x = BTreeNode (ks @ ks') (cs @ c # cs') False" "nth_child x i = Some c" "length ks = i" "length cs = i"
    "length cs' = length ks'" "shape h (MIN_KEYS - 1) c" "\<forall>d \<in> set cs \<union> set cs'. shape h (MIN_KEYS - 1) d"
    "traverse x = left_of cs ks @ traverse c @ right_of ks' cs'"
proof -
  from assms(1) have x: "\<not> is_leaf x" "length (children x) = Suc (num_keys x)" by (simp_all add: shape_Suc)
  from node_split [OF x assms(2)] obtain ks ks' cs cs' where s: "x = BTreeNode (ks @ ks') (cs @ children x ! i # cs') False"
    "length ks = i" "length cs = i" "length cs' = length ks'" by blast
  define c where "c = children x ! i"
  have eq: "x = BTreeNode (ks @ ks') (cs @ c # cs') False" using s(1) by (simp add: c_def)
  have "nth_child x i = Some c" using x(2) assms(2) by (simp add: nth_child_def c_def)
  moreover have "shape h (MIN_KEYS - 1) c" "\<forall>d \<in> set cs \<union> set cs'. shape h (MIN_KEYS - 1) d"
    using assms(1) unfolding eq by (auto simp: list_all_iff)
  moreover have "traverse x = left_of cs ks @ traverse c @ right_of ks' cs'"
    unfolding eq using s by (intro node_at) auto
  ultimately show ?thesis using that eq s(2-4) by blast
qed

lemma find_node_correct:
  assumes "shape h m x" "strict_sorted (traverse x)"
  shows "if k \<in> set (traverse x) then \<exists>y. find_node x k = Found y \<and> k \<in> set (keys y) else find_node x k = Not_found"
  using assms
proof (induction h arbitrary: m x)
  case 0
  then have "is_leaf x" "traverse x = keys x" by (cases x; simp)+
  with 0 findKey_mem [of "keys x" k] show ?case by (subst (1 2) find_node.simps) (auto simp: Let_def)
next
  case (Suc h)
  define i where "i = findKey (keys x) k"
  have sk: "strict_sorted (keys x)" using Suc.prems by (rule keys_sorted)
  show ?case
  proof (cases "k \<in> set (keys x)")
    case True
    then have "find_node x k = Found x" using findKey_mem [OF sk, of k] by (subst find_node.simps) (simp add: Let_def)
    with True keys_traverse [OF Suc.prems(1)] show ?thesis by auto
  next
    case False
    have "i \<le> num_keys x" by (simp add: i_def findKey_le)
    from node_child [OF Suc.prems(1) this] obtain ks ks' cs c cs' where x: "x = BTreeNode (ks @ ks') (cs @ c # cs') False"
      "nth_child x i = Some c" "length ks = i" "length cs = i" "length cs' = length ks'" "shape h (MIN_KEYS - 1) c"
      "traverse x = left_of cs ks @ traverse c @ right_of ks' cs'" by metis
    have "\<forall>y \<in> set ks. y < k" "\<forall>y \<in> set ks'. k < y"
      using findKey_split [of ks ks' k] sk False x(1,3) by (auto simp: i_def)
    from child_range [OF Suc.prems(2) [unfolded x(7)] _ x(5) this] x(3,4)
    have r: "k \<in> set (traverse x) \<longleftrightarrow> k \<in> set (traverse c)" unfolding x(7) by auto
    have "find_node x k = find_node c k"
      using False findKey_mem [OF sk, of k] Suc.prems(1) x(2) unfolding i_def
      by (subst find_node.simps) (auto simp: Let_def shape_leaf_iff)
    moreover have "strict_sorted (traverse c)" using Suc.prems(2) unfolding x(7) by (simp add: sorted_wrt_append)
    ultimately show ?thesis using Suc.IH [OF x(6)] r by simp
  qed
qed

section \<open>Insertion\<close>

lemma MIN_KEYS_simps [simp]: "MAX_KEYS = 127" "MIN_KEYS = 64"
  by (simp_all add: MAX_KEYS_def MIN_KEYS_def)

lemma set_child_at:
  "length cs = i \<Longrightarrow> set_child (BTreeNode ks (cs @ c # cs') l) i c' = BTreeNode ks (cs @ c' # cs') l"
  by (auto simp: set_child_def)

lemma shape_at:
  "length cs = length ks \<Longrightarrow> length cs' = length ks' \<Longrightarrow>
   shape (Suc h) m (BTreeNode (ks @ ks') (cs @ c # cs') False) \<longleftrightarrow>
     m \<le> length ks + length ks' \<and> length ks + length ks' \<le> MAX_KEYS \<and> shape h (MIN_KEYS - 1) c \<and>
     (\<forall>d \<in> set cs \<union> set cs'. shape h (MIN_KEYS - 1) d)"
  by (auto simp: list_all_iff)

text \<open>A full child in two halves.\<close>

definition lower_half :: "'a BTreeNode \<Rightarrow> 'a BTreeNode" where
  "lower_half c = BTreeNode (take 63 (keys c)) (take 64 (children c)) (is_leaf c)"

definition upper_half :: "'a BTreeNode \<Rightarrow> 'a BTreeNode" where
  "upper_half c = BTreeNode (drop 64 (keys c)) (drop 64 (children c)) (is_leaf c)"

lemma splitChild_at:
  assumes "length cs = i" "length ks = i" "num_keys c = MAX_KEYS"
  shows "splitChild i c (BTreeNode (ks @ ks') (cs @ c # cs') l) =
    BTreeNode (ks @ keys c ! 63 # ks') (cs @ lower_half c # upper_half c # cs') l"
  using assms by (simp add: splitChild_def Let_def lower_half_def upper_half_def)

lemma halves_shape:
  assumes "shape h m c" "num_keys c = MAX_KEYS"
  shows "shape h (MIN_KEYS - 1) (lower_half c)" "shape h (MIN_KEYS - 1) (upper_half c)"
    "num_keys (lower_half c) = 63" "num_keys (upper_half c) = 63"
  using assms by (cases h; cases c; auto simp: lower_half_def upper_half_def list_all_iff dest: in_set_takeD in_set_dropD)+

lemma halves_traverse:
  assumes "shape h m c" "num_keys c = MAX_KEYS"
  shows "traverse c = traverse (lower_half c) @ keys c ! 63 # traverse (upper_half c)"
proof (cases c)
  case (BTreeNode ks cs l)
  have ks: "ks = take 63 ks @ ks ! 63 # drop 64 ks" using assms BTreeNode id_take_nth_drop [of 63 ks] by simp
  show ?thesis
  proof (cases l)
    case True
    then show ?thesis using ks BTreeNode by (simp add: lower_half_def upper_half_def)
  next
    case False
    then have len: "length cs = Suc (length ks)" using assms BTreeNode by (cases h) auto
    have "interleave (map traverse (take 64 cs @ drop 64 cs)) (take 63 ks @ ks ! 63 # drop 64 ks) =
        interleave (map traverse (take 64 cs)) (take 63 ks) @ ks ! 63 # interleave (map traverse (drop 64 cs)) (drop 64 ks)"
      unfolding map_append using len assms BTreeNode by (intro interleave_join) auto
    then show ?thesis using ks False BTreeNode by (simp add: lower_half_def upper_half_def)
  qed
qed

lemma split_traverse:
  assumes "shape h (MIN_KEYS - 1) c" "num_keys c = MAX_KEYS" "length cs = length ks" "length cs' = length ks'"
  shows "traverse (BTreeNode (ks @ keys c ! 63 # ks') (cs @ lower_half c # upper_half c # cs') False) =
    traverse (BTreeNode (ks @ ks') (cs @ c # cs') False)"
  using assms halves_traverse [OF assms(1,2)]
    node_at [of False cs ks "upper_half c # cs'" "keys c ! 63 # ks'" "lower_half c"] node_at [of False cs ks cs' ks' c] by simp

text \<open>What insertion into a node that is not full does.\<close>

definition inserts :: "nat \<Rightarrow> nat \<Rightarrow> 'a::linorder \<Rightarrow> 'a BTreeNode \<Rightarrow> ('a BTreeNode \<times> bool) option \<Rightarrow> bool" where
  "inserts h m k x res \<longleftrightarrow> (\<exists>x' b. res = Some (x', b) \<and> traverse x' = ins_list k (traverse x) \<and> (b \<longleftrightarrow> k \<notin> set (traverse x)) \<and> shape h m x')"

lemma insert_below:
  assumes x: "x = BTreeNode (ks @ ks') (cs @ c # cs') False" "length ks = i" "length cs = i" "length cs' = length ks'"
    and sh: "shape (Suc h) m x" and so: "strict_sorted (traverse x)"
    and k: "\<forall>y \<in> set ks. y < k" "\<forall>y \<in> set ks'. k < y"
    and c: "inserts h (MIN_KEYS - 1) k c res"
  shows "inserts (Suc h) m k x (map_option (\<lambda>(c', b). (set_child x i c', b)) res)"
proof -
  from c obtain c' b where c': "res = Some (c', b)" "traverse c' = ins_list k (traverse c)" "b \<longleftrightarrow> k \<notin> set (traverse c)"
    "shape h (MIN_KEYS - 1) c'" by (auto simp: inserts_def)
  have len: "length cs = length ks" using x by simp
  have tr: "traverse (BTreeNode (ks @ ks') (cs @ d # cs') False) = left_of cs ks @ traverse d @ right_of ks' cs'" for d
    using len x(4) by (intro node_at) simp_all
  note r = child_range [OF so [unfolded x(1) tr] len x(4) k]
  have "traverse (set_child x i c') = ins_list k (traverse x)"
    unfolding x(1) set_child_at [OF x(3)] tr using ins_list_mid [OF r] c'(2) by simp
  moreover have "k \<in> set (traverse x) \<longleftrightarrow> k \<in> set (traverse c)" unfolding x(1) tr using r by auto
  moreover have "shape (Suc h) m (set_child x i c')"
    using sh c'(4) unfolding x(1) set_child_at [OF x(3)] shape_at [OF len x(4)] by blast
  ultimately show ?thesis using c' by (auto simp: inserts_def)
qed

lemma insert_leaf:
  assumes "shape 0 m x" "num_keys x < MAX_KEYS" "strict_sorted (traverse x)"
  shows "inserts 0 m k x (insertNonFull k x)"
proof -
  have x: "is_leaf x" "children x = []" "traverse x = keys x" using assms(1) by (cases x; simp)+
  show ?thesis
  proof (cases "k \<in> set (keys x)")
    case True
    then have "insertNonFull k x = Some (x, False)"
      using assms(3) x findKey_mem [of "keys x" k] by (subst insertNonFull.simps) (simp add: Let_def)
    then show ?thesis using True assms x by (auto simp: inserts_def ins_list_def)
  next
    case False
    then have "insertNonFull k x = Some (BTreeNode (ins_list k (keys x)) [] True, True)"
      using assms(3) x findKey_mem [of "keys x" k]
      by (subst insertNonFull.simps) (auto simp: Let_def ins_list_def findKey_takeWhile)
    moreover have "length (ins_list k (keys x)) = Suc (num_keys x)"
      using False length_append [of "takeWhile (\<lambda>y. y < k) (keys x)" "dropWhile (\<lambda>y. y < k) (keys x)"]
      by (simp add: ins_list_def)
    ultimately show ?thesis using False assms x shape_min [OF assms(1)] by (auto simp: inserts_def)
  qed
qed

lemma insert_split:
  assumes x: "x = BTreeNode (ks @ ks') (cs @ c # cs') False" "length ks = i" "length cs = i" "length cs' = length ks'"
    and sh: "shape (Suc h) m x" "num_keys x < MAX_KEYS" and so: "strict_sorted (traverse x)"
    and k: "\<forall>y \<in> set ks. y < k" "\<forall>y \<in> set ks'. k < y"
    and full: "num_keys c = MAX_KEYS"
    and IH: "\<And>d. shape h (MIN_KEYS - 1) d \<Longrightarrow> num_keys d < MAX_KEYS \<Longrightarrow> strict_sorted (traverse d) \<Longrightarrow> inserts h (MIN_KEYS - 1) k d (insertNonFull k d)"
  shows "inserts (Suc h) m k x
    (let x' = splitChild i c x in
     if keys x' ! i = k then Some (x', False)
     else let idx' = (if keys x' ! i < k then i + 1 else i) in
       case nth_child x' idx' of
         None \<Rightarrow> None
       | Some d \<Rightarrow> map_option (\<lambda>(d', b). (set_child x' idx' d', b)) (insertNonFull k d))"
proof -
  define mid lo up x' where "mid = keys c ! 63" and "lo = lower_half c" and "up = upper_half c"
    and "x' = BTreeNode (ks @ mid # ks') (cs @ lo # up # cs') False"
  have len: "length cs = length ks" using x by simp
  have c: "shape h (MIN_KEYS - 1) c" using sh(1) unfolding x(1) shape_at [OF len x(4)] by blast
  have sp: "splitChild i c x = x'" unfolding x(1) x'_def mid_def lo_def up_def using x full by (intro splitChild_at) simp_all
  have tr: "traverse x' = traverse x"
    unfolding x'_def mid_def lo_def up_def x(1) by (rule split_traverse [OF c full len x(4)])
  note hs = halves_shape [OF c full, folded lo_def up_def]
  have ix: "keys x' ! i = mid" using x(2) nth_append_length [of ks mid ks'] by (simp add: x'_def)
  have sh': "shape (Suc h) m x'"
    using sh hs(1,2) x(1) unfolding x'_def x(1) shape_at [OF len x(4)] by (subst shape_at) (use len x(4) in auto)
  have so': "strict_sorted (traverse x')" using so by (simp add: tr)
  have halves: "strict_sorted (traverse lo)" "strict_sorted (traverse up)"
    using so' node_at [of False cs ks "up # cs'" "mid # ks'" lo] len x(4) by (simp_all add: x'_def sorted_wrt_append)
  have same: "inserts (Suc h) m k x res \<longleftrightarrow> inserts (Suc h) m k x' res" for res by (simp add: inserts_def tr)
  consider "mid = k" | "mid < k" | "k < mid" by fastforce
  then show ?thesis
  proof cases
    case 1
    then have "k \<in> set (traverse x')" using keys_traverse [OF sh'] by (auto simp: x'_def)
    then show ?thesis using 1 sh' by (auto simp: sp Let_def ix same) (auto simp: inserts_def ins_list_def)
  next
    case 2
    have x2: "x' = BTreeNode ((ks @ [mid]) @ ks') ((cs @ [lo]) @ up # cs') False" by (simp add: x'_def)
    have "inserts h (MIN_KEYS - 1) k up (insertNonFull k up)" using hs halves by (intro IH) simp_all
    with 2 k x have "inserts (Suc h) m k x' (map_option (\<lambda>(d', b). (set_child x' (i + 1) d', b)) (insertNonFull k up))"
      by (intro insert_below [OF x2 _ _ _ sh' so']) auto
    moreover have "nth_child x' (Suc i) = Some up" using x(3) by (simp add: x2 nth_child_def nth_append)
    ultimately show ?thesis using 2 by (auto simp: sp Let_def ix same)
  next
    case 3
    have x3: "x' = BTreeNode (ks @ (mid # ks')) (cs @ lo # (up # cs')) False" by (simp add: x'_def)
    have "inserts h (MIN_KEYS - 1) k lo (insertNonFull k lo)" using hs halves by (intro IH) simp_all
    with 3 k x have "inserts (Suc h) m k x' (map_option (\<lambda>(d', b). (set_child x' i d', b)) (insertNonFull k lo))"
      by (intro insert_below [OF x3 _ _ _ sh' so']) auto
    moreover have "nth_child x' i = Some lo" using x(3) by (simp add: x3 nth_child_def nth_append)
    ultimately show ?thesis using 3 by (auto simp: sp Let_def ix same)
  qed
qed

lemma insertNonFull_correct:
  assumes "shape h m x" "num_keys x < MAX_KEYS" "strict_sorted (traverse x)"
  shows "inserts h m k x (insertNonFull k x)"
  using assms
proof (induction h arbitrary: m x)
  case 0
  then show ?case by (rule insert_leaf)
next
  case (Suc h)
  define i where "i = findKey (keys x) k"
  have sk: "strict_sorted (keys x)" using Suc.prems(1,3) by (rule keys_sorted)
  show ?case
  proof (cases "k \<in> set (keys x)")
    case True
    then have "insertNonFull k x = Some (x, False)"
      using findKey_mem [OF sk, of k] by (subst insertNonFull.simps) (simp add: Let_def)
    with True keys_traverse [OF Suc.prems(1)] Suc.prems(1) show ?thesis by (auto simp: inserts_def ins_list_def)
  next
    case False
    have "i \<le> num_keys x" by (simp add: i_def findKey_le)
    from node_child [OF Suc.prems(1) this] obtain ks ks' cs c cs' where x: "x = BTreeNode (ks @ ks') (cs @ c # cs') False"
      "nth_child x i = Some c" "length ks = i" "length cs = i" "length cs' = length ks'" "shape h (MIN_KEYS - 1) c"
      "traverse x = left_of cs ks @ traverse c @ right_of ks' cs'" by metis
    have kk: "\<forall>y \<in> set ks. y < k" "\<forall>y \<in> set ks'. k < y"
      using findKey_split [of ks ks' k] sk False x(1,3) by (auto simp: i_def)
    have so: "strict_sorted (traverse c)" using Suc.prems(3) unfolding x(7) by (simp add: sorted_wrt_append)
    have pre: "(i < num_keys x \<and> keys x ! i = k) = False" "is_leaf x = False"
      using False findKey_mem [OF sk, of k] Suc.prems(1) by (auto simp: shape_leaf_iff i_def)
    note step = insertNonFull.simps [of k x, unfolded Let_def, folded i_def, unfolded pre if_False x(2) option.case]
    show ?thesis
    proof (cases "num_keys c = MAX_KEYS")
      case False
      have "insertNonFull k x = map_option (\<lambda>(c', b). (set_child x i c', b)) (insertNonFull k c)"
        unfolding step if_not_P [OF False] ..
      moreover have "inserts h (MIN_KEYS - 1) k c (insertNonFull k c)"
        using x(6) so False shape_max [OF x(6)] by (intro Suc.IH) auto
      ultimately show ?thesis using insert_below [OF x(1,3,4,5) Suc.prems(1,3) kk] by simp
    next
      case True
      have eq: "insertNonFull k x = (let x' = splitChild i c x in
          if keys x' ! i = k then Some (x', False)
          else let idx' = (if keys x' ! i < k then i + 1 else i) in
            case nth_child x' idx' of
              None \<Rightarrow> None
            | Some d \<Rightarrow> map_option (\<lambda>(d', b). (set_child x' idx' d', b)) (insertNonFull k d))"
        unfolding step if_P [OF True] Let_def ..
      show ?thesis unfolding eq by (rule insert_split [OF x(1,3,4,5) Suc.prems(1,2,3) kk True Suc.IH])
    qed
  qed
qed

text \<open>A full root is split below a new root.\<close>

lemma root_split:
  assumes r: "shape h 1 r" "num_keys r = MAX_KEYS" "strict_sorted (traverse r)"
  defines "s \<equiv> BTreeNode [keys r ! 63] [lower_half r, upper_half r] False"
  shows "splitChild 0 r (BTreeNode [] [r] False) = s" "shape (Suc h) 1 s" "traverse s = traverse r"
    "inserts h 63 k (lower_half r) (insertNonFull k (lower_half r))" "inserts h 63 k (upper_half r) (insertNonFull k (upper_half r))"
proof -
  note hs = halves_shape [OF r(1,2)]
  show "splitChild 0 r (BTreeNode [] [r] False) = s" using splitChild_at [of "[]" 0 "[]" r "[]" "[]" False] r(2) by (simp add: s_def)
  show "shape (Suc h) 1 s" using hs by (simp add: s_def)
  show tr: "traverse s = traverse r" using halves_traverse [OF r(1,2)] by (simp add: s_def)
  have "strict_sorted (traverse s)" using r(3) by (simp add: tr)
  then have so: "strict_sorted (traverse (lower_half r))" "strict_sorted (traverse (upper_half r))"
    by (simp_all add: s_def sorted_wrt_append)
  show "inserts h 63 k (lower_half r) (insertNonFull k (lower_half r))" "inserts h 63 k (upper_half r) (insertNonFull k (upper_half r))"
    using hs so by (simp_all add: insertNonFull_correct)
qed

definition inserts_root :: "'a::linorder \<Rightarrow> 'a BTreeNode option \<Rightarrow> ('a BTreeNode option \<times> bool) option \<Rightarrow> bool" where
  "inserts_root k root res \<longleftrightarrow> (\<exists>root' b. res = Some (root', b) \<and> tree_ok root' \<and> tree_keys root' = ins_list k (tree_keys root) \<and>
     (b \<longleftrightarrow> k \<notin> set (tree_keys root)))"

lemma inserts_root_node:
  assumes "inserts h 1 k x res" "traverse x = tree_keys root" "strict_sorted (traverse x)"
  shows "inserts_root k root (map_option (\<lambda>(r', b). (Some r', b)) res)"
  using assms sorted_ins_list [OF assms(3), of k] by (auto simp: inserts_def inserts_root_def tree_ok_def tree_keys_def)

lemma BTree_insert_full:
  assumes r: "shape h 1 r" "num_keys r = MAX_KEYS" "strict_sorted (traverse r)" and k: "keys r ! 63 \<noteq> k"
  shows "inserts_root k (Some r) (BTree_insert k (Some r))"
proof -
  define s where "s = BTreeNode [keys r ! 63] [lower_half r, upper_half r] False"
  note sp = root_split(1-3) [OF r, folded s_def] root_split(4,5) [OF r, of k]
  have so: "strict_sorted (traverse s)" using r(3) sp(3) by simp
  define i where "i = (if keys r ! 63 < k then 1 else 0 :: nat)"
  define c where "c = (if keys r ! 63 < k then upper_half r else lower_half r)"
  have "inserts (Suc h) 1 k s (map_option (\<lambda>(c', b). (set_child s i c', b)) (insertNonFull k c))"
  proof (cases "keys r ! 63 < k")
    case True
    then show ?thesis using sp(5) insert_below [of s "[keys r ! 63]" "[]" "[lower_half r]" "upper_half r" "[]" 1 h 1 k] sp(2) so
      by (simp add: s_def i_def c_def)
  next
    case False
    then show ?thesis using sp(4) k insert_below [of s "[]" "[keys r ! 63]" "[]" "lower_half r" "[upper_half r]" 0 h 1 k] sp(2) so
      by (simp add: s_def i_def c_def)
  qed
  from inserts_root_node [OF this _ so, of "Some r"] sp(3)
  have "inserts_root k (Some r) (map_option (\<lambda>(c', b). (Some (set_child s i c'), b)) (insertNonFull k c))"
    by (simp add: tree_keys_def option.map_comp comp_def case_prod_unfold)
  moreover have "BTree_insert k (Some r) = map_option (\<lambda>(c', b). (Some (set_child s i c'), b)) (insertNonFull k c)"
    using r(2) sp(1) by (simp add: BTree_insert_def Let_def nth_child_def i_def c_def) (simp add: s_def)
  ultimately show ?thesis by simp
qed

lemma BTree_insert_aux:
  assumes ok: "tree_ok root" and k: "\<And>r. root = Some r \<Longrightarrow> num_keys r = MAX_KEYS \<Longrightarrow> keys r ! 63 \<noteq> k"
  shows "inserts_root k root (BTree_insert k root)"
proof (cases root)
  case None
  then show ?thesis
    by (auto simp: BTree_insert_def inserts_root_def tree_ok_def tree_keys_def ins_list_def intro!: exI [of _ 0])
next
  case (Some r)
  with ok obtain h where r: "shape h 1 r" "strict_sorted (traverse r)" by (auto simp: tree_ok_def)
  show ?thesis
  proof (cases "num_keys r = MAX_KEYS")
    case True
    with BTree_insert_full [OF r(1) True r(2) k [OF Some True]] show ?thesis by (simp add: Some)
  next
    case False
    then have "num_keys r < MAX_KEYS" using shape_max [OF r(1)] by simp
    from inserts_root_node [OF insertNonFull_correct [OF r(1) this r(2)] _ r(2), of root k] False show ?thesis
      by (simp add: Some BTree_insert_def tree_keys_def)
  qed
qed

lemma BTree_insert_duplicates_aux:
  assumes ok: "tree_ok (Some r)" and k: "num_keys r = MAX_KEYS" "keys r ! 63 = k"
  shows "\<exists>root'. BTree_insert k (Some r) = Some (root', True) \<and> k \<in> set (tree_keys (Some r)) \<and> \<not> distinct (tree_keys root')"
proof -
  from ok obtain h where r: "shape h 1 r" "strict_sorted (traverse r)" by (auto simp: tree_ok_def)
  define s where "s = BTreeNode [keys r ! 63] [lower_half r, upper_half r] False"
  note sp = root_split(1-3) [OF r(1) k(1) r(2), folded s_def] root_split(4,5) [OF r(1) k(1) r(2), of k]
  have "strict_sorted (traverse (lower_half r) @ k # traverse (upper_half r))" using r(2) sp(3) k(2) by (simp add: s_def)
  then have nk: "k \<notin> set (traverse (lower_half r))" by (auto simp: sorted_wrt_append)
  from sp(4) nk obtain c where c: "insertNonFull k (lower_half r) = Some (c, True)" "traverse c = ins_list k (traverse (lower_half r))"
    by (auto simp: inserts_def)
  have "BTree_insert k (Some r) = Some (Some (set_child s 0 c), True)"
    using k sp(1) c(1) by (simp add: BTree_insert_def Let_def nth_child_def) (auto simp: s_def)
  moreover have "k \<in> set (traverse r)" using sp(3) k(2) by (simp add: s_def flip: sp(3))
  moreover have "\<not> distinct (traverse (set_child s 0 c))"
    using c(2) k(2) by (simp add: s_def set_child_def set_ins_list)
  ultimately show ?thesis by (auto simp: tree_keys_def)
qed

section \<open>Two neighbouring children\<close>

lemma pair_traverse:
  "length cs = length ks \<Longrightarrow> length cs' = length ks' \<Longrightarrow>
   traverse (BTreeNode (ks @ k # ks') (cs @ a # b # cs') False) = left_of cs ks @ (traverse a @ k # traverse b) @ right_of ks' cs'"
  using node_at [of False cs ks "b # cs'" "k # ks'" a] by simp

lemma shape_pair:
  "length cs = length ks \<Longrightarrow> length cs' = length ks' \<Longrightarrow>
   shape (Suc h) m (BTreeNode (ks @ k # ks') (cs @ a # b # cs') False) \<longleftrightarrow>
     m \<le> Suc (length ks + length ks') \<and> Suc (length ks + length ks') \<le> MAX_KEYS \<and> shape h (MIN_KEYS - 1) a \<and> shape h (MIN_KEYS - 1) b \<and>
     (\<forall>d \<in> set cs \<union> set cs'. shape h (MIN_KEYS - 1) d)"
  using shape_at [of cs ks "b # cs'" "k # ks'" h m a] by auto

lemma node_pair:
  assumes "shape (Suc h) m x" "i < num_keys x"
  obtains ks k ks' cs a b cs' where "x = BTreeNode (ks @ k # ks') (cs @ a # b # cs') False" "length ks = i" "length cs = i"
    "length cs' = length ks'" "k = keys x ! i" "a = children x ! i" "b = children x ! (i + 1)"
proof -
  from assms(1) have x: "\<not> is_leaf x" "length (children x) = Suc (num_keys x)" by (simp_all add: shape_Suc)
  have "keys x = take i (keys x) @ keys x ! i # drop (Suc i) (keys x)" using assms(2) by (rule id_take_nth_drop)
  moreover have "children x = take i (children x) @ children x ! i # children x ! (i + 1) # drop (i + 2) (children x)"
    using assms(2) x(2) id_take_nth_drop [of i "children x"] Cons_nth_drop_Suc [of "i + 1" "children x"] by simp
  ultimately have "x = BTreeNode (take i (keys x) @ keys x ! i # drop (Suc i) (keys x))
      (take i (children x) @ children x ! i # children x ! (i + 1) # drop (i + 2) (children x)) False"
    using x(1) by (cases x) auto
  then show ?thesis using assms(2) x(2) by (intro that) auto
qed

text \<open>The keys of a node and its children, by level.\<close>

lemma traverse_leaf: "shape 0 m x \<Longrightarrow> traverse x = keys x"
  by (cases x) simp

lemma traverse_inner: "shape (Suc h) m x \<Longrightarrow> traverse x = interleave (map traverse (children x)) (keys x)"
  by (cases x) simp

definition prev_sibling :: "'a BTreeNode \<Rightarrow> 'a BTreeNode" where
  "prev_sibling a = BTreeNode (take (num_keys a - 1) (keys a)) (take (num_keys a) (children a)) (is_leaf a)"

definition prev_child :: "'a BTreeNode \<Rightarrow> 'a \<Rightarrow> 'a BTreeNode \<Rightarrow> 'a BTreeNode" where
  "prev_child a k b = BTreeNode (k # keys b) (if is_leaf b then children b else children a ! num_keys a # children b) (is_leaf b)"

lemma prev_shape:
  assumes "shape h m a" "MIN_KEYS \<le> num_keys a" "shape h (MIN_KEYS - 1) b" "num_keys b < MAX_KEYS"
  shows "shape h (MIN_KEYS - 1) (prev_sibling a)" "shape h MIN_KEYS (prev_child a k b)"
  using assms by (cases h; cases a; cases b; auto simp: prev_sibling_def prev_child_def list_all_iff dest: in_set_takeD)+

lemma prev_traverse:
  assumes "shape h m a" "0 < num_keys a" "shape h m' b"
  shows "traverse (prev_sibling a) @ keys a ! (num_keys a - 1) # traverse (prev_child a k b) = traverse a @ k # traverse b"
proof -
  obtain n where n: "num_keys a = Suc n" using assms(2) by (cases "num_keys a") auto
  have ka: "take n (keys a) @ [keys a ! n] = keys a" using n by (simp add: take_Suc_conv_app_nth [symmetric])
  show ?thesis
  proof (cases h)
    case 0
    then show ?thesis
      using assms n ka by (simp add: shape_0 prev_sibling_def prev_child_def traverse_leaf [of m] traverse_leaf [of m'])
  next
    case (Suc h')
    then have l: "length (children a) = Suc (Suc n)" "\<not> is_leaf a" "\<not> is_leaf b" using assms n by (simp_all add: shape_Suc)
    have "take (Suc n) (children a) @ [children a ! Suc n] = children a"
      using l by (simp add: take_Suc_conv_app_nth [symmetric])
    then have "traverse a = interleave (map traverse (take (Suc n) (children a) @ [children a ! Suc n])) (take n (keys a) @ [keys a ! n])"
      using assms(1) Suc ka by (simp add: traverse_inner [of h' m])
    also have "\<dots> = traverse (prev_sibling a) @ keys a ! n # traverse (children a ! Suc n)"
      unfolding map_append using l n by (subst interleave_join) (auto simp: prev_sibling_def)
    finally show ?thesis using assms(3) Suc l n by (simp add: prev_child_def traverse_inner [of h' m'])
  qed
qed

definition next_child :: "'a BTreeNode \<Rightarrow> 'a \<Rightarrow> 'a BTreeNode \<Rightarrow> 'a BTreeNode" where
  "next_child a k b = BTreeNode (keys a @ [k]) (if is_leaf a then children a else children a @ [children b ! 0]) (is_leaf a)"

definition next_sibling :: "'a BTreeNode \<Rightarrow> 'a BTreeNode" where
  "next_sibling b = BTreeNode (drop 1 (keys b)) (if is_leaf b then children b else drop 1 (children b)) (is_leaf b)"

lemma next_shape:
  assumes "shape h (MIN_KEYS - 1) a" "num_keys a < MAX_KEYS" "shape h m b" "MIN_KEYS \<le> num_keys b"
  shows "shape h (MIN_KEYS - 1) (next_sibling b)" "shape h MIN_KEYS (next_child a k b)"
  using assms by (cases h; cases a; cases b; auto simp: next_sibling_def next_child_def list_all_iff dest: in_set_dropD)+

lemma next_traverse:
  assumes "shape h m a" "shape h m' b" "0 < num_keys b"
  shows "traverse (next_child a k b) @ keys b ! 0 # traverse (next_sibling b) = traverse a @ k # traverse b"
proof -
  obtain k1 kb where kb: "keys b = k1 # kb" using assms(3) by (cases "keys b") auto
  show ?thesis
  proof (cases h)
    case 0
    then show ?thesis
      using assms kb by (simp add: shape_0 next_sibling_def next_child_def traverse_leaf [of m] traverse_leaf [of m'])
  next
    case (Suc h')
    then have l: "length (children a) = Suc (num_keys a)" "\<not> is_leaf a" "\<not> is_leaf b" "length (children b) = Suc (Suc (length kb))"
      using assms kb by (simp_all add: shape_Suc)
    then obtain b1 cb where cb: "children b = b1 # cb" "cb \<noteq> []" by (cases "children b"; cases "tl (children b)") auto
    have "traverse (next_child a k b) = traverse a @ k # traverse b1"
      using assms(1) Suc l cb interleave_join [of "map traverse (children a)" "keys a" "[traverse b1]" k "[]"]
      by (simp add: next_child_def traverse_inner [of h' m])
    then show ?thesis using assms(2) Suc l cb kb by (simp add: next_sibling_def traverse_inner [of h' m'])
  qed
qed

definition merged :: "'a BTreeNode \<Rightarrow> 'a \<Rightarrow> 'a BTreeNode \<Rightarrow> 'a BTreeNode" where
  "merged a k b = BTreeNode (keys a @ k # keys b) (children a @ children b) (is_leaf a)"

lemma merged_shape:
  assumes "shape h (MIN_KEYS - 1) a" "num_keys a < MIN_KEYS" "shape h (MIN_KEYS - 1) b" "num_keys b < MIN_KEYS"
  shows "shape h MIN_KEYS (merged a k b)"
  using assms by (cases h; cases a; cases b; auto simp: merged_def list_all_iff)

lemma merged_traverse:
  assumes "shape h m a" "shape h m' b"
  shows "traverse (merged a k b) = traverse a @ k # traverse b"
proof (cases h)
  case 0
  then show ?thesis using assms by (cases a; cases b; simp add: merged_def)
next
  case (Suc h')
  then have "children b \<noteq> []" using assms(2) by (auto simp: shape_Suc)
  with Suc show ?thesis
    using assms interleave_join [of "map traverse (children a)" "keys a" "map traverse (children b)" k "keys b"]
    by (simp add: merged_def shape_Suc traverse_inner [of h' m] traverse_inner [of h' m'])
qed

text \<open>The three repairs, in place.\<close>

lemma borrowFromPrev_at:
  assumes "length ks = i" "length cs = i" "is_leaf b \<or> num_keys a < length (children a)"
  shows "borrowFromPrev (i + 1) (BTreeNode (ks @ k # ks') (cs @ a # b # cs') False) =
    Some (BTreeNode (ks @ keys a ! (num_keys a - 1) # ks') (cs @ prev_sibling a # prev_child a k b # cs') False)"
  using assms by (auto simp: borrowFromPrev_def Let_def nth_append list_update_append prev_sibling_def prev_child_def)

lemma borrowFromNext_at:
  assumes "length ks = i" "length cs = i" "is_leaf a \<or> children b \<noteq> []"
  shows "borrowFromNext i (BTreeNode (ks @ k # ks') (cs @ a # b # cs') False) =
    Some (BTreeNode (ks @ keys b ! 0 # ks') (cs @ next_child a k b # next_sibling b # cs') False)"
  using assms by (auto simp: borrowFromNext_def Let_def nth_append list_update_append next_sibling_def next_child_def)

lemma merge_children_at:
  assumes "length ks = i" "length cs = i" "shape h (MIN_KEYS - 1) a" "num_keys a < MIN_KEYS" "shape h (MIN_KEYS - 1) b"
  shows "merge_children i (BTreeNode (ks @ k # ks') (cs @ a # b # cs') False) = BTreeNode (ks @ ks') (cs @ merged a k b # cs') False"
proof -
  have "num_keys a = 63" using assms(4) shape_min [OF assms(3)] by simp
  moreover have "length (children a) \<le> 64" "is_leaf a \<longrightarrow> children b = []" using assms(3,5) calculation by (cases h; simp add: shape_0 shape_Suc)+
  ultimately show ?thesis using assms(1,2) by (auto simp: merge_children_def Let_def nth_append merged_def)
qed

text \<open>After \<^verbatim>\<open>fill\<close> the child to descend into has a key to spare, and is still where \<open>k\<close> belongs.\<close>

definition ready :: "nat \<Rightarrow> nat \<Rightarrow> 'a::linorder \<Rightarrow> 'a BTreeNode \<Rightarrow> nat \<Rightarrow> 'a BTreeNode \<Rightarrow> bool" where
  "ready h m k x j d \<longleftrightarrow> (\<exists>ks ks' cs cs'. x = BTreeNode (ks @ ks') (cs @ d # cs') False \<and> length ks = j \<and> length cs = j \<and> length cs' = length ks' \<and>
     shape (Suc h) m x \<and> shape h MIN_KEYS d \<and> strict_sorted (traverse x) \<and> (\<forall>y \<in> set ks. y < k) \<and> (\<forall>y \<in> set ks'. k < y))"

lemma readyI:
  "length ks = j \<Longrightarrow> length cs = j \<Longrightarrow> length cs' = length ks' \<Longrightarrow> shape (Suc h) m (BTreeNode (ks @ ks') (cs @ d # cs') False) \<Longrightarrow>
   shape h MIN_KEYS d \<Longrightarrow> strict_sorted (traverse (BTreeNode (ks @ ks') (cs @ d # cs') False)) \<Longrightarrow> \<forall>y \<in> set ks. y < k \<Longrightarrow> \<forall>y \<in> set ks'. k < y \<Longrightarrow>
   ready h m k (BTreeNode (ks @ ks') (cs @ d # cs') False) j d"
  unfolding ready_def by blast

lemma ready_nth_child: "ready h m k x j d \<Longrightarrow> nth_child x j = Some d"
  by (auto simp: ready_def nth_child_def nth_append)

lemma ready_child:
  assumes "ready h m k x j d"
  shows "shape h MIN_KEYS d \<and> strict_sorted (traverse d)"
proof -
  from assms obtain ks ks' cs cs' where x: "x = BTreeNode (ks @ ks') (cs @ d # cs') False" "length cs = length ks" "length cs' = length ks'"
    "shape h MIN_KEYS d" "strict_sorted (traverse x)" unfolding ready_def by metis
  from x(5) show ?thesis using x(4) node_at [of False cs ks cs' ks' d] x(2,3) unfolding x(1) by (simp add: sorted_wrt_append del: traverse.simps)
qed

text \<open>Borrowing from the left: child \<open>b\<close> at \<open>i + 1\<close>.\<close>

lemma borrowFromPrev_ready:
  assumes x: "x = BTreeNode (ks @ p # ks') (cs @ a # b # cs') False" "length ks = i" "length cs = i" "length cs' = length ks'"
    and sh: "shape (Suc h) m x" and so: "strict_sorted (traverse x)"
    and k: "\<forall>y \<in> set ks. y < k" "p < k" "\<forall>y \<in> set ks'. k < y" and a: "MIN_KEYS \<le> num_keys a" and b: "num_keys b < MIN_KEYS"
  shows "\<exists>x' d. borrowFromPrev (i + 1) x = Some x' \<and> num_keys x' = num_keys x \<and> traverse x' = traverse x \<and> ready h m k x' (i + 1) d"
proof -
  have len: "length cs = length ks" using x by simp
  note sp = shape_pair [OF len x(4)] and tr = pair_traverse [OF len x(4)]
  have s: "shape h (MIN_KEYS - 1) a" "shape h (MIN_KEYS - 1) b" using sh unfolding x(1) sp by auto
  define q where "q = keys a ! (num_keys a - 1)"
  define x' where "x' = BTreeNode (ks @ q # ks') (cs @ prev_sibling a # prev_child a p b # cs') False"
  have b': "num_keys b < MAX_KEYS" using b by simp
  note ps = prev_shape(1) [OF s(1) a s(2) b'] prev_shape(2) [OF s(1) a s(2) b', of p]
  have ap: "0 < num_keys a" using a by (cases "keys a") auto
  have "is_leaf b \<or> num_keys a < length (children a)" using s by (cases h) (simp_all add: shape_0 shape_Suc)
  with x have bo: "borrowFromPrev (i + 1) x = Some x'" unfolding x(1) x'_def q_def by (intro borrowFromPrev_at) auto
  have tx: "traverse x' = traverse x" unfolding x(1) x'_def tr using prev_traverse [OF s(1) ap s(2), of p] by (simp add: q_def)
  have sh': "shape (Suc h) m x'" using sh ps(1) shape_mono [OF ps(2), of "MIN_KEYS - 1"] unfolding x(1) x'_def sp by simp
  have "q \<in> set (keys a)" unfolding q_def using ap by (intro nth_mem) simp
  then have "q \<in> set (traverse a)" using keys_traverse [OF s(1)] by blast
  then have "q < p" using so unfolding x(1) tr by (auto simp: sorted_wrt_append)
  then have "q < k" using k(2) by simp
  have "ready h m k (BTreeNode ((ks @ [q]) @ ks') ((cs @ [prev_sibling a]) @ prev_child a p b # cs') False) (i + 1) (prev_child a p b)"
    by (rule readyI) (use x k \<open>q < k\<close> sh' ps(2) so tx in \<open>auto simp: x'_def\<close>)
  then have "ready h m k x' (i + 1) (prev_child a p b)" by (simp add: x'_def)
  moreover have "num_keys x' = num_keys x" by (simp add: x(1) x'_def)
  ultimately show ?thesis using bo tx by blast
qed

lemma borrowFromNext_ready:
  assumes x: "x = BTreeNode (ks @ p # ks') (cs @ a # b # cs') False" "length ks = i" "length cs = i" "length cs' = length ks'"
    and sh: "shape (Suc h) m x" and so: "strict_sorted (traverse x)"
    and k: "\<forall>y \<in> set ks. y < k" "k < p" "\<forall>y \<in> set ks'. k < y" and a: "num_keys a < MIN_KEYS" and b: "MIN_KEYS \<le> num_keys b"
  shows "\<exists>x' d. borrowFromNext i x = Some x' \<and> num_keys x' = num_keys x \<and> traverse x' = traverse x \<and> ready h m k x' i d"
proof -
  have len: "length cs = length ks" using x by simp
  note sp = shape_pair [OF len x(4)] and tr = pair_traverse [OF len x(4)]
  have s: "shape h (MIN_KEYS - 1) a" "shape h (MIN_KEYS - 1) b" using sh unfolding x(1) sp by auto
  define q where "q = keys b ! 0"
  define x' where "x' = BTreeNode (ks @ q # ks') (cs @ next_child a p b # next_sibling b # cs') False"
  have a': "num_keys a < MAX_KEYS" using a by simp
  note ns = next_shape(1) [OF s(1) a' s(2) b] next_shape(2) [OF s(1) a' s(2) b, of p]
  have bp: "0 < num_keys b" using b by (cases "keys b") auto
  have "is_leaf a \<or> children b \<noteq> []" using s by (cases h) (auto simp: shape_0 shape_Suc)
  with x have bo: "borrowFromNext i x = Some x'" unfolding x(1) x'_def q_def by (intro borrowFromNext_at) auto
  have tx: "traverse x' = traverse x" unfolding x(1) x'_def tr using next_traverse [OF s(1) s(2) bp, of p] by (simp add: q_def)
  have sh': "shape (Suc h) m x'" using sh ns(1) shape_mono [OF ns(2), of "MIN_KEYS - 1"] unfolding x(1) x'_def sp by simp
  have "q \<in> set (keys b)" unfolding q_def using bp by (intro nth_mem) simp
  then have "q \<in> set (traverse b)" using keys_traverse [OF s(2)] by blast
  then have "p < q" using so unfolding x(1) tr by (auto simp: sorted_wrt_append)
  then have "k < q" using k(2) by simp
  have "ready h m k (BTreeNode (ks @ (q # ks')) (cs @ next_child a p b # (next_sibling b # cs')) False) i (next_child a p b)"
    by (rule readyI) (use x k \<open>k < q\<close> sh' ns(2) so tx in \<open>auto simp: x'_def\<close>)
  then have "ready h m k x' i (next_child a p b)" by (simp add: x'_def)
  moreover have "num_keys x' = num_keys x" by (simp add: x(1) x'_def)
  ultimately show ?thesis using bo tx by blast
qed

lemma merge_children_ready:
  assumes x: "x = BTreeNode (ks @ p # ks') (cs @ a # b # cs') False" "length ks = i" "length cs = i" "length cs' = length ks'"
    and sh: "shape (Suc h) m x" and so: "strict_sorted (traverse x)"
    and k: "\<forall>y \<in> set ks. y < k" "\<forall>y \<in> set ks'. k < y" and ab: "num_keys a < MIN_KEYS" "num_keys b < MIN_KEYS"
  shows "num_keys (merge_children i x) = num_keys x - 1 \<and> traverse (merge_children i x) = traverse x \<and>
    ready h (m - 1) k (merge_children i x) i (merged a p b)"
proof -
  have len: "length cs = length ks" using x by simp
  note sp = shape_pair [OF len x(4)] and tr = pair_traverse [OF len x(4)]
  have s: "shape h (MIN_KEYS - 1) a" "shape h (MIN_KEYS - 1) b" using sh unfolding x(1) sp by auto
  define x' where "x' = BTreeNode (ks @ ks') (cs @ merged a p b # cs') False"
  have mg: "merge_children i x = x'" unfolding x(1) x'_def using x s ab by (intro merge_children_at) auto
  note ms = merged_shape [OF s(1) ab(1) s(2) ab(2), of p]
  have tx: "traverse x' = traverse x"
    unfolding x(1) x'_def tr using node_at [of False cs ks cs' ks' "merged a p b"] len x(4) merged_traverse [OF s, of p] by simp
  have sh': "shape (Suc h) (m - 1) x'"
    using sh shape_mono [OF ms, of "MIN_KEYS - 1"] unfolding x(1) x'_def sp shape_at [OF len x(4)] by auto
  have "ready h (m - 1) k x' i (merged a p b)"
    unfolding x'_def by (rule readyI) (use x k sh' ms so tx in \<open>auto simp: x'_def\<close>)
  then show ?thesis using tx by (simp add: mg) (simp add: x(1) x'_def)
qed

lemma ready_mono: "ready h m k x j d \<Longrightarrow> m' \<le> m \<Longrightarrow> ready h m' k x j d"
  unfolding ready_def by (blast intro: shape_mono)

lemma fill_ready:
  assumes sh: "shape (Suc h) m x" and m: "1 \<le> m" and so: "strict_sorted (traverse x)" and i: "i \<le> num_keys x"
    and k: "\<forall>y \<in> set (take i (keys x)). y < k" "\<forall>y \<in> set (drop i (keys x)). k < y"
    and c: "num_keys (children x ! i) < MIN_KEYS"
  shows "\<exists>x' d. fill_child i x = Some x' \<and> traverse x' = traverse x \<and>
    ready h (m - 1) k x' (if i = num_keys x \<and> i > num_keys x' then i - 1 else i) d"
proof -
  have len: "length (children x) = Suc (num_keys x)" using sh by (simp add: shape_Suc)
  have ne: "0 < num_keys x" using shape_min [OF sh] m by linarith
  have g: "\<not> (length (children x) \<le> i \<or> i \<noteq> num_keys x \<and> length (children x) \<le> i + 1)" using len i by auto
  show ?thesis
  proof (cases "i \<noteq> 0 \<and> MIN_KEYS \<le> num_keys (children x ! (i - 1))")
    case True
    then obtain j where j: "i = j + 1" by (cases i) auto
    from i j have "j < num_keys x" by simp
    then obtain ks p ks' cs a b cs' where x: "x = BTreeNode (ks @ p # ks') (cs @ a # b # cs') False"
      "length ks = j" "length cs = j" "length cs' = length ks'" and "p = keys x ! j" and ab: "a = children x ! j" "b = children x ! (j + 1)"
      by (rule node_pair [OF sh])
    have "\<forall>y \<in> set ks. y < k" "p < k" "\<forall>y \<in> set ks'. k < y" using k x(1,2) j by auto
    from borrowFromPrev_ready [OF x sh so this] True c ab j
    obtain x' d where "borrowFromPrev i x = Some x'" "num_keys x' = num_keys x" "traverse x' = traverse x" "ready h m k x' i d" by auto
    then show ?thesis using True g ready_mono [of h m k x' i d "m - 1"] by (auto simp: fill_child_def)
  next
    case np: False
    show ?thesis
    proof (cases "i = num_keys x")
      case False
      with i have "i < num_keys x" by simp
      then obtain ks p ks' cs a b cs' where x: "x = BTreeNode (ks @ p # ks') (cs @ a # b # cs') False"
        "length ks = i" "length cs = i" "length cs' = length ks'" and "p = keys x ! i" and ab: "a = children x ! i" "b = children x ! (i + 1)"
        by (rule node_pair [OF sh])
      have kk: "\<forall>y \<in> set ks. y < k" "k < p" "\<forall>y \<in> set ks'. k < y" using k x(1,2) by auto
      show ?thesis
      proof (cases "MIN_KEYS \<le> num_keys b")
        case True
        with borrowFromNext_ready [OF x sh so kk] c ab
        obtain x' d where "borrowFromNext i x = Some x'" "traverse x' = traverse x" "ready h m k x' i d" by auto
        then show ?thesis using np True g False ab ready_mono [of h m k x' i d "m - 1"] by (auto simp: fill_child_def)
      next
        case nb: False
        have na: "num_keys a < MIN_KEYS" "num_keys b < MIN_KEYS" using c ab nb by simp_all
        from merge_children_ready [OF x sh so kk(1,3) na]
        have "traverse (merge_children i x) = traverse x" "ready h (m - 1) k (merge_children i x) i (merged a p b)" by simp_all
        moreover have "fill_child i x = Some (merge_children i x)" using np nb g False ab by (auto simp: fill_child_def)
        ultimately show ?thesis using False by auto
      qed
    next
      case True
      then obtain j where j: "i = j + 1" using ne by (metis Suc_eq_plus1 gr0_implies_Suc)
      then have "j < num_keys x" using True by simp
      then obtain ks p ks' cs a b cs' where x: "x = BTreeNode (ks @ p # ks') (cs @ a # b # cs') False"
        "length ks = j" "length cs = j" "length cs' = length ks'" and "p = keys x ! j" and ab: "a = children x ! j" "b = children x ! (j + 1)"
        by (rule node_pair [OF sh])
      have kk: "\<forall>y \<in> set ks. y < k" "\<forall>y \<in> set ks'. k < y" using k x(1,2) j by auto
      have "num_keys a < MIN_KEYS" "num_keys b < MIN_KEYS" using np c ab j by auto
      from merge_children_ready [OF x sh so kk this]
      have "num_keys (merge_children j x) = num_keys x - 1" "traverse (merge_children j x) = traverse x"
        "ready h (m - 1) k (merge_children j x) j (merged a p b)" by simp_all
      moreover have "fill_child i x = Some (merge_children (i - 1) x)" using np g True ne by (auto simp: fill_child_def)
      moreover have "i - 1 = j" using j by simp
      ultimately show ?thesis using True j ne by auto
    qed
  qed
qed

lemma getPred_last: "shape h m x \<Longrightarrow> 1 \<le> m \<Longrightarrow> traverse x \<noteq> [] \<and> getPred x = Some (last (traverse x))"
proof (induction h arbitrary: m x)
  case 0
  then have "keys x \<noteq> []" by (auto simp: shape_0)
  then show ?case using 0 by (subst getPred.simps) (simp add: shape_0 traverse_leaf [OF 0(1)] last_conv_nth)
next
  case (Suc h)
  from node_child [OF Suc.prems(1) order_refl] obtain ks ks' cs c cs' where x: "x = BTreeNode (ks @ ks') (cs @ c # cs') False"
    "nth_child x (num_keys x) = Some c" "length ks = num_keys x" "length cs' = length ks'" "shape h (MIN_KEYS - 1) c"
    "traverse x = left_of cs ks @ traverse c @ right_of ks' cs'" by metis
  from x(1,3) have "ks' = []" by simp
  moreover have "traverse c \<noteq> []" "getPred c = Some (last (traverse c))" using Suc.IH [OF x(5)] by simp_all
  ultimately show ?case using x(1,2,6) by (subst getPred.simps) simp
qed

lemma getSucc_hd: "shape h m x \<Longrightarrow> 1 \<le> m \<Longrightarrow> traverse x \<noteq> [] \<and> getSucc x = Some (hd (traverse x))"
proof (induction h arbitrary: m x)
  case 0
  then have "keys x \<noteq> []" by (auto simp: shape_0)
  then show ?case using 0 by (subst getSucc.simps) (simp add: shape_0 traverse_leaf [OF 0(1)] hd_conv_nth)
next
  case (Suc h)
  from node_child [OF Suc.prems(1) le0] obtain ks ks' cs c cs' where x: "x = BTreeNode (ks @ ks') (cs @ c # cs') False"
    "nth_child x 0 = Some c" "length ks = 0" "length cs = 0" "shape h (MIN_KEYS - 1) c"
    "traverse x = left_of cs ks @ traverse c @ right_of ks' cs'" by metis
  moreover have "traverse c \<noteq> []" "getSucc c = Some (hd (traverse c))" using Suc.IH [OF x(5)] by simp_all
  ultimately show ?case by (subst getSucc.simps) simp
qed

section \<open>Removal\<close>

definition removes :: "nat \<Rightarrow> nat \<Rightarrow> 'a::linorder \<Rightarrow> 'a BTreeNode \<Rightarrow> 'a BTreeNode option \<Rightarrow> bool" where
  "removes h m k x res \<longleftrightarrow> (\<exists>x'. res = Some x' \<and> traverse x' = del_list k (traverse x) \<and> shape h m x')"

abbreviation node_of :: "('a BTreeNode \<times> bool) option \<Rightarrow> 'a BTreeNode option" where
  "node_of res \<equiv> map_option fst res"

lemma removesE:
  assumes "removes h m k x (node_of res)"
  obtains x' b where "res = Some (x', b)" "traverse x' = del_list k (traverse x)" "shape h m x'"
  using assms by (auto simp: removes_def)

lemma remove_below:
  assumes "ready h m k x i d" "removes h (MIN_KEYS - 1) k d (node_of res)"
  shows "removes (Suc h) m k x (map_option (\<lambda>(d', b). set_child x i d') res)"
proof -
  from assms(1) obtain ks ks' cs cs' where x: "x = BTreeNode (ks @ ks') (cs @ d # cs') False" "length ks = i" "length cs = i"
    "length cs' = length ks'" and sh: "shape (Suc h) m x" and so: "strict_sorted (traverse x)"
    and k: "\<forall>y \<in> set ks. y < k" "\<forall>y \<in> set ks'. k < y" unfolding ready_def by blast
  from assms(2) obtain d' b where d': "res = Some (d', b)" "traverse d' = del_list k (traverse d)" "shape h (MIN_KEYS - 1) d'" by (rule removesE)
  have len: "length cs = length ks" using x by simp
  have tr: "traverse (BTreeNode (ks @ ks') (cs @ e # cs') False) = left_of cs ks @ traverse e @ right_of ks' cs'" for e
    using len x(4) by (intro node_at) simp_all
  note r = child_range [OF so [unfolded x(1) tr] len x(4) k]
  have "traverse (set_child x i d') = del_list k (traverse x)"
    unfolding x(1) set_child_at [OF x(3)] tr using r d'(2) by (subst del_list_mid) auto
  moreover have "shape (Suc h) m (set_child x i d')"
    using sh d'(3) unfolding x(1) set_child_at [OF x(3)] shape_at [OF len x(4)] by blast
  ultimately show ?thesis using d' by (simp add: removes_def)
qed

lemma del_list_distinct: "distinct (xs @ k # ys) \<Longrightarrow> del_list k (xs @ k # ys) = xs @ ys"
  by (simp add: del_list_id) (simp add: del_list_def filter_id_conv, metis)

lemma sorted_distinct: "strict_sorted xs \<Longrightarrow> distinct xs"
  by (simp add: strict_sorted_iff)

lemma del_last: "distinct xs \<Longrightarrow> xs \<noteq> [] \<Longrightarrow> del_list (last xs) xs = butlast xs"
  using del_list_distinct [of "butlast xs" "last xs" "[]"] by simp

lemma del_hd: "distinct xs \<Longrightarrow> xs \<noteq> [] \<Longrightarrow> del_list (hd xs) xs = tl xs"
  using del_list_distinct [of "[]" "hd xs" "tl xs"] by simp

lemma butlast_last_cons: "xs \<noteq> [] \<Longrightarrow> butlast xs @ last xs # ys = xs @ ys"
  by (metis append.assoc append_Cons append_Nil append_butlast_last_id)

text \<open>Removing a key of an inner node, given that removal works one level down.\<close>

lemma removeFromNonLeaf_correct:
  fixes x :: "'a::linorder BTreeNode"
  assumes sh: "shape (Suc h) m x" and m: "1 \<le> m" and so: "strict_sorted (traverse x)" and i: "i < num_keys x"
    and IH: "\<And>k (d :: 'a BTreeNode). shape h MIN_KEYS d \<Longrightarrow> strict_sorted (traverse d) \<Longrightarrow> removes h (MIN_KEYS - 1) k d (node_of (remove_node k d))"
  shows "removes (Suc h) (m - 1) (keys x ! i) x (removeFromNonLeaf i x)"
proof -
  obtain ks k ks' cs a b cs' where x: "x = BTreeNode (ks @ k # ks') (cs @ a # b # cs') False"
    "length ks = i" "length cs = i" "length cs' = length ks'" "k = keys x ! i" "a = children x ! i" "b = children x ! (i + 1)"
    using node_pair [OF sh i] .
  have len: "length cs = length ks" using x by simp
  note sp = shape_pair [OF len x(4)] and tr = pair_traverse [OF len x(4)]
  have s: "shape h (MIN_KEYS - 1) a" "shape h (MIN_KEYS - 1) b" using sh unfolding x(1) sp by auto
  have ch: "nth_child x i = Some a" "nth_child x (i + 1) = Some b"
    using sh i x(6,7) by (simp_all add: nth_child_def shape_Suc)
  have so': "strict_sorted (left_of cs ks @ (traverse a @ k # traverse b) @ right_of ks' cs')" using so unfolding x(1) tr .
  then have sab: "strict_sorted (traverse a)" "strict_sorted (traverse b)" by (simp_all add: sorted_wrt_append)
  have del: "del_list k (traverse x) = left_of cs ks @ (traverse a @ traverse b) @ right_of ks' cs'"
    using del_list_distinct [of "left_of cs ks @ traverse a" k "traverse b @ right_of ks' cs'"] sorted_distinct [OF so']
    unfolding x(1) tr by simp
  note step = removeFromNonLeaf.simps [of i x, unfolded ch option.case Let_def]
  show ?thesis unfolding x(5) [symmetric]
  proof (cases "MIN_KEYS \<le> num_keys a")
    case True
    have p: "traverse a \<noteq> []" "getPred a = Some (last (traverse a))" using getPred_last [OF s(1)] by simp_all
    from IH [OF shape_raise [OF s(1) True] sab(1), of "last (traverse a)"] obtain a' b' where
      a': "remove_node (last (traverse a)) a = Some (a', b')" "traverse a' = butlast (traverse a)" "shape h (MIN_KEYS - 1) a'"
      using del_last [OF sorted_distinct [OF sab(1)] p(1)] by (auto elim: removesE)
    have "removeFromNonLeaf i x = Some (BTreeNode (ks @ last (traverse a) # ks') (cs @ a' # b # cs') False)"
      unfolding step if_P [OF True] p(2) option.case a'(1) using x(2,3) by (simp add: x(1) list_update_append)
    moreover have "shape (Suc h) (m - 1) (BTreeNode (ks @ last (traverse a) # ks') (cs @ a' # b # cs') False)"
      using sh a'(3) unfolding x(1) sp by auto
    moreover have "traverse (BTreeNode (ks @ last (traverse a) # ks') (cs @ a' # b # cs') False) = del_list k (traverse x)"
      unfolding del tr a'(2) by (simp only: append_assoc append_Cons butlast_last_cons [OF p(1)])
    ultimately show "removes (Suc h) (m - 1) k x (removeFromNonLeaf i x)" unfolding removes_def by blast
  next
    case na: False
    show "removes (Suc h) (m - 1) k x (removeFromNonLeaf i x)"
    proof (cases "MIN_KEYS \<le> num_keys b")
      case True
      have p: "traverse b \<noteq> []" "getSucc b = Some (hd (traverse b))" using getSucc_hd [OF s(2)] by simp_all
      from IH [OF shape_raise [OF s(2) True] sab(2), of "hd (traverse b)"] obtain b' c' where
        b': "remove_node (hd (traverse b)) b = Some (b', c')" "traverse b' = tl (traverse b)" "shape h (MIN_KEYS - 1) b'"
        using del_hd [OF sorted_distinct [OF sab(2)] p(1)] by (auto elim: removesE)
      have "removeFromNonLeaf i x = Some (BTreeNode (ks @ hd (traverse b) # ks') (cs @ a # b' # cs') False)"
        unfolding step if_not_P [OF na] if_P [OF True] p(2) option.case b'(1) using x(2,3) by (simp add: x(1) list_update_append)
      moreover have "shape (Suc h) (m - 1) (BTreeNode (ks @ hd (traverse b) # ks') (cs @ a # b' # cs') False)"
        using sh b'(3) unfolding x(1) sp by auto
      moreover have "traverse (BTreeNode (ks @ hd (traverse b) # ks') (cs @ a # b' # cs') False) = del_list k (traverse x)"
        unfolding del tr b'(2) list.collapse [OF p(1)] by (rule refl)
      ultimately show ?thesis unfolding removes_def by blast
    next
      case nb: False
      have ab: "num_keys a < MIN_KEYS" "num_keys b < MIN_KEYS" using na nb by simp_all
      have "\<forall>y \<in> set (ks @ ks'). y \<noteq> k" "strict_sorted (keys x)" using keys_sorted [OF sh so] unfolding x(1) by (auto simp: sorted_wrt_append)
      then have kk: "\<forall>y \<in> set ks. y < k" "\<forall>y \<in> set ks'. k < y" unfolding x(1) by (auto simp: sorted_wrt_append)
      note mr = merge_children_ready [OF x(1-4) sh so kk ab]
      then have rd: "ready h (m - 1) k (merge_children i x) i (merged a k b)" and tx: "traverse (merge_children i x) = traverse x" by simp_all
      have "strict_sorted (traverse (merged a k b))" "shape h MIN_KEYS (merged a k b)"
        using sab so' merged_traverse [OF s, of k] merged_shape [OF s(1) ab(1) s(2) ab(2)] by (simp_all add: sorted_wrt_append)
      then have "removes h (MIN_KEYS - 1) k (merged a k b) (node_of (remove_node k (merged a k b)))" by (intro IH)
      from remove_below [OF rd this] show ?thesis
        unfolding step if_not_P [OF na] if_not_P [OF nb] ready_nth_child [OF rd] option.case x(5) [symmetric] removes_def tx .
    qed
  qed
qed

lemma remove_leaf:
  assumes "shape 0 m x" "strict_sorted (traverse x)"
  shows "removes 0 (m - 1) k x (node_of (remove_node k x))"
proof -
  have x: "is_leaf x" "children x = []" "traverse x = keys x" using assms(1) by (cases x; simp)+
  define i where "i = findKey (keys x) k"
  show ?thesis
  proof (cases "k \<in> set (keys x)")
    case True
    then have i: "i < num_keys x" "keys x ! i = k" using assms(2) x(3) findKey_mem [of "keys x" k] by (simp_all add: i_def)
    then have "remove_node k x = Some (removeFromLeaf i x, True)"
      using x by (subst remove_node.simps) (simp add: Let_def i_def)
    moreover have "take i (keys x) @ k # drop (Suc i) (keys x) = keys x" using i id_take_nth_drop [of i "keys x"] by simp
    then have "del_list k (keys x) = take i (keys x) @ drop (Suc i) (keys x)"
      using del_list_distinct [of "take i (keys x)" k "drop (Suc i) (keys x)"] sorted_distinct [OF assms(2)] x(3) by simp
    ultimately show ?thesis using assms(1) x i(1) by (auto simp: removes_def removeFromLeaf_def shape_0)
  next
    case False
    then have "remove_node k x = Some (x, False)"
      using x assms(2) findKey_mem [of "keys x" k] by (subst remove_node.simps) (auto simp: Let_def)
    then show ?thesis using False x shape_mono [OF assms(1), of "m - 1"] by (simp add: removes_def del_list_id)
  qed
qed

lemma remove_node_correct:
  fixes x :: "'a::linorder BTreeNode"
  assumes "shape h m x" "1 \<le> m" "strict_sorted (traverse x)"
  shows "removes h (m - 1) k x (node_of (remove_node k x))"
  using assms
proof (induction h arbitrary: m k x)
  case 0
  then show ?case by (intro remove_leaf)
next
  case (Suc h)
  have IH: "removes h (MIN_KEYS - 1) k d (node_of (remove_node k d))" if "shape h MIN_KEYS d" "strict_sorted (traverse d)" for k and d :: "'a BTreeNode"
    using that by (intro Suc.IH) simp_all
  define i where "i = findKey (keys x) k"
  have sk: "strict_sorted (keys x)" using Suc.prems(1,3) by (rule keys_sorted)
  have lf: "is_leaf x = False" using Suc.prems(1) by (simp add: shape_leaf_iff)
  show ?case
  proof (cases "k \<in> set (keys x)")
    case True
    then have i: "i < num_keys x" "keys x ! i = k" using findKey_mem [OF sk, of k] by (simp_all add: i_def)
    then have "remove_node k x = map_option (\<lambda>x'. (x', True)) (removeFromNonLeaf i x)"
      using lf by (subst remove_node.simps) (simp add: Let_def i_def)
    moreover have "removes (Suc h) (m - 1) k x (removeFromNonLeaf i x)"
      using removeFromNonLeaf_correct [OF Suc.prems i(1) IH] i(2) by simp
    ultimately show ?thesis by (simp add: option.map_comp comp_def option.map_ident)
  next
    case False
    have pre: "(i < num_keys x \<and> keys x ! i = k) = False"
      using False findKey_mem [OF sk, of k] by (auto simp: i_def)
    have "i \<le> num_keys x" by (simp add: i_def findKey_le)
    from node_child [OF Suc.prems(1) this] obtain ks ks' cs c cs' where x: "x = BTreeNode (ks @ ks') (cs @ c # cs') False"
      "nth_child x i = Some c" "length ks = i" "length cs = i" "length cs' = length ks'" "shape h (MIN_KEYS - 1) c"
      "traverse x = left_of cs ks @ traverse c @ right_of ks' cs'" by metis
    have kk: "\<forall>y \<in> set ks. y < k" "\<forall>y \<in> set ks'. k < y"
      using findKey_split [of ks ks' k] sk False x(1,3) by (auto simp: i_def)
    note step = remove_node.simps [of k x, unfolded Let_def, folded i_def, unfolded pre lf if_False x(2) option.case]
    show ?thesis
    proof (cases "num_keys c < MIN_KEYS")
      case True
      have ci: "children x ! i = c" using x(2) by (simp add: nth_child_def split: if_splits)
      have "\<forall>y \<in> set (take i (keys x)). y < k" "\<forall>y \<in> set (drop i (keys x)). k < y" using kk x(1,3) by simp_all
      from fill_ready [OF Suc.prems \<open>i \<le> num_keys x\<close> this] True ci obtain x' d where f: "fill_child i x = Some x'" "traverse x' = traverse x"
        "ready h (m - 1) k x' (if i = num_keys x \<and> i > num_keys x' then i - 1 else i) d" by blast
      define j where "j = (if i = num_keys x \<and> i > num_keys x' then i - 1 else i)"
      note rd = f(3) [folded j_def]
      have "shape h MIN_KEYS d" "strict_sorted (traverse d)"
        using ready_child [OF rd] by simp_all
      then have "removes h (MIN_KEYS - 1) k d (node_of (remove_node k d))" by (rule IH)
      from remove_below [OF rd this] have "removes (Suc h) (m - 1) k x (map_option (\<lambda>(d', b). set_child x' j d') (remove_node k d))"
        by (simp add: removes_def f(2))
      then show ?thesis
        unfolding step if_P [OF True] f(1) option.case j_def [symmetric] ready_nth_child [OF rd]
        by (simp add: option.map_comp comp_def case_prod_unfold)
    next
      case nf: False
      have "MIN_KEYS \<le> num_keys c" using nf by (simp only: not_less)
      with x(6) have c: "shape h MIN_KEYS c" by (rule shape_raise)
      have "shape (Suc h) (m - 1) x" using Suc.prems(1) by (rule shape_mono) simp
      with x(3,4,5) Suc.prems(3) kk c have "ready h (m - 1) k x i c" unfolding x(1) by (intro readyI)
      moreover have "strict_sorted (traverse c)" using Suc.prems(3) unfolding x(7) by (simp add: sorted_wrt_append)
      then have "removes h (MIN_KEYS - 1) k c (node_of (remove_node k c))" using c by (intro IH)
      ultimately have "removes (Suc h) (m - 1) k x (map_option (\<lambda>(d', b). set_child x i d') (remove_node k c))" by (rule remove_below)
      then show ?thesis
        unfolding step if_not_P [OF nf] by (simp add: option.map_comp comp_def case_prod_unfold)
    qed
  qed
qed

lemma remove_node_answer:
  "remove_node k x = Some (x', b) \<Longrightarrow> shape h m x \<Longrightarrow> strict_sorted (traverse x) \<Longrightarrow> b \<longleftrightarrow> k \<in> set (traverse x) \<or> \<not> is_leaf x"
proof (cases "is_leaf x")
  case True
  assume "remove_node k x = Some (x', b)" "shape h m x" "strict_sorted (traverse x)"
  moreover from this True have "traverse x = keys x" by (cases x) (simp add: shape_leaf_iff)
  ultimately show ?thesis
    using True findKey_mem [of "keys x" k] by (subst (asm) remove_node.simps) (auto simp: Let_def split: if_splits)
next
  case False
  assume "remove_node k x = Some (x', b)"
  with False show ?thesis
    by (subst (asm) remove_node.simps) (auto simp: Let_def split: if_splits option.splits)
qed

lemma sorted_del_list: "strict_sorted xs \<Longrightarrow> strict_sorted (del_list k xs)"
  by (simp add: del_list_def sorted_wrt_filter)

lemma BTree_remove_aux:
  assumes "tree_ok root"
  shows "\<exists>root' b. BTree_remove k root = Some (root', b) \<and> tree_ok root' \<and> tree_keys root' = del_list k (tree_keys root) \<and>
    (b \<longleftrightarrow> k \<in> set (tree_keys root) \<or> (\<exists>r. root = Some r \<and> \<not> is_leaf r))"
proof (cases root)
  case None
  then show ?thesis by (auto simp: BTree_remove_def tree_ok_def tree_keys_def del_list_def)
next
  case (Some r)
  with assms obtain h where r: "shape h 1 r" "strict_sorted (traverse r)" by (auto simp: tree_ok_def)
  from remove_node_correct [OF r(1) order_refl r(2), of k] obtain r' b where
    r': "remove_node k r = Some (r', b)" "traverse r' = del_list k (traverse r)" "shape h 0 r'" by (auto simp: removes_def)
  have so: "strict_sorted (traverse r')" using r(2) by (simp add: r'(2) sorted_del_list)
  have b: "b \<longleftrightarrow> k \<in> set (tree_keys root) \<or> (\<exists>r. root = Some r \<and> \<not> is_leaf r)"
    using remove_node_answer [OF r'(1) r] by (simp add: Some tree_keys_def)
  consider "num_keys r' \<noteq> 0" | "num_keys r' = 0" "is_leaf r'" | "num_keys r' = 0" "\<not> is_leaf r'" by blast
  then show ?thesis
  proof cases
    case 1
    then have "1 \<le> num_keys r'" by (cases "keys r'") auto
    with r'(3) have "shape h 1 r'" by (rule shape_raise)
    then show ?thesis using 1 Some r' so b by (auto simp: BTree_remove_def tree_ok_def tree_keys_def)
  next
    case 2
    then have "traverse r' = []" by (cases r') simp
    then show ?thesis using 2 Some r' b by (auto simp: BTree_remove_def tree_ok_def tree_keys_def)
  next
    case 3
    then obtain h' where h: "h = Suc h'" using r'(3) by (cases h) (simp_all add: shape_0)
    with 3 r'(3) obtain c where c: "r' = BTreeNode [] [c] False" "shape h' (MIN_KEYS - 1) c"
      by (cases r') (auto simp: length_Suc_conv)
    then have "shape h' 1 c" by (intro shape_mono [OF c(2)]) simp
    moreover have "traverse r' = traverse c" by (simp add: c(1))
    ultimately show ?thesis using 3 Some r' so b c(1) by (auto simp: BTree_remove_def tree_ok_def tree_keys_def nth_child_def)
  qed
qed

section \<open>Iteration\<close>

text \<open>What an iterator has still to visit.\<close>

definition rest_from :: "'a BTreeNode \<times> nat \<Rightarrow> 'a list" where
  "rest_from xi = right_of (drop (snd xi) (keys (fst xi))) (drop (Suc (snd xi)) (children (fst xi)))"

definition pending :: "('a BTreeNode \<times> nat) list \<Rightarrow> 'a list" where
  "pending st = concat (map rest_from st)"

definition inner_ok :: "'a BTreeNode \<times> nat \<Rightarrow> bool" where
  "inner_ok xi \<longleftrightarrow> (\<exists>h m. shape (Suc h) m (fst xi)) \<and> snd xi < num_keys (fst xi)"

text \<open>
  The states of an iterator that is not done: on a leaf, or on an inner node whose entry on the stack already points past the current key;
  the nodes below on the stack are inner nodes with keys left.
\<close>

definition it_ok :: "'a NodeIterator \<Rightarrow> bool" where
  "it_ok it \<longleftrightarrow> (\<exists>x i st. it_stack it = (x, i) # st \<and> cur_node it = x \<and> cur_idx it < num_keys x \<and> (\<forall>e \<in> set st. inner_ok e) \<and>
     (if is_leaf x then (\<exists>m. shape 0 m x) else i = Suc (cur_idx it) \<and> (\<exists>h m. shape (Suc h) m x)))"

definition remaining :: "'a NodeIterator \<Rightarrow> 'a list" where
  "remaining it =
    (case it_stack it of
       [] \<Rightarrow> []
     | (x, i) # st \<Rightarrow> (if is_leaf x then drop (cur_idx it) (keys x) else rest_from (x, cur_idx it)) @ pending st)"

lemma pending_Cons [simp]: "pending (e # st) = rest_from e @ pending st" "pending [] = []"
  by (simp_all add: pending_def)

lemma push_left_spec:
  assumes "shape h m x" "1 \<le> m" "\<forall>e \<in> set st. inner_ok e"
  shows "\<exists>l st'. push_left x st = (l, 0) # st' \<and> shape 0 1 l \<and> (\<forall>e \<in> set st'. inner_ok e) \<and> traverse x @ pending st = keys l @ pending st'"
  using assms
proof (induction h arbitrary: m x st)
  case 0
  then have "shape 0 1 x" by (intro shape_mono [OF 0(1)])
  then show ?case using 0 by (cases x) auto
next
  case (Suc h)
  then obtain ks c cs where x: "x = BTreeNode ks (c # cs) False" "length cs = length ks" "shape h (MIN_KEYS - 1) c" "m \<le> length ks"
    by (cases x) (auto simp: length_Suc_conv)
  have "inner_ok (x, 0)" using Suc.prems(1,2) x(1,4) unfolding inner_ok_def by auto
  with Suc.prems(3) have "\<forall>e \<in> set ((x, 0) # st). inner_ok e" by simp
  moreover have "traverse x = traverse c @ rest_from (x, 0)"
    using node_at [of False "[]" "[]" cs ks c] x(1,2) by (simp add: rest_from_def)
  ultimately show ?case using Suc.IH [OF x(3), of "(x, 0) # st"] x(1) by simp
qed

lemma rest_from_step:
  assumes "shape (Suc h) m x" "i < num_keys x"
  shows "rest_from (x, i) = keys x ! i # traverse (children x ! Suc i) @ rest_from (x, Suc i)"
    "nth_child x (Suc i) = Some (children x ! Suc i)" "shape h (MIN_KEYS - 1) (children x ! Suc i)"
proof -
  have len: "length (children x) = Suc (num_keys x)" using assms(1) by (simp add: shape_Suc)
  then have "drop (Suc i) (children x) = children x ! Suc i # drop (Suc (Suc i)) (children x)"
    using assms(2) by (intro Cons_nth_drop_Suc [symmetric]) simp
  moreover have "drop i (keys x) = keys x ! i # drop (Suc i) (keys x)" using assms(2) by (intro Cons_nth_drop_Suc [symmetric])
  ultimately show "rest_from (x, i) = keys x ! i # traverse (children x ! Suc i) @ rest_from (x, Suc i)" by (simp add: rest_from_def)
  show "nth_child x (Suc i) = Some (children x ! Suc i)" "shape h (MIN_KEYS - 1) (children x ! Suc i)"
    using assms len by (simp_all add: nth_child_def shape_Suc)
qed

lemma last_idx_eq: "shape h m x \<Longrightarrow> 0 < num_keys x \<Longrightarrow> last_idx x = num_keys x - 1"
  using shape_max [of h m x] by (cases "keys x") (simp_all add: last_idx_def)

text \<open>One step visits the next key, and the iterator stays well formed until nothing is left.\<close>

lemma it_next_leaf:
  assumes it: "it_stack it = (x, i) # st" "cur_node it = x" "cur_idx it < num_keys x" "\<forall>e \<in> set st. inner_ok e" and x: "is_leaf x" "shape 0 m x"
  shows "\<exists>it'. it_next it = Some it' \<and> remaining it = it_deref it # remaining it' \<and> (if remaining it' = [] then it_done it' else it_ok it')"
proof -
  have ne: "0 < num_keys x" using it(3) by linarith
  have dr: "drop (cur_idx it) (keys x) = keys x ! cur_idx it # drop (Suc (cur_idx it)) (keys x)"
    using it(3) by (intro Cons_nth_drop_Suc [symmetric])
  have r: "remaining it = it_deref it # drop (Suc (cur_idx it)) (keys x) @ pending st"
    using it x by (simp add: remaining_def it_deref_def dr)
  show ?thesis
  proof (cases "Suc (cur_idx it) < num_keys x")
    case True
    then have "cur_idx it < last_idx (cur_node it)" using it(2) last_idx_eq [OF x(2) ne] by simp
    then have "it_next it = Some (it\<lparr>cur_idx := cur_idx it + 1\<rparr>)" using it(2) x(1) by (simp add: it_next_def)
    moreover have "remaining (it\<lparr>cur_idx := cur_idx it + 1\<rparr>) = drop (Suc (cur_idx it)) (keys x) @ pending st"
      using it x by (simp add: remaining_def)
    moreover have "it_ok (it\<lparr>cur_idx := cur_idx it + 1\<rparr>)" using it x True by (auto simp: it_ok_def)
    ultimately show ?thesis using r True by (auto simp: remaining_def)
  next
    case False
    then have d: "drop (Suc (cur_idx it)) (keys x) = []" and l: "\<not> cur_idx it < last_idx x" using last_idx_eq [OF x(2) ne] by auto
    show ?thesis
    proof (cases st)
      case Nil
      then show ?thesis using it x r d l by (simp add: it_next_def remaining_def it_done_def)
    next
      case (Cons e st')
      obtain y j where e: "e = (y, j)" by (cases e)
      from it(4) Cons e obtain h m' where y: "shape (Suc h) m' y" "j < num_keys y" by (auto simp: inner_ok_def)
      then have ly: "\<not> is_leaf y" by (simp add: shape_leaf_iff)
      define it' where "it' = \<lparr>it_stack = (y, j + 1) # st', cur_node = y, cur_idx = j\<rparr>"
      have "it_next it = Some it'" using it x l Cons e by (simp add: it_next_def it'_def)
      moreover have "remaining it' = pending st" using ly Cons e by (simp add: it'_def remaining_def)
      moreover have "it_ok it'" using y ly it(4) Cons by (auto simp: it_ok_def it'_def)
      moreover have "pending st \<noteq> []" using Cons e rest_from_step(1) [OF y] by simp
      ultimately show ?thesis using r d by auto
    qed
  qed
qed

lemma it_next_inner:
  assumes it: "it_stack it = (x, Suc (cur_idx it)) # st" "cur_node it = x" "cur_idx it < num_keys x" "\<forall>e \<in> set st. inner_ok e"
    and x: "\<not> is_leaf x" "shape (Suc h) m x"
  shows "\<exists>it'. it_next it = Some it' \<and> remaining it = it_deref it # remaining it' \<and> (if remaining it' = [] then it_done it' else it_ok it')"
proof -
  define c where "c = children x ! Suc (cur_idx it)"
  note rs = rest_from_step [OF x(2) it(3), folded c_def]
  have ne: "0 < num_keys x" using it(3) by linarith
  define st1 where "st1 = (if cur_idx it = last_idx x then st else (x, Suc (cur_idx it)) # st)"
  have ok: "\<forall>e \<in> set st1. inner_ok e"
    using it(3,4) x(2) last_idx_eq [OF x(2) ne] unfolding st1_def inner_ok_def by auto
  have pe: "rest_from (x, Suc (cur_idx it)) @ pending st = pending st1"
    using last_idx_eq [OF x(2) ne] ne by (auto simp: st1_def rest_from_def)
  from push_left_spec [OF rs(3) _ ok] obtain l st2 where p: "push_left c st1 = (l, 0) # st2" "shape 0 1 l" "\<forall>e \<in> set st2. inner_ok e"
    "traverse c @ pending st1 = keys l @ pending st2" by auto
  define it' where "it' = \<lparr>it_stack = (l, 0) # st2, cur_node = l, cur_idx = 0\<rparr>"
  have "it_next it = Some it'"
  proof -
    have "(if cur_idx it = last_idx (cur_node it) then tl (it_stack it) else it_stack it) = st1" using it(1,2) by (simp add: st1_def)
    then show ?thesis using it(2) x(1) rs(2) p(1) by (simp add: it_next_def Let_def it'_def)
  qed
  moreover have lf: "is_leaf l" "0 < num_keys l" using p(2) by (simp_all add: shape_0 Suc_le_eq)
  then have "remaining it' = keys l @ pending st2" by (simp add: it'_def remaining_def)
  moreover have "remaining it = it_deref it # traverse c @ pending st1"
    using it x(1) rs(1) pe by (simp add: remaining_def it_deref_def)
  moreover have "it_ok it'" using p lf by (auto simp: it_ok_def it'_def)
  ultimately show ?thesis using p(4) lf by auto
qed

lemma it_next_correct:
  assumes "it_ok it"
  shows "\<exists>it'. it_next it = Some it' \<and> remaining it = it_deref it # remaining it' \<and> (if remaining it' = [] then it_done it' else it_ok it')"
proof -
  from assms obtain x i st where it: "it_stack it = (x, i) # st" "cur_node it = x" "cur_idx it < num_keys x" "\<forall>e \<in> set st. inner_ok e"
    and x: "if is_leaf x then (\<exists>m. shape 0 m x) else i = Suc (cur_idx it) \<and> (\<exists>h m. shape (Suc h) m x)" unfolding it_ok_def by blast
  show ?thesis
  proof (cases "is_leaf x")
    case True
    with x obtain m where "shape 0 m x" by auto
    with True show ?thesis by (rule it_next_leaf [OF it])
  next
    case False
    with x obtain h m where "i = Suc (cur_idx it)" "shape (Suc h) m x" by auto
    with it False show ?thesis by (intro it_next_inner) simp_all
  qed
qed

lemma iterate_correct:
  "it_ok it \<Longrightarrow> length (remaining it) \<le> n \<Longrightarrow> \<exists>e. iterate n it = Some (remaining it, e) \<and> it_done e"
proof (induction n arbitrary: it)
  case 0
  then show ?case using it_next_correct [of it] by auto
next
  case (Suc n)
  from it_next_correct [OF Suc.prems(1)] obtain it' where it': "it_next it = Some it'" "remaining it = it_deref it # remaining it'"
    "if remaining it' = [] then it_done it' else it_ok it'" by blast
  have nd: "\<not> it_done it" using Suc.prems(1) by (auto simp: it_ok_def it_done_def)
  have "\<exists>e. iterate n it' = Some (remaining it', e) \<and> it_done e"
  proof (cases "remaining it' = []")
    case True
    with it'(3) show ?thesis by (cases n) simp_all
  next
    case False
    with it'(3) Suc.IH [of it'] Suc.prems(2) it'(2) show ?thesis by simp
  qed
  then show ?case using nd it' by auto
qed

lemma new_iterator_correct:
  assumes "shape h 1 r"
  shows "\<exists>e. iterate (length (traverse r)) (new_NodeIterator r) = Some (traverse r, e) \<and> it_done e"
proof -
  from push_left_spec [OF assms order_refl, of "[]"] obtain l st where p: "push_left r [] = (l, 0) # st" "shape 0 1 l" "\<forall>e \<in> set st. inner_ok e"
    "traverse r = keys l @ pending st" by auto
  have l: "is_leaf l" "0 < num_keys l" using p(2) by (simp_all add: shape_0 Suc_le_eq)
  have "it_ok (new_NodeIterator r)" using p l by (auto simp: new_NodeIterator_def it_ok_def Let_def)
  moreover have "remaining (new_NodeIterator r) = traverse r" using p l by (simp add: new_NodeIterator_def remaining_def Let_def)
  ultimately show ?thesis using iterate_correct [of "new_NodeIterator r" "length (traverse r)"] by simp
qed

section \<open>The interface of a sorted container\<close>

text \<open>
  What Terrace uses the tree for: a container of keys with an order, into which absent keys are inserted, from which keys are removed and in
  which keys are looked up.  Insertion is guarded by a lookup here.
\<close>

text \<open>A run of commands: \<open>(True, k)\<close> inserts \<open>k\<close> unless it is there, \<open>(False, k)\<close> removes it.\<close>

fun run_commands :: "('t \<Rightarrow> 'a \<Rightarrow> bool) \<Rightarrow> ('a \<Rightarrow> 't \<Rightarrow> ('t \<times> bool) option) \<Rightarrow> ('a \<Rightarrow> 't \<Rightarrow> ('t \<times> bool) option) \<Rightarrow>
    (bool \<times> 'a) list \<Rightarrow> 't \<Rightarrow> 't option" where
  "run_commands mem ins del [] t = Some t"
| "run_commands mem ins del ((True, k) # cs) t =
    (if mem t k then run_commands mem ins del cs t else Option.bind (ins k t) (\<lambda>r. run_commands mem ins del cs (fst r)))"
| "run_commands mem ins del ((False, k) # cs) t = Option.bind (del k t) (\<lambda>r. run_commands mem ins del cs (fst r))"

definition effect_of :: "(bool \<times> 'a) list \<Rightarrow> 'a set \<Rightarrow> 'a set" where
  "effect_of cs S = fold (\<lambda>(i, k) S. if i then insert k S else S - {k}) cs S"

locale sorted_container =
  fixes ok :: "'t \<Rightarrow> bool"
    and elems :: "'t \<Rightarrow> 'a::linorder list"
    and ins :: "'a \<Rightarrow> 't \<Rightarrow> ('t \<times> bool) option"
    and del :: "'a \<Rightarrow> 't \<Rightarrow> ('t \<times> bool) option"
    and mem :: "'t \<Rightarrow> 'a \<Rightarrow> bool"
    and empty :: 't
  assumes ok_empty: "ok empty" "elems empty = []"
    and ok_sorted: "ok t \<Longrightarrow> strict_sorted (elems t)"
    and ins_ok: "ok t \<Longrightarrow> k \<notin> set (elems t) \<Longrightarrow> \<exists>t'. ins k t = Some (t', True) \<and> ok t' \<and> elems t' = ins_list k (elems t)"
    and del_ok: "ok t \<Longrightarrow> \<exists>t' b. del k t = Some (t', b) \<and> ok t' \<and> elems t' = del_list k (elems t)"
    and mem_ok: "ok t \<Longrightarrow> mem t k \<longleftrightarrow> k \<in> set (elems t)"
begin

lemma run_commands_ok: "ok t \<Longrightarrow> \<exists>t'. run_commands mem ins del cs t = Some t' \<and> ok t' \<and> set (elems t') = effect_of cs (set (elems t))"
proof (induction cs arbitrary: t)
  case (Cons c cs)
  obtain i k where c: "c = (i, k)" by (cases c)
  show ?case
  proof (cases i)
    case False
    from del_ok [OF Cons.prems, of k] obtain t' b where t': "del k t = Some (t', b)" "ok t'" "elems t' = del_list k (elems t)" by blast
    moreover have "set (del_list k (elems t)) = set (elems t) - {k}" by (auto simp: del_list_def)
    ultimately show ?thesis using Cons.IH [OF t'(2)] False c by (simp add: effect_of_def)
  next
    case i: True
    show ?thesis
    proof (cases "mem t k")
      case True
      then have "insert k (set (elems t)) = set (elems t)" using mem_ok [OF Cons.prems] by auto
      with True i c Cons show ?thesis by (simp add: effect_of_def)
    next
      case False
      then have "k \<notin> set (elems t)" using mem_ok [OF Cons.prems] by simp
      from ins_ok [OF Cons.prems this] obtain t' where t': "ins k t = Some (t', True)" "ok t'" "elems t' = ins_list k (elems t)" by blast
      from Cons.IH [OF t'(2)] show ?thesis using False i c t' by (simp add: effect_of_def set_ins_list)
    qed
  qed
qed (simp add: effect_of_def)

lemma run_commands_sorted:
  "\<exists>t. run_commands mem ins del cs empty = Some t \<and> ok t \<and> elems t = sorted_list_of_set (effect_of cs {}) \<and> (\<forall>k. mem t k \<longleftrightarrow> k \<in> effect_of cs {})"
proof -
  from run_commands_ok [OF ok_empty(1), of cs] obtain t where
    t: "run_commands mem ins del cs empty = Some t" "ok t" "set (elems t) = effect_of cs {}" by (auto simp: ok_empty(2))
  have "elems t = sorted_list_of_set (set (elems t))"
    using ok_sorted [OF t(2)] by (metis strict_sorted_iff sorted_list_of_set.idem_if_sorted_distinct)
  then show ?thesis using t mem_ok [OF t(2)] by simp
qed

end

lemma BTree_find_aux: "tree_ok root \<Longrightarrow>
    if k \<in> set (tree_keys root) then \<exists>y. BTree_find root k = Found y \<and> k \<in> set (keys y) else BTree_find root k = Not_found"
  using find_node_correct by (cases root) (fastforce simp: BTree_find_def tree_ok_def tree_keys_def)+

definition BTree_mem :: "'a::linorder BTreeNode option \<Rightarrow> 'a \<Rightarrow> bool" where
  "BTree_mem root k = (case BTree_find root k of Found _ \<Rightarrow> True | _ \<Rightarrow> False)"

lemma middle_key_present: "tree_ok (Some r) \<Longrightarrow> num_keys r = MAX_KEYS \<Longrightarrow> keys r ! 63 \<in> set (tree_keys (Some r))"
  using keys_traverse by (fastforce simp: tree_ok_def tree_keys_def)

interpretation terrace_tree: sorted_container tree_ok tree_keys BTree_insert BTree_remove BTree_mem None
proof
  fix t :: "'a BTreeNode option" and k
  assume ok: "tree_ok t"
  show "strict_sorted (tree_keys t)" using ok by (cases t) (simp_all add: tree_ok_def tree_keys_def)
  show "\<exists>t' b. BTree_remove k t = Some (t', b) \<and> tree_ok t' \<and> tree_keys t' = del_list k (tree_keys t)" using BTree_remove_aux [OF ok] by blast
  show "BTree_mem t k \<longleftrightarrow> k \<in> set (tree_keys t)" using BTree_find_aux [OF ok, of k] by (auto simp: BTree_mem_def split: if_splits)
  assume "k \<notin> set (tree_keys t)"
  then have "inserts_root k t (BTree_insert k t)" using middle_key_present ok by (intro BTree_insert_aux) auto
  then show "\<exists>t'. BTree_insert k t = Some (t', True) \<and> tree_ok t' \<and> tree_keys t' = ins_list k (tree_keys t)"
    using \<open>k \<notin> set (tree_keys t)\<close> by (auto simp: inserts_root_def)
qed (simp_all add: tree_ok_def tree_keys_def)

section \<open>Properties\<close>

text \<open>A root that is full, and a small one.\<close>

definition sample_full :: "nat BTreeNode" where
  "sample_full = BTreeNode [0..<127] [] True"

definition sample_leaf :: "nat BTreeNode" where
  "sample_leaf = BTreeNode [2, 3, 5] [] True"

lemma sample_full_ok: "tree_ok (Some sample_full)"
  by (auto simp: tree_ok_def sample_full_def intro!: exI [of _ 0])

lemma sample_leaf_ok: "tree_ok (Some sample_leaf)"
  by (auto simp: tree_ok_def sample_leaf_def intro!: exI [of _ 0])

text \<open>
  C2.  Every sequence of guarded insertions and removals, from the empty tree, succeeds; the tree stays a B-tree within its key bounds, a traversal
  lists exactly the keys the sequence leaves, in order, and lookup finds exactly those.
\<close>

theorem btree_commands_correct:
  "\<exists>t. run_commands BTree_mem BTree_insert BTree_remove cs None = Some t \<and> tree_ok t \<and>
    tree_keys t = sorted_list_of_set (effect_of cs {}) \<and> (\<forall>k. BTree_mem t k = (k \<in> effect_of cs {}))"
  by (rule terrace_tree.run_commands_sorted)

text \<open>
  C7.  \<^verbatim>\<open>BTree::insert\<close> keeps the invariant, inserts the key at its place in the order and reports whether it was new, unless the root is full and its middle
  key is the key to insert.
\<close>

theorem btree_insert_correct:
  assumes "tree_ok root" "\<And>r. root = Some r \<Longrightarrow> num_keys r = MAX_KEYS \<Longrightarrow> keys r ! (MIN_KEYS - 1) \<noteq> k"
  shows "\<exists>root' b. BTree_insert k root = Some (root', b) \<and> tree_ok root' \<and> tree_keys root' = ins_list k (tree_keys root) \<and>
    (b \<longleftrightarrow> k \<notin> set (tree_keys root))"
  using BTree_insert_aux [OF assms(1), of k] assms(2) by (auto simp: inserts_root_def)

theorem btree_insert_correct_witness:
  "\<exists>root' b. BTree_insert 200 (Some sample_full) = Some (root', b) \<and> tree_ok root' \<and> tree_keys root' = [0..<127] @ [200] \<and> b"
proof -
  have "ins_list 200 [0..<127] = [0..<127] @ [200 :: nat]"
    unfolding ins_list_def by (simp add: takeWhile_eq_all_conv [THEN iffD2] dropWhile_eq_Nil_conv [THEN iffD2])
  then show ?thesis
    using btree_insert_correct [OF sample_full_ok, of 200] by (auto simp: sample_full_def tree_keys_def)
qed

text \<open>
  C29.  In the excepted case the key, although it is in the tree, is inserted a second time and the answer is that it was new.
\<close>

theorem btree_insert_duplicates:
  assumes "tree_ok (Some r)" "num_keys r = MAX_KEYS" "keys r ! (MIN_KEYS - 1) = k"
  shows "\<exists>root'. BTree_insert k (Some r) = Some (root', True) \<and> k \<in> set (tree_keys (Some r)) \<and> \<not> distinct (tree_keys root')"
  using BTree_insert_duplicates_aux [OF assms(1), of k] assms(2,3) by simp

theorem btree_insert_duplicates_witness:
  "\<exists>root'. BTree_insert 63 (Some sample_full) = Some (root', True) \<and> \<not> distinct (tree_keys root')"
  using btree_insert_duplicates [OF sample_full_ok, of 63] by (auto simp: sample_full_def)

text \<open>
  C6.  \<^verbatim>\<open>BTree::remove\<close> never follows a missing pointer, keeps the invariant through borrowing and merging, and removes exactly the key; its answer is true
  for every key, present or not, once the root is an inner node.
\<close>

theorem btree_remove_correct:
  assumes "tree_ok root"
  shows "\<exists>root' b. BTree_remove k root = Some (root', b) \<and> tree_ok root' \<and> tree_keys root' = filter (\<lambda>y. y \<noteq> k) (tree_keys root) \<and>
    (b \<longleftrightarrow> k \<in> set (tree_keys root) \<or> (\<exists>r. root = Some r \<and> \<not> is_leaf r))"
  using BTree_remove_aux [OF assms, of k] by (simp add: del_list_def)

theorem btree_remove_correct_witness:
  "\<exists>root' b. BTree_remove 3 (Some sample_leaf) = Some (root', b) \<and> tree_ok root' \<and> tree_keys root' = [2, 5] \<and> b"
  using btree_remove_correct [OF sample_leaf_ok, of 3] by (auto simp: sample_leaf_def tree_keys_def)

text \<open>
  C28.  The loop over \<^verbatim>\<open>NodeIterator\<close> ends after as many rounds as the tree has keys, having visited them in the order of the traversal.
\<close>

theorem btree_iterator_correct:
  assumes "tree_ok (Some r)"
  shows "\<exists>e. iterate (length (traverse r)) (new_NodeIterator r) = Some (traverse r, e) \<and> it_done e"
  using assms new_iterator_correct by (auto simp: tree_ok_def)

theorem btree_iterator_correct_witness:
  "\<exists>e. iterate 3 (new_NodeIterator sample_leaf) = Some ([2, 3, 5], e) \<and> it_done e"
proof -
  have "traverse sample_leaf = [2, 3, 5]" by (simp add: sample_leaf_def)
  then show ?thesis using btree_iterator_correct [OF sample_leaf_ok] by (simp add: numeral_3_eq_3 del: iterate.simps)
qed

end
