(* ===== verification/Sketch_Util.thy ===== *)
theory Sketch_Util
  imports Prelude
begin

unbundle bit_operations_syntax

text \<open>
  The utilities of the AGM sketch, \<^verbatim>\<open>sketch_expr/agm_sketching/src/util.cpp\<close> and \<^verbatim>\<open>update.cpp\<close>: the pairing functions that
  number the possible edges of a graph, their inverse and their overflow exceptions, and the update record.  \<^verbatim>\<open>ull\<close> is
  \<^verbatim>\<open>uint64_t\<close>; the 128-bit intermediate values of the inverse never wrap, so they are natural numbers, and the square
  root of a 128-bit integer is the integer square root.
\<close>

section \<open>Definitions\<close>

record Update =
  index :: u64
  delta :: u64

text \<open>\<^verbatim>\<open>delta\<close> is a \<^verbatim>\<open>long\<close>: a 64-bit word read as a signed number.\<close>

definition eq_Update :: "Update \<Rightarrow> Update \<Rightarrow> bool" where
  "eq_Update upd1 upd2 = (index upd1 = index upd2 \<and> delta upd1 = delta upd2)"

datatype util_error = Overflow_error | Division_by_zero

definition ULLMAX :: u64 where
  "ULLMAX = - 1"

definition nondirectional_non_self_edge_pairing_fn :: "u64 \<Rightarrow> u64 \<Rightarrow> util_error + u64" where
  "nondirectional_non_self_edge_pairing_fn i0 j0 =
    (let (i, j) = (if i0 > j0 then (j0, i0) else (i0, j0));
         jm = j - 1;
         (j, jm) = (if j AND 1 = 0 then (drop_bit 1 j, jm) else (j, drop_bit 1 jm))
     in if j = 0 then Inl Division_by_zero
        else if ULLMAX div j < jm then Inl Overflow_error
        else let j = j * jm in
          if ULLMAX - j < i then Inl Overflow_error
          else Inr (i + j))"

definition inv_nondir_non_self_edge_pairing_fn :: "u64 \<Rightarrow> u64 \<times> u64" where
  "inv_nondir_non_self_edge_pairing_fn idx =
    (let eidx = 8 * unat idx + 1;
         eidx = isqrt eidx + 1;
         eidx = eidx div 2;
         j = of_nat eidx;
         i = (if j AND 1 = 0 then idx - drop_bit 1 j * (j - 1) else idx - j * drop_bit 1 (j - 1))
     in (i, j))"

definition cantor_pairing_fn :: "u64 \<Rightarrow> u64 \<Rightarrow> util_error + u64" where
  "cantor_pairing_fn i j =
    (if ULLMAX - i < j then Inl Overflow_error
     else if j < ULLMAX \<and> ULLMAX - i < j + 1 then Inl Overflow_error
     else let am = i + j; bm = i + j + 1;
              (am, bm) = (if am AND 1 = 0 then (drop_bit 1 am, bm) else (am, drop_bit 1 bm))
       in if am = 0 then Inl Division_by_zero
          else if ULLMAX div am < bm then Inl Overflow_error
          else let am = am * bm in
            if ULLMAX - am < j then Inl Overflow_error
            else Inr (am + j))"

section \<open>Words as numbers\<close>

lemma unat_u64_less: "unat (x :: u64) < 2 ^ 64"
  using unsigned_less [of x] by simp

lemma unat_ULLMAX: "unat ULLMAX = 2 ^ 64 - 1"
  by (simp add: ULLMAX_def unsigned_minus_1_eq_mask mask_eq_exp_minus_1)

lemma even_word_iff: "x AND 1 = 0 \<longleftrightarrow> even (unat x)" for x :: u64
proof -
  have "bit (unat x) 0 \<longleftrightarrow> bit x 0" by (simp only: bit_unsigned_iff) simp
  then have "even x \<longleftrightarrow> even (unat x)" by (simp add: bit_0)
  then show ?thesis by (simp add: and_one_eq mod2_eq_if)
qed

lemma unat_shr1: "unat (drop_bit (Suc 0) x) = unat x div 2" for x :: u64
  by (simp add: drop_bit_eq_div unat_div)

text \<open>The guard \<^verbatim>\<open>ULLMAX / a < b\<close> holds exactly when the product leaves 64 bits, and likewise for the sum.\<close>

lemma mult_guard:
  assumes "a \<noteq> (0 :: u64)"
  shows "ULLMAX div a < b \<longleftrightarrow> 2 ^ 64 \<le> unat a * unat b"
proof -
  have pos: "0 < unat a" using assms by (simp add: unat_gt_0)
  have "ULLMAX div a < b \<longleftrightarrow> (2 ^ 64 - 1) div unat a < unat b"
    by (simp only: word_less_nat_alt unat_div unat_ULLMAX)
  also have "\<dots> \<longleftrightarrow> 2 ^ 64 - 1 < unat b * unat a"
    by (rule div_less_iff_less_mult [OF pos])
  finally show ?thesis by (simp add: mult.commute) linarith
qed

lemma add_guard: "ULLMAX - a < b \<longleftrightarrow> 2 ^ 64 \<le> unat a + unat b"
proof -
  have le: "a \<le> ULLMAX" by (simp add: ULLMAX_def)
  have "ULLMAX - a < b \<longleftrightarrow> 2 ^ 64 - 1 - unat a < unat b"
    by (simp only: word_less_nat_alt unat_sub [OF le] unat_ULLMAX)
  then show ?thesis using unat_u64_less [of a] unat_u64_less [of b] by linarith
qed

lemma unat_mult_fits: "unat a * unat b < 2 ^ 64 \<Longrightarrow> unat (a * b) = unat a * unat b" for a b :: u64
  by (simp add: unat_word_ariths(2) take_bit_nat_eq_self)

lemma unat_add_fits: "unat a + unat b < 2 ^ 64 \<Longrightarrow> unat (a + b) = unat a + unat b" for a b :: u64
  by (simp add: unat_word_ariths(1) take_bit_nat_eq_self)

lemma word_eq_of_nat: "unat x = n \<Longrightarrow> x = of_nat n" for x :: u64
  by auto

text \<open>Both pairing functions end with the same guarded product and sum.\<close>

lemma guarded_sum:
  assumes "a \<noteq> 0" and v: "unat a * unat b + unat i = v"
  shows "(if ULLMAX div a < b then Inl Overflow_error else if ULLMAX - a * b < i then Inl Overflow_error else Inr (a * b + i)) =
    (if v < 2 ^ 64 then Inr (of_nat v) else Inl Overflow_error)"
proof (cases "unat a * unat b < 2 ^ 64")
  case True
  then have m: "unat (a * b) = unat a * unat b" by (rule unat_mult_fits)
  show ?thesis
  proof (cases "v < 2 ^ 64")
    case False
    then show ?thesis using True m v by (simp add: mult_guard assms(1) add_guard)
  next
    case fits: True
    then have "unat (a * b + i) = v" using m v by (simp add: unat_add_fits)
    then have "a * b + i = of_nat v" by (rule word_eq_of_nat)
    then show ?thesis using True m v fits by (simp add: mult_guard assms(1) add_guard)
  qed
next
  case False
  then show ?thesis using v by (simp add: mult_guard assms(1))
qed

lemma unat_pred: "0 < x \<Longrightarrow> unat (x - 1) = unat x - 1" for x :: u64
  by (simp add: unat_minus_one word_gt_0)

lemma triangle_even: "even n \<Longrightarrow> n * m div 2 = n div 2 * m" for n m :: nat
  by (elim evenE) simp

lemma triangle_odd: "odd n \<Longrightarrow> n * (n - 1) div 2 = n * ((n - 1) div 2)" for n :: nat
  by (elim oddE) simp


section \<open>The pairing function and its inverse\<close>

text \<open>The value of the pairing function on the numbers themselves.\<close>

definition edge_number :: "nat \<Rightarrow> nat \<Rightarrow> nat" where
  "edge_number lo hi = lo + hi * (hi - 1) div 2"

lemma pairing_sorted:
  assumes "i \<le> j" "0 < j"
  shows "nondirectional_non_self_edge_pairing_fn i j =
    (if edge_number (unat i) (unat j) < 2 ^ 64 then Inr (of_nat (edge_number (unat i) (unat j))) else Inl Overflow_error)"
proof -
  define j' jm where "j' = (if j AND 1 = 0 then drop_bit 1 j else j)" and "jm = (if j AND 1 = 0 then j - 1 else drop_bit 1 (j - 1))"
  have pos: "0 < unat j" using assms by (simp add: word_less_nat_alt)
  have prod: "unat j' * unat jm = unat j * (unat j - 1) div 2"
    using triangle_even [of "unat j" "unat j - 1"] triangle_odd [of "unat j"]
    by (simp add: j'_def jm_def even_word_iff unat_shr1 unat_pred assms)
  have nz: "j' \<noteq> 0"
  proof
    assume "j' = 0"
    then have "unat j' = 0" by simp
    with pos show False by (auto simp: j'_def even_word_iff unat_shr1 split: if_splits)
  qed
  have fn: "nondirectional_non_self_edge_pairing_fn i j =
      (if ULLMAX div j' < jm then Inl Overflow_error
       else if ULLMAX - j' * jm < i then Inl Overflow_error else Inr (i + j' * jm))"
    using nz assms(1) unfolding j'_def jm_def
    by (cases "j AND 1 = 0") (simp_all add: nondirectional_non_self_edge_pairing_fn_def leD)
  show ?thesis
    unfolding fn add.commute [of i] by (rule guarded_sum [OF nz]) (simp add: prod edge_number_def)
qed

lemma pairing_swap: "nondirectional_non_self_edge_pairing_fn i j = nondirectional_non_self_edge_pairing_fn j i"
proof (cases "i = j")
  case False
  then have "(if i > j then (j, i) else (i, j)) = (if j > i then (i, j) else (j, i))" by auto
  then show ?thesis by (simp only: nondirectional_non_self_edge_pairing_fn_def)
qed simp

lemma inv_pairing:
  assumes lt: "lo < hi" and hi: "edge_number lo hi < 2 ^ 64"
  shows "inv_nondir_non_self_edge_pairing_fn (of_nat (edge_number lo hi)) = (of_nat lo, of_nat hi)"
proof -
  define v where "v = edge_number lo hi"
  obtain h where h: "hi = Suc h" using lt by (cases hi) auto
  have "even (hi * (hi - 1))" by (simp add: h)
  then have tri: "2 * (hi * (hi - 1) div 2) = hi * (hi - 1)" by (rule dvd_mult_div_cancel)
  have "2 * v = 2 * lo + hi * (hi - 1)" by (simp only: v_def edge_number_def distrib_left tri)
  then have v8: "8 * v + 1 = (2 * h + 1) * (2 * h + 1) + 8 * lo" by (simp add: h algebra_simps)
  define s where "s = isqrt (8 * v + 1)"
  have s: "s * s \<le> 8 * v + 1" "8 * v + 1 < (s + 1) * (s + 1)" using isqrt_spec [of "8 * v + 1"] by (auto simp: s_def)
  have "8 * v + 1 < (2 * h + 3) * (2 * h + 3)" unfolding v8 using lt by (simp add: h algebra_simps)
  with s(1) have "s * s < (2 * h + 3) * (2 * h + 3)" by simp
  then have up: "s < 2 * h + 3" by (meson mult_le_mono not_le)
  from s(2) v8 have "(2 * h + 1) * (2 * h + 1) < (s + 1) * (s + 1)" by simp
  then have "2 * h + 1 < s + 1" by (meson mult_le_mono not_le)
  with up have sq: "(isqrt (8 * v + 1) + 1) div 2 = hi" unfolding s_def [symmetric] h by simp
  have uv: "unat (of_nat v :: u64) = v" using hi by (simp add: unat_of_nat take_bit_nat_eq_self v_def)
  have half: "hi * (hi - 1) div 2 < 2 ^ 64" and low: "lo = v - hi * (hi - 1) div 2" using hi by (simp_all add: v_def edge_number_def)
  have hi33: "hi \<le> 2 ^ 33"
  proof (rule ccontr)
    assume "\<not> hi \<le> 2 ^ 33"
    then have "2 ^ 33 * 2 ^ 33 \<le> hi * (hi - 1)" by (intro mult_le_mono) auto
    with half tri show False by simp
  qed
  define j :: u64 where "j = of_nat hi"
  have uj: "unat j = hi" using hi33 by (simp add: j_def unat_of_nat take_bit_nat_eq_self)
  have j0: "0 < j" using lt uj by (simp add: word_less_nat_alt)
  define q where "q = (if j AND 1 = 0 then drop_bit 1 j * (j - 1) else j * drop_bit 1 (j - 1))"
  have uq: "unat q = hi * (hi - 1) div 2"
    using half triangle_even [of hi "hi - 1"] triangle_odd [of hi]
    by (auto simp: q_def even_word_iff unat_mult_fits unat_shr1 unat_pred j0 uj)
  have "unat (of_nat v - q) = lo"
    using low uv uq by (subst unat_sub) (simp_all only: word_le_nat_alt, simp_all add: v_def edge_number_def)
  then have i: "of_nat v - q = of_nat lo" by (rule word_eq_of_nat)
  have "inv_nondir_non_self_edge_pairing_fn (of_nat v) = (of_nat v - q, j)"
    unfolding inv_nondir_non_self_edge_pairing_fn_def Let_def uv sq j_def [symmetric] q_def by simp
  with i show ?thesis by (simp add: j_def v_def)
qed

section \<open>Cantor's pairing function\<close>

definition cantor_number :: "nat \<Rightarrow> nat \<Rightarrow> nat" where
  "cantor_number i j = (i + j) * (i + j + 1) div 2 + j"

lemma cantor_small:
  assumes nz: "i \<noteq> 0 \<or> j \<noteq> 0" and s: "unat i + unat j + 1 < 2 ^ 64"
  shows "cantor_pairing_fn i j =
    (if cantor_number (unat i) (unat j) < 2 ^ 64 then Inr (of_nat (cantor_number (unat i) (unat j))) else Inl Overflow_error)"
proof -
  define n where "n = unat i + unat j"
  define am bm where "am = (if (i + j) AND 1 = 0 then drop_bit 1 (i + j) else i + j)"
    and "bm = (if (i + j) AND 1 = 0 then i + j + 1 else drop_bit 1 (i + j + 1))"
  have un: "unat (i + j) = n" using s by (simp add: unat_add_fits n_def)
  have un1: "unat (i + j + 1) = n + 1" using s un by (subst unat_add_fits) (simp_all add: n_def)
  have uj1: "unat (j + 1) = unat j + 1" using s by (subst unat_add_fits) simp_all
  have n0: "0 < n" using nz by (auto simp: n_def unat_gt_0)
  have prod: "unat am * unat bm = n * (n + 1) div 2"
    using triangle_even [of n "n + 1"] triangle_odd [of "n + 1"] triangle_even [of "n + 1" n]
    by (simp add: am_def bm_def even_word_iff unat_shr1 un un1 mult.commute)
  have am0: "am \<noteq> 0"
  proof
    assume "am = 0"
    then have "unat am = 0" by simp
    with n0 show False by (auto simp: am_def even_word_iff unat_shr1 un split: if_splits)
  qed
  have g: "\<not> ULLMAX - i < j" "\<not> ULLMAX - i < j + 1" using s by (simp_all add: add_guard uj1)
  have fn: "cantor_pairing_fn i j =
      (if ULLMAX div am < bm then Inl Overflow_error
       else if ULLMAX - am * bm < j then Inl Overflow_error else Inr (am * bm + j))"
    using g am0 unfolding am_def bm_def by (cases "(i + j) AND 1 = 0") (simp_all add: cantor_pairing_fn_def Let_def)
  show ?thesis
    unfolding fn by (rule guarded_sum [OF am0]) (simp add: prod cantor_number_def n_def)
qed

lemma cantor_origin: "cantor_pairing_fn 0 0 = Inl Division_by_zero"
  by (simp add: cantor_pairing_fn_def ULLMAX_def)

lemma cantor_last_column: "cantor_pairing_fn 0 ULLMAX = Inr ULLMAX" "2 ^ 64 \<le> cantor_number 0 (unat ULLMAX)"
  by (simp_all add: cantor_pairing_fn_def ULLMAX_def cantor_number_def unsigned_minus_1_eq_mask mask_eq_exp_minus_1)

section \<open>Properties\<close>

text \<open>
  C32.  For every pair with a nonzero member, in either order, the pairing function returns \<open>lo + hi * (hi - 1) / 2\<close> when
  that number fits 64 bits, and throws the overflow error exactly when it does not.
\<close>

theorem pairing_correct:
  assumes "i \<noteq> 0 \<or> j \<noteq> 0"
  shows "nondirectional_non_self_edge_pairing_fn i j =
    (let v = edge_number (unat (min i j)) (unat (max i j))
     in if v < 2 ^ 64 then Inr (of_nat v) else Inl Overflow_error)"
proof (cases "i \<le> j")
  case True
  with assms have "0 < j" by (auto simp: word_gt_0)
  with True show ?thesis by (simp add: pairing_sorted Let_def min_def max_def)
next
  case False
  then have "j \<le> i" "0 < i" by (auto simp: word_gt_0)
  with False show ?thesis by (simp add: pairing_swap [of i] pairing_sorted Let_def min_def max_def)
qed

theorem pairing_correct_witness:
  "nondirectional_non_self_edge_pairing_fn 7 3 = Inr 24 \<and>
   nondirectional_non_self_edge_pairing_fn 1 (2 ^ 33) = Inl Overflow_error"
  using pairing_correct [of 7 3] pairing_correct [of 1 "2 ^ 33"] by (simp add: Let_def edge_number_def min_def max_def)

text \<open>
  C31.  The inverse recovers the two ends of an edge, smaller end first, from every number the pairing function returns
  for a pair of different vertices.
\<close>

theorem pairing_roundtrip:
  assumes "nondirectional_non_self_edge_pairing_fn i j = Inr idx" "i \<noteq> j"
  shows "inv_nondir_non_self_edge_pairing_fn idx = (min i j, max i j)"
proof -
  define lo hi where "lo = min i j" and "hi = max i j"
  have lt: "lo < hi" using assms(2) by (auto simp: lo_def hi_def min_def max_def)
  then have "0 < hi" by (metis word_coorder.extremum_strict word_gt_0)
  have "nondirectional_non_self_edge_pairing_fn lo hi = Inr idx"
    using assms(1) by (auto simp: lo_def hi_def min_def max_def pairing_swap [of j])
  then have v: "edge_number (unat lo) (unat hi) < 2 ^ 64" "idx = of_nat (edge_number (unat lo) (unat hi))"
    using pairing_sorted [of lo hi] lt \<open>0 < hi\<close> by (auto split: if_splits)
  from lt have "unat lo < unat hi" by (simp add: word_less_nat_alt)
  from inv_pairing [OF this v(1)] show ?thesis by (simp add: v(2) lo_def hi_def)
qed

theorem pairing_roundtrip_witness: "inv_nondir_non_self_edge_pairing_fn 24 = (3, 7)"
proof -
  have "nondirectional_non_self_edge_pairing_fn 7 3 = Inr 24"
    by (simp add: nondirectional_non_self_edge_pairing_fn_def ULLMAX_def)
  from pairing_roundtrip [OF this] show ?thesis by (simp add: min_def max_def)
qed

text \<open>
  Cantor's pairing function is exact or throws, for every pair but two: at \<open>(0, 0)\<close> it divides by zero, and at
  \<open>(0, ULLMAX)\<close> it misses the overflow.
\<close>

theorem cantor_pairing_correct:
  assumes "(i, j) \<noteq> (0, 0)" "(i, j) \<noteq> (0, ULLMAX)"
  shows "cantor_pairing_fn i j =
    (let v = cantor_number (unat i) (unat j)
     in if v < 2 ^ 64 then Inr (of_nat v) else Inl Overflow_error)"
proof (cases "unat i + unat j + 1 < 2 ^ 64")
  case True
  with assms(1) show ?thesis by (simp add: cantor_small Let_def)
next
  case False
  define n where "n = unat i + unat j"
  have big: "2 ^ 64 \<le> n * (n + 1) div 2"
  proof -
    have "(2 ^ 64 - 1) * 2 ^ 64 \<le> n * (n + 1)" using False by (intro mult_le_mono) (simp_all add: n_def)
    then show ?thesis by simp
  qed
  then have v: "\<not> cantor_number (unat i) (unat j) < 2 ^ 64" by (simp add: cantor_number_def n_def)
  have "cantor_pairing_fn i j = Inl Overflow_error"
  proof (cases "ULLMAX - i < j")
    case True
    then show ?thesis by (simp add: cantor_pairing_fn_def)
  next
    case nof: False
    then have eq: "unat i + unat j = 2 ^ 64 - 1" using False by (simp add: add_guard)
    have "j \<noteq> ULLMAX"
    proof
      assume "j = ULLMAX"
      with eq have "i = 0" by (simp add: unat_ULLMAX unat_eq_0)
      with assms(2) \<open>j = ULLMAX\<close> show False by simp
    qed
    then have "j < ULLMAX" by (simp add: ULLMAX_def order_less_le)
    then have "unat j + 1 < 2 ^ 64" by (simp add: word_less_nat_alt unat_ULLMAX)
    then have "ULLMAX - i < j + 1" using eq unat_add_fits [of j 1] by (simp add: add_guard)
    with \<open>j < ULLMAX\<close> show ?thesis by (simp add: cantor_pairing_fn_def)
  qed
  with v show ?thesis by (simp add: Let_def)
qed

theorem cantor_pairing_correct_witness: "cantor_pairing_fn 2 3 = Inr 18 \<and> cantor_pairing_fn 1 ULLMAX = Inl Overflow_error"
proof -
  have "cantor_pairing_fn 2 3 = Inr 18" using cantor_pairing_correct [of 2 3] by (simp add: Let_def cantor_number_def)
  moreover have "cantor_pairing_fn 1 ULLMAX = Inl Overflow_error"
    using cantor_pairing_correct [of 1 ULLMAX] by (simp add: Let_def cantor_number_def unat_ULLMAX)
  ultimately show ?thesis ..
qed

end
