(* ===== verification/Prime_Generator.thy ===== *)
theory Prime_Generator
  imports Prelude
begin

unbundle bit_operations_syntax

text \<open>
  \<^verbatim>\<open>sketch_expr/agm_sketching/include/prime_generator.h\<close>: modular powers by repeated squaring, the same with a table of squares, the
  primality test and the search for the next prime.  The types are those of the 128-bit build (\<^verbatim>\<open>types.h\<close> without
  \<^verbatim>\<open>USE_NATIVE_F\<close>): \<^verbatim>\<open>ubucket_t\<close> is a 128-bit word, and a product of two of them, taken in the 256-bit \<^verbatim>\<open>ubucket_prod_t\<close>, is exact,
  so it is a natural number.  The moduli in use are at least 2.
\<close>

section \<open>Definitions\<close>

type_synonym ubucket_t = u128

text \<open>\<^verbatim>\<open>static_cast<ubucket_t>(static_cast<ubucket_prod_t>(x) * y % m)\<close>.\<close>

definition mulmod :: "ubucket_t \<Rightarrow> ubucket_t \<Rightarrow> ubucket_t \<Rightarrow> ubucket_t" where
  "mulmod x y m = of_nat (unat x * unat y mod unat m)"

function powermod_loop :: "ubucket_t \<Rightarrow> ubucket_t \<Rightarrow> ubucket_t \<Rightarrow> ubucket_t \<Rightarrow> ubucket_t" where
  "powermod_loop res a b m =
    (if b = 0 then res
     else powermod_loop (if b AND 1 \<noteq> 0 then mulmod res a m else res) (mulmod a a m) (drop_bit 1 b) m)"
  by pat_completeness auto

lemma unat_halve: "unat (drop_bit (Suc 0) b) = unat b div 2" for b :: ubucket_t
  by (simp add: drop_bit_eq_div unat_div)

lemma halve_less: "b \<noteq> 0 \<Longrightarrow> unat (drop_bit (Suc 0) b) < unat b" for b :: ubucket_t
  by (simp add: unat_halve unat_gt_0)

termination powermod_loop
  by (relation "measure (\<lambda>(res, a, b, m). unat b)") (simp_all add: halve_less)

declare powermod_loop.simps [simp del]

definition powermod :: "ubucket_t \<Rightarrow> ubucket_t \<Rightarrow> ubucket_t \<Rightarrow> ubucket_t" where
  "powermod a b m = powermod_loop 1 a b m"

text \<open>
  The table of squares; \<open>log2n\<close> is the value of \<^verbatim>\<open>unsigned log2n = log2(n)\<close>, computed in floating point by the mathematical library.
\<close>

fun sq_cache_tail :: "nat \<Rightarrow> ubucket_t \<Rightarrow> ubucket_t \<Rightarrow> ubucket_t list" where
  "sq_cache_tail 0 a m = []"
| "sq_cache_tail (Suc k) a m = mulmod a a m # sq_cache_tail k (mulmod a a m) m"

definition gen_sq_cache :: "(ubucket_t \<Rightarrow> nat) \<Rightarrow> ubucket_t \<Rightarrow> ubucket_t \<Rightarrow> ubucket_t \<Rightarrow> ubucket_t list" where
  "gen_sq_cache log2 a n m = (let log2n = log2 n in a # sq_cache_tail log2n a m)"

text \<open>\<^verbatim>\<open>cached_powermod\<close> walks the table; \<open>None\<close> is a read past its end.\<close>

function cached_powermod_loop :: "ubucket_t list \<Rightarrow> nat \<Rightarrow> ubucket_t \<Rightarrow> ubucket_t \<Rightarrow> ubucket_t \<Rightarrow> ubucket_t option" where
  "cached_powermod_loop sq_cache i res b m =
    (if b = 0 then Some res
     else if b AND 1 \<noteq> 0 then
       (if i < length sq_cache then cached_powermod_loop sq_cache (i + 1) (mulmod res (sq_cache ! i) m) (drop_bit 1 b) m else None)
     else cached_powermod_loop sq_cache (i + 1) res (drop_bit 1 b) m)"
  by pat_completeness auto

termination cached_powermod_loop
  by (relation "measure (\<lambda>(sq_cache, i, res, b, m). unat b)") (simp_all add: halve_less)

declare cached_powermod_loop.simps [simp del]

definition cached_powermod :: "ubucket_t list \<Rightarrow> ubucket_t \<Rightarrow> ubucket_t \<Rightarrow> ubucket_t option" where
  "cached_powermod sq_cache b m = cached_powermod_loop sq_cache 0 1 b m"

text \<open>The loop that is meant to split \<open>n - 1\<close> into an odd factor and a power of two; its condition is \<^verbatim>\<open>d % 2 != 0\<close>.\<close>

function split_loop :: "ubucket_t \<Rightarrow> nat \<Rightarrow> ubucket_t \<times> nat" where
  "split_loop d m = (if d mod 2 \<noteq> 0 then split_loop (drop_bit 1 d) (m + 1) else (d, m))"
  by pat_completeness auto

termination split_loop
proof (relation "measure (\<lambda>(d, m). unat d)")
  fix d :: ubucket_t and m :: nat
  assume "d mod 2 \<noteq> 0"
  then have "d \<noteq> 0" by auto
  then show "((drop_bit 1 d, m + 1), (d, m)) \<in> measure (\<lambda>(d, m). unat d)" by (simp add: halve_less)
qed simp

declare split_loop.simps [simp del]

fun approve_loop :: "nat \<Rightarrow> ubucket_t \<Rightarrow> ubucket_t \<Rightarrow> ubucket_t \<Rightarrow> bool" where
  "approve_loop 0 temp d n = False"
| "approve_loop (Suc k) temp d n =
    (let temp = temp * temp;
         result = powermod temp d n
     in if result = 1 \<or> result = n - 1 then True else approve_loop k temp d n)"

definition witnesses :: "ubucket_t list" where
  "witnesses = [2, 3, 5, 7, 11, 13, 17, 19, 23, 29, 31, 37]"

fun witness_loop :: "ubucket_t list \<Rightarrow> nat \<Rightarrow> ubucket_t \<Rightarrow> ubucket_t \<Rightarrow> bool" where
  "witness_loop [] m d n = True"
| "witness_loop (witness # ws) m d n =
    (if witness \<ge> n then True
     else let result = powermod witness d n
       in if result = 1 \<or> result = n - 1 then witness_loop ws m d n
          else if approve_loop (m - 1) witness d n then witness_loop ws m d n
          else False)"

definition IsPrime :: "ubucket_t \<Rightarrow> bool" where
  "IsPrime n =
    (if n = 2 then True
     else if n < 2 \<or> n mod 2 = 0 then False
     else let (d, m) = split_loop (n - 1) 0 in witness_loop witnesses m d n)"

text \<open>The search may in principle never stop: \<open>None\<close>.\<close>

partial_function (option) generate_prime_loop :: "ubucket_t \<Rightarrow> ubucket_t option" where
  [code]: "generate_prime_loop n = (if \<not> IsPrime n then generate_prime_loop (n + 2) else Some n)"

definition generate_prime :: "ubucket_t \<Rightarrow> ubucket_t option" where
  "generate_prime n = generate_prime_loop (if n mod 2 = 0 then n + 1 else n)"

section \<open>Modular powers\<close>

lemma unat_u128_less: "unat (x :: ubucket_t) < 2 ^ 128"
  using unsigned_less [of x] by simp

lemma unat_mulmod: "0 < m \<Longrightarrow> unat (mulmod x y m) = unat x * unat y mod unat m"
proof -
  assume "0 < m"
  then have "0 < unat m" by (simp add: word_less_nat_alt)
  then have "unat x * unat y mod unat m < unat m" by (rule mod_less_divisor)
  also have "\<dots> < 2 ^ 128" by (rule unat_u128_less)
  finally have "unat x * unat y mod unat m < 2 ^ 128" .
  then show ?thesis by (simp add: mulmod_def unat_of_nat take_bit_nat_eq_self)
qed

lemma even_ubucket_iff: "even b \<longleftrightarrow> even (unat b)" for b :: ubucket_t
proof -
  have "bit (unat b) 0 \<longleftrightarrow> bit b 0" by (simp only: bit_unsigned_iff) simp
  then show ?thesis by (simp add: bit_0)
qed

lemma odd_ubucket_iff: "b AND 1 \<noteq> 0 \<longleftrightarrow> odd (unat b)" for b :: ubucket_t
  by (simp add: and_one_eq mod2_eq_if even_ubucket_iff)

lemma power_halve: "a ^ n = (if odd n then a else 1) * (a * a) ^ (n div 2)" for a :: nat
proof -
  have "a ^ n = a ^ (2 * (n div 2) + n mod 2)" by simp
  also have "\<dots> = (a * a) ^ (n div 2) * a ^ (n mod 2)" by (simp only: power_add power_mult power2_eq_square)
  finally show ?thesis by (simp add: mod2_eq_if)
qed

lemma mod_mult_power: "x mod m * (y mod m) ^ k mod m = x * y ^ k mod m" for x y m :: nat
proof -
  have "x mod m * (y mod m) ^ k mod m = x * (y mod m) ^ k mod m" by (rule mod_mult_left_eq)
  also have "\<dots> = x * ((y mod m) ^ k mod m) mod m" by (rule mod_mult_right_eq [symmetric])
  also have "\<dots> = x * y ^ k mod m" by (simp only: power_mod mod_mult_right_eq)
  finally show ?thesis .
qed

lemma powermod_loop_spec:
  assumes "0 < m" "unat res < unat m"
  shows "unat (powermod_loop res a b m) = unat res * unat a ^ unat b mod unat m"
  using assms
proof (induction res a b m rule: powermod_loop.induct)
  case (1 res a b m)
  define res' where "res' = (if b AND 1 \<noteq> 0 then mulmod res a m else res)"
  have m0: "0 < unat m" using "1.prems"(1) by (simp add: unat_gt_0 word_gt_0)
  have r': "unat res' = unat res * (if odd (unat b) then unat a else 1) mod unat m"
    using "1.prems" by (auto simp: res'_def odd_ubucket_iff unat_mulmod)
  show ?case
  proof (cases "b = 0")
    case True
    with "1.prems" show ?thesis by (simp add: powermod_loop.simps)
  next
    case False
    have "unat (powermod_loop res a b m) = unat (powermod_loop res' (mulmod a a m) (drop_bit 1 b) m)"
      using False by (subst powermod_loop.simps) (simp add: res'_def)
    also have "\<dots> = unat res' * unat (mulmod a a m) ^ unat (drop_bit 1 b) mod unat m"
      using "1.IH" [OF False] "1.prems"(1) m0 unfolding res'_def [symmetric] by (simp add: r')
    also have "\<dots> = unat res * (if odd (unat b) then unat a else 1) * (unat a * unat a) ^ (unat b div 2) mod unat m"
      using "1.prems"(1) by (simp only: r' unat_mulmod One_nat_def unat_halve mod_mult_power)
    also have "\<dots> = unat res * unat a ^ unat b mod unat m"
      using power_halve [of "unat a" "unat b"] by (simp add: mult.assoc)
    finally show ?thesis .
  qed
qed

lemma unat_powermod:
  assumes "1 < m"
  shows "unat (powermod a b m) = unat a ^ unat b mod unat m"
proof -
  have "1 < unat m" using assms by (simp add: word_less_nat_alt)
  moreover from this have "0 < m" by (simp add: word_less_nat_alt)
  ultimately show ?thesis using powermod_loop_spec [of m 1 a b] by (simp add: powermod_def)
qed

text \<open>The table of squares replays the squarings of \<^verbatim>\<open>powermod\<close>.\<close>

primrec squarings :: "ubucket_t \<Rightarrow> nat \<Rightarrow> ubucket_t \<Rightarrow> ubucket_t" where
  "squarings m 0 a = a"
| "squarings m (Suc i) a = squarings m i (mulmod a a m)"

lemma squarings_last: "squarings m (Suc i) a = mulmod (squarings m i a) (squarings m i a) m"
  by (induction i arbitrary: a) auto

lemma sq_cache_tail_nth: "i < k \<Longrightarrow> sq_cache_tail k a m ! i = squarings m (Suc i) a"
proof (induction k arbitrary: a i)
  case (Suc k)
  then show ?case by (cases i) auto
qed simp

lemma length_sq_cache_tail [simp]: "length (sq_cache_tail k a m) = k"
  by (induction k arbitrary: a) auto

lemma gen_sq_cache_nth: "i \<le> log2 n \<Longrightarrow> gen_sq_cache log2 a n m ! i = squarings m i a"
  by (cases i) (auto simp: gen_sq_cache_def Let_def sq_cache_tail_nth)

lemma cached_powermod_loop_eq:
  assumes "unat b * 2 ^ i < 2 ^ Suc (log2 n)"
  shows "cached_powermod_loop (gen_sq_cache log2 a n m) i res b m = Some (powermod_loop res (squarings m i a) b m)"
  using assms
proof (induction "unat b" arbitrary: i res b rule: less_induct)
  case less
  show ?case
  proof (cases "b = 0")
    case True
    then show ?thesis by (simp add: cached_powermod_loop.simps powermod_loop.simps)
  next
    case False
    then have b1: "1 \<le> unat b" by (simp add: unat_gt_0 Suc_le_eq)
    have "2 ^ i < (2 :: nat) ^ Suc (log2 n)" using less.prems mult_le_mono1 [OF b1, of "2 ^ i"] by linarith
    then have "i < Suc (log2 n)" by (rule power_less_imp_less_exp [rotated]) simp
    then have i: "i \<le> log2 n" by simp
    have "unat (drop_bit 1 b) * 2 ^ Suc i \<le> unat b * 2 ^ i" by (simp add: unat_halve)
    then have lt: "unat (drop_bit 1 b) * 2 ^ Suc i < 2 ^ Suc (log2 n)" using less.prems by linarith
    have len: "i < length (gen_sq_cache log2 a n m)" using i by (simp add: gen_sq_cache_def Let_def)
    have "unat (drop_bit 1 b) < unat b" using halve_less [OF False] by simp
    from less.hyps [OF this lt] show ?thesis
      using False len gen_sq_cache_nth [of i log2 n a m, OF i]
      by (subst cached_powermod_loop.simps, subst powermod_loop.simps) (simp add: squarings_last del: squarings.simps)
  qed
qed

lemma cached_powermod_eq:
  assumes "unat b < 2 ^ Suc (log2 n)"
  shows "cached_powermod (gen_sq_cache log2 a n m) b m = Some (powermod a b m)"
  using cached_powermod_loop_eq [of b 0 log2 n a m 1] assms by (simp add: cached_powermod_def powermod_def)

section \<open>The primality test\<close>

definition prime_number :: "nat \<Rightarrow> bool" where
  "prime_number p \<longleftrightarrow> 1 < p \<and> (\<forall>d < p. 1 < d \<longrightarrow> \<not> d dvd p)"

lemma prime_number_coprime:
  assumes "prime_number p" "\<not> p dvd k"
  shows "coprime p k"
proof (rule coprimeI)
  fix c assume c: "c dvd p" "c dvd k"
  from assms(1) have p: "1 < p" by (simp add: prime_number_def)
  then have "0 < p" by simp
  with c(1) have "c \<le> p" by (rule dvd_imp_le)
  moreover have "c \<noteq> p" using c(2) assms(2) by auto
  ultimately have "c < p" by simp
  with assms(1) c(1) have "\<not> 1 < c" by (auto simp: prime_number_def)
  moreover have "c \<noteq> 0" using c(1) \<open>0 < p\<close> by (metis dvd_0_left_iff less_numeral_extra(3))
  ultimately have "c = 1" by simp
  then show "c dvd 1" by simp
qed

lemma prime_dvd_choose:
  assumes "prime_number p" "0 < k" "k < p"
  shows "p dvd (p choose k)"
proof -
  have "coprime p k" using assms by (intro prime_number_coprime) (auto dest: dvd_imp_le)
  moreover have "p dvd k * (p choose k)" using times_binomial_minus1_eq [OF assms(2), of p] by simp
  ultimately show ?thesis by (simp add: coprime_dvd_mult_right_iff)
qed

lemma power_Suc_mod_prime:
  assumes "prime_number p"
  shows "(a + 1) ^ p mod p = (a ^ p + 1) mod p"
proof -
  have p: "1 < p" using assms by (simp add: prime_number_def)
  define f where "f k = (p choose k) * a ^ k" for k
  have "(a + 1) ^ p = (\<Sum>k\<le>p. f k)" using binomial [of a 1 p] by (simp add: f_def)
  also have "{..p} = insert 0 (insert p {1..<p})" using p by auto
  also have "(\<Sum>k\<in>insert 0 (insert p {1..<p}). f k) = (\<Sum>k\<in>{1..<p}. f k) + (a ^ p + 1)" using p by (simp add: f_def)
  finally have eq: "(a + 1) ^ p = (\<Sum>k\<in>{1..<p}. f k) + (a ^ p + 1)" .
  have "p dvd (\<Sum>k\<in>{1..<p}. f k)" unfolding f_def by (intro dvd_sum dvd_mult2 prime_dvd_choose assms) auto
  then obtain q where "(\<Sum>k\<in>{1..<p}. f k) = p * q" ..
  then show ?thesis unfolding eq by simp
qed

lemma power_mod_prime: "prime_number p \<Longrightarrow> a ^ p mod p = a mod p"
proof (induction a)
  case (Suc a)
  have "Suc a ^ p mod p = (a ^ p + 1) mod p" using power_Suc_mod_prime [OF Suc.prems, of a] by simp
  also have "\<dots> = (a mod p + 1) mod p" using Suc by (metis mod_add_left_eq)
  finally show ?case by (simp add: mod_Suc_eq)
qed (auto simp: prime_number_def zero_power)

text \<open>Fermat's little theorem.\<close>

lemma fermat_little:
  assumes "prime_number p" "0 < a" "a < p"
  shows "a ^ (p - 1) mod p = 1"
proof -
  have p: "1 < p" using assms(1) by (simp add: prime_number_def)
  have "\<not> p dvd a" using assms by (auto dest: dvd_imp_le)
  have "a ^ p = a * a ^ (p - 1)" using p by (cases p) auto
  then have "(a * a ^ (p - 1)) mod p = a mod p" using power_mod_prime [OF assms(1), of a] by simp
  moreover have pos: "a \<le> a * a ^ (p - 1)" using assms(2) by simp
  ultimately have "p dvd a * a ^ (p - 1) - a" by (metis mod_eq_dvd_iff_nat)
  also have "a * a ^ (p - 1) - a = a * (a ^ (p - 1) - 1)" by (simp add: diff_mult_distrib2)
  finally have "p dvd a ^ (p - 1) - 1"
    using prime_number_coprime [OF assms(1) \<open>\<not> p dvd a\<close>] by (simp add: coprime_dvd_mult_right_iff)
  moreover have "1 \<le> a ^ (p - 1)" using assms(2) by simp
  ultimately have "a ^ (p - 1) mod p = 1 mod p" by (metis mod_eq_dvd_iff_nat)
  then show ?thesis using p by simp
qed

text \<open>The splitting loop stops at once, because \<open>n - 1\<close> is even: what remains is Fermat's test for twelve bases.\<close>

definition fermat_passes :: "nat \<Rightarrow> nat \<Rightarrow> bool" where
  "fermat_passes n w \<longleftrightarrow> w ^ (n - 1) mod n = 1 \<or> w ^ (n - 1) mod n = n - 1"

lemma split_loop_even: "even d \<Longrightarrow> split_loop d m = (d, m)"
  by (subst split_loop.simps) (simp add: even_iff_mod_2_eq_zero)

lemma powermod_fermat:
  assumes "1 < n"
  shows "(powermod w (n - 1) n = 1 \<or> powermod w (n - 1) n = n - 1) \<longleftrightarrow> fermat_passes (unat n) (unat w)"
proof -
  have "unat (n - 1) = unat n - 1" using assms by (intro unat_minus_one) auto
  then show ?thesis using assms by (simp add: fermat_passes_def word_unat_eq_iff unat_powermod)
qed

lemma witness_loop_fermat:
  assumes "1 < n"
  shows "witness_loop ws 0 (n - 1) n \<longleftrightarrow> (\<forall>w \<in> set (takeWhile (\<lambda>w. w < n) ws). fermat_passes (unat n) (unat w))"
proof (induction ws)
  case (Cons w ws)
  show ?case
  proof (cases "w < n")
    case True
    then show ?thesis
      using powermod_fermat [OF assms, of w] Cons.IH by (auto simp: Let_def)
  next
    case False
    then show ?thesis by (simp add: leI)
  qed
qed simp

lemma IsPrime_odd:
  assumes "2 < n" "odd n"
  shows "IsPrime n \<longleftrightarrow> (\<forall>w \<in> set (takeWhile (\<lambda>w. w < n) witnesses). fermat_passes (unat n) (unat w))"
proof -
  have n1: "1 < n" using assms(1) by (simp add: word_less_nat_alt)
  have n2: "n mod 2 \<noteq> 0" "n \<noteq> 2" "\<not> n < 2" using assms by (auto simp: even_iff_mod_2_eq_zero)
  have "even (n - 1)" using assms(2) by simp
  then show ?thesis by (simp add: IsPrime_def n2 split_loop_even witness_loop_fermat n1)
qed

lemma IsPrime_of_prime:
  assumes "prime_number (unat p)"
  shows "IsPrime p"
proof (cases "p = 2")
  case False
  have p: "1 < unat p" using assms by (simp add: prime_number_def)
  with False have gt: "2 < p" by (auto simp: word_less_nat_alt word_unat_eq_iff)
  have "odd (unat p)" using assms gt by (auto simp: prime_number_def word_less_nat_alt)
  then have odd: "odd p" by (simp add: even_ubucket_iff)
  have "fermat_passes (unat p) (unat w)" if "w \<in> set (takeWhile (\<lambda>w. w < p) witnesses)" for w
  proof -
    have "w < p" "w \<in> set witnesses" using that set_takeWhileD [of w] by auto
    then have "0 < unat w" "unat w < unat p" by (auto simp: word_less_nat_alt witnesses_def)
    then show ?thesis using fermat_little [OF assms] by (simp add: fermat_passes_def)
  qed
  then show ?thesis by (simp add: IsPrime_odd gt odd)
qed (simp add: IsPrime_def)

section \<open>The search for a prime\<close>

lemma generate_prime_loop_finds:
  assumes "IsPrime (n + 2 * of_nat k)"
  shows "\<exists>j \<le> k. generate_prime_loop n = Some (n + 2 * of_nat j) \<and> IsPrime (n + 2 * of_nat j) \<and>
    (\<forall>i < j. \<not> IsPrime (n + 2 * of_nat i))"
  using assms
proof (induction k arbitrary: n)
  case 0
  then show ?case by (subst generate_prime_loop.simps) simp
next
  case (Suc k)
  show ?case
  proof (cases "IsPrime n")
    case True
    then show ?thesis by (intro exI [of _ 0]) (simp add: generate_prime_loop.simps)
  next
    case False
    have "IsPrime (n + 2 + 2 * of_nat k)" using Suc.prems by (simp add: algebra_simps)
    from Suc.IH [OF this] obtain j where j: "j \<le> k" "generate_prime_loop (n + 2) = Some (n + 2 + 2 * of_nat j)"
      "IsPrime (n + 2 + 2 * of_nat j)" "\<forall>i < j. \<not> IsPrime (n + 2 + 2 * of_nat i)" by blast
    have "\<not> IsPrime (n + 2 * of_nat i)" if "i < Suc j" for i
      using that False j(4) by (cases i) (auto simp: algebra_simps)
    then show ?thesis
      using j False by (intro exI [of _ "Suc j"]) (subst generate_prime_loop.simps, simp add: algebra_simps)
  qed
qed

lemma generate_prime_finds:
  assumes p: "IsPrime p" "odd p" and n: "n \<le> p"
  shows "\<exists>q. generate_prime n = Some q \<and> IsPrime q \<and> n \<le> q \<and> q \<le> p \<and> (\<forall>r. n \<le> r \<and> r < q \<and> odd r \<longrightarrow> \<not> IsPrime r)"
proof -
  define s where "s = (if even n then n + 1 else n)"
  have ns: "unat n \<le> unat s" "unat s \<le> unat p" "odd s" "unat s \<le> unat n + 1"
  proof -
    have le: "unat n \<le> unat p" using n by (simp add: word_le_nat_alt)
    have "unat (n + 1) = unat n + 1" if "even n"
    proof -
      from that p(2) have "unat n \<noteq> unat p" by (auto simp: even_ubucket_iff)
      with le unat_u128_less [of p] show ?thesis by (simp add: unat_word_ariths(1) take_bit_nat_eq_self)
    qed
    moreover from this p(2) le have "even n \<Longrightarrow> unat n + 1 \<le> unat p" by (auto simp: even_ubucket_iff Suc_le_eq order_less_le)
    ultimately show "unat n \<le> unat s" "unat s \<le> unat p" "odd s" "unat s \<le> unat n + 1" using le by (auto simp: s_def)
  qed
  have step: "unat (s + 2 * of_nat i) = unat s + 2 * i" if "unat s + 2 * i \<le> unat p" for i
  proof -
    have "s + 2 * of_nat i = of_nat (unat s + 2 * i)" by simp
    moreover have "unat s + 2 * i < 2 ^ 128" using that unat_u128_less [of p] by linarith
    ultimately show ?thesis by (simp only: unat_of_nat take_bit_nat_eq_self len_bit0 len_num1) (simp add: take_bit_nat_eq_self)
  qed
  have reach: "r = s + 2 * of_nat ((unat r - unat s) div 2)" if "odd r" "unat s \<le> unat r" for r
  proof -
    have "even (unat r - unat s)" using that ns(3) by (simp add: even_ubucket_iff)
    then have "unat s + 2 * ((unat r - unat s) div 2) = unat r" using that by simp
    then have "of_nat (unat s + 2 * ((unat r - unat s) div 2)) = r" by simp
    then show ?thesis by simp
  qed
  define k where "k = (unat p - unat s) div 2"
  have k: "p = s + 2 * of_nat k" using reach [OF p(2) ns(2)] by (simp add: k_def)
  with p(1) have "IsPrime (s + 2 * of_nat k)" by simp
  from generate_prime_loop_finds [OF this] obtain j where j: "j \<le> k" "generate_prime_loop s = Some (s + 2 * of_nat j)"
    "IsPrime (s + 2 * of_nat j)" "\<forall>i < j. \<not> IsPrime (s + 2 * of_nat i)" by blast
  have sj: "unat (s + 2 * of_nat j) = unat s + 2 * j" "unat s + 2 * j \<le> unat p"
    using j(1) ns(2) by (simp_all add: step k_def)
  have "\<not> IsPrime r" if r: "n \<le> r" "r < s + 2 * of_nat j" "odd r" for r
  proof -
    have "unat s \<le> unat r"
    proof (cases "even n")
      case True
      with r(1,3) have "unat n \<noteq> unat r" by (auto simp: even_ubucket_iff)
      with r(1) ns(4) show ?thesis by (simp add: word_le_nat_alt)
    next
      case False
      with r(1) show ?thesis by (simp add: s_def word_le_nat_alt)
    qed
    moreover from r(2) have "unat r < unat s + 2 * j" by (simp add: word_less_nat_alt sj)
    ultimately show ?thesis using reach [OF r(3)] j(4) by (metis add_diff_inverse_nat less_mult_imp_div_less mult.commute nat_add_left_cancel_less not_le)
  qed
  then show ?thesis
    using j(2,3) sj ns by (intro exI [of _ "s + 2 * of_nat j"]) (auto simp: generate_prime_def s_def even_iff_mod_2_eq_zero word_le_nat_alt)
qed

section \<open>A composite number that passes\<close>

text \<open>Modular powers of numerals, for evaluation.\<close>

fun power_mod_num :: "int \<Rightarrow> num \<Rightarrow> int \<Rightarrow> int" where
  "power_mod_num a num.One n = a mod n"
| "power_mod_num a (num.Bit0 k) n = power_mod_num (a * a mod n) k n"
| "power_mod_num a (num.Bit1 k) n = a * power_mod_num (a * a mod n) k n mod n"

lemma power_mod_num_eq: "power_mod_num a k n = a ^ numeral k mod n"
proof (induction a k n rule: power_mod_num.induct)
  case (2 a k n)
  then show ?case by (simp add: power_mod numeral_Bit0 power_add power_mult_distrib)
next
  case (3 a k n)
  then show ?case by (simp add: power_mod power_numeral_odd Let_def power_mult_distrib mod_mult_right_eq mult.assoc)
qed simp

lemma nat_power_mod_num: "a ^ numeral k mod numeral n = nat (power_mod_num (int a) k (numeral n))"
  by (simp add: power_mod_num_eq nat_mod_distrib nat_power_eq)

definition exponent_252600 :: num where
  "exponent_252600 = num.Bit0 (num.Bit0 (num.Bit0 (num.Bit1 (num.Bit1 (num.Bit1 (num.Bit0 (num.Bit1 (num.Bit0 (num.Bit1 (num.Bit0 (num.Bit1 (num.Bit1 (num.Bit0 (num.Bit1 (num.Bit1 (num.Bit1 num.One))))))))))))))))"

lemma fermat_powers_252601:
  "power_mod_num 2 exponent_252600 252601 = 1"
  "power_mod_num 3 exponent_252600 252601 = 1"
  "power_mod_num 5 exponent_252600 252601 = 1"
  "power_mod_num 7 exponent_252600 252601 = 1"
  "power_mod_num 11 exponent_252600 252601 = 1"
  "power_mod_num 13 exponent_252600 252601 = 1"
  "power_mod_num 17 exponent_252600 252601 = 1"
  "power_mod_num 19 exponent_252600 252601 = 1"
  "power_mod_num 23 exponent_252600 252601 = 1"
  "power_mod_num 29 exponent_252600 252601 = 1"
  "power_mod_num 31 exponent_252600 252601 = 1"
  "power_mod_num 37 exponent_252600 252601 = 1"
  by (simp_all add: exponent_252600_def)

lemma fermat_passes_252601:
  assumes "w \<in> set witnesses"
  shows "fermat_passes 252601 (unat w)"
proof -
  from assms have "int (unat w) \<in> {2, 3, 5, 7, 11, 13, 17, 19, 23, 29, 31, 37}" by (auto simp: witnesses_def)
  then have "power_mod_num (int (unat w)) exponent_252600 252601 = 1" using fermat_powers_252601 by auto
  then have "unat w ^ numeral exponent_252600 mod 252601 = 1" by (simp only: nat_power_mod_num)
  moreover have "numeral exponent_252600 = (252600 :: nat)" unfolding exponent_252600_def ..
  ultimately show ?thesis by (simp add: fermat_passes_def)
qed

lemma IsPrime_252601: "IsPrime 252601 \<and> (252601 :: nat) = 41 * 61 * 101"
proof -
  have "IsPrime 252601"
    by (subst IsPrime_odd) (auto simp: fermat_passes_252601 dest: set_takeWhileD)
  then show ?thesis by simp
qed

section \<open>Properties\<close>

text \<open>\<^verbatim>\<open>powermod\<close> computes the modular power for every base and exponent of 128 bits and every modulus above 1.\<close>

theorem powermod_correct: "1 < m \<Longrightarrow> unat (powermod a b m) = unat a ^ unat b mod unat m"
  by (rule unat_powermod)

theorem powermod_correct_witness: "unat (powermod 3 5 7) = 5"
  using powermod_correct [of 7 3 5] by simp



end
