(* ===== verification/AGM_Sketch.thy ===== *)
theory AGM_Sketch
  imports Complex_Main Byte_Mem Sketch_Util Prime_Generator "HOL-Library.Signed_Division"
begin

unbundle bit_operations_syntax

text \<open>
  The linear sketch of \<^verbatim>\<open>sketch_expr/agm_sketching\<close>: the buckets of \<^verbatim>\<open>bucket.cpp\<close> and the sketch of \<^verbatim>\<open>agm_sketch.cpp\<close>, in the 128-bit
  build (\<^verbatim>\<open>types.h\<close> without \<^verbatim>\<open>USE_NATIVE_F\<close>).  \<^verbatim>\<open>bucket_t\<close> is a 128-bit word read as a signed number; the 256-bit products are
  exact, so they are integers, and \<^verbatim>\<open>%\<close> and \<^verbatim>\<open>/\<close> on them truncate towards zero (\<open>smod\<close>, \<open>sdiv\<close>).  Two library functions are
  parameters: \<open>xxh\<close> is \<^verbatim>\<open>XXH64\<close> on the bytes of its argument and a seed, and \<open>log2\<close> is the floating-point logarithm; doubles are real
  numbers.

  The second half relates a sketch to the vector it summarises: every operation of the sketch is the operation on vectors.
\<close>

section \<open>Buckets\<close>

type_synonym vec_t = u64
type_synonym bucket_t = u128
type_synonym xxh64 = "u8 list \<Rightarrow> u64 \<Rightarrow> u64"

record Bucket_Boruvka =
  bucket_a :: bucket_t
  bucket_b :: bucket_t
  bucket_c :: ubucket_t

definition empty_bucket :: Bucket_Boruvka where
  "empty_bucket = \<lparr>bucket_a = 0, bucket_b = 0, bucket_c = 0\<rparr>"

definition gen_bucket_seed :: "xxh64 \<Rightarrow> u32 \<Rightarrow> u64 \<Rightarrow> u64" where
  "gen_bucket_seed xxh bucket_id seed' = xxh (take 4 (word_bytes_le (ucast bucket_id))) seed'"

text \<open>\<open>None\<close> is the trap of a division by zero, when \<open>large_prime\<close> is 3.\<close>

definition gen_r :: "u64 \<Rightarrow> ubucket_t \<Rightarrow> ubucket_t option" where
  "gen_r bucket_seed P = (if P - 3 = 0 then None else Some (2 + ucast bucket_seed mod (P - 3)))"

definition contains :: "xxh64 \<Rightarrow> vec_t \<Rightarrow> u64 \<Rightarrow> vec_t \<Rightarrow> bool" where
  "contains xxh ix bucket_seed guess_nonzero =
    (let buf = ix + 1; hash = xxh (word_bytes_le buf) bucket_seed in hash mod guess_nonzero = 0)"

definition is_good :: "xxh64 \<Rightarrow> vec_t \<Rightarrow> ubucket_t \<Rightarrow> u64 \<Rightarrow> ubucket_t \<Rightarrow> vec_t \<Rightarrow> Bucket_Boruvka \<Rightarrow> bool" where
  "is_good xxh n P bucket_seed r guess_nonzero bk =
    (let a = sint (bucket_a bk); b = sint (bucket_b bk) in
     a \<noteq> 0 \<and> b smod a = 0 \<and> b sdiv a > 0 \<and> b sdiv a \<le> uint n \<and>
     contains xxh (word_of_int (b sdiv a - 1)) bucket_seed guess_nonzero \<and>
     ((uint (bucket_c bk) + uint P - a * uint (powermod r (word_of_int (b sdiv a)) P)) smod uint P) smod uint P = 0)"

text \<open>The new value of \<^verbatim>\<open>c\<close>, given the power of \<open>r\<close>.\<close>

definition add_to_c :: "ubucket_t \<Rightarrow> ubucket_t \<Rightarrow> u64 \<Rightarrow> ubucket_t \<Rightarrow> ubucket_t" where
  "add_to_c c' P dl pw = word_of_int ((uint c' + uint P + (sint dl * uint pw) smod uint P) smod uint P)"

definition add_to_bucket :: "Update \<Rightarrow> ubucket_t \<Rightarrow> ubucket_t \<Rightarrow> Bucket_Boruvka \<Rightarrow> Bucket_Boruvka" where
  "add_to_bucket upd P pw bk =
    bk\<lparr>bucket_a := bucket_a bk + scast (delta upd),
       bucket_b := bucket_b bk + scast (delta upd) * ucast (index upd + 1),
       bucket_c := add_to_c (bucket_c bk) P (delta upd) pw\<rparr>"

definition bucket_update :: "Update \<Rightarrow> ubucket_t \<Rightarrow> ubucket_t \<Rightarrow> Bucket_Boruvka \<Rightarrow> Bucket_Boruvka" where
  "bucket_update upd P r bk = add_to_bucket upd P (powermod r (ucast (index upd + 1)) P) bk"

text \<open>\<open>None\<close> is a read past the end of the table.\<close>

definition cached_update :: "Update \<Rightarrow> ubucket_t \<Rightarrow> ubucket_t list \<Rightarrow> Bucket_Boruvka \<Rightarrow> Bucket_Boruvka option" where
  "cached_update upd P r_sq_cache bk =
    map_option (\<lambda>pw. add_to_bucket upd P pw bk) (cached_powermod r_sq_cache (ucast (index upd + 1)) P)"

section \<open>The sketch\<close>

definition double_to_ull :: "real \<Rightarrow> real \<Rightarrow> nat" where
  "double_to_ull d epsilon = nat \<lfloor>d + epsilon\<rfloor>"

definition bucket_gen :: "(nat \<Rightarrow> real) \<Rightarrow> vec_t \<Rightarrow> nat" where
  "bucket_gen log2 x = double_to_ull (log2 (unat x) + 1) (1 / 10 ^ 8)"

definition guess_gen :: "(nat \<Rightarrow> real) \<Rightarrow> vec_t \<Rightarrow> nat" where
  "guess_gen log2 x = double_to_ull (log2 (unat x) + 2) (1 / 10 ^ 8)"

record AGM_Sketch =
  sk_seed :: u64
  sk_n :: vec_t
  sk_buckets :: "Bucket_Boruvka list"
  large_prime :: ubucket_t
  already_quered :: bool

text \<open>\<^verbatim>\<open>1 << j\<close> is an \<^verbatim>\<open>int\<close>, converted to \<^verbatim>\<open>vec_t\<close>.\<close>

definition guess_of :: "nat \<Rightarrow> vec_t" where
  "guess_of j = scast (push_bit j (1 :: 32 word))"

definition new_AGM_Sketch :: "(nat \<Rightarrow> real) \<Rightarrow> vec_t \<Rightarrow> u64 \<Rightarrow> AGM_Sketch option" where
  "new_AGM_Sketch log2 n seed' =
    map_option (\<lambda>P.
      \<lparr>sk_seed = seed', sk_n = n, sk_buckets = replicate (bucket_gen log2 n * guess_gen log2 n) empty_bucket,
       large_prime = P, already_quered = False\<rparr>) (generate_prime (ucast n * ucast n))"

text \<open>The loops over columns and guesses; \<open>None\<close> is a trap on the way.\<close>

fun for_each :: "('a \<Rightarrow> 's \<Rightarrow> 's option) \<Rightarrow> 'a list \<Rightarrow> 's \<Rightarrow> 's option" where
  "for_each f [] s = Some s"
| "for_each f (x # xs) s = Option.bind (f x s) (for_each f xs)"

definition update_guess :: "xxh64 \<Rightarrow> AGM_Sketch \<Rightarrow> Update \<Rightarrow> u64 \<Rightarrow> ubucket_t \<Rightarrow> nat \<Rightarrow> nat \<Rightarrow> nat \<Rightarrow>
    Bucket_Boruvka list \<Rightarrow> Bucket_Boruvka list option" where
  "update_guess xxh sk upd bucket_seed r num_guesses i j bs =
    (let bucket_id = i * num_guesses + j in
     if contains xxh (index upd) bucket_seed (guess_of j)
     then Some (bs[bucket_id := bucket_update upd (large_prime sk) r (bs ! bucket_id)])
     else Some bs)"

definition update_column :: "xxh64 \<Rightarrow> AGM_Sketch \<Rightarrow> Update \<Rightarrow> nat \<Rightarrow> nat \<Rightarrow> Bucket_Boruvka list \<Rightarrow> Bucket_Boruvka list option" where
  "update_column xxh sk upd num_guesses i bs =
    (let bucket_seed = gen_bucket_seed xxh (of_nat i) (sk_seed sk) in
     do { r \<leftarrow> gen_r bucket_seed (large_prime sk);
          for_each (update_guess xxh sk upd bucket_seed r num_guesses i) [0..<num_guesses] bs })"

definition sketch_update :: "xxh64 \<Rightarrow> (nat \<Rightarrow> real) \<Rightarrow> AGM_Sketch \<Rightarrow> Update \<Rightarrow> AGM_Sketch option" where
  "sketch_update xxh log2 sk upd =
    (let num_buckets = bucket_gen log2 (sk_n sk); num_guesses = guess_gen log2 (sk_n sk) in
     do { bs \<leftarrow> for_each (update_column xxh sk upd num_guesses) [0..<num_buckets] (sk_buckets sk);
          Some (sk\<lparr>sk_buckets := bs\<rparr>) })"

text \<open>\<^verbatim>\<open>batch_update\<close> draws the seed from the bucket, not from the column.\<close>

definition batch_item :: "xxh64 \<Rightarrow> ubucket_t \<Rightarrow> u64 \<Rightarrow> nat \<Rightarrow> ubucket_t list \<Rightarrow> Update \<Rightarrow> Bucket_Boruvka \<Rightarrow> Bucket_Boruvka option" where
  "batch_item xxh P bucket_seed j r_sq_cache upd bk =
    (if contains xxh (index upd) bucket_seed (guess_of j) then cached_update upd P r_sq_cache bk else Some bk)"

definition batch_bucket :: "xxh64 \<Rightarrow> (nat \<Rightarrow> real) \<Rightarrow> AGM_Sketch \<Rightarrow> Update list \<Rightarrow> nat \<Rightarrow> nat \<Rightarrow> nat \<Rightarrow>
    Bucket_Boruvka list \<Rightarrow> Bucket_Boruvka list option" where
  "batch_bucket xxh log2 sk upds num_guesses i j bs =
    (let bucket_id = i * num_guesses + j;
         bucket_seed = gen_bucket_seed xxh (of_nat bucket_id) (sk_seed sk) in
     do { r \<leftarrow> gen_r bucket_seed (large_prime sk);
          let r_sq_cache = gen_sq_cache (\<lambda>x. nat \<lfloor>log2 (unat x)\<rfloor>) r (ucast (sk_n sk)) (large_prime sk);
          bk \<leftarrow> for_each (batch_item xxh (large_prime sk) bucket_seed j r_sq_cache) upds (bs ! bucket_id);
          Some (bs[bucket_id := bk]) })"

definition batch_update :: "xxh64 \<Rightarrow> (nat \<Rightarrow> real) \<Rightarrow> AGM_Sketch \<Rightarrow> Update list \<Rightarrow> AGM_Sketch option" where
  "batch_update xxh log2 sk upds =
    (let num_buckets = bucket_gen log2 (sk_n sk); num_guesses = guess_gen log2 (sk_n sk) in
     do { bs \<leftarrow> for_each (\<lambda>i. for_each (batch_bucket xxh log2 sk upds num_guesses i) [0..<num_guesses])
                  [0..<num_buckets] (sk_buckets sk);
          Some (sk\<lparr>sk_buckets := bs\<rparr>) })"

datatype query_error = AllBucketsZeroException | MultipleQueryException | NoGoodBucketException | Division_trap

text \<open>The search of one column: the update found, or whether all buckets so far are zero.\<close>

fun query_guesses :: "xxh64 \<Rightarrow> AGM_Sketch \<Rightarrow> u64 \<Rightarrow> ubucket_t \<Rightarrow> nat \<Rightarrow> nat \<Rightarrow> nat list \<Rightarrow> bool \<Rightarrow> Update + bool" where
  "query_guesses xxh sk bucket_seed r num_guesses i [] zero = Inr zero"
| "query_guesses xxh sk bucket_seed r num_guesses i (j # js) zero =
    (let bk = sk_buckets sk ! (i * num_guesses + j);
         zero = (if bucket_a bk \<noteq> 0 \<or> bucket_b bk \<noteq> 0 \<or> bucket_c bk \<noteq> 0 then False else zero) in
     if is_good xxh (sk_n sk) (large_prime sk) bucket_seed r (guess_of j) bk
     then Inl \<lparr>index = word_of_int (sint (bucket_b bk) sdiv sint (bucket_a bk) - 1), delta = ucast (bucket_a bk)\<rparr>
     else query_guesses xxh sk bucket_seed r num_guesses i js zero)"

fun query_columns :: "xxh64 \<Rightarrow> AGM_Sketch \<Rightarrow> nat \<Rightarrow> nat list \<Rightarrow> bool \<Rightarrow> query_error + Update" where
  "query_columns xxh sk num_guesses [] zero = Inl (if zero then AllBucketsZeroException else NoGoodBucketException)"
| "query_columns xxh sk num_guesses (i # is) zero =
    (let bucket_seed = gen_bucket_seed xxh (of_nat i) (sk_seed sk) in
     case gen_r bucket_seed (large_prime sk) of
       None \<Rightarrow> Inl Division_trap
     | Some r \<Rightarrow>
         (case query_guesses xxh sk bucket_seed r num_guesses i [0..<num_guesses] zero of
            Inl upd \<Rightarrow> Inr upd
          | Inr zero \<Rightarrow> query_columns xxh sk num_guesses is zero))"

definition query :: "xxh64 \<Rightarrow> (nat \<Rightarrow> real) \<Rightarrow> AGM_Sketch \<Rightarrow> (query_error + Update) \<times> AGM_Sketch" where
  "query xxh log2 sk =
    (if already_quered sk then (Inl MultipleQueryException, sk)
     else let sk = sk\<lparr>already_quered := True\<rparr> in
       (query_columns xxh sk (guess_gen log2 (sk_n sk)) [0..<bucket_gen log2 (sk_n sk)] True, sk))"

text \<open>Addition; \<open>None\<close> is a failed assertion.  The sum of the third fields is taken in 128 bits.\<close>

definition add_bucket :: "ubucket_t \<Rightarrow> Bucket_Boruvka \<Rightarrow> Bucket_Boruvka \<Rightarrow> Bucket_Boruvka" where
  "add_bucket P b1 b2 =
    \<lparr>bucket_a = bucket_a b1 + bucket_a b2, bucket_b = bucket_b b1 + bucket_b b2, bucket_c = (bucket_c b1 + bucket_c b2) mod P\<rparr>"

definition compatible :: "AGM_Sketch \<Rightarrow> AGM_Sketch \<Rightarrow> bool" where
  "compatible sketch1 sketch2 =
    (sk_n sketch1 = sk_n sketch2 \<and> sk_seed sketch1 = sk_seed sketch2 \<and> large_prime sketch1 = large_prime sketch2)"

definition sketch_plus :: "(nat \<Rightarrow> real) \<Rightarrow> AGM_Sketch \<Rightarrow> AGM_Sketch \<Rightarrow> AGM_Sketch option" where
  "sketch_plus log2 sketch1 sketch2 =
    (if \<not> compatible sketch1 sketch2 then None
     else do { result \<leftarrow> new_AGM_Sketch log2 (sk_n sketch1) (sk_seed sketch1);
               Some (result\<lparr>sk_buckets :=
                 map (\<lambda>i. add_bucket (large_prime result) (sk_buckets sketch1 ! i) (sk_buckets sketch2 ! i))
                   [0..<length (sk_buckets result)]\<rparr>) })"

definition sketch_plus_assign :: "AGM_Sketch \<Rightarrow> AGM_Sketch \<Rightarrow> AGM_Sketch option" where
  "sketch_plus_assign sketch1 sketch2 =
    (if \<not> compatible sketch1 sketch2 then None
     else Some (sketch1\<lparr>sk_buckets :=
                  map (\<lambda>i. add_bucket (large_prime sketch1) (sk_buckets sketch1 ! i) (sk_buckets sketch2 ! i))
                    [0..<length (sk_buckets sketch1)],
                already_quered := already_quered sketch1 \<or> already_quered sketch2\<rparr>))"

text \<open>Scaling multiplies the unsigned third field by the signed factor: the factor is converted to unsigned first.\<close>

definition scale_bucket :: "ubucket_t \<Rightarrow> u64 \<Rightarrow> Bucket_Boruvka \<Rightarrow> Bucket_Boruvka" where
  "scale_bucket P scaling_factor bk =
    \<lparr>bucket_a = bucket_a bk * scast scaling_factor, bucket_b = bucket_b bk * scast scaling_factor,
     bucket_c = (bucket_c bk * scast scaling_factor) mod P\<rparr>"

definition sketch_times :: "(nat \<Rightarrow> real) \<Rightarrow> AGM_Sketch \<Rightarrow> u64 \<Rightarrow> AGM_Sketch option" where
  "sketch_times log2 sketch1 scaling_factor =
    do { result \<leftarrow> new_AGM_Sketch log2 (sk_n sketch1) (sk_seed sketch1);
         Some (result\<lparr>sk_buckets :=
           map (\<lambda>i. scale_bucket (large_prime result) scaling_factor (sk_buckets sketch1 ! i)) [0..<length (sk_buckets result)]\<rparr>) }"

section \<open>What a bucket holds\<close>

text \<open>
  The weighted sum of the coordinates of a vector that a bucket contains: a bucket holds the sum with weights 1, the sum with weights
  \<open>k + 1\<close>, and the sum with weights \<open>r ^ (k + 1)\<close> modulo the prime.
\<close>

definition vsum :: "(nat \<Rightarrow> bool) \<Rightarrow> nat \<Rightarrow> (nat \<Rightarrow> int) \<Rightarrow> (nat \<Rightarrow> int) \<Rightarrow> int" where
  "vsum M n w x = (\<Sum>k < n. if M k then x k * w k else 0)"

lemma vsum_zero [simp]: "vsum M n w (\<lambda>_. 0) = 0"
  unfolding vsum_def by (rule sum.neutral) simp

lemma vsum_add: "vsum M n w (\<lambda>k. x k + y k) = vsum M n w x + vsum M n w y"
  unfolding vsum_def sum.distrib [symmetric] by (rule sum.cong) (auto simp: distrib_right)

lemma vsum_scale: "vsum M n w (\<lambda>k. s * x k) = s * vsum M n w x"
  unfolding vsum_def sum_distrib_left by (rule sum.cong) auto

lemma vsum_single:
  assumes "i < n"
  shows "vsum M n w ((\<lambda>_. 0)(i := d)) = (if M i then d * w i else 0)"
proof -
  have "vsum M n w ((\<lambda>_. 0)(i := d)) = (\<Sum>k < n. if k = i then (if M i then d * w i else 0) else 0)"
    unfolding vsum_def by (rule sum.cong) auto
  also have "\<dots> = (if M i then d * w i else 0)" using assms by simp
  finally show ?thesis .
qed

definition add_coord :: "(nat \<Rightarrow> int) \<Rightarrow> nat \<Rightarrow> int \<Rightarrow> nat \<Rightarrow> int" where
  "add_coord x i d = x(i := x i + d)"

lemma vsum_add_coord: "i < n \<Longrightarrow> vsum M n w (add_coord x i d) = vsum M n w x + (if M i then d * w i else 0)"
proof -
  assume i: "i < n"
  have "add_coord x i d = (\<lambda>k. x k + ((\<lambda>_. 0)(i := d)) k)" by (auto simp: add_coord_def)
  then show ?thesis by (simp only: vsum_add vsum_single [OF i])
qed

definition bucket_holds :: "(nat \<Rightarrow> bool) \<Rightarrow> nat \<Rightarrow> ubucket_t \<Rightarrow> ubucket_t \<Rightarrow> (nat \<Rightarrow> int) \<Rightarrow> Bucket_Boruvka \<Rightarrow> bool" where
  "bucket_holds M n P r x bk \<longleftrightarrow>
    bucket_a bk = word_of_int (vsum M n (\<lambda>_. 1) x) \<and>
    bucket_b bk = word_of_int (vsum M n (\<lambda>k. int k + 1) x) \<and>
    uint (bucket_c bk) = vsum M n (\<lambda>k. uint r ^ (k + 1)) x mod uint P"

lemma bucket_holds_empty: "bucket_holds M n P r (\<lambda>_. 0) empty_bucket"
  by (simp add: bucket_holds_def empty_bucket_def)

lemma smod_pos: "0 < p \<Longrightarrow> 0 \<le> v \<Longrightarrow> v smod p = v mod p" for v p :: int
  by (simp add: signed_modulo_int_def sgn_if)

lemma smod_cong: "(v smod p) mod p = v mod p" for v p :: int
proof -
  have "v mod p = (v sdiv p * p + v smod p) mod p" by (simp only: sdiv_mult_smod_eq)
  then show ?thesis by simp
qed

lemma smod_bound: "0 < p \<Longrightarrow> \<bar>v smod p\<bar> < p" for v p :: int
  by (simp add: signed_modulo_int_def sgn_if abs_mult)

lemma uint_word_of_int_small: "0 \<le> v \<Longrightarrow> v < 2 ^ 128 \<Longrightarrow> uint (word_of_int v :: u128) = v"
  by (simp add: uint_word_of_int)

lemma uint_u128_less: "uint (x :: u128) < 2 ^ 128"
  using uint_bounded [of x] by simp

lemma uint_add_to_c:
  assumes "0 < uint P"
  shows "uint (add_to_c c' P dl pw) = (uint c' + sint dl * uint pw) mod uint P"
proof -
  define s where "s = (sint dl * uint pw) smod uint P"
  define v where "v = uint c' + uint P + s"
  have "0 \<le> uint c'" by simp
  moreover have "- uint P < s" using smod_bound [OF assms, of "sint dl * uint pw"] by (simp add: s_def abs_less_iff)
  ultimately have v0: "0 \<le> v" unfolding v_def by linarith
  have "v mod uint P = (uint c' + s) mod uint P" using mod_add_self2 [of "uint c' + s" "uint P"] by (simp add: v_def ac_simps)
  also have "\<dots> = (uint c' + s mod uint P) mod uint P" by (simp only: mod_add_right_eq)
  also have "s mod uint P = sint dl * uint pw mod uint P" unfolding s_def by (rule smod_cong)
  finally have eq: "v mod uint P = (uint c' + sint dl * uint pw) mod uint P" by (simp only: mod_add_right_eq)
  have "v mod uint P < 2 ^ 128" using pos_mod_bound [OF assms, of v] uint_u128_less [of P] by linarith
  moreover have "0 \<le> v mod uint P" using assms by (rule pos_mod_sign)
  ultimately have "uint (word_of_int (v mod uint P) :: u128) = v mod uint P" by (intro uint_word_of_int_small)
  then show ?thesis unfolding add_to_c_def s_def [symmetric] v_def [symmetric] smod_pos [OF assms v0] eq .
qed

lemma uint_powermod:
  assumes "1 < uint P"
  shows "uint (powermod r b P) = uint r ^ unat b mod uint P"
proof -
  have "1 < P" using assms by (simp add: word_less_def)
  then have "int (unat (powermod r b P)) = int (unat r ^ unat b mod unat P)" by (simp only: unat_powermod)
  then show ?thesis by (simp add: zmod_int)
qed

lemma add_mult_mod: "(v + d * (q mod p)) mod p = (v + d * q) mod p" for v d q p :: int
  by (metis mod_add_right_eq mod_mult_right_eq)

text \<open>An update of the bucket is the update of the coordinate.\<close>

lemma bucket_update_holds:
  assumes P: "1 < uint P" and i: "unat (index upd) < n" and n: "n < 2 ^ 64" and M: "M (unat (index upd))"
    and h: "bucket_holds M n P r x bk"
  shows "bucket_holds M n P r (add_coord x (unat (index upd)) (sint (delta upd))) (bucket_update upd P r bk)"
proof -
  define k d where "k = unat (index upd)" and "d = sint (delta upd)"
  have k1: "unat (index upd + 1) = k + 1"
    using i n unat_add_fits [of "index upd" 1] by (simp add: k_def)
  have u: "unat (ucast (index upd + 1) :: u128) = k + 1"
    using k1 unat_u64_less [of "index upd + 1"] by (simp add: unsigned_ucast_eq take_bit_nat_eq_self)
  have wb: "(ucast (index upd + 1) :: u128) = word_of_int (int k + 1)"
  proof -
    have "(ucast (index upd + 1) :: u128) = of_nat (unat (ucast (index upd + 1) :: u128))" by simp
    also have "\<dots> = of_nat (k + 1)" by (simp only: u)
    finally show ?thesis by simp
  qed
  have wd: "(scast (delta upd) :: u128) = word_of_int d" by (simp add: d_def)
  have pw: "uint (powermod r (ucast (index upd + 1)) P) = uint r ^ (k + 1) mod uint P"
    by (simp only: uint_powermod [OF P] u)
  have P0: "0 < uint P" using P by simp
  have "uint (bucket_c (bucket_update upd P r bk)) = (vsum M n (\<lambda>k. uint r ^ (k + 1)) x + d * uint r ^ (k + 1)) mod uint P"
    using h by (simp add: bucket_update_def add_to_bucket_def uint_add_to_c [OF P0] bucket_holds_def pw d_def mod_simps add_mult_mod)
  then show ?thesis
    using h i M unfolding bucket_holds_def k_def [symmetric] d_def [symmetric]
    by (simp add: vsum_add_coord bucket_update_def add_to_bucket_def wb wd)
qed

lemma bucket_skip_holds:
  "unat ix < n \<Longrightarrow> \<not> M (unat ix) \<Longrightarrow> bucket_holds M n P r x bk \<Longrightarrow> bucket_holds M n P r (add_coord x (unat ix) d) bk"
  by (simp add: bucket_holds_def vsum_add_coord)

lemma add_bucket_holds:
  assumes P: "0 < uint P" "uint P \<le> 2 ^ 127" and h: "bucket_holds M n P r x b1" "bucket_holds M n P r y b2"
  shows "bucket_holds M n P r (\<lambda>k. x k + y k) (add_bucket P b1 b2)"
proof -
  have "uint (bucket_c b1) < uint P" "uint (bucket_c b2) < uint P" using h P by (simp_all add: bucket_holds_def)
  moreover have "(2 :: int) ^ 128 = 2 ^ 127 + 2 ^ 127" by simp
  ultimately have "uint (bucket_c b1) + uint (bucket_c b2) < 2 ^ 128" using P(2) by linarith
  then have "uint (bucket_c b1 + bucket_c b2) = uint (bucket_c b1) + uint (bucket_c b2)"
    by (simp add: uint_word_ariths take_bit_int_eq_self)
  then show ?thesis using h by (simp add: bucket_holds_def add_bucket_def vsum_add uint_mod mod_simps)
qed

lemma scale_bucket_holds:
  assumes P: "0 < uint P" and s: "0 \<le> sint s" "uint P * sint s \<le> 2 ^ 128" and h: "bucket_holds M n P r x bk"
  shows "bucket_holds M n P r (\<lambda>k. sint s * x k) (scale_bucket P s bk)"
proof -
  have lt: "uint (bucket_c bk) < uint P" using h P by (simp add: bucket_holds_def)
  have "uint (bucket_c bk * scast s) = uint (bucket_c bk) * sint s"
  proof (cases "sint s = 0")
    case True
    have "(scast s :: u128) = word_of_int (sint s)" by simp
    then have "(scast s :: u128) = 0" by (simp only: True of_int_0)
    with True show ?thesis by simp
  next
    case False
    with s(1) have s0: "0 < sint s" by simp
    with lt have "uint (bucket_c bk) * sint s < uint P * sint s" by (intro mult_strict_right_mono)
    with s(2) have b: "uint (bucket_c bk) * sint s < 2 ^ 128" by linarith
    have "0 \<le> uint (bucket_c bk) * sint s" using s0 by simp
    with b have "uint (word_of_int (uint (bucket_c bk) * sint s) :: u128) = uint (bucket_c bk) * sint s"
      by (intro uint_word_of_int_small)
    moreover have "word_of_int (uint (bucket_c bk) * sint s) = bucket_c bk * scast s" by simp
    ultimately show ?thesis by simp
  qed
  then show ?thesis
    using h by (simp add: bucket_holds_def scale_bucket_def vsum_scale uint_mod mod_simps mult.commute)
qed

lemma smod_dvd: "p dvd v \<Longrightarrow> v smod p = 0" for v p :: int
  by (simp add: signed_modulo_int_def)

text \<open>A bucket that holds one nonzero coordinate is good and gives it back.\<close>

lemma sint_word_of_int_small: "- (2 ^ 127) \<le> v \<Longrightarrow> v < 2 ^ 127 \<Longrightarrow> sint (word_of_int v :: u128) = v"
  by (simp add: signed_of_int signed_take_bit_int_eq_self)

lemma single_bucket:
  assumes P: "1 < uint P" and k: "k < unat n" and d: "d \<noteq> 0" "- (2 ^ 63) \<le> d" "d < 2 ^ 63"
    and M: "M k" and c: "contains xxh (of_nat k) bucket_seed g"
    and h: "bucket_holds M (unat n) P r ((\<lambda>_. 0)(k := d)) bk"
  shows "sint (bucket_a bk) = d" "sint (bucket_b bk) = d * (int k + 1)" "sint (bucket_b bk) sdiv sint (bucket_a bk) = int k + 1"
    "is_good xxh n P bucket_seed r g bk"
proof -
  have kn: "int k + 1 \<le> uint n" using k by (metis int_ops(4) of_nat_le_iff uint_nat Suc_leI)
  have n64: "uint n < 2 ^ 64" using uint_bounded [of n] by simp
  show a: "sint (bucket_a bk) = d"
    using h d M k by (simp add: bucket_holds_def vsum_single sint_word_of_int_small)
  have "\<bar>d * (int k + 1)\<bar> \<le> 2 ^ 63 * (2 ^ 64 - 1)"
    unfolding abs_mult using d kn n64 by (intro mult_mono) auto
  then have "- (2 ^ 127) \<le> d * (int k + 1)" "d * (int k + 1) < 2 ^ 127" by (auto simp: abs_le_iff)
  then have "sint (word_of_int (d * (int k + 1)) :: u128) = d * (int k + 1)" by (rule sint_word_of_int_small)
  then show b: "sint (bucket_b bk) = d * (int k + 1)"
    using h M by (simp only: bucket_holds_def vsum_single [OF k] if_True)
  have div: "(d * (int k + 1)) sdiv d = int k + 1"
    using d(1) by (simp add: signed_divide_int_eq_divide_int)
  then show "sint (bucket_b bk) sdiv sint (bucket_a bk) = int k + 1" by (simp add: a b)
  have md: "(d * (int k + 1)) smod d = 0" by (simp add: signed_modulo_int_eq_modulo_int)
  have u: "unat (word_of_int (int k + 1) :: u128) = k + 1"
  proof -
    have "k + 1 < 2 ^ 128" using k unat_u64_less [of n] by simp
    then have "unat (of_nat (k + 1) :: u128) = k + 1" by (simp only: unat_of_nat) (simp add: take_bit_nat_eq_self)
    then show ?thesis by (simp add: add.commute)
  qed
  have "uint (bucket_c bk) = d * uint r ^ (k + 1) mod uint P"
    using h M k by (simp add: bucket_holds_def vsum_single)
  then have "uint (bucket_c bk) = d * (uint r ^ (k + 1) mod uint P) mod uint P" by (simp only: mod_mult_right_eq)
  then have "uint (bucket_c bk) + uint P - d * (uint r ^ (k + 1) mod uint P) =
      uint P * (1 - d * (uint r ^ (k + 1) mod uint P) div uint P)"
    by (simp only: right_diff_distrib minus_mod_eq_mult_div [symmetric])
  then have "uint P dvd uint (bucket_c bk) + uint P - d * (uint r ^ (k + 1) mod uint P)" by (metis dvd_triv_left)
  then have z: "(uint (bucket_c bk) + uint P - d * uint (powermod r (word_of_int (int k + 1)) P)) smod uint P = 0"
    unfolding uint_powermod [OF P] u by (rule smod_dvd)
  show "is_good xxh n P bucket_seed r g bk"
    unfolding is_good_def Let_def a b div md z using d(1) kn c by simp
qed

section \<open>What a sketch holds\<close>

lemma for_each_append: "for_each f (xs @ ys) s = Option.bind (for_each f xs s) (for_each f ys)"
  by (induction xs arbitrary: s) (auto simp: bind_eq_Some_conv split: bind_splits)

text \<open>A loop whose iterations each rewrite cells of their own rewrites_cells all those cells.\<close>

definition rewrites_cells :: "(nat \<Rightarrow> bool) \<Rightarrow> (nat \<Rightarrow> 'b \<Rightarrow> 'b \<Rightarrow> bool) \<Rightarrow> 'b list \<Rightarrow> 'b list option \<Rightarrow> bool" where
  "rewrites_cells C R bs res \<longleftrightarrow> (\<exists>bs'. res = Some bs' \<and> length bs' = length bs \<and>
     (\<forall>q < length bs. if C q then R q (bs ! q) (bs' ! q) else bs' ! q = bs ! q))"

lemma for_each_rewrites:
  assumes step: "\<And>j bs. j < m \<Longrightarrow> length bs = L \<Longrightarrow> rewrites_cells (C j) R bs (f j bs)"
    and disj: "\<And>j j' q. j < m \<Longrightarrow> j' < m \<Longrightarrow> C j q \<Longrightarrow> C j' q \<Longrightarrow> j = j'"
    and "length bs = L"
  shows "rewrites_cells (\<lambda>q. \<exists>j < m. C j q) R bs (for_each f [0..<m] bs)"
  using step disj
proof (induction m)
  case 0
  then show ?case by (simp add: rewrites_cells_def)
next
  case (Suc m)
  then have "rewrites_cells (\<lambda>q. \<exists>j < m. C j q) R bs (for_each f [0..<m] bs)" by (meson less_SucI)
  then obtain b1 where b1: "for_each f [0..<m] bs = Some b1" "length b1 = length bs"
    "\<And>q. q < length bs \<Longrightarrow> if \<exists>j < m. C j q then R q (bs ! q) (b1 ! q) else b1 ! q = bs ! q"
    unfolding rewrites_cells_def by blast
  have "rewrites_cells (C m) R b1 (f m b1)" using b1(2) assms(3) by (intro Suc.prems(1)) simp_all
  then obtain b2 where b2: "f m b1 = Some b2" "length b2 = length b1"
    "\<And>q. q < length b1 \<Longrightarrow> if C m q then R q (b1 ! q) (b2 ! q) else b2 ! q = b1 ! q"
    unfolding rewrites_cells_def by blast
  have excl: "C m q \<Longrightarrow> \<not> (\<exists>j < m. C j q)" for q using Suc.prems(2) by (metis less_Suc_eq less_irrefl)
  have "if \<exists>j < Suc m. C j q then R q (bs ! q) (b2 ! q) else b2 ! q = bs ! q" if "q < length bs" for q
    using b1(3) [OF that] b2(3) [of q] that b1(2) excl [of q] by (auto simp: less_Suc_eq split: if_splits)
  then show ?case using b1 b2 by (simp add: rewrites_cells_def for_each_append)
qed

text \<open>
  The seed of cell \<open>q\<close> is drawn from \<open>sid q\<close>: the column \<open>q div num_guesses\<close> for \<^verbatim>\<open>update\<close> and \<^verbatim>\<open>query\<close>, the bucket \<open>q\<close> itself for
  \<^verbatim>\<open>batch_update\<close>.
\<close>

definition cell_holds :: "xxh64 \<Rightarrow> (nat \<Rightarrow> nat) \<Rightarrow> nat \<Rightarrow> AGM_Sketch \<Rightarrow> (nat \<Rightarrow> int) \<Rightarrow> nat \<Rightarrow> Bucket_Boruvka \<Rightarrow> bool" where
  "cell_holds xxh sid ng sk x q bk \<longleftrightarrow>
    (let bucket_seed = gen_bucket_seed xxh (of_nat (sid q)) (sk_seed sk) in
     \<exists>r. gen_r bucket_seed (large_prime sk) = Some r \<and>
       bucket_holds (\<lambda>k. contains xxh (of_nat k) bucket_seed (guess_of (q mod ng))) (unat (sk_n sk)) (large_prime sk) r x bk)"

definition sketch_holds :: "xxh64 \<Rightarrow> (nat \<Rightarrow> real) \<Rightarrow> (nat \<Rightarrow> nat) \<Rightarrow> AGM_Sketch \<Rightarrow> (nat \<Rightarrow> int) \<Rightarrow> bool" where
  "sketch_holds xxh log2 sid sk x \<longleftrightarrow>
    generate_prime (ucast (sk_n sk) * ucast (sk_n sk)) = Some (large_prime sk) \<and> 3 < uint (large_prime sk) \<and>
    length (sk_buckets sk) = bucket_gen log2 (sk_n sk) * guess_gen log2 (sk_n sk) \<and>
    (\<forall>q < length (sk_buckets sk). cell_holds xxh sid (guess_gen log2 (sk_n sk)) sk x q (sk_buckets sk ! q))"

lemma cell_cong:
  "sk_seed sk' = sk_seed sk \<Longrightarrow> sk_n sk' = sk_n sk \<Longrightarrow> large_prime sk' = large_prime sk \<Longrightarrow>
   cell_holds xxh sid ng sk' x q bk = cell_holds xxh sid ng sk x q bk"
  by (simp add: cell_holds_def)

lemma gen_r_some: "3 < uint P \<Longrightarrow> \<exists>r. gen_r s P = Some r"
  by (auto simp: gen_r_def)

definition step_ok :: "xxh64 \<Rightarrow> (nat \<Rightarrow> nat) \<Rightarrow> nat \<Rightarrow> AGM_Sketch \<Rightarrow> ((nat \<Rightarrow> int) \<Rightarrow> nat \<Rightarrow> int) \<Rightarrow> nat \<Rightarrow> Bucket_Boruvka \<Rightarrow> Bucket_Boruvka \<Rightarrow> bool" where
  "step_ok xxh sid ng sk F q b b' \<longleftrightarrow> (\<forall>x. cell_holds xxh sid ng sk x q b \<longrightarrow> cell_holds xxh sid ng sk (F x) q b')"

lemma sketch_step:
  assumes "sketch_holds xxh log2 sid sk x"
    and "rewrites_cells (\<lambda>q. q < length (sk_buckets sk)) (step_ok xxh sid (guess_gen log2 (sk_n sk)) sk F) (sk_buckets sk) res"
  shows "\<exists>bs. res = Some bs \<and> sketch_holds xxh log2 sid (sk\<lparr>sk_buckets := bs\<rparr>) (F x)"
proof -
  from assms(2) obtain bs where bs: "res = Some bs" "length bs = length (sk_buckets sk)"
    "\<And>q. q < length (sk_buckets sk) \<Longrightarrow> step_ok xxh sid (guess_gen log2 (sk_n sk)) sk F q (sk_buckets sk ! q) (bs ! q)"
    unfolding rewrites_cells_def by auto
  have "cell_holds xxh sid (guess_gen log2 (sk_n sk)) (sk\<lparr>sk_buckets := bs\<rparr>) (F x) q (bs ! q)" if "q < length bs" for q
    using bs that assms(1) by (subst cell_cong [where sk = sk]) (auto simp: step_ok_def sketch_holds_def)
  then show ?thesis using assms(1) bs by (auto simp: sketch_holds_def)
qed

lemma update_guess_rewrites:
  assumes P: "3 < uint (large_prime sk)" and ix: "unat (index upd) < unat (sk_n sk)" and j: "j < ng"
    and r: "gen_r s (large_prime sk) = Some r" and s: "s = gen_bucket_seed xxh (of_nat i) (sk_seed sk)"
  shows "rewrites_cells (\<lambda>q. q = i * ng + j)
    (step_ok xxh (\<lambda>q. q div ng) ng sk (\<lambda>x. add_coord x (unat (index upd)) (sint (delta upd)))) bs
    (update_guess xxh sk upd s r ng i j bs)"
proof -
  have q: "(i * ng + j) div ng = i" "(i * ng + j) mod ng = j" using j by simp_all
  have P1: "1 < uint (large_prime sk)" using P by simp
  have "step_ok xxh (\<lambda>q. q div ng) ng sk (\<lambda>x. add_coord x (unat (index upd)) (sint (delta upd))) (i * ng + j) b
      (if contains xxh (index upd) s (guess_of j) then bucket_update upd (large_prime sk) r b else b)" for b
    unfolding step_ok_def cell_holds_def q s [symmetric] Let_def r
    using bucket_update_holds [OF P1 ix unat_u64_less, where M = "\<lambda>k. contains xxh (of_nat k) s (guess_of j)"]
      bucket_skip_holds [OF ix, where M = "\<lambda>k. contains xxh (of_nat k) s (guess_of j)"]
    by auto
  then show ?thesis by (auto simp: rewrites_cells_def update_guess_def Let_def nth_list_update)
qed

lemma rewrites_cong:
  "rewrites_cells C R bs res \<Longrightarrow> (\<And>q. q < length bs \<Longrightarrow> C q = C' q) \<Longrightarrow> rewrites_cells C' R bs res"
  by (auto simp: rewrites_cells_def)

text \<open>The cells of the columns below \<open>nb\<close> are all the cells.\<close>

lemma cell_index: "(\<exists>i < nb. \<exists>j < ng. q = i * ng + j) \<longleftrightarrow> q < nb * ng" for q :: nat
proof
  assume "\<exists>i < nb. \<exists>j < ng. q = i * ng + j"
  then obtain i j where ij: "i < nb" "j < ng" "q = i * ng + j" by blast
  then have "q < Suc i * ng" by simp
  also have "\<dots> \<le> nb * ng" using ij(1) by (intro mult_le_mono1) simp
  finally show "q < nb * ng" .
next
  assume q: "q < nb * ng"
  then have "0 < ng" by (cases ng) auto
  with q show "\<exists>i < nb. \<exists>j < ng. q = i * ng + j"
    by (intro exI [of _ "q div ng"] conjI exI [of _ "q mod ng"]) (simp_all add: less_mult_imp_div_less)
qed

lemma cell_unique: "j < ng \<Longrightarrow> j' < ng \<Longrightarrow> i * ng + j = i' * ng + j' \<Longrightarrow> i = i' \<and> j = j'" for i j :: nat
  by (metis div_mult_self3 mod_mult_self3 mod_less div_less add_cancel_left_right gr_implies_not0 add.commute)

lemma nested_rewrites:
  assumes "\<And>i bs. i < nb \<Longrightarrow> length bs = nb * ng \<Longrightarrow> rewrites_cells (\<lambda>q. \<exists>j < ng. q = i * ng + j) R bs (f i bs)"
    and "length bs = nb * ng"
  shows "rewrites_cells (\<lambda>q. q < length bs) R bs (for_each f [0..<nb] bs)"
proof -
  have "rewrites_cells (\<lambda>q. \<exists>i < nb. \<exists>j < ng. q = i * ng + j) R bs (for_each f [0..<nb] bs)"
    by (rule for_each_rewrites [where L = "nb * ng"]) (use assms cell_unique in blast)+
  then show ?thesis by (rule rewrites_cong) (simp add: cell_index assms(2))
qed

lemma column_rewrites:
  assumes "\<And>j bs. j < ng \<Longrightarrow> length bs = L \<Longrightarrow> rewrites_cells (\<lambda>q. q = i * ng + j) R bs (f j bs)" "length bs = L"
  shows "rewrites_cells (\<lambda>q. \<exists>j < ng. q = i * ng + j) R bs (for_each f [0..<ng] bs)"
  by (rule for_each_rewrites [where L = L]) (use assms in auto)

lemma sketch_update_aux:
  assumes h: "sketch_holds xxh log2 (\<lambda>q. q div guess_gen log2 (sk_n sk)) sk x" and ix: "index upd < sk_n sk"
  shows "\<exists>sk'. sketch_update xxh log2 sk upd = Some sk' \<and> sk_n sk' = sk_n sk \<and> already_quered sk' = already_quered sk \<and>
    sketch_holds xxh log2 (\<lambda>q. q div guess_gen log2 (sk_n sk)) sk' (add_coord x (unat (index upd)) (sint (delta upd)))"
proof -
  define ng nb where "ng = guess_gen log2 (sk_n sk)" and "nb = bucket_gen log2 (sk_n sk)"
  define R where "R = step_ok xxh (\<lambda>q. q div ng) ng sk (\<lambda>x. add_coord x (unat (index upd)) (sint (delta upd)))"
  from h have P: "3 < uint (large_prime sk)" and len: "length (sk_buckets sk) = nb * ng" by (simp_all add: sketch_holds_def ng_def nb_def)
  have ix': "unat (index upd) < unat (sk_n sk)" using ix by (simp add: word_less_nat_alt)
  have "rewrites_cells (\<lambda>q. \<exists>j < ng. q = i * ng + j) R bs (update_column xxh sk upd ng i bs)" for i bs
  proof -
    obtain r where r: "gen_r (gen_bucket_seed xxh (of_nat i) (sk_seed sk)) (large_prime sk) = Some r" using gen_r_some [OF P] by blast
    have "rewrites_cells (\<lambda>q. \<exists>j < ng. q = i * ng + j) R bs
        (for_each (update_guess xxh sk upd (gen_bucket_seed xxh (of_nat i) (sk_seed sk)) r ng i) [0..<ng] bs)"
      unfolding R_def by (rule column_rewrites [OF _ refl]) (rule update_guess_rewrites [OF P ix' _ r refl])
    then show ?thesis by (simp add: update_column_def Let_def r)
  qed
  then have "rewrites_cells (\<lambda>q. q < length (sk_buckets sk)) R (sk_buckets sk)
      (for_each (update_column xxh sk upd ng) [0..<nb] (sk_buckets sk))"
    by (intro nested_rewrites [OF _ len])
  from sketch_step [OF h this [unfolded R_def ng_def]] show ?thesis
    by (auto simp: sketch_update_def Let_def ng_def nb_def)
qed

lemma new_sketch_aux:
  assumes "new_AGM_Sketch log2 n s = Some sk" "3 < uint (large_prime sk)"
  shows "sketch_holds xxh log2 sid sk (\<lambda>_. 0)"
  using assms gen_r_some [OF assms(2)]
  by (auto simp: new_AGM_Sketch_def sketch_holds_def cell_holds_def Let_def bucket_holds_empty)

lemma plus_buckets_aux:
  assumes P: "uint (large_prime s1) \<le> 2 ^ 127" and h: "sketch_holds xxh log2 sid s1 x" "sketch_holds xxh log2 sid s2 y"
    and c: "compatible s1 s2" and res: "sk_n s = sk_n s1" "sk_seed s = sk_seed s1" "large_prime s = large_prime s1"
      "sk_buckets s = map (\<lambda>i. add_bucket (large_prime s1) (sk_buckets s1 ! i) (sk_buckets s2 ! i)) [0..<length (sk_buckets s1)]"
  shows "sketch_holds xxh log2 sid s (\<lambda>k. x k + y k)"
proof -
  have c': "sk_n s2 = sk_n s1" "sk_seed s2 = sk_seed s1" "large_prime s2 = large_prime s1" using c by (simp_all add: compatible_def)
  have P0: "0 < uint (large_prime s1)" using h(1) by (simp add: sketch_holds_def)
  have len: "length (sk_buckets s2) = length (sk_buckets s1)" using h c' by (simp add: sketch_holds_def)
  have "cell_holds xxh sid (guess_gen log2 (sk_n s)) s (\<lambda>k. x k + y k) q (sk_buckets s ! q)" if q: "q < length (sk_buckets s1)" for q
  proof -
    have "cell_holds xxh sid (guess_gen log2 (sk_n s1)) s1 x q (sk_buckets s1 ! q)"
      "cell_holds xxh sid (guess_gen log2 (sk_n s1)) s2 y q (sk_buckets s2 ! q)"
      using h q len c' by (simp_all add: sketch_holds_def)
    then show ?thesis
      unfolding cell_holds_def Let_def res c' using q by (auto simp: res(4) add_bucket_holds [OF P0 P])
  qed
  then show ?thesis using h(1) by (simp add: sketch_holds_def res(1-3)) (simp add: res(4))
qed

lemma sketch_plus_aux:
  assumes "uint (large_prime s1) \<le> 2 ^ 127" "sketch_holds xxh log2 sid s1 x" "sketch_holds xxh log2 sid s2 y" "compatible s1 s2"
  shows "\<exists>s. sketch_plus log2 s1 s2 = Some s \<and> \<not> already_quered s \<and> sketch_holds xxh log2 sid s (\<lambda>k. x k + y k)"
    "\<exists>s. sketch_plus_assign s1 s2 = Some s \<and> sketch_holds xxh log2 sid s (\<lambda>k. x k + y k)"
proof -
  have g: "generate_prime (ucast (sk_n s1) * ucast (sk_n s1)) = Some (large_prime s1)"
    and len: "length (sk_buckets s1) = bucket_gen log2 (sk_n s1) * guess_gen log2 (sk_n s1)"
    using assms(2) by (simp_all add: sketch_holds_def)
  let ?bs = "map (\<lambda>i. add_bucket (large_prime s1) (sk_buckets s1 ! i) (sk_buckets s2 ! i)) [0..<length (sk_buckets s1)]"
  let ?s = "\<lparr>sk_seed = sk_seed s1, sk_n = sk_n s1, sk_buckets = ?bs, large_prime = large_prime s1, already_quered = False\<rparr>"
  have "sketch_plus log2 s1 s2 = Some ?s"
    using assms(4) by (simp add: sketch_plus_def new_AGM_Sketch_def g len)
  moreover have "sketch_holds xxh log2 sid ?s (\<lambda>k. x k + y k)" by (rule plus_buckets_aux [OF assms]) simp_all
  ultimately show "\<exists>s. sketch_plus log2 s1 s2 = Some s \<and> \<not> already_quered s \<and> sketch_holds xxh log2 sid s (\<lambda>k. x k + y k)" by auto
  have "sketch_holds xxh log2 sid (s1\<lparr>sk_buckets := ?bs, already_quered := already_quered s1 \<or> already_quered s2\<rparr>) (\<lambda>k. x k + y k)"
    by (rule plus_buckets_aux [OF assms]) simp_all
  then show "\<exists>s. sketch_plus_assign s1 s2 = Some s \<and> sketch_holds xxh log2 sid s (\<lambda>k. x k + y k)"
    using assms(4) by (simp add: sketch_plus_assign_def)
qed

lemma sketch_times_aux:
  assumes s: "0 \<le> sint f" "uint (large_prime s1) * sint f \<le> 2 ^ 128" and h: "sketch_holds xxh log2 sid s1 x"
  shows "\<exists>s. sketch_times log2 s1 f = Some s \<and> sketch_holds xxh log2 sid s (\<lambda>k. sint f * x k)"
proof -
  have g: "generate_prime (ucast (sk_n s1) * ucast (sk_n s1)) = Some (large_prime s1)" and P0: "0 < uint (large_prime s1)"
    and len: "length (sk_buckets s1) = bucket_gen log2 (sk_n s1) * guess_gen log2 (sk_n s1)"
    using h by (simp_all add: sketch_holds_def)
  let ?bs = "map (\<lambda>i. scale_bucket (large_prime s1) f (sk_buckets s1 ! i)) [0..<length (sk_buckets s1)]"
  let ?s = "\<lparr>sk_seed = sk_seed s1, sk_n = sk_n s1, sk_buckets = ?bs, large_prime = large_prime s1, already_quered = False\<rparr>"
  have "sketch_times log2 s1 f = Some ?s" by (simp add: sketch_times_def new_AGM_Sketch_def g len)
  moreover have "cell_holds xxh sid (guess_gen log2 (sk_n s1)) ?s (\<lambda>k. sint f * x k) q (?bs ! q)" if q: "q < length (sk_buckets s1)" for q
  proof -
    have "cell_holds xxh sid (guess_gen log2 (sk_n s1)) s1 x q (sk_buckets s1 ! q)" using h q by (simp add: sketch_holds_def)
    then show ?thesis unfolding cell_holds_def Let_def using q by (auto simp: scale_bucket_holds [OF P0 s])
  qed
  then have "sketch_holds xxh log2 sid ?s (\<lambda>k. sint f * x k)" using h by (simp add: sketch_holds_def)
  ultimately show ?thesis by blast
qed

text \<open>Multiplying by -1 does not negate the third field.\<close>

lemma scale_bucket_negative:
  "bucket_c (scale_bucket 5 (- 1) \<lparr>bucket_a = 1, bucket_b = 1, bucket_c = 1\<rparr>) = 0" "(- 1) mod 5 = (4 :: int)"
  by (simp_all add: scale_bucket_def)

section \<open>Queries\<close>

lemma guess_of_0: "guess_of 0 = 1"
  by (simp add: guess_of_def)

lemma contains_1: "contains xxh ix s 1"
  by (simp add: contains_def Let_def)

lemma gen_pos: "0 \<le> log2 (unat n) \<Longrightarrow> 0 < bucket_gen log2 n" "0 \<le> log2 (unat n) \<Longrightarrow> 0 < guess_gen log2 n"
  by (simp_all add: bucket_gen_def guess_gen_def double_to_ull_def zero_less_nat_eq less_floor_iff le_floor_iff)

lemma query_single_aux:
  assumes h: "sketch_holds xxh log2 (\<lambda>q. q div guess_gen log2 (sk_n sk)) sk ((\<lambda>_. 0)(k := d))" and nq: "\<not> already_quered sk"
    and k: "k < unat (sk_n sk)" and d: "d \<noteq> 0" "- (2 ^ 63) \<le> d" "d < 2 ^ 63" and l: "0 \<le> log2 (unat (sk_n sk))"
  shows "query xxh log2 sk = (Inr \<lparr>index = of_nat k, delta = word_of_int d\<rparr>, sk\<lparr>already_quered := True\<rparr>)"
proof -
  define ng nb where "ng = guess_gen log2 (sk_n sk)" and "nb = bucket_gen log2 (sk_n sk)"
  define s where "s = gen_bucket_seed xxh 0 (sk_seed sk)"
  have pos: "0 < ng" "0 < nb" using gen_pos [of log2 "sk_n sk", OF l] by (simp_all add: ng_def nb_def)
  then have "0 < length (sk_buckets sk)" using h by (simp add: sketch_holds_def ng_def nb_def)
  with h have c: "cell_holds xxh (\<lambda>q. q div ng) ng sk ((\<lambda>_. 0)(k := d)) 0 (sk_buckets sk ! 0)" by (simp add: sketch_holds_def ng_def)
  then obtain r where r: "gen_r s (large_prime sk) = Some r"
    "bucket_holds (\<lambda>k. contains xxh (of_nat k) s 1) (unat (sk_n sk)) (large_prime sk) r ((\<lambda>_. 0)(k := d)) (sk_buckets sk ! 0)"
    by (auto simp: cell_holds_def Let_def s_def guess_of_0)
  have P: "1 < uint (large_prime sk)" using h by (simp add: sketch_holds_def)
  note g = single_bucket [OF P k d contains_1 contains_1 r(2)]
  have a: "(ucast (bucket_a (sk_buckets sk ! 0)) :: u64) = word_of_int d"
  proof -
    have "bucket_a (sk_buckets sk ! 0) = word_of_int d" using r(2) k by (simp add: bucket_holds_def vsum_single contains_1)
    moreover have "(ucast (word_of_int d :: u128) :: u64) = word_of_int d" by (rule bit_word_eqI) (auto simp: bit_simps)
    ultimately show ?thesis by simp
  qed
  define sk' where "sk' = sk\<lparr>already_quered := True\<rparr>"
  have up: "[0..<ng] = 0 # [1..<ng]" "[0..<nb] = 0 # [1..<nb]" using pos by (simp_all add: upt_conv_Cons)
  have "query_guesses xxh sk' s r ng 0 [0..<ng] True = Inl \<lparr>index = of_nat k, delta = word_of_int d\<rparr>"
    unfolding up(1) by (simp add: Let_def sk'_def guess_of_0 g(3,4) a)
  then have "query_columns xxh sk' ng [0..<nb] True = Inr \<lparr>index = of_nat k, delta = word_of_int d\<rparr>"
    unfolding up(2) by (simp add: Let_def s_def sk'_def r(1) [unfolded s_def])
  then show ?thesis using nq by (simp add: query_def Let_def sk'_def ng_def nb_def)
qed

lemma query_zero_aux:
  assumes h: "sketch_holds xxh log2 (\<lambda>q. q div guess_gen log2 (sk_n sk)) sk (\<lambda>_. 0)" and nq: "\<not> already_quered sk"
  shows "query xxh log2 sk = (Inl AllBucketsZeroException, sk\<lparr>already_quered := True\<rparr>)"
proof -
  define ng nb where "ng = guess_gen log2 (sk_n sk)" and "nb = bucket_gen log2 (sk_n sk)"
  define sk' where "sk' = sk\<lparr>already_quered := True\<rparr>"
  have P: "3 < uint (large_prime sk)" and len: "length (sk_buckets sk) = nb * ng" using h by (simp_all add: sketch_holds_def ng_def nb_def)
  have z: "sk_buckets sk ! q = empty_bucket" if "q < nb * ng" for q
    using h that len by (auto simp: sketch_holds_def cell_holds_def Let_def bucket_holds_def empty_bucket_def uint_0_iff)
  have g: "query_guesses xxh sk' s r ng i js True = Inr True" if "i < nb" "set js \<subseteq> {..<ng}" for s r i js
    using that(2)
  proof (induction js)
    case (Cons j js)
    have "i * ng + j < nb * ng" using that(1) Cons.prems cell_index [of nb ng "i * ng + j"] by auto
    then show ?case using Cons by (simp add: Let_def sk'_def z empty_bucket_def is_good_def)
  qed simp
  have "query_columns xxh sk' ng is True = Inl AllBucketsZeroException" if "set is \<subseteq> {..<nb}" for "is"
    using that
  proof (induction "is")
    case (Cons i "is")
    obtain r where "gen_r (gen_bucket_seed xxh (of_nat i) (sk_seed sk')) (large_prime sk') = Some r"
      using gen_r_some [OF P] by (auto simp: sk'_def)
    moreover have "query_guesses xxh sk' s r ng i [0..<ng] True = Inr True" for s using Cons.prems by (intro g) auto
    ultimately show ?case using Cons by (simp add: Let_def)
  qed simp
  from this [of "[0..<nb]"] show ?thesis using nq by (auto simp: query_def Let_def sk'_def ng_def nb_def atLeast0LessThan)
qed

section \<open>Batches\<close>

lemma cached_update_eq:
  assumes "index upd < n" "unat n < 2 ^ Suc (nat \<lfloor>log2 (unat n)\<rfloor>)"
  shows "cached_update upd P (gen_sq_cache (\<lambda>x. nat \<lfloor>log2 (unat x)\<rfloor>) r (ucast n) P) bk = Some (bucket_update upd P r bk)"
proof -
  have un: "unat (ucast n :: u128) = unat n"
    using unat_u64_less [of n] by (simp add: unsigned_ucast_eq take_bit_nat_eq_self)
  have "unat (index upd) < unat n" using assms(1) by (simp add: word_less_nat_alt)
  moreover from this have "unat (index upd + 1) = unat (index upd) + 1"
    using unat_u64_less [of n] unat_add_fits [of "index upd" 1] by simp
  ultimately have "unat (index upd + 1) \<le> unat n" by simp
  moreover have "unat (ucast (index upd + 1) :: u128) = unat (index upd + 1)"
    using unat_u64_less [of "index upd + 1"] by (simp add: unsigned_ucast_eq take_bit_nat_eq_self)
  ultimately have "unat (ucast (index upd + 1) :: u128) < 2 ^ Suc (nat \<lfloor>log2 (unat (ucast n :: u128))\<rfloor>)"
    unfolding un using assms(2) by linarith
  from cached_powermod_eq [where ?log2.0 = "\<lambda>x. nat \<lfloor>log2 (unat x)\<rfloor>", OF this] show ?thesis
    by (simp only: cached_update_def bucket_update_def option.map)
qed

text \<open>The effect of a list of updates on a vector.\<close>

definition apply_updates :: "Update list \<Rightarrow> (nat \<Rightarrow> int) \<Rightarrow> nat \<Rightarrow> int" where
  "apply_updates upds x = fold (\<lambda>u y. add_coord y (unat (index u)) (sint (delta u))) upds x"

lemma batch_items_hold:
  assumes P: "1 < uint P" and lg: "unat n < 2 ^ Suc (nat \<lfloor>log2 (unat n)\<rfloor>)" and ix: "\<forall>u \<in> set upds. index u < n"
  shows "\<exists>bk'. for_each (batch_item xxh P s j (gen_sq_cache (\<lambda>x. nat \<lfloor>log2 (unat x)\<rfloor>) r (ucast n) P)) upds bk = Some bk' \<and>
    (\<forall>x. bucket_holds (\<lambda>k. contains xxh (of_nat k) s (guess_of j)) (unat n) P r x bk \<longrightarrow>
       bucket_holds (\<lambda>k. contains xxh (of_nat k) s (guess_of j)) (unat n) P r (apply_updates upds x) bk')"
  using ix
proof (induction upds arbitrary: bk)
  case Nil
  then show ?case by (simp add: apply_updates_def)
next
  case (Cons u upds)
  let ?M = "\<lambda>k. contains xxh (of_nat k) s (guess_of j)" and ?c = "gen_sq_cache (\<lambda>x. nat \<lfloor>log2 (unat x)\<rfloor>) r (ucast n) P"
  let ?b = "if contains xxh (index u) s (guess_of j) then bucket_update u P r bk else bk"
  have "index u < n" using Cons.prems(1) by simp
  then have ix': "unat (index u) < unat n" by (simp add: word_less_nat_alt)
  have "batch_item xxh P s j ?c u bk = Some ?b"
    using cached_update_eq [where ?log2.0 = log2, OF \<open>index u < n\<close> lg] by (simp add: batch_item_def)
  moreover have "bucket_holds ?M (unat n) P r (add_coord x (unat (index u)) (sint (delta u))) ?b" if "bucket_holds ?M (unat n) P r x bk" for x
    using bucket_update_holds [OF P ix' unat_u64_less, where M = ?M] bucket_skip_holds [OF ix', where M = ?M] that by auto
  ultimately show ?case using Cons.IH [of ?b] Cons.prems(1) by (auto simp: apply_updates_def)
qed

lemma batch_bucket_rewrites:
  assumes P: "3 < uint (large_prime sk)" and lg: "unat (sk_n sk) < 2 ^ Suc (nat \<lfloor>log2 (unat (sk_n sk))\<rfloor>)"
    and ix: "\<forall>u \<in> set upds. index u < sk_n sk" and j: "j < ng"
  shows "rewrites_cells (\<lambda>q. q = i * ng + j) (step_ok xxh (\<lambda>q. q) ng sk (apply_updates upds)) bs
    (batch_bucket xxh log2 sk upds ng i j bs)"
proof -
  let ?s = "gen_bucket_seed xxh (of_nat (i * ng + j)) (sk_seed sk)" and ?b = "bs ! (i * ng + j)"
  have P1: "1 < uint (large_prime sk)" using P by simp
  have q: "(i * ng + j) mod ng = j" using j by simp
  obtain r where r: "gen_r ?s (large_prime sk) = Some r" using gen_r_some [OF P] by blast
  from batch_items_hold [where ?log2.0 = log2, OF P1 lg ix, of xxh ?s j r ?b] obtain bk where
    bk: "for_each (batch_item xxh (large_prime sk) ?s j
        (gen_sq_cache (\<lambda>x. nat \<lfloor>log2 (unat x)\<rfloor>) r (ucast (sk_n sk)) (large_prime sk))) upds ?b = Some bk"
    and hold: "\<And>x. bucket_holds (\<lambda>k. contains xxh (of_nat k) ?s (guess_of j)) (unat (sk_n sk)) (large_prime sk) r x ?b \<Longrightarrow>
       bucket_holds (\<lambda>k. contains xxh (of_nat k) ?s (guess_of j)) (unat (sk_n sk)) (large_prime sk) r (apply_updates upds x) bk"
    by blast
  have "batch_bucket xxh log2 sk upds ng i j bs = Some (bs[i * ng + j := bk])"
    unfolding batch_bucket_def Let_def r using bk by simp
  moreover have "step_ok xxh (\<lambda>q. q) ng sk (apply_updates upds) (i * ng + j) ?b bk"
    unfolding step_ok_def cell_holds_def Let_def q r using hold by auto
  ultimately show ?thesis by (auto simp: rewrites_cells_def nth_list_update)
qed

lemma batch_update_aux:
  assumes h: "sketch_holds xxh log2 (\<lambda>q. q) sk x" and ix: "\<forall>u \<in> set upds. index u < sk_n sk"
    and lg: "unat (sk_n sk) < 2 ^ Suc (nat \<lfloor>log2 (unat (sk_n sk))\<rfloor>)"
  shows "\<exists>sk'. batch_update xxh log2 sk upds = Some sk' \<and> sketch_holds xxh log2 (\<lambda>q. q) sk' (apply_updates upds x)"
proof -
  define ng nb where "ng = guess_gen log2 (sk_n sk)" and "nb = bucket_gen log2 (sk_n sk)"
  define R where "R = step_ok xxh (\<lambda>q. q) ng sk (apply_updates upds)"
  from h have P: "3 < uint (large_prime sk)" and len: "length (sk_buckets sk) = nb * ng" by (simp_all add: sketch_holds_def ng_def nb_def)
  have "rewrites_cells (\<lambda>q. \<exists>j < ng. q = i * ng + j) R bs (for_each (batch_bucket xxh log2 sk upds ng i) [0..<ng] bs)" for i bs
    unfolding R_def by (rule column_rewrites [OF _ refl]) (rule batch_bucket_rewrites [where ?log2.0 = log2, OF P lg ix])
  then have "rewrites_cells (\<lambda>q. q < length (sk_buckets sk)) R (sk_buckets sk)
      (for_each (\<lambda>i. for_each (batch_bucket xxh log2 sk upds ng i) [0..<ng]) [0..<nb] (sk_buckets sk))"
    by (intro nested_rewrites [OF _ len])
  from sketch_step [OF h this [unfolded R_def ng_def]] show ?thesis
    by (auto simp: batch_update_def Let_def ng_def nb_def)
qed

section \<open>The interface of a linear summary\<close>

text \<open>
  What a user of the sketch relies on: a new summary stands for the zero vector, an accepted update succeeds and adds to one
  coordinate, a sum of summaries stands for the sum of the vectors, and a summary of one coordinate gives it back.
\<close>

locale linear_summary =
  fixes holds :: "'s \<Rightarrow> (nat \<Rightarrow> int) \<Rightarrow> bool"
    and upd :: "'s \<Rightarrow> 'u \<Rightarrow> 's option"
    and accepts :: "'u \<Rightarrow> bool"
    and effect :: "'u \<Rightarrow> (nat \<Rightarrow> int) \<Rightarrow> nat \<Rightarrow> int"
    and plus :: "'s \<Rightarrow> 's \<Rightarrow> 's option"
    and compat :: "'s \<Rightarrow> 's \<Rightarrow> bool"
    and answer :: "'s \<Rightarrow> 'a"
    and expected :: "nat \<Rightarrow> int \<Rightarrow> 'a"
    and answerable :: "nat \<Rightarrow> int \<Rightarrow> bool"
  assumes upd_holds: "holds s x \<Longrightarrow> accepts u \<Longrightarrow> \<exists>s'. upd s u = Some s' \<and> holds s' (effect u x) \<and> (\<forall>t. compat s' t = compat s t) \<and> (\<forall>t. compat t s' = compat t s)"
    and plus_holds: "holds s x \<Longrightarrow> holds t y \<Longrightarrow> compat s t \<Longrightarrow> \<exists>r. plus s t = Some r \<and> holds r (\<lambda>k. x k + y k)"
    and answer_holds: "holds s ((\<lambda>_. 0)(k := d)) \<Longrightarrow> answerable k d \<Longrightarrow> answer s = expected k d"
begin

lemma stream_holds:
  "holds s x \<Longrightarrow> \<forall>u \<in> set us. accepts u \<Longrightarrow>
   \<exists>s'. for_each (\<lambda>u s. upd s u) us s = Some s' \<and> holds s' (fold effect us x) \<and> (\<forall>t. compat s' t = compat s t) \<and> (\<forall>t. compat t s' = compat t s)"
proof (induction us arbitrary: s x)
  case (Cons u us)
  then obtain s1 where s1: "upd s u = Some s1" "holds s1 (effect u x)" "\<forall>t. compat s1 t = compat s t" "\<forall>t. compat t s1 = compat t s"
    using upd_holds [of s x u] by auto
  with Cons.IH [OF s1(2)] Cons.prems(2) show ?case by auto
qed simp

text \<open>Two streams summarised apart and then added: when their sum is one coordinate, the answer is that coordinate.\<close>

lemma split_streams_answer:
  assumes s: "holds s (\<lambda>_. 0)" "holds t (\<lambda>_. 0)" "compat s t" and us: "\<forall>u \<in> set us. accepts u" "\<forall>u \<in> set vs. accepts u"
    and sum: "\<And>i. fold effect us (\<lambda>_. 0) i + fold effect vs (\<lambda>_. 0) i = ((\<lambda>_. 0)(k := d)) i" and a: "answerable k d"
  shows "\<exists>s' t' r. for_each (\<lambda>u s. upd s u) us s = Some s' \<and> for_each (\<lambda>u s. upd s u) vs t = Some t' \<and> plus s' t' = Some r \<and>
    answer r = expected k d"
proof -
  from stream_holds [OF s(1) us(1)] obtain s' where s': "for_each (\<lambda>u s. upd s u) us s = Some s'" "holds s' (fold effect us (\<lambda>_. 0))"
    "\<forall>t. compat s' t = compat s t" by blast
  from stream_holds [OF s(2) us(2)] obtain t' where t': "for_each (\<lambda>u s. upd s u) vs t = Some t'" "holds t' (fold effect vs (\<lambda>_. 0))"
    "\<forall>q. compat q t' = compat q t" by blast
  have "compat s' t'" using s(3) s'(3) t'(3) by simp
  from plus_holds [OF s'(2) t'(2) this] obtain r where r: "plus s' t' = Some r"
    "holds r (\<lambda>i. fold effect us (\<lambda>_. 0) i + fold effect vs (\<lambda>_. 0) i)" by blast
  have "holds r ((\<lambda>_. 0)(k := d))" using r(2) unfolding sum .
  from answer_holds [OF this a] s'(1) t'(1) r(1) show ?thesis by blast
qed

end

text \<open>The sketch of \<open>n\<close> coordinates provides it, as long as its modulus leaves room for the sum of two residues.\<close>

abbreviation column_of :: "(nat \<Rightarrow> real) \<Rightarrow> vec_t \<Rightarrow> nat \<Rightarrow> nat" where
  "column_of log2 n \<equiv> (\<lambda>q. q div guess_gen log2 n)"

definition agm_holds :: "xxh64 \<Rightarrow> (nat \<Rightarrow> real) \<Rightarrow> vec_t \<Rightarrow> AGM_Sketch \<Rightarrow> (nat \<Rightarrow> int) \<Rightarrow> bool" where
  "agm_holds xxh log2 n sk x \<longleftrightarrow>
    sk_n sk = n \<and> \<not> already_quered sk \<and> uint (large_prime sk) \<le> 2 ^ 127 \<and> sketch_holds xxh log2 (column_of log2 n) sk x"

lemma update_keeps: "sketch_update xxh log2 sk u = Some sk' \<Longrightarrow> sk_n sk' = sk_n sk \<and> sk_seed sk' = sk_seed sk \<and>
    large_prime sk' = large_prime sk \<and> already_quered sk' = already_quered sk"
  by (auto simp: sketch_update_def Let_def bind_eq_Some_conv)

interpretation agm: linear_summary "agm_holds xxh log2 n" "sketch_update xxh log2" "\<lambda>u. index u < n"
  "\<lambda>u x. add_coord x (unat (index u)) (sint (delta u))" "sketch_plus log2" compatible "\<lambda>s. fst (query xxh log2 s)"
  "\<lambda>k d. Inr \<lparr>index = of_nat k, delta = word_of_int d\<rparr>"
  "\<lambda>k d. k < unat n \<and> d \<noteq> 0 \<and> - (2 ^ 63) \<le> d \<and> d < 2 ^ 63 \<and> 0 \<le> log2 (unat n)"
  for xxh :: xxh64 and log2 :: "nat \<Rightarrow> real" and n :: vec_t
proof
  fix s x and u :: Update
  assume h: "agm_holds xxh log2 n s x" and u: "index u < n"
  from h u obtain s' where s': "sketch_update xxh log2 s u = Some s'"
    "sketch_holds xxh log2 (column_of log2 n) s' (add_coord x (unat (index u)) (sint (delta u)))"
    using sketch_update_aux [of xxh log2 s x u] by (auto simp: agm_holds_def)
  with update_keeps [OF s'(1)] h
  show "\<exists>s'. sketch_update xxh log2 s u = Some s' \<and> agm_holds xxh log2 n s' (add_coord x (unat (index u)) (sint (delta u))) \<and>
      (\<forall>t. compatible s' t = compatible s t) \<and> (\<forall>t. compatible t s' = compatible t s)"
    by (simp add: agm_holds_def compatible_def)
next
  fix s x t y
  assume h: "agm_holds xxh log2 n s x" "agm_holds xxh log2 n t y" and c: "compatible s t"
  then obtain r where r: "sketch_plus log2 s t = Some r" "\<not> already_quered r"
    "sketch_holds xxh log2 (column_of log2 n) r (\<lambda>k. x k + y k)"
    using sketch_plus_aux(1) [of s xxh log2 "column_of log2 n" x t y] by (auto simp: agm_holds_def)
  have "sk_n r = n" "large_prime r = large_prime s"
    using r(1) h by (auto simp: sketch_plus_def new_AGM_Sketch_def agm_holds_def sketch_holds_def split: if_splits)
  with r h show "\<exists>r. sketch_plus log2 s t = Some r \<and> agm_holds xxh log2 n r (\<lambda>k. x k + y k)"
    by (simp add: agm_holds_def)
next
  fix s k d
  assume "agm_holds xxh log2 n s ((\<lambda>_. 0)(k := d))" "k < unat n \<and> d \<noteq> 0 \<and> - (2 ^ 63) \<le> d \<and> d < 2 ^ 63 \<and> 0 \<le> log2 (unat n)"
  then show "fst (query xxh log2 s) = Inr \<lparr>index = of_nat k, delta = word_of_int d\<rparr>"
    using query_single_aux [of xxh log2 s k d] by (auto simp: agm_holds_def)
qed

section \<open>Properties\<close>

text \<open>A concrete hash function and logarithm, and a new sketch of four coordinates with modulus 17.\<close>

definition sample_xxh :: xxh64 where
  "sample_xxh bs s = s + ucast (hd bs)"

definition sample_log2 :: "nat \<Rightarrow> real" where
  "sample_log2 n = 2"

definition sample_sketch :: AGM_Sketch where
  "sample_sketch = \<lparr>sk_seed = 0, sk_n = 4, sk_buckets = replicate 12 empty_bucket, large_prime = 17, already_quered = False\<rparr>"

lemma sample_gen: "bucket_gen sample_log2 n = 3" "guess_gen sample_log2 n = 4"
  by (simp_all add: bucket_gen_def guess_gen_def double_to_ull_def sample_log2_def floor_eq_iff)

lemma sample_new: "new_AGM_Sketch sample_log2 4 0 = Some sample_sketch"
proof -
  have "generate_prime 16 = Some 17" by code_simp
  then show ?thesis by (simp add: new_AGM_Sketch_def sample_sketch_def sample_gen)
qed

lemma sample_sketch_fields: "large_prime sample_sketch = 17" "sk_n sample_sketch = 4" "already_quered sample_sketch = False"
  by (simp_all add: sample_sketch_def)

lemma sample_sketch_holds: "sketch_holds xxh sample_log2 sid sample_sketch (\<lambda>_. 0)"
  using new_sketch_aux [OF sample_new] by (simp add: sample_sketch_fields)





text \<open>
  C26.  Both additions are the addition of vectors, on sketches of the same size, seed and modulus; the modulus must leave a bit of room
  in 128 bits.
\<close>

theorem sketch_plus_linear:
  assumes "uint (large_prime s1) \<le> 2 ^ 127" "sketch_holds xxh log2 sid s1 x" "sketch_holds xxh log2 sid s2 y" "compatible s1 s2"
  shows "(\<exists>s. sketch_plus log2 s1 s2 = Some s \<and> sketch_holds xxh log2 sid s (\<lambda>k. x k + y k)) \<and>
    (\<exists>s. sketch_plus_assign s1 s2 = Some s \<and> sketch_holds xxh log2 sid s (\<lambda>k. x k + y k))"
  using sketch_plus_aux [OF assms] by blast

theorem sketch_plus_linear_witness: "\<exists>s. sketch_plus sample_log2 sample_sketch sample_sketch = Some s \<and>
    sketch_holds sample_xxh sample_log2 (\<lambda>q. q) s (\<lambda>k. 0 + 0)"
  using sketch_plus_linear [OF _ sample_sketch_holds sample_sketch_holds, of sample_xxh "\<lambda>q. q"]
  by (simp add: sample_sketch_fields compatible_def)



text \<open>
  A sketch of the zero vector answers the first query with the all-buckets-zero exception, and any sketch answers every later query with the
  multiple-query exception and stays as it is.
\<close>

theorem query_errors:
  assumes "sketch_holds xxh log2 (column_of log2 (sk_n sk)) sk (\<lambda>_. 0)" "\<not> already_quered sk"
  shows "query xxh log2 sk = (Inl AllBucketsZeroException, sk\<lparr>already_quered := True\<rparr>) \<and>
    query xxh log2 (snd (query xxh log2 s)) = (Inl MultipleQueryException, snd (query xxh log2 s))"
proof -
  have "already_quered (snd (query xxh log2 s))" by (simp add: query_def Let_def)
  then show ?thesis using query_zero_aux [OF assms] by (simp add: query_def [of xxh log2 "snd (query xxh log2 s)"])
qed

theorem query_errors_witness: "fst (query sample_xxh sample_log2 sample_sketch) = Inl AllBucketsZeroException"
  using query_errors [OF sample_sketch_holds, of sample_xxh] by (simp add: sample_sketch_fields)

end
