(* ===== verification/Int127.thy ===== *)
theory Int127
  imports Prelude "HOL-Library.Signed_Division"
begin

unbundle bit_operations_syntax

text \<open>
  The sign-and-magnitude integer of \<^verbatim>\<open>sketch_expr/agm_sketching/src/int127.cpp\<close>: bit 127 of a 128-bit word is the sign, the rest the
  magnitude.  Boost's \<^verbatim>\<open>int128_t\<close> has a 128-bit magnitude of its own, so the sums, differences and quotients of two such numbers are
  exact in it and are integers here; its product, which may not be, is the parameter \<open>mul128\<close>.
\<close>

section \<open>Definitions\<close>

record int127 =
  m_value :: u128

datatype int127_error = Int127OverflowException | InvalidUInt128CastException | Boost_division_by_zero

definition high_bitmask :: u128 where
  "high_bitmask = 0x80000000000000000000000000000000"

definition low_bitmask :: int where
  "low_bitmask = 0x7FFFFFFFFFFFFFFFFFFFFFFFFFFFFFFF"

definition toBoostInt128 :: "int127 \<Rightarrow> int" where
  "toBoostInt128 x =
    (if m_value x AND high_bitmask \<noteq> 0 then let retval = uint (m_value x) in - (retval AND low_bitmask)
     else uint (m_value x))"

definition toBoostUInt128 :: "int127 \<Rightarrow> int127_error + u128" where
  "toBoostUInt128 x = (if m_value x AND high_bitmask \<noteq> 0 then Inl InvalidUInt128CastException else Inr (m_value x))"

definition int127_of_int128 :: "int \<Rightarrow> int127_error + int127" where
  "int127_of_int128 x =
    (if \<bar>x\<bar> AND uint high_bitmask \<noteq> 0 then Inl Int127OverflowException
     else if x < 0 then Inr \<lparr>m_value = word_of_int (- x + uint high_bitmask)\<rparr>
     else Inr \<lparr>m_value = word_of_int x\<rparr>)"

definition int127_of_ulong :: "u64 \<Rightarrow> int127" where
  "int127_of_ulong x = \<lparr>m_value = ucast x\<rparr>"

definition int127_of_long :: "u64 \<Rightarrow> int127" where
  "int127_of_long x =
    (if sint x < 0 then \<lparr>m_value = high_bitmask + word_of_int (sint (- x))\<rparr> else \<lparr>m_value = word_of_int (sint x)\<rparr>)"

definition int127_of_int :: "u32 \<Rightarrow> int127" where
  "int127_of_int x =
    (if sint x < 0 then \<lparr>m_value = high_bitmask + word_of_int (sint (- x))\<rparr> else \<lparr>m_value = word_of_int (sint x)\<rparr>)"

definition int127_plus :: "int127 \<Rightarrow> int127 \<Rightarrow> int127_error + int127" where
  "int127_plus lhs rhs = int127_of_int128 (toBoostInt128 lhs + toBoostInt128 rhs)"

definition int127_minus :: "int127 \<Rightarrow> int127 \<Rightarrow> int127_error + int127" where
  "int127_minus lhs rhs = int127_of_int128 (toBoostInt128 lhs - toBoostInt128 rhs)"

definition int127_plus_assign :: "int127 \<Rightarrow> int127 \<Rightarrow> int127_error + int127" where
  "int127_plus_assign lhs rhs =
    (let temp = toBoostInt128 lhs + toBoostInt128 rhs in
     if \<bar>temp\<bar> AND uint high_bitmask \<noteq> 0 then Inl Int127OverflowException
     else if temp < 0 then Inr (lhs\<lparr>m_value := word_of_int (- temp + uint high_bitmask)\<rparr>)
     else Inr (lhs\<lparr>m_value := word_of_int temp\<rparr>))"

definition int127_div :: "int127 \<Rightarrow> int127 \<Rightarrow> int127_error + int127" where
  "int127_div lhs rhs =
    (if toBoostInt128 rhs = 0 then Inl Boost_division_by_zero else int127_of_int128 (toBoostInt128 lhs sdiv toBoostInt128 rhs))"

definition int127_mod :: "int127 \<Rightarrow> int127 \<Rightarrow> int127_error + int127" where
  "int127_mod lhs rhs =
    (if toBoostInt128 rhs = 0 then Inl Boost_division_by_zero else int127_of_int128 (toBoostInt128 lhs smod toBoostInt128 rhs))"

definition int127_eq :: "int127 \<Rightarrow> int127 \<Rightarrow> bool" where
  "int127_eq lhs rhs = (m_value lhs = m_value rhs)"

definition int127_neq :: "int127 \<Rightarrow> int127 \<Rightarrow> bool" where
  "int127_neq lhs rhs = (m_value lhs \<noteq> m_value rhs)"

definition int127_gt :: "int127 \<Rightarrow> int127 \<Rightarrow> bool" where
  "int127_gt lhs rhs = (toBoostInt128 lhs > toBoostInt128 rhs)"

definition int127_le :: "int127 \<Rightarrow> int127 \<Rightarrow> bool" where
  "int127_le lhs rhs = (toBoostInt128 lhs \<le> toBoostInt128 rhs)"

definition int127_times :: "(int \<Rightarrow> int \<Rightarrow> int) \<Rightarrow> int127 \<Rightarrow> u64 \<Rightarrow> int127_error + int127" where
  "int127_times mul128 lhs rhs = int127_of_int128 (mul128 (toBoostInt128 lhs) (sint rhs))"

definition int127_neq_longlong :: "int127 \<Rightarrow> u64 \<Rightarrow> bool" where
  "int127_neq_longlong lhs rhs = (uint (m_value lhs) \<noteq> sint rhs)"

section \<open>Values\<close>

text \<open>The words the constructors make: all but the negative zero.\<close>

definition normal :: "int127 \<Rightarrow> bool" where
  "normal x \<longleftrightarrow> m_value x \<noteq> high_bitmask"

lemma high_bitmask_eq: "high_bitmask = 2 ^ 127" "uint high_bitmask = 2 ^ 127"
  by (simp_all add: high_bitmask_def)

lemma int_bit_127:
  fixes v :: int
  assumes "0 \<le> v" "v < 2 ^ 128"
  shows "bit v 127 \<longleftrightarrow> 2 ^ 127 \<le> v"
proof (cases "2 ^ 127 \<le> v")
  case True
  have "v div 2 ^ 127 = 1 + (v - 2 ^ 127) div 2 ^ 127" using True by (intro div_pos_geq [THEN trans]) simp_all
  also have "(v - 2 ^ 127) div 2 ^ 127 = 0" using True assms by (intro div_pos_pos_trivial) simp_all
  finally have "v div 2 ^ 127 = 1" by simp
  then have "odd (v div 2 ^ 127)" by simp
  with True show ?thesis by (simp only: bit_iff_odd not_False_eq_True)
next
  case False
  then have "v div 2 ^ 127 = 0" using assms by (intro div_pos_pos_trivial) simp_all
  then have "\<not> odd (v div 2 ^ 127)" by simp
  with False show ?thesis by (simp only: bit_iff_odd)
qed

lemma high_set: "m_value x AND high_bitmask \<noteq> 0 \<longleftrightarrow> 2 ^ 127 \<le> uint (m_value x)"
proof -
  have "uint (m_value x) < 2 ^ 128" using uint_bounded [of "m_value x"] by simp
  then have "bit (uint (m_value x)) 127 \<longleftrightarrow> 2 ^ 127 \<le> uint (m_value x)" by (intro int_bit_127) simp_all
  moreover have "bit (uint (m_value x)) 127 \<longleftrightarrow> bit (m_value x) 127" by (simp only: bit_uint_iff) simp
  ultimately show ?thesis by (simp only: high_bitmask_eq(1) and_exp_eq_0_iff_not_bit) simp
qed

lemma toBoostInt128_eq:
  "toBoostInt128 x = (if 2 ^ 127 \<le> uint (m_value x) then - (uint (m_value x) - 2 ^ 127) else uint (m_value x))"
proof -
  have m: "low_bitmask = mask 127" by (simp add: low_bitmask_def mask_eq_exp_minus_1)
  have "uint (m_value x) AND low_bitmask = uint (m_value x) mod 2 ^ 127"
    by (simp only: m take_bit_eq_mask [symmetric] take_bit_eq_mod)
  moreover have "uint (m_value x) mod 2 ^ 127 = uint (m_value x) - 2 ^ 127" if "2 ^ 127 \<le> uint (m_value x)"
  proof -
    have "uint (m_value x) mod 2 ^ 127 = (uint (m_value x) - 2 ^ 127) mod 2 ^ 127" using that by (intro mod_pos_geq) simp_all
    also have "\<dots> = uint (m_value x) - 2 ^ 127" using that uint_bounded [of "m_value x"] by (intro mod_pos_pos_trivial) simp_all
    finally show ?thesis .
  qed
  ultimately show ?thesis by (simp add: toBoostInt128_def high_set)
qed

lemma toBoostInt128_bound: "\<bar>toBoostInt128 x\<bar> < 2 ^ 127"
  using uint_bounded [of "m_value x"] by (simp add: toBoostInt128_eq)

lemma uint_of_int: "0 \<le> v \<Longrightarrow> v < 2 ^ 128 \<Longrightarrow> uint (word_of_int v :: u128) = v"
  by (simp add: uint_word_of_int)

text \<open>The checked constructor: exact below \<open>2 ^ 127\<close>, the exception from there on.\<close>

lemma int127_of_int128_ok:
  assumes "\<bar>x\<bar> < 2 ^ 127"
  shows "\<exists>v. int127_of_int128 x = Inr v \<and> toBoostInt128 v = x \<and> normal v"
proof -
  have "\<not> bit \<bar>x\<bar> 127" using assms by (subst int_bit_127) auto
  then have g: "\<bar>x\<bar> AND uint high_bitmask = 0" by (simp only: high_bitmask_eq(2) and_exp_eq_0_iff_not_bit not_False_eq_True)
  show ?thesis
  proof (cases "x < 0")
    case True
    define v :: int127 where "v = \<lparr>m_value = word_of_int (- x + 2 ^ 127)\<rparr>"
    have u: "uint (m_value v) = - x + 2 ^ 127"
      unfolding v_def int127.select_convs using assms True by (intro uint_of_int) (simp_all add: abs_if)
    have "int127_of_int128 x = Inr v" using g True by (simp add: int127_of_int128_def v_def high_bitmask_eq(2))
    moreover have "toBoostInt128 v = x" using True by (simp add: toBoostInt128_eq u)
    moreover have "uint (m_value v) \<noteq> uint high_bitmask" using True by (simp add: u high_bitmask_eq(2))
    then have "normal v" by (auto simp: normal_def)
    ultimately show ?thesis by blast
  next
    case False
    define v :: int127 where "v = \<lparr>m_value = word_of_int x\<rparr>"
    have u: "uint (m_value v) = x"
      unfolding v_def int127.select_convs using assms False by (intro uint_of_int) (simp_all add: abs_if)
    have "int127_of_int128 x = Inr v" using g False by (simp add: int127_of_int128_def v_def)
    moreover have "toBoostInt128 v = x" using assms False by (simp add: toBoostInt128_eq u)
    moreover have "uint (m_value v) \<noteq> uint high_bitmask" using assms False by (simp add: u high_bitmask_eq(2))
    then have "normal v" by (auto simp: normal_def)
    ultimately show ?thesis by blast
  qed
qed

lemma int127_of_int128_overflow:
  assumes "2 ^ 127 \<le> \<bar>x\<bar>" "\<bar>x\<bar> < 2 ^ 128"
  shows "int127_of_int128 x = Inl Int127OverflowException"
proof -
  have "bit \<bar>x\<bar> 127" using assms by (subst int_bit_127) auto
  then have "\<bar>x\<bar> AND uint high_bitmask \<noteq> 0" by (simp only: high_bitmask_eq(2) and_exp_eq_0_iff_not_bit) simp
  then show ?thesis by (simp add: int127_of_int128_def)
qed

lemma sign_magnitude_inj:
  fixes u v :: int
  assumes "0 \<le> u" "0 \<le> v" "u \<noteq> 2 ^ 127" "v \<noteq> 2 ^ 127"
    "(if 2 ^ 127 \<le> u then - (u - 2 ^ 127) else u) = (if 2 ^ 127 \<le> v then - (v - 2 ^ 127) else v)"
  shows "u = v"
  using assms by (auto split: if_splits)

lemma normal_eq_iff:
  assumes "normal x" "normal y"
  shows "int127_eq x y \<longleftrightarrow> toBoostInt128 x = toBoostInt128 y"
proof
  assume eq: "toBoostInt128 x = toBoostInt128 y"
  have n: "uint (m_value x) \<noteq> 2 ^ 127" "uint (m_value y) \<noteq> 2 ^ 127"
    using assms unfolding normal_def high_bitmask_eq(2) [symmetric] by (simp_all add: word_uint_eq_iff)
  have "uint (m_value x) = uint (m_value y)"
    by (rule sign_magnitude_inj [OF uint_nonnegative uint_nonnegative n eq [unfolded toBoostInt128_eq]])
  then show "int127_eq x y" by (simp add: int127_eq_def word_uint_eq_iff)
qed (simp add: int127_eq_def toBoostInt128_eq)

lemma plus_assign_eq: "int127_plus_assign x y = int127_plus x y"
  by (simp add: int127_plus_assign_def int127_plus_def int127_of_int128_def Let_def)

lemma neq_longlong_negative: "int127_neq_longlong (int127_of_long (- 5)) (- 5)" "toBoostInt128 (int127_of_long (- 5)) = - 5"
  by (simp_all add: int127_neq_longlong_def int127_of_long_def toBoostInt128_eq high_bitmask_def)

section \<open>Properties\<close>

text \<open>
  C33.  Addition, its assignment form and subtraction are exact when the result has a magnitude below \<open>2 ^ 127\<close>, and throw the overflow
  exception otherwise; the results compare equal exactly when they are the same number.
\<close>

theorem int127_arith_exact:
  "int127_plus_assign a b = int127_plus a b \<and>
   (let s = toBoostInt128 a + toBoostInt128 b in
     if \<bar>s\<bar> < 2 ^ 127 then \<exists>v. int127_plus a b = Inr v \<and> toBoostInt128 v = s \<and> normal v
     else int127_plus a b = Inl Int127OverflowException) \<and>
   (let s = toBoostInt128 a - toBoostInt128 b in
     if \<bar>s\<bar> < 2 ^ 127 then \<exists>v. int127_minus a b = Inr v \<and> toBoostInt128 v = s \<and> normal v
     else int127_minus a b = Inl Int127OverflowException) \<and>
   (\<not> (normal a \<and> normal b) \<or> int127_eq a b = (toBoostInt128 a = toBoostInt128 b))"
proof -
  have b: "\<bar>toBoostInt128 a + toBoostInt128 b\<bar> < 2 ^ 128" "\<bar>toBoostInt128 a - toBoostInt128 b\<bar> < 2 ^ 128"
    using toBoostInt128_bound [of a] toBoostInt128_bound [of b] by (simp_all add: abs_less_iff)
  then show ?thesis
    by (auto simp: plus_assign_eq int127_plus_def int127_minus_def Let_def normal_eq_iff not_less
        intro: int127_of_int128_ok int127_of_int128_overflow)
qed

theorem int127_arith_exact_witness:
  "\<exists>v. int127_plus (int127_of_long 3) (int127_of_long (- 5)) = Inr v \<and> toBoostInt128 v = - 2"
  using int127_arith_exact [of "int127_of_long 3" "int127_of_long (- 5)"]
  by (auto simp: int127_of_long_def toBoostInt128_eq high_bitmask_def Let_def)

end
