(* ===== verification/PMA_Lock.thy ===== *)
theory PMA_Lock
  imports Prelude
begin

unbundle bit_operations_syntax

text \<open>
  The lock of Terrace's packed memory array, \<^verbatim>\<open>terrace/code/src/PMA_Lock.cc\<close>, in the release build the
  Makefile makes (\<^verbatim>\<open>NDEBUG\<close> set, \<^verbatim>\<open>debug\<close> not set, so that the assertions and the owner field are absent).  The word \<open>lock_x\<close> is 0 when
  the lock is free, 1 when one thread holds it exclusively and twice the number of readers otherwise.
  The first part gives the calls of a thread that runs alone; a call that spins for ever is \<open>None\<close>.
  The second part gives the same calls as sequences of atomic accesses to the word, and a
  step relation that interleaves any number of threads.
\<close>

section \<open>Definitions\<close>

datatype REASONS = GENERAL | REBALANCE | DOUBLE | SAME

fun reason_num :: "REASONS \<Rightarrow> nat" where
  "reason_num GENERAL = 0"
| "reason_num REBALANCE = 1"
| "reason_num DOUBLE = 2"
| "reason_num SAME = 3"

instantiation REASONS :: linorder
begin

definition less_eq_REASONS :: "REASONS \<Rightarrow> REASONS \<Rightarrow> bool" where
  "less_eq_REASONS r s \<longleftrightarrow> reason_num r \<le> reason_num s"

definition less_REASONS :: "REASONS \<Rightarrow> REASONS \<Rightarrow> bool" where
  "less_REASONS r s \<longleftrightarrow> reason_num r < reason_num s"

instance
proof
  fix r s :: REASONS
  show "r = s" if "r \<le> s" "s \<le> r" using that by (cases r; cases s) (simp_all add: less_eq_REASONS_def)
qed (auto simp: less_eq_REASONS_def less_REASONS_def)

end

record PMA_Lock =
  lock_x :: u64
  reason :: REASONS
  reason_set_by :: u32

definition new_PMA_Lock :: PMA_Lock where
  "new_PMA_Lock = \<lparr>lock_x = 0, reason = GENERAL, reason_set_by = 0\<rparr>"

definition check_unlocked :: "PMA_Lock \<Rightarrow> bool" where
  "check_unlocked l \<longleftrightarrow> lock_x l = 0"

definition num_tries :: nat where "num_tries = 3"

text \<open>\<^verbatim>\<open>__sync_bool_compare_and_swap\<close> on the word of the lock.\<close>

definition cas :: "PMA_Lock \<Rightarrow> u64 \<Rightarrow> u64 \<Rightarrow> bool \<times> PMA_Lock" where
  "cas l old_val new_val = (if lock_x l = old_val then (True, l\<lparr>lock_x := new_val\<rparr>) else (False, l))"

subsection \<open>The calls of a thread that runs alone\<close>

definition lock_excl :: "PMA_Lock \<Rightarrow> REASONS \<Rightarrow> PMA_Lock option" where
  "lock_excl l r =
    (let (success, l') = cas l 0 1 in
     if \<not> success then None
     else if r < reason l' then None
     else Some l')"

definition try_lock :: "PMA_Lock \<Rightarrow> REASONS \<Rightarrow> bool \<times> PMA_Lock" where
  "try_lock l r =
    (let (success, l') = (if lock_x l = 0 then cas l 0 1 else (False, l)) in
     if success \<and> r < reason l' then (False, snd (cas l' 1 0))
     else (success, l'))"

definition set_reason :: "u64 \<Rightarrow> REASONS \<Rightarrow> PMA_Lock \<Rightarrow> PMA_Lock" where
  "set_reason task_id r l =
    (if r \<noteq> SAME \<and> (ucast (reason_set_by l) = task_id \<or> reason l = GENERAL \<or> reason_set_by l = 0)
     then l\<lparr>reason := r, reason_set_by := if r \<noteq> GENERAL then ucast task_id else 0\<rparr>
     else l)"

definition unlock_excl :: "u64 \<Rightarrow> REASONS \<Rightarrow> PMA_Lock \<Rightarrow> PMA_Lock" where
  "unlock_excl task_id r l = (set_reason task_id r l)\<lparr>lock_x := 0\<rparr>"

definition lock_shared :: "PMA_Lock \<Rightarrow> PMA_Lock option" where
  "lock_shared l =
    (let old_x = lock_x l in
     if old_x mod 2 = 0 then Some (snd (cas l old_x (old_x + 2))) else None)"

definition unlock_shared :: "PMA_Lock \<Rightarrow> PMA_Lock" where
  "unlock_shared l = l\<lparr>lock_x := lock_x l - 2\<rparr>"

definition make_shared :: "PMA_Lock \<Rightarrow> PMA_Lock" where
  "make_shared l = snd (cas l 1 2)"

definition make_exclusive :: "PMA_Lock \<Rightarrow> PMA_Lock option" where
  "make_exclusive l = (if lock_x l = 1 then Some (snd (cas l 1 2)) else None)"

subsection \<open>The calls as sequences of atomic accesses\<close>

text \<open>
  The control point of a thread: outside the lock (\<open>Out\<close>), holding it exclusively (\<open>Excl\<close>) or shared
  (\<open>Shared\<close>), or inside a call.  The numbers count the tries of the inner loops, and \<open>Shared_cas\<close>
  carries the value of \<^verbatim>\<open>old_x\<close>.
\<close>

datatype lock_pc =
    Out | Excl | Shared
  | Lock_cas REASONS nat | Lock_check REASONS | Lock_back REASONS
  | Try_test REASONS nat | Try_cas REASONS nat | Try_check REASONS | Try_back REASONS
  | Unlock_reason REASONS | Unlock_x
  | Shared_read | Shared_test u64 | Shared_cas u64 nat | Shared_reload nat
  | Unlock_shared | Make_shared

fun lock_exec :: "u64 \<Rightarrow> lock_pc \<Rightarrow> PMA_Lock \<Rightarrow> lock_pc \<times> PMA_Lock" where
  "lock_exec task_id (Lock_cas r tries) l =
    (let (success, l') = cas l 0 1 in
     (if success then Lock_check r else Lock_cas r (if tries + 1 < num_tries then tries + 1 else 0), l'))"
| "lock_exec task_id (Lock_check r) l = (if r < reason l then Lock_back r else Excl, l)"
| "lock_exec task_id (Lock_back r) l = (Lock_cas r 0, snd (cas l 1 0))"
| "lock_exec task_id (Try_test r tries) l =
    (if tries < num_tries then (if lock_x l = 0 then Try_cas r tries else Try_test r (tries + 1)) else Out, l)"
| "lock_exec task_id (Try_cas r tries) l =
    (let (success, l') = cas l 0 1 in (if success then Try_check r else Try_test r (tries + 1), l'))"
| "lock_exec task_id (Try_check r) l = (if r < reason l then Try_back r else Excl, l)"
| "lock_exec task_id (Try_back r) l = (Out, snd (cas l 1 0))"
| "lock_exec task_id (Unlock_reason r) l = (Unlock_x, set_reason task_id r l)"
| "lock_exec task_id Unlock_x l = (Out, l\<lparr>lock_x := 0\<rparr>)"
| "lock_exec task_id Shared_read l = (Shared_test (lock_x l), l)"
| "lock_exec task_id (Shared_test old_x) l = (if lock_x l mod 2 = 0 then Shared_cas old_x 0 else Shared_read, l)"
| "lock_exec task_id (Shared_cas old_x tries) l =
    (let (success, l') = cas l old_x (old_x + 2) in (if success then Shared else Shared_reload (tries + 1), l'))"
| "lock_exec task_id (Shared_reload tries) l =
    (if tries < num_tries then Shared_cas (lock_x l) tries else Shared_read, l)"
| "lock_exec task_id Unlock_shared l = (Out, l\<lparr>lock_x := lock_x l - 2\<rparr>)"
| "lock_exec task_id Make_shared l = (Shared, snd (cas l 1 2))"
| "lock_exec task_id pc l = (pc, l)"

text \<open>The calls that the clients of the lock make, from the control point where they may make them.\<close>

inductive lock_call :: "lock_pc \<Rightarrow> lock_pc \<Rightarrow> bool" where
  "lock_call Out (Lock_cas r 0)"
| "lock_call Out (Try_test r 0)"
| "lock_call Out Shared_read"
| "lock_call Excl (Unlock_reason r)"
| "lock_call Excl Make_shared"
| "lock_call Shared Unlock_shared"

record lock_state =
  the_lock :: PMA_Lock
  pcs :: "lock_pc list"

definition lock_init :: "nat \<Rightarrow> lock_state" where
  "lock_init n = \<lparr>the_lock = new_PMA_Lock, pcs = replicate n Out\<rparr>"

text \<open>
  One step of thread \<open>t\<close>, with the task ids \<open>tid\<close>.  The predicate \<open>ok\<close> on the control point from which a thread moves restricts
  the runs: \<open>\<lambda>_. True\<close> for all runs.
\<close>

inductive lock_step :: "(lock_pc \<Rightarrow> bool) \<Rightarrow> (nat \<Rightarrow> u64) \<Rightarrow> lock_state \<Rightarrow> lock_state \<Rightarrow> bool" for ok tid where
  calls: "t < length (pcs s) \<Longrightarrow> lock_call (pcs s ! t) pc \<Longrightarrow> lock_step ok tid s (s\<lparr>pcs := (pcs s)[t := pc]\<rparr>)"
| moves: "t < length (pcs s) \<Longrightarrow> ok (pcs s ! t) \<Longrightarrow> lock_exec (tid t) (pcs s ! t) (the_lock s) = (pc, l) \<Longrightarrow>
    lock_step ok tid s \<lparr>the_lock = l, pcs = (pcs s)[t := pc]\<rparr>"

inductive lock_reach :: "(lock_pc \<Rightarrow> bool) \<Rightarrow> (nat \<Rightarrow> u64) \<Rightarrow> nat \<Rightarrow> lock_state \<Rightarrow> bool" for ok tid n where
  reach_init: "lock_reach ok tid n (lock_init n)"
| reach_step: "lock_reach ok tid n s \<Longrightarrow> lock_step ok tid s s' \<Longrightarrow> lock_reach ok tid n s'"

inductive_simps lock_call_simps: "lock_call pc pc'"

section \<open>Holders\<close>

fun writer :: "lock_pc \<Rightarrow> bool" where
  "writer Excl = True"
| "writer (Lock_check r) = True"
| "writer (Lock_back r) = True"
| "writer (Try_check r) = True"
| "writer (Try_back r) = True"
| "writer (Unlock_reason r) = True"
| "writer Unlock_x = True"
| "writer Make_shared = True"
| "writer pc = False"

fun reader :: "lock_pc \<Rightarrow> bool" where
  "reader Shared = True"
| "reader Unlock_shared = True"
| "reader pc = False"

abbreviation num_writers :: "lock_state \<Rightarrow> nat" where
  "num_writers s \<equiv> length (filter writer (pcs s))"

abbreviation num_readers :: "lock_state \<Rightarrow> nat" where
  "num_readers s \<equiv> length (filter reader (pcs s))"

text \<open>The control points at which a compare-and-swap of \<^verbatim>\<open>lock_shared\<close>, if it is next, expects an even value.\<close>

fun even_cas :: "lock_pc \<Rightarrow> bool" where
  "even_cas (Shared_cas old_x tries) = even old_x"
| "even_cas pc = True"

lemma length_filter_update:
  "i < length xs \<Longrightarrow>
   length (filter P (xs[i := y])) + of_bool (P (xs ! i)) = length (filter P xs) + of_bool (P y)"
proof (induction xs arbitrary: i)
  case (Cons x xs)
  show ?case
  proof (cases i)
    case (Suc j)
    then show ?thesis using Cons.IH [of j] Cons.prems by (simp split: if_splits)
  qed simp
qed simp

lemma set_reason_x [simp]: "lock_x (set_reason task_id r l) = lock_x l"
  by (simp add: set_reason_def)

lemma lock_call_holders: "lock_call pc pc' \<Longrightarrow> writer pc' = writer pc \<and> reader pc' = reader pc"
  by (auto elim: lock_call.cases)

lemma lock_exec_writer:
  assumes "lock_exec tid pc l = (pc', l')"
  shows "writer pc' \<Longrightarrow> writer pc \<and> lock_x l' = lock_x l \<or> \<not> writer pc \<and> lock_x l = 0 \<and> lock_x l' = 1"
    and "\<not> writer pc \<Longrightarrow> \<not> writer pc' \<Longrightarrow> even (lock_x l') = even (lock_x l)"
  using assms by (cases pc; auto simp: cas_def split: if_splits)+

lemma writer_step:
  assumes "lock_step ok tid s s'" "num_writers s \<le> 1" "num_writers s = 1 \<Longrightarrow> odd (lock_x (the_lock s))"
  shows "num_writers s' \<le> 1 \<and> (num_writers s' = 1 \<longrightarrow> odd (lock_x (the_lock s')))"
  using assms
proof (cases rule: lock_step.cases)
  case (calls t pc)
  then show ?thesis using assms(2,3) lock_call_holders [OF calls(3)] length_filter_update [OF calls(2), of writer pc]
    by simp
next
  case (moves t pc l)
  note ex = lock_exec_writer [OF moves(4)]
  have eq: "num_writers s' + of_bool (writer (pcs s ! t)) = num_writers s + of_bool (writer pc)"
    using length_filter_update [OF moves(2), of writer pc] moves(1) by simp
  show ?thesis using ex eq assms(2,3) moves(1)
    by (cases "writer (pcs s ! t)"; cases "writer pc"; cases "num_writers s = 1") (auto simp: le_Suc_eq)
qed

lemma writer_inv:
  "lock_reach ok tid n s \<Longrightarrow> num_writers s \<le> 1 \<and> (num_writers s = 1 \<longrightarrow> odd (lock_x (the_lock s)))"
proof (induction rule: lock_reach.induct)
  case reach_init
  show ?case by (simp add: lock_init_def)
next
  case (reach_step s s')
  then show ?case using writer_step by blast
qed

definition rw_inv :: "nat \<Rightarrow> lock_state \<Rightarrow> bool" where
  "rw_inv n s \<longleftrightarrow> length (pcs s) = n \<and>
    (num_writers s = 0 \<and> lock_x (the_lock s) = of_nat (2 * num_readers s) \<or>
     num_writers s = 1 \<and> num_readers s = 0 \<and> lock_x (the_lock s) = 1)"

lemma even_of_nat_word: "n < 2 ^ 64 \<Longrightarrow> (of_nat n :: u64) = 0 \<longleftrightarrow> n = 0"
  by (auto simp: word_of_nat_eq_0_iff dest: dvd_imp_le)

lemma rw_exec:
  assumes "lock_exec tid pc l = (pc', l')" "even_cas pc"
  shows "lock_x l = 1 \<Longrightarrow> writer pc \<Longrightarrow>
           writer pc' \<and> \<not> reader pc' \<and> lock_x l' = 1 \<or> \<not> writer pc' \<and> \<not> reader pc' \<and> lock_x l' = 0 \<or>
           \<not> writer pc' \<and> reader pc' \<and> lock_x l' = 2"
    and "lock_x l = 1 \<Longrightarrow> \<not> writer pc \<Longrightarrow> \<not> reader pc \<Longrightarrow> \<not> writer pc' \<and> \<not> reader pc' \<and> lock_x l' = 1"
    and "reader pc \<Longrightarrow> reader pc' \<and> lock_x l' = lock_x l \<or> \<not> reader pc' \<and> \<not> writer pc' \<and> lock_x l' = lock_x l - 2"
    and "even (lock_x l) \<Longrightarrow> \<not> writer pc \<Longrightarrow> \<not> reader pc \<Longrightarrow>
           writer pc' \<and> \<not> reader pc' \<and> lock_x l = 0 \<and> lock_x l' = 1 \<or> \<not> writer pc' \<and> reader pc' \<and> lock_x l' = lock_x l + 2 \<or>
           \<not> writer pc' \<and> \<not> reader pc' \<and> lock_x l' = lock_x l"
  using assms by (cases pc; auto simp: cas_def split: if_splits)+

lemma writer_not_reader: "writer pc \<Longrightarrow> \<not> reader pc"
  by (cases pc) simp_all

lemma holder_counted: "t < length xs \<Longrightarrow> P (xs ! t) \<Longrightarrow> 0 < length (filter P xs)"
  by (auto simp: filter_empty_conv)

lemma rw_step:
  assumes "lock_step even_cas tid s s'" "rw_inv n s" "n < 2 ^ 63"
  shows "rw_inv n s'"
  using assms(1)
proof (cases rule: lock_step.cases)
  case (calls t pc)
  then show ?thesis using assms(2) lock_call_holders [OF calls(3)] length_filter_update [OF calls(2), of writer pc]
      length_filter_update [OF calls(2), of reader pc] by (simp add: rw_inv_def)
next
  case (moves t pc l)
  let ?w = "num_writers s" and ?r = "num_readers s" and ?p = "pcs s ! t"
  note ex = rw_exec [OF moves(4,3)]
  have w: "num_writers s' + of_bool (writer ?p) = ?w + of_bool (writer pc)"
    and r: "num_readers s' + of_bool (reader ?p) = ?r + of_bool (reader pc)"
    using length_filter_update [OF moves(2)] moves(1) by simp_all
  have len: "length (pcs s') = n" "?r < 2 ^ 63"
    using assms(2,3) moves(1) le_less_trans [OF length_filter_le] by (auto simp: rw_inv_def)
  have x': "lock_x (the_lock s') = lock_x l" using moves(1) by simp
  consider "writer ?p" | "reader ?p" | "\<not> writer ?p" "\<not> reader ?p" by blast
  then show ?thesis
  proof cases
    case 1
    then have "?w = 1" "?r = 0" "lock_x (the_lock s) = 1"
      using assms(2) holder_counted [OF moves(2), of writer] by (auto simp: rw_inv_def)
    then show ?thesis using ex(1) 1 w r len(1) x' writer_not_reader [OF 1] by (auto simp: rw_inv_def)
  next
    case 2
    then have s: "?w = 0" "lock_x (the_lock s) = of_nat (2 * ?r)" "0 < ?r"
      using assms(2) holder_counted [OF moves(2), of reader] by (auto simp: rw_inv_def)
    then obtain k where k: "?r = Suc k" by (cases ?r) auto
    have np: "\<not> writer ?p" using 2 writer_not_reader by blast
    from ex(3) [OF 2] show ?thesis
    proof
      assume "reader pc \<and> lock_x l = lock_x (the_lock s)"
      then show ?thesis using 2 s w r np len(1) x' writer_not_reader [of pc] by (simp add: rw_inv_def) blast
    next
      assume "\<not> reader pc \<and> \<not> writer pc \<and> lock_x l = lock_x (the_lock s) - 2"
      then show ?thesis using 2 s w r np len(1) x' k by (simp add: rw_inv_def)
    qed
  next
    case 3
    show ?thesis
    proof (cases "?w = 0")
      case True
      then have x: "lock_x (the_lock s) = of_nat (2 * ?r)" using assms(2) by (auto simp: rw_inv_def)
      have "?r = 0" if "lock_x (the_lock s) = 0" using that len(2) even_of_nat_word [of "2 * ?r"] by (simp add: x)
      then show ?thesis using ex(4) 3 w r len(1) x x' True by (auto simp: rw_inv_def)
    next
      case False
      then show ?thesis using assms(2) ex(2) 3 w r len(1) x' by (auto simp: rw_inv_def)
    qed
  qed
qed

lemma rw_inv_init: "rw_inv n (lock_init n)"
  by (simp add: rw_inv_def lock_init_def new_PMA_Lock_def)

lemma rw_reach: "lock_reach even_cas tid n s \<Longrightarrow> n < 2 ^ 63 \<Longrightarrow> rw_inv n s"
  by (induction rule: lock_reach.induct) (auto simp: rw_inv_init intro: rw_step)

section \<open>A thread that runs alone\<close>

text \<open>The state after \<open>k\<close> atomic accesses of one thread with nobody else running.\<close>

fun alone :: "u64 \<Rightarrow> nat \<Rightarrow> lock_pc \<times> PMA_Lock \<Rightarrow> lock_pc \<times> PMA_Lock" where
  "alone tid 0 s = s"
| "alone tid (Suc k) s = (case alone tid k s of (pc, l) \<Rightarrow> lock_exec tid pc l)"

lemma alone_inv:
  assumes "P pc l" "\<And>pc l pc' l'. P pc l \<Longrightarrow> lock_exec tid pc l = (pc', l') \<Longrightarrow> P pc' l'"
  shows "case alone tid k (pc, l) of (pc', l') \<Rightarrow> P pc' l'"
  using assms by (induction k) (auto split: prod.splits)

lemma alone_inv_holds:
  assumes "P pc l" "alone tid k (pc, l) = (pc', l')"
    and "\<And>pc l pc' l'. P pc l \<Longrightarrow> lock_exec tid pc l = (pc', l') \<Longrightarrow> P pc' l'"
  shows "P pc' l'"
  using alone_inv [of P, OF assms(1,3), where k = k and tid = tid] assms(2) by simp

text \<open>A control point outside every call is final, so that there is at most one outcome.\<close>

definition returned :: "lock_pc \<Rightarrow> bool" where
  "returned pc \<longleftrightarrow> pc = Out \<or> pc = Excl \<or> pc = Shared"

lemma alone_final: "alone tid k s = (pc, l) \<Longrightarrow> returned pc \<Longrightarrow> alone tid (k + m) s = (pc, l)"
  by (induction m) (auto simp: returned_def)

lemma alone_unique:
  assumes "alone tid k s = (pc, l)" "returned pc" "alone tid m s = (pc', l')" "returned pc'"
  shows "pc = pc' \<and> l = l'"
  using alone_final [OF assms(1,2), of m] alone_final [OF assms(3,4), of k] by (simp add: add.commute)

text \<open>What a spinning thread sees.\<close>

definition lock_spins :: "PMA_Lock \<Rightarrow> REASONS \<Rightarrow> lock_pc \<Rightarrow> PMA_Lock \<Rightarrow> bool" where
  "lock_spins l r pc l' \<longleftrightarrow>
    (\<exists>i. pc = Lock_cas r i) \<and> l' = l \<or>
    lock_x l = 0 \<and> r < reason l \<and> (pc = Lock_check r \<or> pc = Lock_back r) \<and> l' = l\<lparr>lock_x := 1\<rparr>"

lemma lock_spins_step:
  assumes "lock_x l \<noteq> 0 \<or> r < reason l" "lock_spins l r pc m" "lock_exec tid pc m = (pc', m')"
  shows "lock_spins l r pc' m'"
  using assms by (auto simp: lock_spins_def cas_def Let_def split: if_splits)

lemma lock_never_returns:
  assumes "lock_excl l r = None"
  shows "alone tid k (Lock_cas r 0, l) \<noteq> (Excl, l')"
proof
  assume a: "alone tid k (Lock_cas r 0, l) = (Excl, l')"
  have spin: "lock_x l \<noteq> 0 \<or> r < reason l" using assms by (auto simp: lock_excl_def cas_def split: if_splits)
  have "lock_spins l r Excl l'"
    by (rule alone_inv_holds [OF _ a, of "lock_spins l r"])
       (use lock_spins_step [OF spin] in \<open>auto simp: lock_spins_def\<close>)
  then show False by (auto simp: lock_spins_def)
qed

lemma lock_returns: "lock_excl l r = Some l' \<Longrightarrow> alone tid 2 (Lock_cas r 0, l) = (Excl, l')"
  by (auto simp: lock_excl_def cas_def numeral_2_eq_2 split: if_splits)

definition shared_spins :: "PMA_Lock \<Rightarrow> lock_pc \<Rightarrow> PMA_Lock \<Rightarrow> bool" where
  "shared_spins l pc l' \<longleftrightarrow> l' = l \<and> (pc = Shared_read \<or> (\<exists>v. pc = Shared_test v))"

lemma shared_never_returns:
  assumes "lock_shared l = None"
  shows "alone tid k (Shared_read, l) \<noteq> (Shared, l')"
proof
  assume a: "alone tid k (Shared_read, l) = (Shared, l')"
  have "lock_x l mod 2 \<noteq> 0" using assms by (auto simp: lock_shared_def Let_def split: if_splits)
  then have "shared_spins l Shared l'"
    by (intro alone_inv_holds [OF _ a, of "shared_spins l"]) (auto simp: shared_spins_def split: if_splits)
  then show False by (auto simp: shared_spins_def)
qed

lemma shared_returns: "lock_shared l = Some l' \<Longrightarrow> alone tid 3 (Shared_read, l) = (Shared, l')"
  by (auto simp: lock_shared_def cas_def Let_def numeral_3_eq_3 split: if_splits)

lemma Out_stays: "lock_exec tid Out l = (Out, l)" by simp

lemma try_returns:
  "alone tid 4 (Try_test r 0, l) = (if fst (try_lock l r) then Excl else Out, snd (try_lock l r))"
  by (auto simp: try_lock_def cas_def num_tries_def Let_def eval_nat_numeral split: if_splits)

lemma unlock_returns: "alone tid 2 (Unlock_reason r, l) = (Out, unlock_excl tid r l)"
  by (simp add: numeral_2_eq_2 unlock_excl_def)

lemma lock_iff: "(\<exists>k. alone tid k (Lock_cas r 0, l) = (Excl, l')) \<longleftrightarrow> lock_excl l r = Some l'"
proof (cases "lock_excl l r")
  case None
  then show ?thesis using lock_never_returns by simp
next
  case (Some m)
  have "m = l'" if "alone tid k (Lock_cas r 0, l) = (Excl, l')" for k
    using alone_unique [OF lock_returns [OF Some] _ that] by (simp only: returned_def) blast
  then show ?thesis unfolding Some using lock_returns [OF Some, of tid] by blast
qed

lemma shared_iff: "(\<exists>k. alone tid k (Shared_read, l) = (Shared, l')) \<longleftrightarrow> lock_shared l = Some l'"
proof (cases "lock_shared l")
  case None
  then show ?thesis using shared_never_returns by simp
next
  case (Some m)
  have "m = l'" if "alone tid k (Shared_read, l) = (Shared, l')" for k
    using alone_unique [OF shared_returns [OF Some] _ that] by (simp only: returned_def) blast
  then show ?thesis unfolding Some using shared_returns [OF Some, of tid] by blast
qed

section \<open>Schedules\<close>

text \<open>
  A run given by the numbers of the threads that move, each with the call it makes or \<open>None\<close> for an
  access inside a call, so that a concrete run can be evaluated.
\<close>

fun may_call :: "lock_pc \<Rightarrow> lock_pc \<Rightarrow> bool" where
  "may_call Out pc = (case pc of Lock_cas r tries \<Rightarrow> tries = 0 | Try_test r tries \<Rightarrow> tries = 0 | Shared_read \<Rightarrow> True | _ \<Rightarrow> False)"
| "may_call Excl pc = (case pc of Unlock_reason r \<Rightarrow> True | Make_shared \<Rightarrow> True | _ \<Rightarrow> False)"
| "may_call Shared pc = (pc = Unlock_shared)"
| "may_call _ pc = False"

lemma may_call_iff: "may_call pc pc' \<longleftrightarrow> lock_call pc pc'"
  by (cases pc; cases pc') (auto simp: lock_call_simps)

fun schedule :: "(lock_pc \<Rightarrow> bool) \<Rightarrow> (nat \<Rightarrow> u64) \<Rightarrow> lock_state \<Rightarrow> (nat \<times> lock_pc option) list \<Rightarrow> lock_state option" where
  "schedule ok tid s [] = Some s"
| "schedule ok tid s ((t, c) # cs) =
    (if t < length (pcs s) then
       (case c of
          Some pc \<Rightarrow> if may_call (pcs s ! t) pc then schedule ok tid (s\<lparr>pcs := (pcs s)[t := pc]\<rparr>) cs else None
        | None \<Rightarrow> if ok (pcs s ! t) then
            (case lock_exec (tid t) (pcs s ! t) (the_lock s) of
               (pc, l) \<Rightarrow> schedule ok tid \<lparr>the_lock = l, pcs = (pcs s)[t := pc]\<rparr> cs)
            else None)
     else None)"

lemma schedule_reach:
  "schedule ok tid s cs = Some s' \<Longrightarrow> lock_reach ok tid n s \<Longrightarrow> lock_reach ok tid n s'"
proof (induction ok tid s cs rule: schedule.induct)
  case (2 ok tid s t c cs)
  show ?case
  proof (cases c)
    case None
    obtain pc l where e: "lock_exec (tid t) (pcs s ! t) (the_lock s) = (pc, l)" by fastforce
    note st = lock_step.moves [where s = s and t = t and tid = tid and ok = ok, OF _ _ e]
    show ?thesis using 2 None by (auto simp: e split: if_splits intro: reach_step [OF _ st])
  next
    case (Some pc)
    then show ?thesis using 2
      by (auto simp: may_call_iff split: if_splits intro: reach_step [OF _ lock_step.calls])
  qed
qed simp

lemmas schedule_init = schedule_reach [OF _ reach_init]

text \<open>
  Thread 0 locks while thread 1 is inside \<^verbatim>\<open>lock_shared\<close>: the second try of thread 1 expects the odd value it has just read.
\<close>

definition racing :: "(nat \<times> lock_pc option) list" where
  "racing = [(0, Some (Lock_cas GENERAL 0)), (1, Some Shared_read), (1, None), (1, None), (0, None), (1, None), (1, None), (1, None), (0, None)]"

definition racing_released :: "(nat \<times> lock_pc option) list" where
  "racing_released = racing @ [(0, Some (Unlock_reason GENERAL)), (0, None), (0, None), (1, Some Unlock_shared), (1, None)]"

lemma racing_run:
  "schedule (\<lambda>_. True) tid (lock_init 2) racing =
    Some \<lparr>the_lock = \<lparr>lock_x = 3, reason = GENERAL, reason_set_by = 0\<rparr>, pcs = [Excl, Shared]\<rparr>"
  by (simp add: racing_def lock_init_def new_PMA_Lock_def numeral_2_eq_2 cas_def num_tries_def)

lemma racing_released_run:
  "schedule (\<lambda>_. True) tid (lock_init 2) racing_released =
    Some \<lparr>the_lock = \<lparr>lock_x = - 2, reason = GENERAL, reason_set_by = 0\<rparr>, pcs = [Out, Out]\<rparr>"
  by (simp add: racing_released_def racing_def lock_init_def new_PMA_Lock_def numeral_2_eq_2 cas_def num_tries_def set_reason_def)

section \<open>Properties\<close>

text \<open>
  C37.  In every run of up to \<open>2 ^ 63 - 1\<close> threads in which the compare-and-swap of \<^verbatim>\<open>lock_shared\<close> is only
  tried with an even expected value, at most one thread holds the lock exclusively, no thread holds it
  shared at the same time, and the word is 1 for the exclusive holder and twice the number of readers otherwise.
\<close>

theorem lock_rw_exclusion:
  assumes "lock_reach even_cas tid n s" "n < 2 ^ 63"
  shows "num_writers s \<le> 1 \<and> (num_writers s = 1 \<longrightarrow> num_readers s = 0) \<and>
    lock_x (the_lock s) = (if num_writers s = 1 then 1 else of_nat (2 * num_readers s))"
  using rw_reach [OF assms] by (auto simp: rw_inv_def)

theorem lock_rw_exclusion_witness:
  "\<exists>s. lock_reach even_cas (\<lambda>_. 1) 2 s \<and> pcs s = [Shared, Shared] \<and> num_writers s \<le> 1 \<and> lock_x (the_lock s) = 4"
proof -
  let ?cs = "[(0, Some Shared_read), (1, Some Shared_read), (0, None), (0, None), (0, None), (1, None), (1, None), (1, None)]"
  obtain s where s: "schedule even_cas (\<lambda>_. 1) (lock_init 2) ?cs = Some s" "pcs s = [Shared, Shared]"
    by (simp add: lock_init_def new_PMA_Lock_def numeral_2_eq_2 cas_def num_tries_def)
  have r: "lock_reach even_cas (\<lambda>_. 1) 2 s" by (rule schedule_init [OF s(1)])
  show ?thesis using lock_rw_exclusion [OF r] r s(2) by auto
qed

text \<open>
  In every run, whatever the expected values, at most one thread holds the lock exclusively, and while one does the word is odd.
\<close>

theorem lock_writers_exclude:
  assumes "lock_reach ok tid n s"
  shows "num_writers s \<le> 1 \<and> (num_writers s = 1 \<longrightarrow> odd (lock_x (the_lock s)))"
  using assms by (rule writer_inv)

theorem lock_writers_exclude_witness:
  "lock_reach (\<lambda>_. True) (\<lambda>_. 1) 2 \<lparr>the_lock = \<lparr>lock_x = 3, reason = GENERAL, reason_set_by = 0\<rparr>, pcs = [Excl, Shared]\<rparr> \<and> odd (3 :: u64)"
  using lock_writers_exclude [OF schedule_init [OF racing_run]] schedule_init [OF racing_run] by simp

text \<open>
  C38.  \<^verbatim>\<open>lock_shared\<close> does not keep readers out while a writer holds the lock: from the initial state two threads reach a state
  in which one holds the lock exclusively and the other shared, and from there, when both have released it, a state in
  which nobody holds it but the word is nonzero, so that no call of \<^verbatim>\<open>lock\<close> can ever succeed again on its own.
\<close>

theorem lock_shared_race:
  "(\<exists>s. lock_reach (\<lambda>_. True) tid 2 s \<and> pcs s = [Excl, Shared]) \<and>
   (\<exists>s. lock_reach (\<lambda>_. True) tid 2 s \<and> pcs s = [Out, Out] \<and> (\<forall>r. lock_excl (the_lock s) r = None))"
  using schedule_init [OF racing_run, of tid] schedule_init [OF racing_released_run, of tid]
  by (fastforce simp: lock_excl_def cas_def)

text \<open>
  The sequences of atomic accesses, run by one thread alone, are the calls: \<^verbatim>\<open>lock\<close> and \<^verbatim>\<open>lock_shared\<close> return exactly when the
  sequential definitions say so and then with their state, \<^verbatim>\<open>try_lock\<close> and \<^verbatim>\<open>unlock\<close> always return with theirs.
\<close>

theorem lock_calls_alone:
  "((\<exists>k. alone tid k (Lock_cas r 0, l) = (Excl, l')) \<longleftrightarrow> lock_excl l r = Some l') \<and>
   ((\<exists>k. alone tid k (Shared_read, l) = (Shared, l')) \<longleftrightarrow> lock_shared l = Some l') \<and>
   (\<exists>k. alone tid k (Try_test r 0, l) = (if fst (try_lock l r) then Excl else Out, snd (try_lock l r))) \<and>
   (\<exists>k. alone tid k (Unlock_reason r, l) = (Out, unlock_excl tid r l))"
  using lock_iff [of tid r l l'] shared_iff [of tid l l'] try_returns [of tid r l] unlock_returns [of tid r l] by blast

end
