(* ===== verification/PMA_Array.thy ===== *)
theory PMA_Array
  imports PMA_Lock "HOL-Library.Monad_Syntax" Complex_Main
begin

unbundle bit_operations_syntax

text \<open>
  The packed memory array of Terrace, \<^verbatim>\<open>terrace/code/src/PMA.cc\<close>: one array holds the edges of all vertices in order, with
  gaps; the edges of a vertex follow a sentinel that carries the number of the vertex.  The array is divided
  into leaves of \<open>logN\<close> slots, and the nonempty slots of a leaf come first.  This theory has the state, the moves
  of elements inside the array (slides and redistribution), and growing and shrinking.
  Indices and sizes (\<^verbatim>\<open>uint_t\<close>) are natural numbers, slots are 32-bit words; \<open>None\<close> is an access outside an array or
  a wait that never ends because a thread runs alone.  The size of a
  parallel redistribution, \<^verbatim>\<open>REDISTRIBUTE_PAR_SIZE\<close>, is \<^verbatim>\<open>UINT64_MAX\<close>, so that the parallel variants never run.
\<close>

section \<open>Definitions\<close>

definition NULL_VAL :: u32 where "NULL_VAL = 0xFFFFFFFF"
definition SENT_VAL :: u32 where "SENT_VAL = 0xFFFFFFFE"

record node =
  beginning :: nat
  node_end :: nat
  num_neighbors :: u32
  node_lock_of :: PMA_Lock

record edge_list =
  edges_N :: nat
  edges_H :: nat
  logN :: nat
  loglogN :: nat
  mask_for_leaf :: u32
  edge_vals :: "u32 list"
  edge_dests :: "u32 list"
  density_limit :: real

record PMA =
  edges :: edge_list
  nodes :: "node list"
  node_lock :: PMA_Lock
  next_task_id :: u64
  upper_density_bound :: "nat \<Rightarrow> real"
  lower_density_bound :: "nat \<Rightarrow> real"

text \<open>The index of the highest set bit; the instruction leaves its result undefined for 0.\<close>

fun bsr_word :: "nat \<Rightarrow> nat" where
  "bsr_word w = (if w < 2 then 0 else Suc (bsr_word (w div 2)))"

declare bsr_word.simps [simp del]

definition find_leaf :: "edge_list \<Rightarrow> nat \<Rightarrow> nat" where
  "find_leaf el index = unat ((of_nat index :: u64) AND ucast (mask_for_leaf el))"

definition next_leaf :: "nat \<Rightarrow> nat \<Rightarrow> nat" where
  "next_leaf index loglog = (index div 2 ^ loglog + 1) * 2 ^ loglog"

definition find_node_start :: "nat \<Rightarrow> nat \<Rightarrow> nat" where
  "find_node_start index len = index div len * len"

subsection \<open>Density\<close>

text \<open>
  The number of nonempty slots, counted in vectors of eight slots by subtracting the empty slots of the vectors from the length,
  or in vectors of four when fewer than eight slots are asked for.
\<close>

definition full_in :: "edge_list \<Rightarrow> nat \<Rightarrow> nat \<Rightarrow> nat" where
  "full_in el i w = length (filter (\<lambda>d. d \<noteq> NULL_VAL) (take w (drop i (edge_dests el))))"

function count_vectors :: "edge_list \<Rightarrow> nat \<Rightarrow> nat \<Rightarrow> nat \<Rightarrow> nat option" where
  "count_vectors el w i stop =
    (if i < stop \<and> 0 < w then
       if length (edge_dests el) < i + w then None
       else map_option (\<lambda>c. full_in el i w + c) (count_vectors el w (i + w) stop)
     else Some 0)"
  by pat_completeness auto
termination by (relation "measure (\<lambda>(el, w, i, stop). stop - i)") auto

declare count_vectors.simps [simp del]

definition get_density_count :: "edge_list \<Rightarrow> nat \<Rightarrow> nat \<Rightarrow> nat option" where
  "get_density_count el index len =
    (if len \<ge> 8 then
       map_option (\<lambda>full. let vectors = (len + 7) div 8 in len - (8 * vectors - full)) (count_vectors el 8 index (index + len))
     else count_vectors el 4 index (index + len))"

definition get_density :: "edge_list \<Rightarrow> nat \<Rightarrow> nat \<Rightarrow> real option" where
  "get_density el index len = map_option (\<lambda>c. real c / real len) (get_density_count el index len)"

definition get_depth :: "edge_list \<Rightarrow> nat \<Rightarrow> nat" where
  "get_depth el len = bsr_word (edges_N el div len)"

text \<open>
  The argument \<open>rnd\<close> is the rounding of an operation on doubles.  Densities are exact without it: they are quotients by powers of two.
\<close>

definition density_bound :: "(real \<Rightarrow> real) \<Rightarrow> edge_list \<Rightarrow> nat \<Rightarrow> real \<times> real" where
  "density_bound rnd el depth =
    (let x = rnd (1 / 4 - rnd (rnd (125 / 1000 * real depth) / real (edges_H el)));
         y = rnd (3 / 4 + rnd (rnd (25 / 100 * real depth) / real (edges_H el)));
         y = (if y > density_limit el then rnd (density_limit el - rnd (1 / 1000)) else y)
     in (x, y))"

text \<open>The loop that fills both tables, for the depths up to \<^verbatim>\<open>H\<close>.\<close>

definition set_density_bounds :: "(real \<Rightarrow> real) \<Rightarrow> PMA \<Rightarrow> PMA" where
  "set_density_bounds rnd pma =
    pma\<lparr>upper_density_bound := (\<lambda>i. if i \<le> edges_H (edges pma) then snd (density_bound rnd (edges pma) i) else upper_density_bound pma i),
        lower_density_bound := (\<lambda>i. if i \<le> edges_H (edges pma) then fst (density_bound rnd (edges pma) i) else lower_density_bound pma i)\<rparr>"

definition leaf_full :: "edge_list \<Rightarrow> nat \<Rightarrow> bool" where
  "leaf_full el i \<longleftrightarrow> (\<forall>j \<in> set [i..<i + logN el]. edge_dests el ! j \<noteq> NULL_VAL)"

definition check_no_full_leaves :: "edge_list \<Rightarrow> nat \<Rightarrow> nat \<Rightarrow> bool" where
  "check_no_full_leaves el index len \<longleftrightarrow>
    (\<forall>k \<in> set [0..<(len + logN el - 1) div logN el]. \<not> leaf_full el (index + k * logN el))"

subsection \<open>Moving elements\<close>

definition set_slot_at :: "PMA \<Rightarrow> nat \<Rightarrow> u32 \<Rightarrow> u32 \<Rightarrow> PMA" where
  "set_slot_at pma i v d =
    pma\<lparr>edges := (edges pma)\<lparr>edge_vals := (edge_vals (edges pma))[i := v], edge_dests := (edge_dests (edges pma))[i := d]\<rparr>\<rparr>"

text \<open>
  The node array after a sentinel moved.  The last node ends at the last slot; the first sentinel never moves.
\<close>

definition fix_node :: "nat \<Rightarrow> node list \<Rightarrow> nat \<Rightarrow> nat \<Rightarrow> node list" where
  "fix_node n ns node_index k =
    (let ns = ns[node_index - 1 := (ns ! (node_index - 1))\<lparr>node_end := k\<rparr>];
         ns = ns[node_index := (ns ! node_index)\<lparr>beginning := k\<rparr>]
     in if node_index = length ns - 1 then ns[node_index := (ns ! node_index)\<lparr>node_end := n - 1\<rparr>] else ns)"

definition fix_sentinel :: "PMA \<Rightarrow> nat \<Rightarrow> nat \<Rightarrow> (PMA \<times> nat) option" where
  "fix_sentinel pma node_index k =
    (if 0 < node_index \<and> node_index < length (nodes pma) then
       let ns = fix_node (edges_N (edges pma)) (nodes pma) node_index k
       in Some (pma\<lparr>nodes := ns\<rparr>, beginning (ns ! node_index) + unat (num_neighbors (ns ! node_index)))
     else None)"

definition fix_if_sentinel :: "PMA \<Rightarrow> u32 \<Rightarrow> u32 \<Rightarrow> nat \<Rightarrow> PMA option" where
  "fix_if_sentinel pma v d k = (if d = SENT_VAL then map_option fst (fix_sentinel pma (unat v) k) else Some pma)"

text \<open>\<^verbatim>\<open>memcpy\<close> of a list into an array.\<close>

definition put_at :: "'a list \<Rightarrow> nat \<Rightarrow> 'a list \<Rightarrow> 'a list" where
  "put_at xs i ys = take i xs @ ys @ drop (i + length ys) xs"

definition slots :: "edge_list \<Rightarrow> nat \<Rightarrow> nat \<Rightarrow> (u32 \<times> u32) list" where
  "slots el i j = map (\<lambda>k. (edge_vals el ! k, edge_dests el ! k)) [i..<j]"

text \<open>The slot by slot copy of the destinations of a leaf, which repairs the pointers to the sentinels among them.\<close>

fun place_dests :: "PMA \<Rightarrow> nat \<Rightarrow> u32 list \<Rightarrow> nat \<Rightarrow> (PMA \<times> nat) option" where
  "place_dests pma k [] end_sentinel = Some (pma, end_sentinel)"
| "place_dests pma k (d # ds) end_sentinel = do {
     let pma = pma\<lparr>edges := (edges pma)\<lparr>edge_dests := (edge_dests (edges pma))[k := d]\<rparr>\<rparr>;
     (pma, end_sentinel) \<leftarrow>
       (if d = SENT_VAL then fix_sentinel pma (unat (edge_vals (edges pma) ! k)) k else Some (pma, end_sentinel));
     place_dests pma (k + 1) ds end_sentinel
   }"

definition redistribute_leaf :: "nat \<Rightarrow> (u32 \<times> u32) list \<Rightarrow> nat \<Rightarrow> nat \<Rightarrow> nat \<Rightarrow> PMA \<Rightarrow> nat \<Rightarrow> (PMA \<times> nat) option" where
  "redistribute_leaf index sp count_per_leaf extra i pma end_sentinel =
    (let count_for_leaf = count_per_leaf + (if i < extra then 1 else 0);
         k = index + logN (edges pma) * i;
         j2 = count_per_leaf * i + min i extra;
         moved = take count_for_leaf (drop j2 sp);
         pma = pma\<lparr>edges := (edges pma)\<lparr>edge_vals := put_at (edge_vals (edges pma)) k (map fst moved)\<rparr>\<rparr>
     in if end_sentinel > k + count_for_leaf
        then Some (pma\<lparr>edges := (edges pma)\<lparr>edge_dests := put_at (edge_dests (edges pma)) k (map snd moved)\<rparr>\<rparr>, end_sentinel)
        else place_dests pma k (map snd moved) end_sentinel)"

fun redistribute_leaves :: "nat \<Rightarrow> (u32 \<times> u32) list \<Rightarrow> nat \<Rightarrow> nat \<Rightarrow> nat list \<Rightarrow> PMA \<Rightarrow> nat \<Rightarrow> (PMA \<times> nat) option" where
  "redistribute_leaves index sp count_per_leaf extra [] pma end_sentinel = Some (pma, end_sentinel)"
| "redistribute_leaves index sp count_per_leaf extra (i # is) pma end_sentinel = do {
     (pma, end_sentinel) \<leftarrow> redistribute_leaf index sp count_per_leaf extra i pma end_sentinel;
     redistribute_leaves index sp count_per_leaf extra is pma end_sentinel
   }"

text \<open>
  The elements are first collected in steps of eight slots, each step emptied after it is read: a length that is not a multiple of
  eight reads and writes past its end.
\<close>

definition redistribute :: "PMA \<Rightarrow> nat \<Rightarrow> nat \<Rightarrow> PMA option" where
  "redistribute pma index len =
    (if len = logN (edges pma) then Some pma
     else if len mod 8 \<noteq> 0 \<or> length (edge_dests (edges pma)) < index + len \<or> len div 2 ^ loglogN (edges pma) = 0 then None
     else
       let space = filter (\<lambda>(v, d). d \<noteq> NULL_VAL) (slots (edges pma) index (index + len));
           pma = pma\<lparr>edges := (edges pma)\<lparr>edge_vals := put_at (edge_vals (edges pma)) index (replicate len 0),
                                          edge_dests := put_at (edge_dests (edges pma)) index (replicate len NULL_VAL)\<rparr>\<rparr>;
           j = length space;
           num_leaves = len div 2 ^ loglogN (edges pma)
       in map_option fst (redistribute_leaves index space (j div num_leaves) (j mod num_leaves) [0..<num_leaves] pma 0))"

function slide_right_loop :: "PMA \<Rightarrow> nat \<Rightarrow> u32 \<Rightarrow> u32 \<Rightarrow> PMA option" where
  "slide_right_loop pma index el_val el_dest =
    (if index < edges_N (edges pma) \<and> edge_dests (edges pma) ! index \<noteq> NULL_VAL then
       case fix_if_sentinel (set_slot_at pma index el_val el_dest) el_val el_dest index of
         None \<Rightarrow> None
       | Some pma' \<Rightarrow> slide_right_loop pma' (index + 1) (edge_vals (edges pma) ! index) (edge_dests (edges pma) ! index)
     else
       case fix_if_sentinel pma el_val el_dest index of
         None \<Rightarrow> None
       | Some pma' \<Rightarrow> if index < edges_N (edges pma') then Some (set_slot_at pma' index el_val el_dest) else None)"
  by pat_completeness auto
termination
  by (relation "measure (\<lambda>(pma, index, el_val, el_dest). edges_N (edges pma) - index)")
     (auto simp: fix_if_sentinel_def fix_sentinel_def set_slot_at_def Let_def split: if_splits)

declare slide_right_loop.simps [simp del]

definition slide_right :: "PMA \<Rightarrow> nat \<Rightarrow> PMA option" where
  "slide_right pma index =
    slide_right_loop (set_slot_at pma index 0 NULL_VAL) (index + 1) (edge_vals (edges pma) ! index) (edge_dests (edges pma) ! index)"

function slide_left :: "PMA \<Rightarrow> nat \<Rightarrow> PMA option" where
  "slide_left pma index =
    (if index + 1 < edges_N (edges pma) then
       let temp_val = edge_vals (edges pma) ! (index + 1); temp_dest = edge_dests (edges pma) ! (index + 1) in
       case fix_if_sentinel (set_slot_at pma index temp_val temp_dest) temp_val temp_dest index of
         None \<Rightarrow> None
       | Some pma' \<Rightarrow> if temp_dest = NULL_VAL then Some pma' else slide_left pma' (index + 1)
     else Some pma)"
  by pat_completeness auto
termination
  by (relation "measure (\<lambda>(pma, index). edges_N (edges pma) - index)")
     (auto simp: fix_if_sentinel_def fix_sentinel_def set_slot_at_def Let_def split: if_splits)

declare slide_left.simps [simp del]

subsection \<open>All locks of the node array\<close>

definition set_node_lock :: "PMA \<Rightarrow> nat \<Rightarrow> PMA_Lock \<Rightarrow> PMA" where
  "set_node_lock pma i l = pma\<lparr>nodes := (nodes pma)[i := (nodes pma ! i)\<lparr>node_lock_of := l\<rparr>]\<rparr>"

fun lock_nodes :: "bool \<Rightarrow> REASONS \<Rightarrow> nat list \<Rightarrow> PMA \<Rightarrow> PMA option" where
  "lock_nodes exclusive r [] pma = Some pma"
| "lock_nodes exclusive r (i # is) pma = do {
     l \<leftarrow> (if exclusive then lock_excl (node_lock_of (nodes pma ! i)) r else lock_shared (node_lock_of (nodes pma ! i)));
     lock_nodes exclusive r is (set_node_lock pma i l)
   }"

definition grab_all_locks :: "PMA \<Rightarrow> bool \<Rightarrow> REASONS \<Rightarrow> PMA option" where
  "grab_all_locks pma exclusive r = lock_nodes exclusive r [0..<length (nodes pma)] pma"

definition release_all_locks :: "u64 \<Rightarrow> bool \<Rightarrow> REASONS \<Rightarrow> PMA \<Rightarrow> PMA" where
  "release_all_locks task_id exclusive r pma =
    pma\<lparr>nodes := map (\<lambda>nd. nd\<lparr>node_lock_of := (if exclusive then unlock_excl task_id r (node_lock_of nd)
                                               else unlock_shared (node_lock_of nd))\<rparr>) (nodes pma)\<rparr>"

subsection \<open>Growing and shrinking\<close>

text \<open>The parameters that follow from the binary logarithm of the leaf size and the size of the array.\<close>

definition set_geometry :: "nat \<Rightarrow> nat \<Rightarrow> edge_list \<Rightarrow> edge_list" where
  "set_geometry loglog new_N el =
    el\<lparr>loglogN := loglog, logN := 2 ^ loglog, mask_for_leaf := NOT (2 ^ loglog - 1),
       density_limit := (real (2 ^ loglog) - 1) / real (2 ^ loglog), edges_H := bsr_word (new_N div 2 ^ loglog)\<rparr>"

definition double_list :: "(real \<Rightarrow> real) \<Rightarrow> u64 \<Rightarrow> PMA \<Rightarrow> PMA option" where
  "double_list rnd task_id pma = do {
     pma \<leftarrow> grab_all_locks pma True DOUBLE;
     let new_N = edges_N (edges pma) * 2;
     let pma = pma\<lparr>edges := set_geometry (bsr_word (bsr_word (edges_N (edges pma)) + 1)) new_N (edges pma)\<rparr>;
     let pma = set_density_bounds rnd pma;
     let pma = pma\<lparr>edges := (edges pma)\<lparr>edges_N := new_N,
                 edge_vals := take (new_N div 2) (edge_vals (edges pma)) @ replicate (new_N - new_N div 2) 0,
                 edge_dests := take (new_N div 2) (edge_dests (edges pma)) @ replicate (new_N - new_N div 2) NULL_VAL\<rparr>\<rparr>;
     pma \<leftarrow> redistribute pma 0 (edges_N (edges pma));
     Some (release_all_locks task_id True GENERAL pma)
   }"

definition half_list :: "(real \<Rightarrow> real) \<Rightarrow> u64 \<Rightarrow> PMA \<Rightarrow> PMA option" where
  "half_list rnd task_id pma = do {
     pma \<leftarrow> grab_all_locks pma True DOUBLE;
     let new_N = edges_N (edges pma) div 2;
     if bsr_word (edges_N (edges pma)) \<le> 1 then None else do {
       let pma = pma\<lparr>edges := set_geometry (bsr_word (bsr_word (edges_N (edges pma)) - 1)) new_N (edges pma)\<rparr>;
       let pma = set_density_bounds rnd pma;
       let kept = filter (\<lambda>(v, d). d \<noteq> NULL_VAL) (slots (edges pma) 0 (edges_N (edges pma)));
       if length kept > new_N then None else do {
         let pma = pma\<lparr>edges := (edges pma)\<lparr>edges_N := new_N,
                     edge_vals := map fst kept @ replicate (new_N - length kept) 0,
                     edge_dests := map snd kept @ replicate (new_N - length kept) NULL_VAL\<rparr>\<rparr>;
         pma \<leftarrow> redistribute pma 0 new_N;
         Some (release_all_locks task_id True GENERAL pma)
       }
     }
   }"

section \<open>Elements\<close>

text \<open>The nonempty slots in order.\<close>

definition nonnull :: "u32 \<times> u32 \<Rightarrow> bool" where "nonnull s \<longleftrightarrow> snd s \<noteq> NULL_VAL"

definition elems :: "edge_list \<Rightarrow> (u32 \<times> u32) list" where
  "elems el = filter nonnull (zip (edge_vals el) (edge_dests el))"

text \<open>The node array after the sentinels among the slots of \<open>ps\<close>, given with their positions, moved there.\<close>

fun fix_all :: "nat \<Rightarrow> node list \<Rightarrow> (nat \<times> u32 \<times> u32) list \<Rightarrow> node list" where
  "fix_all n ns [] = ns"
| "fix_all n ns ((k, v, d) # ps) = fix_all n (if d = SENT_VAL then fix_node n ns (unat v) k else ns) ps"

definition sent_ids :: "(u32 \<times> u32) list \<Rightarrow> nat list" where
  "sent_ids xs = map (unat \<circ> fst) (filter (\<lambda>s. snd s = SENT_VAL) xs)"

definition ids_ok :: "nat \<Rightarrow> (u32 \<times> u32) list \<Rightarrow> bool" where
  "ids_ok n xs \<longleftrightarrow> (\<forall>i \<in> set (sent_ids xs). 0 < i \<and> i < n)"

lemma sent_ids_simps [simp]:
  "sent_ids [] = []"
  "sent_ids (s # xs) = (if snd s = SENT_VAL then unat (fst s) # sent_ids xs else sent_ids xs)"
  "sent_ids (xs @ ys) = sent_ids xs @ sent_ids ys"
  by (simp_all add: sent_ids_def)

lemma ids_ok_simps [simp]:
  "ids_ok n []"
  "ids_ok n (s # xs) \<longleftrightarrow> (snd s = SENT_VAL \<longrightarrow> 0 < unat (fst s) \<and> unat (fst s) < n) \<and> ids_ok n xs"
  "ids_ok n (xs @ ys) \<longleftrightarrow> ids_ok n xs \<and> ids_ok n ys"
  by (auto simp: ids_ok_def)

lemma length_fix_node [simp]: "length (fix_node n ns i k) = length ns"
  by (simp add: fix_node_def Let_def)

lemma length_fix_all [simp]: "length (fix_all n ns ps) = length ns"
  by (induction n ns ps rule: fix_all.induct) auto

lemma fix_all_append [simp]: "fix_all n ns (ps @ qs) = fix_all n (fix_all n ns ps) qs"
  by (induction n ns ps rule: fix_all.induct) auto

text \<open>What a repair keeps and what it sets.\<close>

lemma upd_nth: "xs[i := x] ! j = (if i = j \<and> i < length xs then x else xs ! j)"
  by (cases "i < length xs") (auto simp: nth_list_update list_update_beyond)

lemma fix_node_keeps [simp]:
  "j < length ns \<Longrightarrow> num_neighbors (fix_node n ns i k ! j) = num_neighbors (ns ! j)"
  "j < length ns \<Longrightarrow> node_lock_of (fix_node n ns i k ! j) = node_lock_of (ns ! j)"
  by (auto simp: fix_node_def Let_def upd_nth)

lemma fix_all_keeps [simp]:
  "j < length ns \<Longrightarrow> num_neighbors (fix_all n ns ps ! j) = num_neighbors (ns ! j)"
  "j < length ns \<Longrightarrow> node_lock_of (fix_all n ns ps ! j) = node_lock_of (ns ! j)"
  by (induction n ns ps rule: fix_all.induct) auto

lemma fix_node_sets:
  assumes "0 < i" "i < length ns" "0 < j" "j < length ns"
  shows "beginning (fix_node n ns i k ! j) = (if j = i then k else beginning (ns ! j))"
    and "node_end (fix_node n ns i k ! (j - 1)) = (if j = i then k else node_end (ns ! (j - 1)))"
  using assms by (cases i; cases j; simp add: fix_node_def Let_def nth_list_update)+

lemmas fix_node_set = fix_node_sets fix_node_sets(2) [unfolded One_nat_def]

lemma fix_node_first: "0 < i \<Longrightarrow> i < length ns \<Longrightarrow> beginning (fix_node n ns i k ! 0) = beginning (ns ! 0)"
  by (cases i) (simp_all add: fix_node_def Let_def nth_list_update)

lemma fix_node_last_end:
  assumes "0 < i" "i < length ns"
  shows "node_end (fix_node n ns i k ! (length ns - 1)) = (if i = length ns - 1 then n - 1 else node_end (ns ! (length ns - 1)))"
  using assms by (cases i) (auto simp: fix_node_def Let_def nth_list_update)

lemma fix_all_other:
  "ids_ok (length ns) (map snd ps) \<Longrightarrow> 0 < j \<Longrightarrow> j < length ns \<Longrightarrow> j \<notin> set (sent_ids (map snd ps)) \<Longrightarrow>
   beginning (fix_all n ns ps ! j) = beginning (ns ! j) \<and> node_end (fix_all n ns ps ! (j - 1)) = node_end (ns ! (j - 1))"
  by (induction n ns ps rule: fix_all.induct) (auto simp: fix_node_set split: if_splits)

lemma fix_all_here:
  "ids_ok (length ns) (map snd ps) \<Longrightarrow> distinct (sent_ids (map snd ps)) \<Longrightarrow> (k, v, SENT_VAL) \<in> set ps \<Longrightarrow>
   beginning (fix_all n ns ps ! unat v) = k \<and> node_end (fix_all n ns ps ! (unat v - 1)) = k"
proof (induction n ns ps rule: fix_all.induct)
  case (2 n ns k' v' d' ps)
  show ?case
  proof (cases "(k, v, SENT_VAL) = (k', v', d')")
    case True
    then have i: "0 < unat v" "unat v < length ns" "unat v \<notin> set (sent_ids (map snd ps))" "ids_ok (length ns) (map snd ps)"
      using 2 by (auto split: if_splits)
    then show ?thesis using fix_all_other [of "fix_node n ns (unat v) k" ps "unat v" n] True
      by (auto simp: fix_node_set)
  next
    case False
    then show ?thesis using 2 by (auto split: if_splits)
  qed
qed simp

lemma fix_all_first: "ids_ok (length ns) (map snd ps) \<Longrightarrow> beginning (fix_all n ns ps ! 0) = beginning (ns ! 0)"
  by (induction n ns ps rule: fix_all.induct) (auto simp: fix_node_first split: if_splits)

section \<open>Slices of the array\<close>

lemma length_put_at [simp]: "i + length ys \<le> length xs \<Longrightarrow> length (put_at xs i ys) = length xs"
  by (simp add: put_at_def)

lemma nth_put_at:
  "i + length ys \<le> length xs \<Longrightarrow> p < length xs \<Longrightarrow>
   put_at xs i ys ! p = (if i \<le> p \<and> p < i + length ys then ys ! (p - i) else xs ! p)"
  by (auto simp: put_at_def nth_append)

lemma put_at_Cons: "i < length xs \<Longrightarrow> put_at (xs[i := x]) (Suc i) ys = put_at xs i (x # ys)"
  by (simp add: put_at_def take_Suc_conv_app_nth take_update_cancel)

lemma put_at_Nil [simp]: "put_at xs i [] = xs"
  by (simp add: put_at_def)

definition set_range :: "edge_list \<Rightarrow> nat \<Rightarrow> (u32 \<times> u32) list \<Rightarrow> edge_list" where
  "set_range el i xs = el\<lparr>edge_vals := put_at (edge_vals el) i (map fst xs), edge_dests := put_at (edge_dests el) i (map snd xs)\<rparr>"

text \<open>The arrays have the size the header says.\<close>

definition sized :: "edge_list \<Rightarrow> bool" where
  "sized el \<longleftrightarrow> length (edge_vals el) = edges_N el \<and> length (edge_dests el) = edges_N el"

lemma set_range_fields [simp]:
  "edges_N (set_range el i xs) = edges_N el" "edges_H (set_range el i xs) = edges_H el"
  "logN (set_range el i xs) = logN el" "loglogN (set_range el i xs) = loglogN el"
  "mask_for_leaf (set_range el i xs) = mask_for_leaf el" "density_limit (set_range el i xs) = density_limit el"
  by (simp_all add: set_range_def)

lemma sized_set_range [simp]: "sized el \<Longrightarrow> i + length xs \<le> edges_N el \<Longrightarrow> sized (set_range el i xs)"
  by (simp add: sized_def set_range_def)

lemma set_range_Nil [simp]: "set_range el i [] = el"
  by (simp add: set_range_def)

lemma length_slots [simp]: "length (slots el i j) = j - i"
  by (simp add: slots_def)

lemma slots_empty [simp]: "j \<le> i \<Longrightarrow> slots el i j = []"
  by (simp add: slots_def)

lemma slots_Cons: "i < j \<Longrightarrow> slots el i j = (edge_vals el ! i, edge_dests el ! i) # slots el (Suc i) j"
  by (simp add: slots_def upt_conv_Cons)

lemma slots_snoc: "i \<le> j \<Longrightarrow> slots el i (Suc j) = slots el i j @ [(edge_vals el ! j, edge_dests el ! j)]"
  by (simp add: slots_def)

lemma slots_append: "i \<le> j \<Longrightarrow> j \<le> k \<Longrightarrow> slots el i k = slots el i j @ slots el j k"
  using upt_add_eq_append [of i j "k - j"] by (simp add: slots_def)

lemma nth_slots: "p < j - i \<Longrightarrow> slots el i j ! p = (edge_vals el ! (i + p), edge_dests el ! (i + p))"
  by (simp add: slots_def)

lemma slots_cong:
  "(\<And>p. i \<le> p \<Longrightarrow> p < j \<Longrightarrow> edge_vals el ! p = edge_vals el' ! p \<and> edge_dests el ! p = edge_dests el' ! p) \<Longrightarrow>
   slots el i j = slots el' i j"
  by (simp add: slots_def)

lemma set_range_outside:
  assumes "sized el" "i + length xs \<le> edges_N el" "p < edges_N el" "p < i \<or> i + length xs \<le> p"
  shows "edge_vals (set_range el i xs) ! p = edge_vals el ! p" "edge_dests (set_range el i xs) ! p = edge_dests el ! p"
  using assms by (auto simp: set_range_def sized_def nth_put_at)

lemma set_range_inside:
  assumes "sized el" "i + length xs \<le> edges_N el" "i \<le> p" "p < i + length xs"
  shows "edge_vals (set_range el i xs) ! p = fst (xs ! (p - i))" "edge_dests (set_range el i xs) ! p = snd (xs ! (p - i))"
  using assms by (auto simp: set_range_def sized_def nth_put_at)

lemma slots_set_range:
  assumes "sized el" "i + length xs \<le> edges_N el"
  shows "slots (set_range el i xs) 0 (edges_N el) = slots el 0 i @ xs @ slots el (i + length xs) (edges_N el)"
proof -
  have "slots (set_range el i xs) 0 (edges_N el) =
      slots (set_range el i xs) 0 i @ slots (set_range el i xs) i (i + length xs) @ slots (set_range el i xs) (i + length xs) (edges_N el)"
    using assms slots_append [of 0 i "edges_N el"] slots_append [of i "i + length xs" "edges_N el"] by simp
  moreover have "slots (set_range el i xs) 0 i = slots el 0 i"
    by (rule slots_cong) (use set_range_outside [OF assms] assms in auto)
  moreover have "slots (set_range el i xs) (i + length xs) (edges_N el) = slots el (i + length xs) (edges_N el)"
    by (rule slots_cong) (use set_range_outside [OF assms] assms in auto)
  moreover have "slots (set_range el i xs) i (i + length xs) = xs"
    by (rule nth_equalityI) (use set_range_inside [OF assms] in \<open>auto simp: nth_slots\<close>)
  ultimately show ?thesis by simp
qed

lemma elems_slots: "sized el \<Longrightarrow> elems el = filter nonnull (slots el 0 (edges_N el))"
  unfolding elems_def slots_def sized_def by (intro arg_cong [where f = "filter nonnull"] nth_equalityI) auto

lemma elems_set_range:
  assumes "sized el" "i + length xs \<le> edges_N el"
  shows "elems (set_range el i xs) =
    filter nonnull (slots el 0 i) @ filter nonnull xs @ filter nonnull (slots el (i + length xs) (edges_N el))"
  using elems_slots [OF sized_set_range [OF assms]] slots_set_range [OF assms] by simp

lemma elems_split:
  assumes "sized el" "i \<le> j" "j \<le> edges_N el"
  shows "elems el = filter nonnull (slots el 0 i) @ filter nonnull (slots el i j) @ filter nonnull (slots el j (edges_N el))"
  using elems_slots [OF assms(1)] assms slots_append [of 0 i "edges_N el"] slots_append [of i j "edges_N el"] by simp

end
