(* ===== verification/PMA_Moves.thy ===== *)
theory PMA_Moves
  imports PMA_Array
begin

unbundle bit_operations_syntax

text \<open>
  What slides and redistribution do to the packed memory array: they keep the sequence of elements and the pointers of the
  node array to the sentinels, and redistribution spreads the elements evenly, first slots first, so that no leaf is full.
\<close>

section \<open>Slides\<close>

lemma set_slot_range: "i < edges_N el \<Longrightarrow> sized el \<Longrightarrow> edges pma = el \<Longrightarrow>
   set_slot_at pma i v d = pma\<lparr>edges := set_range el i [(v, d)]\<rparr>"
  by (simp add: set_slot_at_def set_range_def sized_def put_at_Cons [symmetric])

lemma set_range_Cons:
  "i < edges_N el \<Longrightarrow> sized el \<Longrightarrow> set_range (set_range el i [s]) (Suc i) xs = set_range el i (s # xs)"
  by (simp add: set_range_def sized_def put_at_Cons [symmetric])

lemma fix_if_sentinel_eq:
  "ids_ok (length (nodes pma)) [(v, d)] \<Longrightarrow>
   fix_if_sentinel pma v d k = Some (pma\<lparr>nodes := fix_all (edges_N (edges pma)) (nodes pma) [(k, v, d)]\<rparr>)"
  by (auto simp: fix_if_sentinel_def fix_sentinel_def Let_def)

text \<open>The result of a move: the slots \<open>xs\<close> are now at \<open>i\<close>, and the sentinels among them are repaired.\<close>

definition moved :: "PMA \<Rightarrow> nat \<Rightarrow> (u32 \<times> u32) list \<Rightarrow> PMA" where
  "moved pma i xs =
    pma\<lparr>edges := set_range (edges pma) i xs,
        nodes := fix_all (edges_N (edges pma)) (nodes pma) (zip [i..<i + length xs] xs)\<rparr>"

lemma moved_fields [simp]:
  "edges (moved pma i xs) = set_range (edges pma) i xs"
  "length (nodes (moved pma i xs)) = length (nodes pma)"
  "node_lock (moved pma i xs) = node_lock pma" "next_task_id (moved pma i xs) = next_task_id pma"
  "upper_density_bound (moved pma i xs) = upper_density_bound pma"
  "lower_density_bound (moved pma i xs) = lower_density_bound pma"
  by (simp_all add: moved_def)

lemma moved_Cons:
  assumes "sized (edges pma)" "i < edges_N (edges pma)"
  shows "moved (moved pma i [s]) (Suc i) xs = moved pma i (s # xs)"
proof -
  obtain v d where s: "s = (v, d)" by fastforce
  have "[i..<i + length (s # xs)] = i # [Suc i..<Suc i + length xs]" by (subst upt_conv_Cons) simp_all
  then show ?thesis using assms by (simp add: moved_def set_range_Cons s)
qed

lemma moved_one:
  assumes "sized (edges pma)" "i < edges_N (edges pma)" "ids_ok (length (nodes pma)) [(v, d)]"
  shows "fix_if_sentinel (set_slot_at pma i v d) v d i = Some (moved pma i [(v, d)])"
  using assms by (simp add: fix_if_sentinel_eq set_slot_range [OF _ _ refl] moved_def)

lemma slots_keep:
  assumes "sized el" "i < edges_N el" "j \<le> edges_N el"
  shows "slots (set_range el i [s]) (Suc i) j = slots el (Suc i) j"
  by (rule slots_cong) (use assms set_range_outside [OF assms(1), of i "[s]"] in auto)

lemma slide_right_loop_spec:
  assumes "sized (edges pma)" "i \<le> q" "q < edges_N (edges pma)" "edge_dests (edges pma) ! q = NULL_VAL"
    and "\<And>p. i \<le> p \<Longrightarrow> p < q \<Longrightarrow> edge_dests (edges pma) ! p \<noteq> NULL_VAL"
    and "ids_ok (length (nodes pma)) ((v, d) # slots (edges pma) i q)"
  shows "slide_right_loop pma i v d = Some (moved pma i ((v, d) # slots (edges pma) i q))"
  using assms
proof (induction "q - i" arbitrary: pma i v d)
  case 0
  then have "i = q" by simp
  then show ?case using 0 moved_one [of pma q v d]
    by (subst slide_right_loop.simps)
       (simp add: fix_if_sentinel_eq moved_def set_slot_range [where el = "edges pma"])
next
  case (Suc m)
  then have iq: "i < q" by simp
  let ?el = "edges pma" and ?s = "(edge_vals (edges pma) ! i, edge_dests (edges pma) ! i)"
  let ?pma = "moved pma i [(v, d)]"
  have cons: "slots ?el i q = ?s # slots ?el (Suc i) q" using iq by (rule slots_Cons)
  have keep: "slots (set_range ?el i [(v, d)]) (Suc i) q = slots ?el (Suc i) q"
    using Suc.prems iq by (simp add: slots_keep)
  have d: "edge_dests (edges ?pma) ! p = edge_dests ?el ! p" if "i < p" "p < edges_N ?el" for p
    using that Suc.prems iq set_range_outside [of ?el i "[(v, d)]" p] by simp
  have "slide_right_loop ?pma (Suc i) (fst ?s) (snd ?s) = Some (moved ?pma (Suc i) (?s # slots (edges ?pma) (Suc i) q))"
    using Suc.hyps(1) [of "Suc i" ?pma "fst ?s" "snd ?s"] Suc.hyps(2) Suc.prems iq d
    by (simp add: keep cons)
  moreover have "slide_right_loop pma i v d = slide_right_loop ?pma (Suc i) (fst ?s) (snd ?s)"
    using Suc.prems iq moved_one [of pma i v d] by (subst slide_right_loop.simps) simp
  ultimately show ?case using Suc.prems iq by (simp add: keep cons moved_Cons)
qed

text \<open>A slide to the right leaves an empty slot and moves the elements up to the next empty slot by one.\<close>

lemma slide_right_spec:
  assumes "sized (edges pma)" "i < q" "q < edges_N (edges pma)" "edge_dests (edges pma) ! q = NULL_VAL"
    and "\<And>p. i \<le> p \<Longrightarrow> p < q \<Longrightarrow> edge_dests (edges pma) ! p \<noteq> NULL_VAL"
    and "ids_ok (length (nodes pma)) (slots (edges pma) i q)"
  shows "slide_right pma i = Some (moved pma i ((0, NULL_VAL) # slots (edges pma) i q))"
proof -
  let ?el = "edges pma" and ?s = "(edge_vals (edges pma) ! i, edge_dests (edges pma) ! i)"
  let ?pma = "moved pma i [(0, NULL_VAL)]"
  have one: "set_slot_at pma i 0 NULL_VAL = ?pma"
    using assms by (simp add: moved_def set_slot_range [where el = "edges pma"] NULL_VAL_def SENT_VAL_def)
  have cons: "slots ?el i q = ?s # slots ?el (Suc i) q" using assms(2) by (rule slots_Cons)
  have keep: "slots (set_range ?el i [(0, NULL_VAL)]) (Suc i) q = slots ?el (Suc i) q" using assms by (simp add: slots_keep)
  have d: "edge_dests (edges ?pma) ! p = edge_dests ?el ! p" if "i < p" "p < edges_N ?el" for p
    using that assms set_range_outside [of ?el i "[(0, NULL_VAL)]" p] by simp
  have "slide_right_loop ?pma (Suc i) (fst ?s) (snd ?s) = Some (moved ?pma (Suc i) (?s # slots (edges ?pma) (Suc i) q))"
    using slide_right_loop_spec [of ?pma "Suc i" q "fst ?s" "snd ?s"] assms d by (simp add: keep cons)
  then show ?thesis using assms one by (simp add: slide_right_def keep cons moved_Cons)
qed

lemma slide_left_spec:
  assumes "sized (edges pma)" "i < q" "q < edges_N (edges pma)" "edge_dests (edges pma) ! q = NULL_VAL"
    and "\<And>p. i < p \<Longrightarrow> p < q \<Longrightarrow> edge_dests (edges pma) ! p \<noteq> NULL_VAL"
    and "ids_ok (length (nodes pma)) (slots (edges pma) (Suc i) (Suc q))"
  shows "slide_left pma i = Some (moved pma i (slots (edges pma) (Suc i) (Suc q)))"
  using assms
proof (induction "q - i" arbitrary: pma i)
  case 0
  then show ?case by simp
next
  case (Suc m)
  let ?el = "edges pma" and ?s = "(edge_vals (edges pma) ! Suc i, edge_dests (edges pma) ! Suc i)"
  let ?pma = "moved pma i [?s]"
  have cons: "slots ?el (Suc i) (Suc q) = ?s # slots ?el (Suc (Suc i)) (Suc q)" using Suc.prems by (intro slots_Cons) simp
  have one: "fix_if_sentinel (set_slot_at pma i (fst ?s) (snd ?s)) (fst ?s) (snd ?s) i = Some ?pma"
    using Suc.prems moved_one [of pma i "fst ?s" "snd ?s"] by (simp add: cons)
  show ?case
  proof (cases "Suc i = q")
    case True
    then show ?thesis using Suc.prems one cons by (subst slide_left.simps) (simp add: Let_def)
  next
    case False
    then have iq: "Suc i < q" using Suc.prems by simp
    have keep: "slots (set_range ?el i [?s]) (Suc (Suc i)) (Suc q) = slots ?el (Suc (Suc i)) (Suc q)"
      by (rule slots_cong) (use Suc.prems set_range_outside [OF Suc.prems(1), of i "[?s]"] in auto)
    have d: "edge_dests (edges ?pma) ! p = edge_dests ?el ! p" if "i < p" "p < edges_N ?el" for p
      using that Suc.prems iq set_range_outside [of ?el i "[?s]" p] by simp
    have "slide_left ?pma (Suc i) = Some (moved ?pma (Suc i) (slots (edges ?pma) (Suc (Suc i)) (Suc q)))"
      using Suc.hyps(1) [of "Suc i" ?pma] Suc.hyps(2) Suc.prems iq d by (simp add: keep cons)
    moreover have "slide_left pma i = slide_left ?pma (Suc i)"
      using Suc.prems iq one by (subst slide_left.simps) (simp add: Let_def)
    ultimately show ?thesis using Suc.prems iq by (simp add: keep cons moved_Cons)
  qed
qed

section \<open>Composition of moves\<close>

lemma put_at_append:
  "i + length ys + length zs \<le> length xs \<Longrightarrow> put_at (put_at xs i ys) (i + length ys) zs = put_at xs i (ys @ zs)"
  by (rule nth_equalityI) (auto simp: nth_put_at nth_append)

lemma put_at_again: "i + length ys \<le> length xs \<Longrightarrow> length zs = length ys \<Longrightarrow> put_at (put_at xs i ys) i zs = put_at xs i zs"
  by (rule nth_equalityI) (auto simp: nth_put_at)

lemma set_range_append:
  "sized el \<Longrightarrow> i + length xs + length ys \<le> edges_N el \<Longrightarrow>
   set_range (set_range el i xs) (i + length xs) ys = set_range el i (xs @ ys)"
  using put_at_append [of i "map fst xs" "map fst ys" "edge_vals el"] put_at_append [of i "map snd xs" "map snd ys" "edge_dests el"]
  by (simp add: set_range_def sized_def)

lemma moved_append:
  assumes "sized (edges pma)" "i + length xs + length ys \<le> edges_N (edges pma)"
  shows "moved (moved pma i xs) (i + length xs) ys = moved pma i (xs @ ys)"
proof -
  have "[i..<i + length (xs @ ys)] = [i..<i + length xs] @ [i + length xs..<i + length xs + length ys]"
    using upt_add_eq_append [of i "i + length xs" "length ys"] by (simp add: add.assoc)
  then show ?thesis using assms by (simp add: moved_def set_range_append)
qed

lemma fix_all_no_sent: "\<forall>(k, v, d) \<in> set ps. d \<noteq> SENT_VAL \<Longrightarrow> fix_all n ns ps = ns"
  by (induction n ns ps rule: fix_all.induct) auto

definition empties :: "nat \<Rightarrow> (u32 \<times> u32) list" where "empties m = replicate m (0, NULL_VAL)"

lemma NULL_not_SENT [simp]: "NULL_VAL \<noteq> SENT_VAL" "SENT_VAL \<noteq> NULL_VAL"
  by (simp_all add: NULL_VAL_def SENT_VAL_def)

lemma empties_simps [simp]:
  "length (empties m) = m" "sent_ids (empties m) = []" "filter nonnull (empties m) = []" "ids_ok n (empties m)"
  by (induction m) (simp_all add: empties_def nonnull_def)

lemma fix_all_empties [simp]: "fix_all n ns (zip is (empties m)) = ns"
  by (rule fix_all_no_sent) (auto simp: empties_def dest!: set_zip_rightD)

lemma moved_over_empties:
  assumes "sized (edges pma)" "i + length xs \<le> edges_N (edges pma)"
  shows "moved (moved pma i (empties (length xs))) i xs = moved pma i xs"
  using assms by (simp add: moved_def set_range_def sized_def put_at_again)

lemma moved_to_empties:
  assumes "sized (edges pma)" "i + length xs + m \<le> edges_N (edges pma)"
    and "slots (edges pma) (i + length xs) (i + length xs + m) = empties m"
  shows "moved pma i (xs @ empties m) = moved pma i xs"
proof -
  let ?el = "edges pma"
  have e: "edge_vals ?el ! p = 0 \<and> edge_dests ?el ! p = NULL_VAL" if "i + length xs \<le> p" "p < i + length xs + m" for p
    using that nth_slots [of "p - (i + length xs)" "i + length xs + m" "i + length xs" ?el]
    by (simp add: assms(3) empties_def)
  have "set_range ?el i (xs @ empties m) = set_range ?el i xs"
    using assms e unfolding set_range_def sized_def
    by (auto intro!: edge_list.equality nth_equalityI simp: nth_put_at nth_append empties_def)
  moreover have "[i..<i + length (xs @ empties m)] = [i..<i + length xs] @ [i + length xs..<i + length xs + m]"
    using upt_add_eq_append [of i "i + length xs" m] by (simp add: add.assoc)
  ultimately show ?thesis by (simp add: moved_def)
qed

section \<open>Redistribution\<close>

text \<open>Where the search for sentinels resumes after the slots \<open>xs\<close> are placed from \<open>k\<close> on.\<close>

fun last_end :: "node list \<Rightarrow> nat \<Rightarrow> (u32 \<times> u32) list \<Rightarrow> nat \<Rightarrow> nat" where
  "last_end ns k [] es = es"
| "last_end ns k ((v, d) # xs) es = last_end ns (Suc k) xs (if d = SENT_VAL then k + unat (num_neighbors (ns ! unat v)) else es)"

text \<open>At least as many elements as the node counts follow its sentinel before the next one.\<close>

fun spaced :: "node list \<Rightarrow> (u32 \<times> u32) list \<Rightarrow> bool" where
  "spaced ns [] = True"
| "spaced ns ((v, d) # xs) \<longleftrightarrow>
    (d = SENT_VAL \<longrightarrow> SENT_VAL \<notin> snd ` set (take (unat (num_neighbors (ns ! unat v))) xs)) \<and> spaced ns xs"

lemma spaced_append: "spaced ns (xs @ ys) \<Longrightarrow> spaced ns xs \<and> spaced ns ys"
  by (induction ns xs rule: spaced.induct) auto

lemma spaced_cong:
  "ids_ok (length ns) xs \<Longrightarrow> length ns' = length ns \<Longrightarrow> (\<And>j. j < length ns \<Longrightarrow> num_neighbors (ns' ! j) = num_neighbors (ns ! j)) \<Longrightarrow>
   spaced ns' xs = spaced ns xs"
  by (induction ns xs rule: spaced.induct) auto

lemma last_end_cong:
  "ids_ok (length ns) xs \<Longrightarrow> length ns' = length ns \<Longrightarrow> (\<And>j. j < length ns \<Longrightarrow> num_neighbors (ns' ! j) = num_neighbors (ns ! j)) \<Longrightarrow>
   last_end ns' k xs es = last_end ns k xs es"
  by (induction ns k xs es rule: last_end.induct) auto

lemma last_end_bound:
  assumes "spaced ns (xs @ ys)" "\<And>t. t < length (xs @ ys) \<Longrightarrow> snd ((xs @ ys) ! t) = SENT_VAL \<Longrightarrow> es \<le> k + t"
    and "t < length ys" "snd (ys ! t) = SENT_VAL"
  shows "last_end ns k xs es \<le> k + length xs + t"
  using assms
proof (induction ns k xs es rule: last_end.induct)
  case (2 ns k v d xs es)
  let ?nn = "unat (num_neighbors (ns ! unat v))"
  have "(if d = SENT_VAL then k + ?nn else es) \<le> Suc k + j"
    if j: "j < length (xs @ ys)" "snd ((xs @ ys) ! j) = SENT_VAL" for j
  proof (cases "d = SENT_VAL")
    case True
    then have "SENT_VAL \<notin> snd ` set (take ?nn (xs @ ys))" using 2(2) by simp
    moreover have "(xs @ ys) ! j \<in> set (take ?nn (xs @ ys))" if "j < ?nn"
      using that j(1) by (metis in_set_conv_nth length_take min_less_iff_conj nth_take)
    ultimately have "\<not> j < ?nn" using j(2) by (metis image_eqI)
    then show ?thesis using True by simp
  next
    case False
    then show ?thesis using 2(3) [of "Suc j"] j by simp
  qed
  then show ?case using 2(1) 2(2,4,5) by simp
qed simp

lemma place_dests_spec:
  assumes "sized (edges pma)" "k + length xs \<le> edges_N (edges pma)" "ids_ok (length (nodes pma)) xs"
    and "\<And>t. t < length xs \<Longrightarrow> edge_vals (edges pma) ! (k + t) = fst (xs ! t)"
  shows "place_dests pma k (map snd xs) es = Some (moved pma k xs, last_end (nodes pma) k xs es)"
  using assms
proof (induction xs arbitrary: pma k es)
  case Nil
  then show ?case by (simp add: moved_def)
next
  case (Cons s xs)
  obtain v d where s: "s = (v, d)" by fastforce
  let ?pma = "moved pma k [s]"
  let ?es = "if d = SENT_VAL then k + unat (num_neighbors (nodes pma ! unat v)) else es"
  have v: "edge_vals (edges pma) ! k = v" using Cons.prems(4) [of 0] s by simp
  have set: "pma\<lparr>edges := (edges pma)\<lparr>edge_dests := (edge_dests (edges pma))[k := d]\<rparr>\<rparr> = pma\<lparr>edges := set_range (edges pma) k [s]\<rparr>"
    using Cons.prems(1,2) v list_update_id [of "edge_vals (edges pma)" k]
    by (simp add: set_range_def sized_def s put_at_Cons [symmetric])
  have "(if d = SENT_VAL then fix_sentinel (pma\<lparr>edges := set_range (edges pma) k [s]\<rparr>) (unat v) k
         else Some (pma\<lparr>edges := set_range (edges pma) k [s]\<rparr>, es)) = Some (?pma, ?es)"
    using Cons.prems(3) s by (auto simp: fix_sentinel_def moved_def Let_def fix_node_set)
  moreover have "edge_vals (set_range (edges pma) k [s]) ! k = v"
    using Cons.prems(1,2) set_range_inside(1) [of "edges pma" k "[s]" k] s by simp
  moreover have "place_dests ?pma (Suc k) (map snd xs) ?es = Some (moved ?pma (Suc k) xs, last_end (nodes ?pma) (Suc k) xs ?es)"
  proof (rule Cons.IH)
    fix t assume "t < length xs"
    then show "edge_vals (edges ?pma) ! (Suc k + t) = fst (xs ! t)"
      using Cons.prems(1,2) Cons.prems(4) [of "Suc t"] set_range_outside(1) [of "edges pma" k "[s]" "Suc k + t"] by simp
  qed (use Cons.prems in auto)
  moreover have "last_end (nodes ?pma) (Suc k) xs ?es = last_end (nodes pma) (Suc k) xs ?es"
    using Cons.prems(3) by (intro last_end_cong) (simp_all add: moved_def)
  ultimately show ?case using Cons.prems(1,2) set s by (cases "d = SENT_VAL") (simp_all add: moved_Cons)
qed

definition leaf_count :: "nat \<Rightarrow> nat \<Rightarrow> nat \<Rightarrow> nat" where
  "leaf_count cpl extra i = cpl + (if i < extra then 1 else 0)"

definition leaf_from :: "nat \<Rightarrow> nat \<Rightarrow> nat \<Rightarrow> nat" where
  "leaf_from cpl extra i = cpl * i + min i extra"

lemma leaf_from_Suc: "leaf_from cpl extra (Suc i) = leaf_from cpl extra i + leaf_count cpl extra i"
  by (simp add: leaf_from_def leaf_count_def)

definition leaf_slots :: "nat \<Rightarrow> (u32 \<times> u32) list \<Rightarrow> nat \<Rightarrow> nat \<Rightarrow> nat \<Rightarrow> (u32 \<times> u32) list" where
  "leaf_slots L sp cpl extra i =
    take (leaf_count cpl extra i) (drop (leaf_from cpl extra i) sp) @ empties (L - leaf_count cpl extra i)"

lemma ids_ok_subset: "ids_ok n xs \<Longrightarrow> set ys \<subseteq> set xs \<Longrightarrow> ids_ok n ys"
  by (auto simp: ids_ok_def sent_ids_def)

lemma moved_known:
  assumes "sized (edges pma)" "k + length xs \<le> edges_N (edges pma)"
  shows "moved (pma\<lparr>edges := (edges pma)\<lparr>edge_vals := put_at (edge_vals (edges pma)) k (map fst xs)\<rparr>\<rparr>) k xs = moved pma k xs"
  using assms by (simp add: moved_def set_range_def sized_def put_at_again)

lemma moved_no_sent:
  assumes "SENT_VAL \<notin> snd ` set xs"
  shows "moved pma k xs = pma\<lparr>edges := set_range (edges pma) k xs\<rparr>"
proof -
  have "fix_all n ns (zip [k..<k + length xs] xs) = ns" for n ns
    by (rule fix_all_no_sent) (use assms in \<open>force dest: set_zip_rightD\<close>)
  then show ?thesis by (simp add: moved_def)
qed

lemma no_sentI: "(\<And>t. t < length xs \<Longrightarrow> snd (xs ! t) \<noteq> SENT_VAL) \<Longrightarrow> SENT_VAL \<notin> snd ` set xs"
proof
  assume "\<And>t. t < length xs \<Longrightarrow> snd (xs ! t) \<noteq> SENT_VAL" and "SENT_VAL \<in> snd ` set xs"
  then obtain t where "t < length xs" "snd (xs ! t) = SENT_VAL" by (force simp: in_set_conv_nth)
  with \<open>\<And>t. t < length xs \<Longrightarrow> snd (xs ! t) \<noteq> SENT_VAL\<close> show False by blast
qed

lemma spaced_drop: "spaced ns xs \<Longrightarrow> spaced ns (drop k xs)"
  using spaced_append [of ns "take k xs" "drop k xs"] by simp

lemma redistribute_leaf_spec:
  assumes sz: "sized (edges pma)" "k + logN (edges pma) \<le> edges_N (edges pma)" and k: "k = index + logN (edges pma) * i"
    and cnt: "leaf_count cpl extra i \<le> logN (edges pma)" "leaf_from cpl extra i + leaf_count cpl extra i \<le> length sp"
    and emp: "slots (edges pma) k (k + logN (edges pma)) = empties (logN (edges pma))"
    and ids: "ids_ok (length (nodes pma)) sp" and sp: "spaced (nodes pma) (drop (leaf_from cpl extra i) sp)"
    and es: "\<And>t. t < length (drop (leaf_from cpl extra i) sp) \<Longrightarrow> snd (drop (leaf_from cpl extra i) sp ! t) = SENT_VAL \<Longrightarrow> es \<le> k + t"
  shows "\<exists>es'. redistribute_leaf index sp cpl extra i pma es = Some (moved pma k (leaf_slots (logN (edges pma)) sp cpl extra i), es') \<and>
    (\<forall>t < length (drop (leaf_from cpl extra (Suc i)) sp). snd (drop (leaf_from cpl extra (Suc i)) sp ! t) = SENT_VAL \<longrightarrow>
       es' \<le> k + logN (edges pma) + t)"
proof -
  let ?L = "logN (edges pma)" and ?c = "leaf_count cpl extra i" and ?J = "leaf_from cpl extra i"
  let ?xs = "take ?c (drop ?J sp)" and ?ys = "drop (leaf_from cpl extra (Suc i)) sp"
  let ?pma = "pma\<lparr>edges := (edges pma)\<lparr>edge_vals := put_at (edge_vals (edges pma)) k (map fst ?xs)\<rparr>\<rparr>"
  have split: "drop ?J sp = ?xs @ ?ys" by (simp add: leaf_from_Suc add.commute drop_drop [symmetric] del: drop_drop)
  have len: "length ?xs = ?c" using cnt(2) by simp
  have sp': "spaced (nodes pma) (?xs @ ?ys)"
    and es': "\<And>t. t < length (?xs @ ?ys) \<Longrightarrow> snd ((?xs @ ?ys) ! t) = SENT_VAL \<Longrightarrow> es \<le> k + t"
    using sp es by (simp_all only: split [symmetric])
  have room: "k + length ?xs \<le> edges_N (edges pma)" using sz(2) cnt(1) len by simp
  have tail: "slots (edges pma) (k + length ?xs) (k + length ?xs + (?L - ?c)) = empties (?L - ?c)"
  proof -
    have "slots (edges pma) k (k + ?L) = slots (edges pma) k (k + ?c) @ slots (edges pma) (k + ?c) (k + ?L)"
      using cnt(1) by (intro slots_append) simp_all
    then have "drop ?c (slots (edges pma) k (k + ?L)) = slots (edges pma) (k + ?c) (k + ?L)" by simp
    then show ?thesis using cnt(1) len emp by (simp add: empties_def)
  qed
  have final: "moved pma k (leaf_slots ?L sp cpl extra i) = moved pma k ?xs"
    unfolding leaf_slots_def by (rule moved_to_empties [OF sz(1) _ tail]) (use sz(2) cnt(1) len in simp)
  have def: "redistribute_leaf index sp cpl extra i pma es =
      (if es > k + ?c then Some (?pma\<lparr>edges := (edges ?pma)\<lparr>edge_dests := put_at (edge_dests (edges ?pma)) k (map snd ?xs)\<rparr>\<rparr>, es)
       else place_dests ?pma k (map snd ?xs) es)"
    by (simp add: redistribute_leaf_def Let_def leaf_count_def leaf_from_def k)
  show ?thesis
  proof (cases "es > k + ?c")
    case True
    have "snd (?xs ! t) \<noteq> SENT_VAL" if "t < length ?xs" for t
      using es' [of t] True that len by (auto simp: nth_append)
    then have "SENT_VAL \<notin> snd ` set ?xs" by (rule no_sentI)
    then have "moved pma k ?xs = pma\<lparr>edges := set_range (edges pma) k ?xs\<rparr>" by (rule moved_no_sent)
    moreover have "es \<le> k + ?L + t" if "t < length ?ys" "snd (?ys ! t) = SENT_VAL" for t
      using es' [of "?c + t"] that len cnt(1) by (simp add: nth_append del: length_drop)
    ultimately show ?thesis using True by (simp add: def final set_range_def)
  next
    case False
    have "place_dests ?pma k (map snd ?xs) es = Some (moved ?pma k ?xs, last_end (nodes ?pma) k ?xs es)"
    proof (rule place_dests_spec)
      show "sized (edges ?pma)" "k + length ?xs \<le> edges_N (edges ?pma)" using sz(1) room by (simp_all add: sized_def)
      show "ids_ok (length (nodes ?pma)) ?xs" using ids by (auto intro: ids_ok_subset dest: in_set_takeD in_set_dropD)
      show "edge_vals (edges ?pma) ! (k + t) = fst (?xs ! t)" if "t < length ?xs" for t
        using that set_range_inside(1) [OF sz(1) room, of "k + t"] by (simp only: set_range_def) simp
    qed
    moreover have "last_end (nodes pma) k ?xs es \<le> k + ?L + t" if "t < length ?ys" "snd (?ys ! t) = SENT_VAL" for t
      using last_end_bound [OF sp' es' that] len cnt(1) by (simp del: length_drop)
    ultimately show ?thesis using False moved_known [OF sz(1) room] by (simp add: def final del: length_drop)
  qed
qed

lemma slots_after_move:
  assumes "sized el" "i + length xs \<le> edges_N el" "i + length xs \<le> a" "b \<le> edges_N el"
  shows "slots (set_range el i xs) a b = slots el a b"
  by (rule slots_cong) (use assms set_range_outside [OF assms(1,2)] in auto)

lemma slots_before_move:
  assumes "sized el" "i + length xs \<le> edges_N el" "b \<le> i"
  shows "slots (set_range el i xs) a b = slots el a b"
  by (rule slots_cong) (use assms set_range_outside [OF assms(1,2)] in auto)

lemma length_leaf_slots:
  "leaf_count cpl extra i \<le> L \<Longrightarrow> leaf_from cpl extra i + leaf_count cpl extra i \<le> length sp \<Longrightarrow> length (leaf_slots L sp cpl extra i) = L"
  by (simp add: leaf_slots_def)

lemma length_concat_const: "(\<And>x. x \<in> set xs \<Longrightarrow> length (f x) = L) \<Longrightarrow> length (concat (map f xs)) = L * length xs"
  by (induction xs) simp_all

lemma leaf_from_mono: "i \<le> j \<Longrightarrow> leaf_from cpl extra i \<le> leaf_from cpl extra j"
  by (simp add: leaf_from_def add_mono min.coboundedI1 min_le_iff_disj mult_le_mono)

lemma redistribute_leaves_spec:
  assumes "sized (edges pma)" "index + logN (edges pma) * m \<le> edges_N (edges pma)"
    and "\<And>i. leaf_count cpl extra i \<le> logN (edges pma)" "leaf_from cpl extra m \<le> length sp"
    and "i \<le> m" "slots (edges pma) (index + logN (edges pma) * i) (index + logN (edges pma) * m) = empties (logN (edges pma) * (m - i))"
    and "ids_ok (length (nodes pma)) sp" "spaced (nodes pma) (drop (leaf_from cpl extra i) sp)"
    and "\<And>t. t < length (drop (leaf_from cpl extra i) sp) \<Longrightarrow> snd (drop (leaf_from cpl extra i) sp ! t) = SENT_VAL \<Longrightarrow>
           es \<le> index + logN (edges pma) * i + t"
  shows "map_option fst (redistribute_leaves index sp cpl extra [i..<m] pma es) =
    Some (moved pma (index + logN (edges pma) * i) (concat (map (leaf_slots (logN (edges pma)) sp cpl extra) [i..<m])))"
  using assms
proof (induction "m - i" arbitrary: i pma es)
  case 0
  then show ?case by (simp add: moved_def)
next
  case (Suc r)
  let ?L = "logN (edges pma)" and ?k = "index + logN (edges pma) * i"
  let ?s = "leaf_slots ?L sp cpl extra i"
  note prems = Suc.prems
  have im: "i < m" using Suc.hyps(2) by simp
  have fits: "leaf_from cpl extra i + leaf_count cpl extra i \<le> length sp"
    using leaf_from_mono [of "Suc i" m cpl extra] im prems(4) by (simp add: leaf_from_Suc)
  have next_k: "?k + ?L = index + ?L * Suc i" by simp
  have room: "?k + ?L \<le> edges_N (edges pma)" "?L * Suc i \<le> ?L * m"
    using prems(2) im mult_le_mono2 [of "Suc i" m ?L] unfolding next_k by simp_all
  have len: "length ?s = ?L" using length_leaf_slots prems(3) fits by blast
  have emp: "slots (edges pma) ?k (?k + ?L) = empties ?L" "slots (edges pma) (?k + ?L) (index + ?L * m) = empties (?L * (m - Suc i))"
  proof -
    have "slots (edges pma) ?k (?k + ?L) @ slots (edges pma) (?k + ?L) (index + ?L * m) = empties (?L * (m - i))"
      using prems(6) slots_append [of ?k "?k + ?L" "index + ?L * m" "edges pma"] room(2) by simp
    also have "\<dots> = empties ?L @ empties (?L * (m - Suc i))"
      using im by (simp add: empties_def replicate_add [symmetric] Suc_diff_Suc [symmetric] mult_Suc_right [symmetric] del: mult_Suc_right)
    finally show "slots (edges pma) ?k (?k + ?L) = empties ?L" "slots (edges pma) (?k + ?L) (index + ?L * m) = empties (?L * (m - Suc i))"
      by (simp_all add: append_eq_append_conv)
  qed
  obtain es' where leaf: "redistribute_leaf index sp cpl extra i pma es = Some (moved pma ?k ?s, es')"
    and es': "\<And>t. t < length (drop (leaf_from cpl extra (Suc i)) sp) \<Longrightarrow> snd (drop (leaf_from cpl extra (Suc i)) sp ! t) = SENT_VAL \<Longrightarrow>
       es' \<le> ?k + ?L + t"
    using redistribute_leaf_spec [OF prems(1) room(1) refl prems(3) fits emp(1) prems(7,8) prems(9)] by blast
  let ?pma = "moved pma ?k ?s"
  let ?rest = "concat (map (leaf_slots ?L sp cpl extra) [Suc i..<m])"
  have rest: "map_option fst (redistribute_leaves index sp cpl extra [Suc i..<m] ?pma es') = Some (moved ?pma (?k + ?L) ?rest)"
  proof -
    have "spaced (nodes ?pma) (drop (leaf_from cpl extra (Suc i)) sp)"
    proof -
      have "spaced (nodes pma) (drop (leaf_from cpl extra (Suc i)) sp)"
        using spaced_drop [OF prems(8), of "leaf_count cpl extra i"] by (simp add: leaf_from_Suc add.commute)
      moreover have "ids_ok (length (nodes pma)) (drop (leaf_from cpl extra (Suc i)) sp)"
        using prems(7) by (auto intro: ids_ok_subset dest: in_set_dropD)
      ultimately show ?thesis by (subst spaced_cong [where ns = "nodes pma"]) (simp_all add: moved_def)
    qed
    moreover have "slots (set_range (edges pma) ?k ?s) (index + ?L * Suc i) (index + ?L * m) = empties (?L * (m - Suc i))"
      using slots_after_move [of "edges pma" ?k ?s "?k + ?L" "index + ?L * m"] prems(1,2) room len emp(2)
      unfolding next_k by simp
    moreover have "sized (set_range (edges pma) ?k ?s)" using prems(1) room(1) len by simp
    moreover have "r = m - Suc i" using Suc.hyps(2) by simp
    ultimately show ?thesis using Suc.hyps(1) [of "Suc i" ?pma es'] prems(2-4,7) im es' unfolding next_k
      by (simp del: length_drop mult_Suc_right map_option_eq_Some)
  qed
  have "?k + ?L + length ?rest \<le> edges_N (edges pma)"
  proof -
    have "length (leaf_slots ?L sp cpl extra j) = ?L" if "j \<in> set [Suc i..<m]" for j
      using that leaf_from_mono [of "Suc j" m cpl extra] prems(3,4) by (intro length_leaf_slots) (simp_all add: leaf_from_Suc)
    then have "length ?rest = ?L * (m - Suc i)"
      using length_concat_const [of "[Suc i..<m]" "leaf_slots ?L sp cpl extra" ?L] by simp
    moreover have "?L * Suc i + ?L * (m - Suc i) = ?L * m" using im by (simp add: distrib_left [symmetric] del: mult_Suc_right)
    ultimately show ?thesis using prems(2) by simp
  qed
  then have "moved ?pma (?k + ?L) ?rest = moved pma ?k (?s @ ?rest)"
    using moved_append [OF prems(1), of ?k ?s ?rest] unfolding len by blast
  then show ?case using im leaf rest by (simp add: upt_conv_Cons del: map_option_eq_Some)
qed

text \<open>The even distribution of \<open>sp\<close> over \<open>m\<close> leaves of \<open>L\<close> slots.\<close>

definition spread :: "nat \<Rightarrow> nat \<Rightarrow> (u32 \<times> u32) list \<Rightarrow> (u32 \<times> u32) list" where
  "spread L m sp = concat (map (leaf_slots L sp (length sp div m) (length sp mod m)) [0..<m])"

lemma leaf_from_0 [simp]: "leaf_from cpl extra 0 = 0"
  by (simp add: leaf_from_def)

lemma leaf_from_all: "0 < m \<Longrightarrow> leaf_from (j div m) (j mod m) m = j"
  by (simp add: leaf_from_def min_absorb2 less_imp_le mult.commute)

lemma leaf_count_le: "0 < m \<Longrightarrow> j \<le> L * m \<Longrightarrow> leaf_count (j div m) (j mod m) i \<le> L"
proof -
  assume m: "0 < m" and j: "j \<le> L * m"
  have "j div m < L" if "i < j mod m"
  proof -
    have "j div m * m < L * m" using j that div_mult_mod_eq [of j m] by linarith
    then show ?thesis by simp
  qed
  moreover have "j div m \<le> L" using m j by (metis div_le_mono div_mult_self_is_m)
  ultimately show ?thesis by (auto simp: leaf_count_def Suc_le_eq)
qed

text \<open>With one slot to spare in every leaf on average, no leaf is filled.\<close>

lemma leaf_count_less: "0 < m \<Longrightarrow> 0 < L \<Longrightarrow> j \<le> (L - 1) * m \<Longrightarrow> leaf_count (j div m) (j mod m) i < L"
  using leaf_count_le [of m j "L - 1" i] by simp

lemma spread_leaf_lengths:
  assumes "0 < m" "length sp \<le> L * m" "i < m"
  shows "leaf_count (length sp div m) (length sp mod m) i \<le> L"
    and "leaf_from (length sp div m) (length sp mod m) i + leaf_count (length sp div m) (length sp mod m) i \<le> length sp"
  using leaf_count_le [OF assms(1,2)] leaf_from_all [OF assms(1), of "length sp"]
    leaf_from_mono [of "Suc i" m "length sp div m" "length sp mod m"] assms(3) by (simp_all add: leaf_from_Suc)

lemma length_spread: "0 < m \<Longrightarrow> length sp \<le> L * m \<Longrightarrow> length (spread L m sp) = L * m"
  unfolding spread_def using spread_leaf_lengths [of m sp L]
  by (subst length_concat_const [where L = L]) (simp_all add: length_leaf_slots)

lemma filter_spread:
  assumes "0 < m" "filter nonnull sp = sp"
  shows "filter nonnull (spread L m sp) = sp"
proof -
  let ?c = "length sp div m" and ?e = "length sp mod m"
  have "filter nonnull (concat (map (leaf_slots L sp ?c ?e) [0..<i])) = take (leaf_from ?c ?e i) sp" if "i \<le> m" for i
    using that
  proof (induction i)
    case (Suc i)
    have "filter nonnull (take (leaf_count ?c ?e i) (drop (leaf_from ?c ?e i) sp)) = take (leaf_count ?c ?e i) (drop (leaf_from ?c ?e i) sp)"
      using assms(2) unfolding filter_id_conv by (auto dest: in_set_takeD in_set_dropD)
    then show ?case using Suc by (simp add: leaf_slots_def leaf_from_Suc take_add)
  qed simp
  then show ?thesis using leaf_from_all [OF assms(1), of "length sp"] by (simp add: spread_def)
qed

lemma nonnull_fun: "nonnull = (\<lambda>s. snd s \<noteq> NULL_VAL)"
  by (simp add: fun_eq_iff nonnull_def)

lemma redistribute_spec:
  fixes pma index len
  defines "sp \<equiv> filter nonnull (slots (edges pma) index (index + len))" and "L \<equiv> logN (edges pma)"
  assumes "sized (edges pma)" "L = 2 ^ loglogN (edges pma)" "len = L * m" "1 < m" "8 dvd len" "index + len \<le> edges_N (edges pma)"
    and "ids_ok (length (nodes pma)) sp" "spaced (nodes pma) sp"
  shows "redistribute pma index len = Some (moved pma index (spread L m sp))"
proof -
  let ?pma = "moved pma index (empties len)"
  let ?c = "length sp div m" and ?e = "length sp mod m"
  have L: "0 < L" using assms(4) by simp
  have m: "len div L = m" "len \<noteq> L" using assms(5,6) L by simp_all
  have small: "length sp \<le> L * m" using assms(5) by (simp add: sp_def le_trans [OF length_filter_le])
  have clear: "pma\<lparr>edges := (edges pma)\<lparr>edge_vals := put_at (edge_vals (edges pma)) index (replicate len 0),
                  edge_dests := put_at (edge_dests (edges pma)) index (replicate len NULL_VAL)\<rparr>\<rparr> = ?pma"
    by (simp add: moved_def set_range_def) (simp add: empties_def)
  have same: "edges_N (edges ?pma) = edges_N (edges pma)" "logN (edges ?pma) = L" "sized (edges ?pma)" "nodes ?pma = nodes pma"
    using assms(3,8) by (simp_all add: L_def moved_def)
  have emp: "slots (set_range (edges pma) index (empties len)) index (index + len) = empties len"
    by (rule nth_equalityI) (use assms(3,8) set_range_inside [OF assms(3), of index "empties len"] in \<open>simp_all add: nth_slots\<close>)
  have "map_option fst (redistribute_leaves index sp ?c ?e [0..<m] ?pma 0) =
      Some (moved ?pma (index + L * 0) (concat (map (leaf_slots L sp ?c ?e) [0..<m])))"
    using redistribute_leaves_spec [of ?pma index m ?c ?e sp 0 0] same assms(5,6,8-10) leaf_count_le [of m "length sp" L]
      leaf_from_all [of m "length sp"] small emp
    by (simp add: L_def [symmetric] del: map_option_eq_Some)
  moreover have "moved ?pma index (spread L m sp) = moved pma index (spread L m sp)"
    using moved_over_empties [OF assms(3), of index "spread L m sp"] length_spread [of m sp L] assms(5,6,8) small by simp
  moreover have "redistribute pma index len = map_option fst (redistribute_leaves index sp ?c ?e [0..<m] ?pma 0)"
    using assms(3,4,7,8) m assms(6) unfolding redistribute_def clear
    by (simp add: Let_def sp_def nonnull_fun case_prod_beta' sized_def L_def [symmetric] dvd_eq_mod_eq_0 moved_def del: map_option_eq_Some)
  ultimately show ?thesis by (simp add: spread_def del: map_option_eq_Some)
qed

end
