(* ===== verification/PMA_Inv.thy ===== *)
theory PMA_Inv
  imports PMA_Moves
begin

unbundle bit_operations_syntax

text \<open>
  The invariant of the packed memory array and its preservation by slides, redistribution, growing and shrinking.
\<close>

section \<open>The invariant\<close>

definition geometry_ok :: "edge_list \<Rightarrow> bool" where
  "geometry_ok el \<longleftrightarrow>
    logN el = 2 ^ loglogN el \<and> 2 \<le> loglogN el \<and> edges_N el = logN el * 2 ^ edges_H el \<and> 1 \<le> edges_H el \<and> edges_N el \<le> 2 ^ 32 \<and>
    mask_for_leaf el = NOT (2 ^ loglogN el - 1) \<and> density_limit el = (real (logN el) - 1) / real (logN el)"

text \<open>In a leaf the nonempty slots come first; a leaf is not full when its last slot is empty.\<close>

definition packed_at :: "edge_list \<Rightarrow> nat \<Rightarrow> bool" where
  "packed_at el p \<longleftrightarrow>
    (p < edges_N el \<longrightarrow> p mod logN el \<noteq> 0 \<longrightarrow> edge_dests el ! p \<noteq> NULL_VAL \<longrightarrow> edge_dests el ! (p - 1) \<noteq> NULL_VAL)"

definition last_free :: "edge_list \<Rightarrow> nat \<Rightarrow> bool" where
  "last_free el p \<longleftrightarrow> (p < edges_N el \<longrightarrow> p mod logN el = logN el - 1 \<longrightarrow> edge_dests el ! p = NULL_VAL)"

definition no_full_leaf :: "edge_list \<Rightarrow> bool" where
  "no_full_leaf el \<longleftrightarrow> (\<forall>p. last_free el p)"

text \<open>No leaf before the last sentinel is empty.\<close>

definition no_gap :: "edge_list \<Rightarrow> bool" where
  "no_gap el \<longleftrightarrow> (\<forall>c p. c mod logN el = 0 \<longrightarrow> c \<le> p \<longrightarrow> p < edges_N el \<longrightarrow> edge_dests el ! p = SENT_VAL \<longrightarrow> edge_dests el ! c \<noteq> NULL_VAL)"

text \<open>Every sentinel is where the nodes on both sides of it say.\<close>

definition pointer_at :: "edge_list \<Rightarrow> node list \<Rightarrow> nat \<Rightarrow> bool" where
  "pointer_at el ns p \<longleftrightarrow>
    (p < edges_N el \<longrightarrow> edge_dests el ! p = SENT_VAL \<longrightarrow>
       beginning (ns ! unat (edge_vals el ! p)) = p \<and> node_end (ns ! (unat (edge_vals el ! p) - 1)) = p)"

definition slot_ok :: "edge_list \<Rightarrow> node list \<Rightarrow> nat \<Rightarrow> bool" where
  "slot_ok el ns p \<longleftrightarrow> packed_at el p \<and> pointer_at el ns p"

definition first_ok :: "PMA \<Rightarrow> bool" where
  "first_ok pma \<longleftrightarrow> 0 < length (nodes pma) \<and> beginning (nodes pma ! 0) = 0 \<and>
    0 < edges_N (edges pma) \<and> edge_dests (edges pma) ! 0 \<noteq> NULL_VAL \<and> edge_dests (edges pma) ! 0 \<noteq> SENT_VAL"

definition array_core :: "PMA \<Rightarrow> bool" where
  "array_core pma \<longleftrightarrow>
    sized (edges pma) \<and> geometry_ok (edges pma) \<and> first_ok pma \<and>
    sent_ids (elems (edges pma)) = [1..<length (nodes pma)] \<and> spaced (nodes pma) (elems (edges pma))"

definition array_ok :: "PMA \<Rightarrow> bool" where
  "array_ok pma \<longleftrightarrow> array_core pma \<and> (\<forall>p. slot_ok (edges pma) (nodes pma) p)"

lemma logN_pos: "geometry_ok el \<Longrightarrow> 4 \<le> logN el"
  using power_increasing [of 2 "loglogN el" "2 :: nat"] by (simp add: geometry_ok_def)

lemma sent_ids_filter [simp]: "sent_ids (filter nonnull xs) = sent_ids xs"
  by (induction xs) (auto simp: nonnull_def)

lemma ids_ok_filter [simp]: "ids_ok n (filter nonnull xs) = ids_ok n xs"
  by (simp add: ids_ok_def)

lemma sent_ids_elems: "sized el \<Longrightarrow> sent_ids (elems el) = sent_ids (slots el 0 (edges_N el))"
  by (simp add: elems_slots)

lemma ids_ok_slots:
  assumes "sized el" "sent_ids (elems el) = [1..<n]" "j \<le> edges_N el"
  shows "ids_ok n (slots el i j)"
proof (cases "i \<le> j")
  case True
  then have "slots el 0 (edges_N el) = slots el 0 i @ slots el i j @ slots el j (edges_N el)"
    using assms(3) slots_append [of 0 i "edges_N el" el] slots_append [of i j "edges_N el" el] by simp
  then have "set (sent_ids (slots el i j)) \<subseteq> {1..<n}"
    using assms by (metis (no_types, lifting) Un_iff atLeastLessThan_upt sent_ids_elems sent_ids_simps(3) set_append subsetI)
  then show ?thesis by (auto simp: ids_ok_def)
qed simp

section \<open>Pointers after a move\<close>

lemma sent_id_in: "p < edges_N el \<Longrightarrow> edge_dests el ! p = SENT_VAL \<Longrightarrow> i \<le> p \<Longrightarrow> p < j \<Longrightarrow> unat (edge_vals el ! p) \<in> set (sent_ids (slots el i j))"
  by (force simp: sent_ids_def slots_def)

lemma moved_pointers:
  assumes sz: "sized (edges pma)" "i + length xs \<le> edges_N (edges pma)"
    and old: "\<And>p. p < i \<or> i + length xs \<le> p \<Longrightarrow> pointer_at (edges pma) (nodes pma) p"
    and new: "sent_ids (elems (set_range (edges pma) i xs)) = [1..<length (nodes pma)]"
  shows "pointer_at (edges (moved pma i xs)) (nodes (moved pma i xs)) p"
  unfolding pointer_at_def
proof (intro impI)
  let ?el = "edges pma" and ?el' = "set_range (edges pma) i xs" and ?n = "length (nodes pma)" and ?N = "edges_N (edges pma)"
  let ?ps = "zip [i..<i + length xs] xs"
  assume "p < edges_N (edges (moved pma i xs))" and "edge_dests (edges (moved pma i xs)) ! p = SENT_VAL"
  then have p: "p < ?N" "edge_dests ?el' ! p = SENT_VAL" by simp_all
  have all: "slots ?el' 0 ?N = slots ?el 0 i @ xs @ slots ?el (i + length xs) ?N" by (rule slots_set_range [OF sz])
  have "distinct (sent_ids (slots ?el 0 i @ xs @ slots ?el (i + length xs) ?N))"
    using new sent_ids_elems [of ?el'] sz all by (metis distinct_upt set_range_fields(1) sized_set_range)
  then have dist: "distinct (sent_ids xs)" "set (sent_ids (slots ?el 0 i)) \<inter> set (sent_ids xs) = {}"
      "set (sent_ids (slots ?el (i + length xs) ?N)) \<inter> set (sent_ids xs) = {}" by auto
  have "ids_ok ?n (slots ?el' 0 ?N)" using ids_ok_slots [of ?el' ?n ?N 0] new sz by simp
  then have ids: "ids_ok ?n xs" "ids_ok ?n (slots ?el 0 i)" "ids_ok ?n (slots ?el (i + length xs) ?N)" by (simp_all add: all)
  have snds: "map snd ?ps = xs" by simp
  let ?v = "unat (edge_vals ?el' ! p)"
  show "beginning (nodes (moved pma i xs) ! unat (edge_vals (edges (moved pma i xs)) ! p)) = p \<and>
        node_end (nodes (moved pma i xs) ! (unat (edge_vals (edges (moved pma i xs)) ! p) - 1)) = p"
  proof (cases "i \<le> p \<and> p < i + length xs")
    case True
    then have "(p, xs ! (p - i)) \<in> set ?ps" by (force simp: set_zip)
    moreover have "xs ! (p - i) = (edge_vals ?el' ! p, SENT_VAL)"
      using True set_range_inside [OF sz, of p] p(2) by (simp add: prod_eq_iff)
    ultimately show ?thesis using fix_all_here [of "nodes pma" ?ps p "edge_vals ?el' ! p" ?N] ids(1) dist(1)
      by (simp add: moved_def)
  next
    case False
    then have eq: "edge_vals ?el' ! p = edge_vals ?el ! p" "edge_dests ?el ! p = SENT_VAL"
      using set_range_outside [OF sz p(1)] p(2) by auto
    have mem: "?v \<in> set (sent_ids (slots ?el 0 i)) \<or> ?v \<in> set (sent_ids (slots ?el (i + length xs) ?N))"
      using False sent_id_in [of p ?el 0 i] sent_id_in [of p ?el "i + length xs" ?N] p(1) eq by auto
    then have "?v \<notin> set (sent_ids xs)" "0 < ?v" "?v < ?n" using dist(2,3) ids(2,3) by (auto simp: ids_ok_def)
    moreover have "pointer_at ?el (nodes pma) p" using False by (intro old) auto
    ultimately show ?thesis using fix_all_other [of "nodes pma" ?ps ?v ?N] ids(1) p(1) eq
      by (auto simp: moved_def pointer_at_def)
  qed
qed

lemma geometry_set_range [simp]: "geometry_ok (set_range el i xs) = geometry_ok el"
  by (simp add: geometry_ok_def)

lemma spaced_moved:
  "ids_ok (length (nodes pma)) zs \<Longrightarrow> spaced (nodes (moved pma i xs)) zs = spaced (nodes pma) zs"
  by (rule spaced_cong) (simp_all add: moved_def)

lemma array_ok_moved:
  assumes ok: "sized (edges pma)" "geometry_ok (edges pma)" "first_ok pma"
    and out: "\<And>p. p < i \<or> i + length xs \<le> p \<Longrightarrow> pointer_at (edges pma) (nodes pma) p"
    and fit: "i + length xs \<le> edges_N (edges pma)"
    and ids: "sent_ids (elems (set_range (edges pma) i xs)) = [1..<length (nodes pma)]"
    and sp: "spaced (nodes pma) (elems (set_range (edges pma) i xs))"
    and pk: "\<And>p. packed_at (set_range (edges pma) i xs) p"
    and first: "edge_dests (set_range (edges pma) i xs) ! 0 \<noteq> NULL_VAL" "edge_dests (set_range (edges pma) i xs) ! 0 \<noteq> SENT_VAL"
  shows "array_ok (moved pma i xs)"
proof -
  note sz = ok(1)
  have idx: "ids_ok (length (nodes pma)) zs" if "sent_ids zs = [1..<length (nodes pma)]" for zs using that by (simp add: ids_ok_def)
  have "ids_ok (length (nodes pma)) xs"
    using idx [OF ids] by (simp add: elems_set_range [OF sz fit])
  then have "first_ok (moved pma i xs)"
    using ok first fix_all_first [of "nodes pma" "zip [i..<i + length xs] xs"] by (simp add: first_ok_def moved_def)
  moreover have "pointer_at (edges (moved pma i xs)) (nodes (moved pma i xs)) p" for p
    using moved_pointers [OF sz fit out ids] by blast
  ultimately show ?thesis using ok fit ids sp pk spaced_moved [OF idx [OF ids]] sz
    by (simp add: array_ok_def array_core_def slot_ok_def)
qed

section \<open>Redistribution\<close>

lemma nth_concat_const:
  "(\<And>x. x < m \<Longrightarrow> length (f x) = L) \<Longrightarrow> q < m \<Longrightarrow> r < L \<Longrightarrow> concat (map f [0..<m]) ! (L * q + r) = f q ! r"
proof (induction m)
  case (Suc m)
  have len: "length (concat (map f [0..<m])) = L * m"
    using length_concat_const [of "[0..<m]" f L] Suc.prems(1) by simp
  show ?case
  proof (cases "q = m")
    case True
    then show ?thesis using len by (simp add: nth_append)
  next
    case False
    then have "L * q + r < L * m" using Suc.prems by (metis less_SucE mod_less_divisor mod_mult_self4 mult_Suc_right add.commute
          add_strict_left_mono linorder_not_less mult_le_mono2 Suc_leI order.strict_trans2)
    then show ?thesis using Suc False len by (simp add: nth_append)
  qed
qed simp

lemma nth_leaf_slots:
  assumes "leaf_from cpl extra q + leaf_count cpl extra q \<le> length sp" "leaf_count cpl extra q \<le> L" "r < L"
  shows "leaf_slots L sp cpl extra q ! r =
    (if r < leaf_count cpl extra q then sp ! (leaf_from cpl extra q + r) else (0, NULL_VAL))"
  using assms by (auto simp: leaf_slots_def nth_append empties_def)

lemma nth_spread:
  assumes "0 < m" "length sp \<le> L * m" "q < m" "r < L"
  shows "spread L m sp ! (L * q + r) =
    (if r < leaf_count (length sp div m) (length sp mod m) q
     then sp ! (leaf_from (length sp div m) (length sp mod m) q + r) else (0, NULL_VAL))"
  unfolding spread_def using spread_leaf_lengths [OF assms(1,2)] assms(3,4)
  by (subst nth_concat_const) (simp_all add: length_leaf_slots nth_leaf_slots)

lemma spread_nonnull:
  assumes "0 < m" "length sp \<le> L * m" "q < m" "r < L" "filter nonnull sp = sp"
  shows "snd (spread L m sp ! (L * q + r)) \<noteq> NULL_VAL \<longleftrightarrow> r < leaf_count (length sp div m) (length sp mod m) q"
proof -
  have "snd (sp ! t) \<noteq> NULL_VAL" if "t < length sp" for t
    using assms(5) that unfolding filter_id_conv by (simp add: nonnull_def)
  then show ?thesis using nth_spread [OF assms(1-4)] spread_leaf_lengths(2) [OF assms(1-3)] by auto
qed

lemma range_position:
  fixes L :: nat
  assumes "0 < L" "L dvd index" "index \<le> p" "p < index + L * m"
  obtains q r where "p = index + (L * q + r)" "q < m" "r < L" "p mod L = r"
proof
  let ?q = "(p - index) div L" and ?r = "(p - index) mod L"
  show "p = index + (L * ?q + ?r)" using assms(3) by simp
  show "?q < m" using assms(1,3,4) by (simp add: less_mult_imp_div_less mult.commute less_diff_conv2)
  show "?r < L" using assms(1) by simp
  show "p mod L = ?r" using assms(2,3) by (metis le_add_diff_inverse mod_add_left_eq dvd_imp_mod_0 add_0)
qed

lemma set_range_spread:
  assumes "sized el" "0 < L" "0 < m" "length sp \<le> L * m" "index + L * m \<le> edges_N el" "q < m" "r < L"
  shows "edge_dests (set_range el index (spread L m sp)) ! (index + (L * q + r)) = snd (spread L m sp ! (L * q + r))"
proof -
  have "L * q + r < L * m" using assms(6,7)
    by (metis add.commute mod_less_divisor mod_mult_self2 add_strict_left_mono mult_Suc_right mult_le_mono2 Suc_leI order.strict_trans2)
  then show ?thesis using assms set_range_inside(2) [of el index "spread L m sp" "index + (L * q + r)"]
    by (simp add: length_spread)
qed

lemma redistribute_packed:
  assumes "sized el" "0 < logN el" "logN el dvd index" "1 < m" "index + logN el * m \<le> edges_N el"
    and "filter nonnull sp = sp" "length sp \<le> (logN el - 1) * m"
    and "\<And>p. p < index \<or> index + logN el * m \<le> p \<Longrightarrow> packed_at el p \<and> last_free el p"
  shows "packed_at (set_range el index (spread (logN el) m sp)) p" "no_full_leaf (set_range el index (spread (logN el) m sp))"
proof -
  let ?L = "logN el" and ?el = "set_range el index (spread (logN el) m sp)" and ?c = "leaf_count (length sp div m) (length sp mod m)"
  have m: "0 < m" using assms(4) by simp
  have small: "length sp \<le> ?L * m" using assms(7) by (meson diff_le_self mult_le_mono1 order_trans)
  have fit: "index + length (spread ?L m sp) \<le> edges_N el" using length_spread [OF m small] assms(5) by simp
  have inside: "edge_dests ?el ! (index + (?L * q + r)) \<noteq> NULL_VAL \<longleftrightarrow> r < ?c q" if "q < m" "r < ?L" for q r
    using set_range_spread [OF assms(1,2) m small assms(5) that] spread_nonnull [OF m small that assms(6)] by simp
  have outside: "edge_dests ?el ! p = edge_dests el ! p" if "p < edges_N el" "p < index \<or> index + ?L * m \<le> p" for p
    using set_range_outside(2) [OF assms(1) fit that(1)] that(2) length_spread [OF m small] by simp
  show "packed_at ?el p" unfolding packed_at_def
  proof (intro impI)
    assume p: "p < edges_N ?el" "p mod logN ?el \<noteq> 0" "edge_dests ?el ! p \<noteq> NULL_VAL"
    show "edge_dests ?el ! (p - 1) \<noteq> NULL_VAL"
    proof (cases "index \<le> p \<and> p < index + ?L * m")
      case True
      then obtain q r where qr: "p = index + (?L * q + r)" "q < m" "r < ?L" "p mod ?L = r"
        using range_position [OF assms(2,3)] by metis
      then have "0 < r" "r < ?c q" using p inside [of q r] by auto
      then show ?thesis using inside [of q "r - 1"] qr by (simp add: add_diff_assoc)
    next
      case False
      have "p \<noteq> index + ?L * m" using p(2) assms(3) by auto
      then have out: "p < index \<or> index + ?L * m \<le> p" "p - 1 < index \<or> index + ?L * m \<le> p - 1" using False by linarith+
      have lt: "p < edges_N el" "p - 1 < edges_N el" using p(1) by simp_all
      have "packed_at el p" using assms(8) out(1) by blast
      then show ?thesis using p(2,3) lt(1) unfolding outside [OF lt(1) out(1)] outside [OF lt(2) out(2)]
        by (simp add: packed_at_def)
    qed
  qed
  show "no_full_leaf ?el" unfolding no_full_leaf_def last_free_def
  proof (intro allI impI)
    fix p assume p: "p < edges_N ?el" "p mod logN ?el = logN ?el - 1"
    show "edge_dests ?el ! p = NULL_VAL"
    proof (cases "index \<le> p \<and> p < index + ?L * m")
      case True
      then obtain q r where qr: "p = index + (?L * q + r)" "q < m" "r < ?L" "p mod ?L = r"
        using range_position [OF assms(2,3)] by metis
      then show ?thesis using inside [of q r] p(2) leaf_count_less [OF m assms(2,7), of q] by auto
    next
      case False
      then show ?thesis using outside [of p] p assms(8) [of p] by (auto simp: last_free_def)
    qed
  qed
qed

lemma spread_first:
  assumes "0 < L" "0 < m" "length sp \<le> L * m" "sp \<noteq> []"
  shows "spread L m sp ! 0 = sp ! 0"
proof -
  have "0 < leaf_count (length sp div m) (length sp mod m) 0"
    using div_mult_mod_eq [of "length sp" m] assms(4) by (cases "length sp div m") (auto simp: leaf_count_def)
  then show ?thesis using nth_spread [OF assms(2,3), of 0 0] assms(1,2) by simp
qed

text \<open>
  Redistribution of an aligned range of at least two leaves, with a slot to spare in each on average, keeps the elements and the
  invariant, and leaves no leaf of the range full.
\<close>

lemma redistribute_ok:
  assumes ok: "array_core pma" and al: "logN (edges pma) dvd index" "len = logN (edges pma) * m" "1 < m" "even m"
    and fit: "index + len \<le> edges_N (edges pma)"
    and room: "length (filter nonnull (slots (edges pma) index (index + len))) \<le> (logN (edges pma) - 1) * m"
    and free: "\<And>p. p < index \<or> index + len \<le> p \<Longrightarrow> slot_ok (edges pma) (nodes pma) p \<and> last_free (edges pma) p"
  shows "\<exists>ys. length ys = len \<and> redistribute pma index len = Some (moved pma index ys) \<and> array_ok (moved pma index ys) \<and>
    no_full_leaf (edges (moved pma index ys)) \<and> elems (edges (moved pma index ys)) = elems (edges pma) \<and>
    ys = spread (logN (edges pma)) m (filter nonnull (slots (edges pma) index (index + len)))"
proof -
  let ?el = "edges pma" and ?L = "logN (edges pma)" and ?sp = "filter nonnull (slots (edges pma) index (index + len))"
  have sz: "sized ?el" and geo: "geometry_ok ?el" and ids: "sent_ids (elems ?el) = [1..<length (nodes pma)]"
    and spc: "spaced (nodes pma) (elems ?el)" using ok by (simp_all add: array_core_def)
  have L: "4 \<le> ?L" "?L = 2 ^ loglogN ?el" "0 < ?L" using logN_pos [OF geo] geo by (simp_all add: geometry_ok_def)
  have m: "0 < m" using al(3) by simp
  have small: "length ?sp \<le> ?L * m" using room by (meson diff_le_self mult_le_mono1 order_trans)
  have nn: "filter nonnull ?sp = ?sp" by simp
  have eight: "8 dvd len"
  proof -
    have "4 dvd ?L" using L(2) geo le_imp_power_dvd [of 2 "loglogN ?el" "2 :: nat"] by (simp add: geometry_ok_def)
    then show ?thesis using al(2,4) mult_dvd_mono [of 4 ?L 2 m] by simp
  qed
  have split: "elems ?el = filter nonnull (slots ?el 0 index) @ ?sp @ filter nonnull (slots ?el (index + len) (edges_N ?el))"
    using elems_split [OF sz, of index "index + len"] fit by simp
  have spaced_sp: "spaced (nodes pma) ?sp" using spc spaced_append unfolding split by blast
  have ids_sp: "ids_ok (length (nodes pma)) ?sp" using ids_ok_slots [OF sz ids] fit by simp
  have red: "redistribute pma index len = Some (moved pma index (spread ?L m ?sp))"
    by (rule redistribute_spec [OF sz L(2) al(2,3) eight fit ids_sp spaced_sp])
  have len: "length (spread ?L m ?sp) = len" using length_spread [OF m small] al(2) by simp
  have same: "elems (set_range ?el index (spread ?L m ?sp)) = elems ?el"
    using elems_set_range [OF sz, of index "spread ?L m ?sp"] len fit filter_spread [OF m nn] split by simp
  have fit': "index + ?L * m \<le> edges_N ?el" using fit al(2) by simp
  have free': "packed_at ?el p \<and> last_free ?el p" if "p < index \<or> index + ?L * m \<le> p" for p
    using that free al(2) by (simp add: slot_ok_def)
  note pf = redistribute_packed [OF sz L(3) al(1,3) fit' nn room free']
  have head: "edge_dests (set_range ?el index (spread ?L m ?sp)) ! 0 = edge_dests ?el ! 0"
  proof (cases "index = 0")
    case True
    have "nonnull (edge_vals ?el ! 0, edge_dests ?el ! 0)" using ok by (simp add: array_core_def first_ok_def nonnull_def)
    then have sp0: "?sp = (edge_vals ?el ! 0, edge_dests ?el ! 0) # filter nonnull (slots ?el 1 len)"
      using True slots_Cons [of 0 len ?el] al(2,3) L(3) by simp
    have "?sp ! 0 = (edge_vals ?el ! 0, edge_dests ?el ! 0)" "?sp \<noteq> []" unfolding sp0 by simp_all
    then have "snd (spread ?L m ?sp ! 0) = edge_dests ?el ! 0" using spread_first [OF L(3) m small] by simp
    moreover have "spread ?L m ?sp \<noteq> []" using len al(2,3) L(3) by auto
    ultimately show ?thesis using set_range_inside(2) [OF sz, of index "spread ?L m ?sp" 0] len fit unfolding True by simp
  next
    case False
    then show ?thesis using set_range_outside(2) [OF sz, of index "spread ?L m ?sp" 0] len fit by simp
  qed
  have "array_ok (moved pma index (spread ?L m ?sp))"
    using array_ok_moved [OF sz geo, of index "spread ?L m ?sp"] len fit same ids spc pf(1) head ok free
    by (simp add: array_core_def first_ok_def slot_ok_def)
  then show ?thesis using red len pf(2) same by (intro exI [of _ "spread ?L m ?sp"]) simp
qed

text \<open>A redistribution of as many elements as leaves leaves no leaf empty.\<close>

lemma leaf_count_pos: "0 < m \<Longrightarrow> m \<le> j \<Longrightarrow> 0 < leaf_count (j div m) (j mod m) i"
  by (simp add: leaf_count_def div_greater_zero_iff)

lemma spread_no_gap:
  fixes el index m
  defines "sp \<equiv> filter nonnull (slots el index (index + logN el * m))"
  assumes sz: "sized el" "0 < logN el" "logN el dvd index" "0 < m" "index + logN el * m \<le> edges_N el"
    and few: "m \<le> length sp"
    and out: "\<And>c p. c mod logN el = 0 \<Longrightarrow> c < index \<or> index + logN el * m \<le> c \<Longrightarrow> c \<le> p \<Longrightarrow> p < edges_N el \<Longrightarrow>
      edge_dests el ! p = SENT_VAL \<Longrightarrow> edge_dests el ! c \<noteq> NULL_VAL"
  shows "no_gap (set_range el index (spread (logN el) m sp))"
  unfolding no_gap_def
proof (intro allI impI)
  let ?L = "logN el" and ?el = "set_range el index (spread (logN el) m sp)"
  have nn: "filter nonnull sp = sp" by (simp add: sp_def)
  have small: "length sp \<le> ?L * m" unfolding sp_def by (rule le_trans [OF length_filter_le]) simp
  have len: "length (spread ?L m sp) = ?L * m" by (rule length_spread [OF sz(4) small])
  have fit: "index + length (spread ?L m sp) \<le> edges_N el" using sz(5) len by simp
  have outside: "edge_dests ?el ! p = edge_dests el ! p" if "p < edges_N el" "p < index \<or> index + ?L * m \<le> p" for p
    using set_range_outside(2) [OF sz(1) fit that(1)] that(2) len by simp
  fix c p assume a: "c mod logN ?el = 0" "c \<le> p" "p < edges_N ?el" "edge_dests ?el ! p = SENT_VAL"
  have cN: "c < edges_N el" using a(2,3) by simp
  show "edge_dests ?el ! c \<noteq> NULL_VAL"
  proof (cases "index \<le> c \<and> c < index + ?L * m")
    case True
    then obtain q r where qr: "c = index + (?L * q + r)" "q < m" "r < ?L" "c mod ?L = r"
      using range_position [OF sz(2,3)] by metis
    then have "0 < leaf_count (length sp div m) (length sp mod m) q" "r = 0" using a(1) leaf_count_pos [OF sz(4) few] by simp_all
    then show ?thesis
      using set_range_spread [OF sz(1,2,4) small sz(5) qr(2,3)] spread_nonnull [OF sz(4) small qr(2,3) nn] qr(1) by simp
  next
    case False
    then have c: "c < index \<or> index + ?L * m \<le> c" by auto
    have "\<exists>p'. c \<le> p' \<and> p' < edges_N el \<and> edge_dests el ! p' = SENT_VAL"
    proof (cases "index \<le> p \<and> p < index + ?L * m")
      case True
      then have "(edge_vals ?el ! p, SENT_VAL) \<in> set (spread ?L m sp)"
        using set_range_inside [OF sz(1) fit, of p] a(4) len by (metis le_add_diff_inverse nat_add_left_cancel_less nth_mem prod.collapse)
      then have "(edge_vals ?el ! p, SENT_VAL) \<in> set (filter nonnull (spread ?L m sp))" by (simp add: nonnull_def)
      then have "(edge_vals ?el ! p, SENT_VAL) \<in> set (slots el index (index + ?L * m))"
        unfolding filter_spread [OF sz(4) nn] by (simp add: sp_def)
      then obtain p' where "index \<le> p'" "p' < index + ?L * m" "edge_dests el ! p' = SENT_VAL" by (auto simp: slots_def)
      then show ?thesis using c True a(2) sz(5) by (intro exI [of _ p']) auto
    next
      case False
      then show ?thesis using outside [of p] a by (intro exI [of _ p]) auto
    qed
    then show ?thesis using out [OF _ c] a(1) outside [OF cN c] by auto
  qed
qed

section \<open>Sizes and alignment\<close>

lemma bsr_word_pow [simp]: "bsr_word (2 ^ k) = k"
proof (induction k)
  case (Suc k)
  have "(2 :: nat) ^ k \<ge> 1" by simp
  then have "\<not> 2 ^ Suc k < (2 :: nat)" by (simp only: power_Suc)
  then show ?case using Suc by (subst bsr_word.simps) simp
qed (simp add: bsr_word.simps)

lemma bsr_word_bounds: "0 < w \<Longrightarrow> 2 ^ bsr_word w \<le> w \<and> w < 2 * 2 ^ bsr_word w"
proof (induction w rule: bsr_word.induct)
  case (1 w)
  show ?case
  proof (cases "w < 2")
    case True
    then show ?thesis using 1 by (simp add: bsr_word.simps)
  next
    case False
    define x where "x = (2 :: nat) ^ bsr_word (w div 2)"
    have "x \<le> w div 2" "w div 2 < 2 * x" using 1 False by (auto simp: x_def)
    then have "2 * x \<le> w" "w < 4 * x" by linarith+
    then show ?thesis using False by (subst (1 2) bsr_word.simps) (simp add: x_def)
  qed
qed

text \<open>The parameters the constructor, growing and shrinking compute for an array of \<open>2 ^ k\<close> slots, with leaves of at most \<open>k + 1\<close> slots.\<close>

lemma geometry_okI:
  assumes "2 \<le> j" "2 ^ j \<le> k + 1" "3 \<le> k" "k \<le> 32" "edges_N el = 2 ^ k"
  shows "geometry_ok (set_geometry j (2 ^ k) el)"
proof -
  have jk: "j < k"
  proof (rule ccontr)
    assume "\<not> j < k"
    then have "2 ^ k \<le> (2 :: nat) ^ j" by (simp add: power_increasing)
    moreover have "k + 2 < 2 ^ k" using assms(3)
    proof (induction k rule: nat_induct_at_least)
      case (Suc m)
      then show ?case by simp
    qed simp
    ultimately show False using assms(2) by linarith
  qed
  have eq: "(2 :: nat) ^ k = 2 ^ j * 2 ^ (k - j)" using jk by (simp add: power_add [symmetric])
  then have "bsr_word (2 ^ k div 2 ^ j) = k - j" by simp
  moreover have "(2 :: nat) ^ k \<le> 2 ^ 32" using assms(4) by (rule power_increasing) simp
  ultimately show ?thesis using assms jk eq by (simp add: geometry_ok_def set_geometry_def)
qed

lemma geometry_N: "geometry_ok el \<Longrightarrow> edges_N el \<le> 2 ^ 32"
  unfolding geometry_ok_def by blast

lemma size_pow:
  assumes "geometry_ok el"
  shows "edges_N el = 2 ^ (loglogN el + edges_H el)" "3 \<le> loglogN el + edges_H el" "bsr_word (edges_N el) = loglogN el + edges_H el"
    "loglogN el + edges_H el \<le> 32"
proof -
  show eq: "edges_N el = 2 ^ (loglogN el + edges_H el)" using assms by (simp add: geometry_ok_def power_add)
  show "3 \<le> loglogN el + edges_H el" using assms by (simp add: geometry_ok_def)
  show "bsr_word (edges_N el) = loglogN el + edges_H el" by (simp add: eq)
  have "(2 :: nat) ^ (loglogN el + edges_H el) \<le> 2 ^ 32" using geometry_N [OF assms] by (simp only: eq)
  then show "loglogN el + edges_H el \<le> 32" by (rule power_le_imp_le_exp [rotated]) simp
qed

lemma bsr_2: "4 \<le> w \<Longrightarrow> 2 \<le> bsr_word w"
  using bsr_word_bounds [of w] power_increasing [of "bsr_word w" 1 "2 :: nat"] by (cases "2 \<le> bsr_word w") auto

lemma geometry_double:
  assumes "geometry_ok el" "2 * edges_N el \<le> 2 ^ 32"
  shows "geometry_ok ((set_geometry (bsr_word (bsr_word (edges_N el) + 1)) (edges_N el * 2) el)\<lparr>edges_N := edges_N el * 2,
    edge_vals := vs, edge_dests := ds\<rparr>)"
proof -
  let ?k = "loglogN el + edges_H el"
  note pw = size_pow [OF assms(1)]
  have "(2 :: nat) ^ Suc ?k \<le> 2 ^ 32" using assms(2) pw(1) by simp
  then have le: "Suc ?k \<le> 32" by (rule power_le_imp_le_exp [rotated]) simp
  have "geometry_ok (set_geometry (bsr_word (?k + 1)) (2 ^ Suc ?k) (el\<lparr>edges_N := 2 ^ Suc ?k\<rparr>))"
    using bsr_word_bounds [of "?k + 1"] pw(2) le bsr_2 [of "?k + 1"] by (intro geometry_okI) simp_all
  then show ?thesis using pw(1) unfolding pw(3) by (simp add: geometry_ok_def set_geometry_def mult.commute)
qed

lemma geometry_half:
  assumes "geometry_ok el" "32 \<le> edges_N el"
  shows "geometry_ok ((set_geometry (bsr_word (bsr_word (edges_N el) - 1)) (edges_N el div 2) el)\<lparr>edges_N := edges_N el div 2,
    edge_vals := vs, edge_dests := ds\<rparr>)"
proof -
  let ?k = "loglogN el + edges_H el"
  note pw = size_pow [OF assms(1)]
  have "(2 :: nat) ^ 5 \<le> 2 ^ ?k" using assms(2) pw(1) by simp
  then have ge: "5 \<le> ?k" by (rule power_le_imp_le_exp [rotated]) simp
  then obtain j where j: "?k = Suc j" by (cases ?k) auto
  have "geometry_ok (set_geometry (bsr_word j) (2 ^ j) (el\<lparr>edges_N := 2 ^ j\<rparr>))"
    using bsr_word_bounds [of j] pw(4) ge j bsr_2 [of j] by (intro geometry_okI) simp_all
  moreover have "edges_N el div 2 = 2 ^ j" unfolding pw(1) j by simp
  ultimately show ?thesis unfolding pw(3) j by (simp add: geometry_ok_def set_geometry_def)
qed

lemma find_leaf_eq:
  assumes "geometry_ok el" "index < 2 ^ 32"
  shows "find_leaf el index = index div logN el * logN el"
proof -
  let ?l = "loglogN el"
  have m: "mask_for_leaf el = NOT (mask ?l)" and L: "logN el = 2 ^ ?l"
    using assms(1) by (simp_all add: geometry_ok_def mask_eq_exp_minus_1)
  have hi: "\<not> bit index n" if "32 \<le> n" for n
    using assms(2) that take_bit_nat_eq_self [OF assms(2)] by (metis bit_take_bit_iff not_less)
  have "find_leaf el index = push_bit ?l (drop_bit ?l index)"
  proof (rule bit_eqI)
    fix n
    show "bit (find_leaf el index) n = bit (push_bit ?l (drop_bit ?l index)) n"
      using hi [of n] by (cases "n < 32"; cases "n < 64")
        (auto simp: find_leaf_def m bit_simps unsigned_of_nat)
  qed
  then show ?thesis by (simp add: L push_bit_eq_mult drop_bit_eq_div)
qed

lemma find_leaf_aligned:
  assumes "geometry_ok el" "index < edges_N el"
  shows "logN el dvd find_leaf el index" "find_leaf el index \<le> index" "index < find_leaf el index + logN el"
    "find_leaf el index + logN el \<le> edges_N el"
proof -
  have lt: "index < 2 ^ 32" using assms(2) geometry_N [OF assms(1)] by linarith
  have L: "0 < logN el" using logN_pos [OF assms(1)] by simp
  show "logN el dvd find_leaf el index" "find_leaf el index \<le> index"
    by (simp_all add: find_leaf_eq [OF assms(1) lt])
  show lt': "index < find_leaf el index + logN el"
    using L mod_less_divisor [OF L, of index] div_mult_mod_eq [of index "logN el"] unfolding find_leaf_eq [OF assms(1) lt] by linarith
  have "logN el dvd edges_N el" using assms(1) by (simp add: geometry_ok_def)
  then obtain c where c: "edges_N el = logN el * c" by blast
  have "index div logN el < c" using assms(2) L c by (simp add: less_mult_imp_div_less mult.commute)
  then have "Suc (index div logN el) * logN el \<le> c * logN el" by (simp only: mult_le_mono1 Suc_leI)
  then show "find_leaf el index + logN el \<le> edges_N el" unfolding find_leaf_eq [OF assms(1) lt] c by (simp add: mult.commute)
qed

section \<open>Density\<close>

definition num_in :: "edge_list \<Rightarrow> nat \<Rightarrow> nat \<Rightarrow> nat" where
  "num_in el i len = length (filter nonnull (slots el i (i + len)))"

lemma num_in_le: "num_in el i len \<le> len"
  unfolding num_in_def by (rule le_trans [OF length_filter_le]) simp

lemma num_in_add: "num_in el i (a + b) = num_in el i a + num_in el (i + a) b"
  using slots_append [of i "i + a" "i + (a + b)" el] by (simp add: num_in_def add.assoc)

lemma full_in_eq: "sized el \<Longrightarrow> i + w \<le> edges_N el \<Longrightarrow> full_in el i w = num_in el i w"
proof -
  assume a: "sized el" "i + w \<le> edges_N el"
  have "take w (drop i (edge_dests el)) = map snd (slots el i (i + w))"
    using a by (intro nth_equalityI) (simp_all add: sized_def slots_def)
  then show ?thesis by (simp add: full_in_def num_in_def filter_map nonnull_fun comp_def)
qed

lemma count_vectors_eq:
  "sized el \<Longrightarrow> 0 < w \<Longrightarrow> i + w * c \<le> edges_N el \<Longrightarrow> count_vectors el w i (i + w * c) = Some (num_in el i (w * c))"
proof (induction c arbitrary: i)
  case 0
  then show ?case by (subst count_vectors.simps) (simp add: num_in_def)
next
  case (Suc c)
  have "count_vectors el w (i + w) (i + w + w * c) = Some (num_in el (i + w) (w * c))"
    using Suc.prems by (intro Suc.IH) (simp_all add: add.assoc)
  then show ?case using Suc.prems full_in_eq [of el i w] num_in_add [of el i w "w * c"]
    by (subst count_vectors.simps) (simp add: sized_def add.assoc)
qed

lemma get_density_count_eq:
  assumes "sized el" "4 dvd len" "len < 8 \<or> 8 dvd len" "i + len \<le> edges_N el"
  shows "get_density_count el i len = Some (num_in el i len)"
proof (cases "8 \<le> len")
  case True
  then obtain c where c: "len = 8 * c" using assms(3) by auto
  have "(len + 7) div 8 = c" by (simp add: c)
  then show ?thesis using True count_vectors_eq [OF assms(1), of 8 i c] assms(4) num_in_le [of el i len]
    by (simp add: get_density_count_def c)
next
  case False
  obtain c where c: "len = 4 * c" using assms(2) by auto
  then show ?thesis using False count_vectors_eq [OF assms(1), of 4 i c] assms(4) by (simp add: get_density_count_def)
qed

end
