(* ===== verification/PMA_Resize.thy ===== *)
theory PMA_Resize
  imports PMA_Inv
begin

unbundle bit_operations_syntax

text \<open>
  Growing and shrinking the packed memory array: the elements and the invariant are kept, and all node locks are free afterwards.
\<close>

section \<open>Locks of the nodes\<close>

text \<open>A free lock that the task \<open>t\<close> can take for any reason and give back without a trace.\<close>

definition mine :: "u64 \<Rightarrow> PMA_Lock \<Rightarrow> bool" where
  "mine t l \<longleftrightarrow> lock_x l = 0 \<and> reason l \<le> DOUBLE \<and>
    (reason l = GENERAL \<and> reason_set_by l = 0 \<or> reason_set_by l = ucast t)"

definition task_ok :: "u64 \<Rightarrow> bool" where
  "task_ok t \<longleftrightarrow> ucast (ucast t :: u32) = t"

definition quiet :: "node list \<Rightarrow> bool" where
  "quiet ns \<longleftrightarrow> (\<forall>nd \<in> set ns. node_lock_of nd = new_PMA_Lock)"

definition all_mine :: "u64 \<Rightarrow> node list \<Rightarrow> bool" where
  "all_mine t ns \<longleftrightarrow> (\<forall>nd \<in> set ns. mine t (node_lock_of nd))"

abbreviation take_lock :: "node \<Rightarrow> node" where
  "take_lock nd \<equiv> nd\<lparr>node_lock_of := (node_lock_of nd)\<lparr>lock_x := 1\<rparr>\<rparr>"

lemma mine_new [simp]: "mine t new_PMA_Lock"
  by (simp add: mine_def new_PMA_Lock_def less_eq_REASONS_def)

lemma quiet_mine: "quiet ns \<Longrightarrow> all_mine t ns"
  by (simp add: quiet_def all_mine_def)

lemma mine_lock: "mine t l \<Longrightarrow> lock_excl l DOUBLE = Some (l\<lparr>lock_x := 1\<rparr>)"
  by (simp add: mine_def lock_excl_def cas_def not_less)

lemma mine_unlock: "mine t l \<Longrightarrow> task_ok t \<Longrightarrow> unlock_excl t GENERAL (l\<lparr>lock_x := 1\<rparr>) = new_PMA_Lock"
  by (cases l) (auto simp: mine_def task_ok_def unlock_excl_def set_reason_def new_PMA_Lock_def)

lemma lock_nodes_all:
  assumes "all_mine t ns" "i \<le> length ns" "nodes pma = take i (map take_lock ns) @ drop i ns"
  shows "lock_nodes True DOUBLE [i..<length ns] pma = Some (pma\<lparr>nodes := map take_lock ns\<rparr>)"
  using assms(2,3)
proof (induction "length ns - i" arbitrary: i pma)
  case 0
  then show ?case by simp
next
  case (Suc m)
  then have i: "i < length ns" by simp
  have nth: "nodes pma ! i = ns ! i" using Suc.prems i by (simp add: nth_append)
  have "mine t (node_lock_of (ns ! i))" using assms(1) i by (simp add: all_mine_def)
  then have "lock_excl (node_lock_of (nodes pma ! i)) DOUBLE = Some ((node_lock_of (ns ! i))\<lparr>lock_x := 1\<rparr>)"
    by (simp add: nth mine_lock)
  moreover have "nodes (set_node_lock pma i ((node_lock_of (ns ! i))\<lparr>lock_x := 1\<rparr>)) = take (Suc i) (map take_lock ns) @ drop (Suc i) ns"
    using Suc.prems i nth by (simp add: set_node_lock_def list_update_append take_Suc_conv_app_nth Cons_nth_drop_Suc [symmetric])
  then have "lock_nodes True DOUBLE [Suc i..<length ns] (set_node_lock pma i ((node_lock_of (ns ! i))\<lparr>lock_x := 1\<rparr>)) =
      Some ((set_node_lock pma i ((node_lock_of (ns ! i))\<lparr>lock_x := 1\<rparr>))\<lparr>nodes := map take_lock ns\<rparr>)"
    using Suc i by (intro Suc.hyps(1)) simp_all
  ultimately show ?case using i by (simp add: upt_conv_Cons set_node_lock_def)
qed

lemma grab_all_locks_ok:
  "all_mine t (nodes pma) \<Longrightarrow> grab_all_locks pma True DOUBLE = Some (pma\<lparr>nodes := map take_lock (nodes pma)\<rparr>)"
  by (simp add: grab_all_locks_def lock_nodes_all)

lemma release_all_quiet:
  assumes "task_ok t" "\<And>i. i < length ns \<Longrightarrow> \<exists>l. mine t l \<and> node_lock_of (ns ! i) = l\<lparr>lock_x := 1\<rparr>"
  shows "quiet (map (\<lambda>nd. nd\<lparr>node_lock_of := unlock_excl t GENERAL (node_lock_of nd)\<rparr>) ns)"
  unfolding quiet_def
proof
  fix nd assume "nd \<in> set (map (\<lambda>nd. nd\<lparr>node_lock_of := unlock_excl t GENERAL (node_lock_of nd)\<rparr>) ns)"
  then obtain i where "i < length ns" "nd = (ns ! i)\<lparr>node_lock_of := unlock_excl t GENERAL (node_lock_of (ns ! i))\<rparr>"
    by (auto simp: in_set_conv_nth)
  then show "node_lock_of nd = new_PMA_Lock" using assms(2) [of i] mine_unlock [OF _ assms(1)] by auto
qed

section \<open>Bounds of the density\<close>

text \<open>
  What is used of the rounding of doubles: it is monotonic, and fractions with a small numerator and a power of two
  as denominator are exact.
\<close>

definition rounding_ok :: "(real \<Rightarrow> real) \<Rightarrow> bool" where
  "rounding_ok rnd \<longleftrightarrow> mono rnd \<and> (\<forall>a k. a < 2 ^ 53 \<longrightarrow> k \<le> 64 \<longrightarrow> rnd (real a / 2 ^ k) = real a / 2 ^ k)"

definition bounds_ok :: "PMA \<Rightarrow> bool" where
  "bounds_ok pma \<longleftrightarrow> (\<forall>i \<le> edges_H (edges pma).
     upper_density_bound pma i \<le> density_limit (edges pma) \<and> 1 / 2 \<le> upper_density_bound pma i \<and>
     lower_density_bound pma i \<le> 1 / 4 \<and> 1 / 8 \<le> lower_density_bound pma i)"

lemma rounding_0: "rounding_ok rnd \<Longrightarrow> rnd 0 = 0"
  unfolding rounding_ok_def by (drule conjunct2, drule spec [of _ 0], drule spec [of _ 0]) simp

lemma rounding_nonneg: "rounding_ok rnd \<Longrightarrow> 0 \<le> x \<Longrightarrow> 0 \<le> rnd x"
  using rounding_0 [of rnd] by (metis monoD rounding_ok_def)

lemma rounding_quarter: "rounding_ok rnd \<Longrightarrow> rnd (1 / 4) = 1 / 4"
  unfolding rounding_ok_def by (drule conjunct2, drule spec [of _ 1], drule spec [of _ 2]) simp

lemma rounding_limit: "rounding_ok rnd \<Longrightarrow> k \<le> 32 \<Longrightarrow> rnd ((real (2 ^ k) - 1) / real (2 ^ k)) = (real (2 ^ k) - 1) / real (2 ^ k)"
proof -
  assume r: "rounding_ok rnd" and k: "k \<le> 32"
  have "(2 :: nat) ^ k \<le> 2 ^ 32" using k by (rule power_increasing) simp
  then have "(2 :: nat) ^ k - 1 < 2 ^ 53" by simp
  moreover have "k \<le> 64" using k by simp
  ultimately have "rnd (real (2 ^ k - 1) / 2 ^ k) = real (2 ^ k - 1) / 2 ^ k" using r unfolding rounding_ok_def by blast
  moreover have "real (2 ^ k - 1) = real (2 ^ k) - 1" by (simp add: of_nat_diff)
  ultimately show ?thesis by simp
qed

lemma rounding_exact: "rounding_ok rnd \<Longrightarrow> a < 2 ^ 53 \<Longrightarrow> k \<le> 64 \<Longrightarrow> rnd (real a / 2 ^ k) = real a / 2 ^ k"
  unfolding rounding_ok_def by blast

lemma rounding_fractions:
  assumes "rounding_ok rnd"
  shows "rnd (1 / 2) = 1 / 2" "rnd (3 / 4) = 3 / 4" "rnd (1 / 8) = 1 / 8" "i \<le> 32 \<Longrightarrow> rnd (real i / 8) = real i / 8"
  using rounding_exact [OF assms, of 1 1] rounding_exact [OF assms, of 3 2] rounding_exact [OF assms, of 1 3] rounding_exact [OF assms, of i 3]
  by simp_all

lemma density_bounds_ok:
  assumes r: "rounding_ok rnd" and lim: "density_limit el = (real (2 ^ k) - 1) / real (2 ^ k)" "2 \<le> k" "k \<le> 32"
  shows "snd (density_bound rnd el i) \<le> density_limit el" "fst (density_bound rnd el i) \<le> 1 / 4"
    "1 / 2 \<le> snd (density_bound rnd el i)" "i \<le> edges_H el \<Longrightarrow> i \<le> 32 \<Longrightarrow> 1 / 8 \<le> fst (density_bound rnd el i)"
proof -
  have m: "rnd x \<le> rnd y" if "x \<le> y" for x y using r that by (simp add: rounding_ok_def monoD)
  note fr = rounding_fractions [OF r] rounding_quarter [OF r]
  have "rnd (density_limit el - rnd (1 / 1000)) \<le> rnd (density_limit el)"
    using rounding_nonneg [OF r, of "1 / 1000"] by (intro m) simp
  also have "\<dots> = density_limit el" using rounding_limit [OF r lim(3)] lim(1) by simp
  finally show "snd (density_bound rnd el i) \<le> density_limit el" by (simp add: density_bound_def Let_def)
  have low: "0 \<le> rnd (rnd (125 / 1000 * real i) / real (edges_H el))" "0 \<le> rnd (rnd (25 / 100 * real i) / real (edges_H el))"
    by (intro rounding_nonneg [OF r] divide_nonneg_nonneg, simp_all add: rounding_nonneg [OF r])+
  then have "rnd (1 / 4 - rnd (rnd (125 / 1000 * real i) / real (edges_H el))) \<le> rnd (1 / 4)" by (intro m) simp
  then show "fst (density_bound rnd el i) \<le> 1 / 4" using fr by (simp add: density_bound_def Let_def)
  have "rnd (1 / 2) \<le> rnd (3 / 4 + rnd (rnd (25 / 100 * real i) / real (edges_H el)))" using low(2) by (intro m) simp
  moreover have "rnd (1 / 2) \<le> rnd (density_limit el - rnd (1 / 1000))"
  proof (rule m)
    have "(4 :: real) \<le> 2 ^ k" using power_increasing [OF lim(2), of "2 :: real"] by simp
    then have "3 / 4 \<le> density_limit el" unfolding lim(1) by (simp add: field_simps)
    moreover have "rnd (1 / 1000) \<le> 1 / 4" using m [of "1 / 1000" "1 / 4"] fr by simp
    ultimately show "1 / 2 \<le> density_limit el - rnd (1 / 1000)" by simp
  qed
  ultimately show "1 / 2 \<le> snd (density_bound rnd el i)" using fr(1) by (simp add: density_bound_def Let_def)
  show "1 / 8 \<le> fst (density_bound rnd el i)" if i: "i \<le> edges_H el" "i \<le> 32"
  proof -
    have "125 / 1000 * real i = real i / 8" by simp
    then have eq: "rnd (125 / 1000 * real i) = real i / 8" using fr(4) [OF i(2)] by (simp only:)
    have le: "real i / 8 / real (edges_H el) \<le> 1 / 8" using i(1) by (cases "edges_H el = 0") (simp_all add: field_simps)
    have "rnd (real i / 8 / real (edges_H el)) \<le> 1 / 8" using m [OF le] unfolding fr(3) .
    then have "1 / 8 \<le> 1 / 4 - rnd (rnd (125 / 1000 * real i) / real (edges_H el))" unfolding eq by linarith
    from m [OF this] have "rnd (1 / 8) \<le> rnd (1 / 4 - rnd (rnd (125 / 1000 * real i) / real (edges_H el)))" .
    then show ?thesis using fr(3) by (simp add: density_bound_def Let_def)
  qed
qed

lemma set_density_bounds_ok:
  assumes "rounding_ok rnd" "density_limit (edges pma) = (real (2 ^ k) - 1) / real (2 ^ k)" "2 \<le> k" "k \<le> 32" "edges_H (edges pma) \<le> 32"
  shows "bounds_ok (set_density_bounds rnd pma)"
  using density_bounds_ok [OF assms(1-4)] assms(5) by (auto simp: bounds_ok_def set_density_bounds_def)

section \<open>The invariant does not depend on locks\<close>

definition same_nodes :: "node list \<Rightarrow> node list \<Rightarrow> bool" where
  "same_nodes ns ns' \<longleftrightarrow> length ns' = length ns \<and>
    (\<forall>i < length ns. beginning (ns' ! i) = beginning (ns ! i) \<and> node_end (ns' ! i) = node_end (ns ! i) \<and> num_neighbors (ns' ! i) = num_neighbors (ns ! i))"

lemma same_nodes_map [simp]: "same_nodes ns (map (\<lambda>nd. nd\<lparr>node_lock_of := f nd\<rparr>) ns)"
  by (simp add: same_nodes_def)

lemma sent_id_range:
  assumes "sized el" "sent_ids (elems el) = [1..<n]" "p < edges_N el" "edge_dests el ! p = SENT_VAL"
  shows "0 < unat (edge_vals el ! p)" "unat (edge_vals el ! p) < n"
proof -
  have "unat (edge_vals el ! p) \<in> set [1..<n]"
    using sent_id_in [of p el 0 "edges_N el"] assms unfolding sent_ids_elems [OF assms(1)] by (simp del: set_upt)
  then show "0 < unat (edge_vals el ! p)" "unat (edge_vals el ! p) < n" by simp_all
qed

lemma array_core_same:
  assumes "array_core pma" "same_nodes (nodes pma) ns" "edges pma' = edges pma" "nodes pma' = ns"
  shows "array_core pma'"
proof -
  have "ids_ok (length (nodes pma)) (elems (edges pma))" using assms(1) by (simp add: array_core_def ids_ok_def)
  then have "spaced ns (elems (edges pma)) = spaced (nodes pma) (elems (edges pma))"
    using assms(2) by (intro spaced_cong) (simp_all add: same_nodes_def)
  then show ?thesis using assms by (auto simp: array_core_def first_ok_def same_nodes_def)
qed

lemma array_ok_same:
  assumes "array_ok pma" "same_nodes (nodes pma) ns" "edges pma' = edges pma" "nodes pma' = ns"
  shows "array_ok pma'"
proof -
  have c: "array_core pma" using assms(1) by (simp add: array_ok_def)
  have "pointer_at (edges pma) ns p" for p
    using assms(1,2) sent_id_range [of "edges pma" "length (nodes pma)" p] c
    by (auto simp: array_ok_def slot_ok_def pointer_at_def same_nodes_def array_core_def)
  then show ?thesis using array_core_same [OF c assms(2-4)] assms by (auto simp: array_ok_def slot_ok_def)
qed

section \<open>The end of the last node\<close>

text \<open>The last node ends right after its beginning, as it was made, or at the last slot, once its sentinel has moved.\<close>

definition last_end :: "PMA \<Rightarrow> bool" where
  "last_end p \<longleftrightarrow> (let n = length (nodes p); nd = nodes p ! (n - 1) in
     node_end nd = beginning nd + 1 \<or> 1 < n \<and> node_end nd = edges_N (edges p) - 1)"

lemma last_end_same:
  assumes "last_end p" "same_nodes (nodes p) (nodes q)" "edges_N (edges q) = edges_N (edges p)" "0 < length (nodes p)"
  shows "last_end q"
  using assms by (simp add: last_end_def same_nodes_def Let_def)

lemma fix_all_last_end:
  "ids_ok (length ns) (map snd ps) \<Longrightarrow>
   node_end (fix_all n ns ps ! (length ns - 1)) = (if length ns - 1 \<in> set (sent_ids (map snd ps)) then n - 1 else node_end (ns ! (length ns - 1)))"
proof (induction n ns ps rule: fix_all.induct)
  case (2 n ns k v d ps)
  have "node_end (fix_node n ns (unat v) k ! (length ns - 1)) = (if unat v = length ns - 1 then n - 1 else node_end (ns ! (length ns - 1)))"
    if "d = SENT_VAL" using 2(2) that by (intro fix_node_last_end) auto
  then show ?case using 2 by (cases "d = SENT_VAL") (auto split: if_splits)
qed simp

lemma ids_ok_moved:
  assumes "array_ok (moved p i xs)" "sized (edges p)" "i + length xs \<le> edges_N (edges p)"
  shows "ids_ok (length (nodes p)) xs" "0 < length (nodes p)"
    "i = 0 \<Longrightarrow> length xs = edges_N (edges p) \<Longrightarrow> sent_ids xs = [1..<length (nodes p)]"
proof -
  have ids: "sent_ids (elems (set_range (edges p) i xs)) = [1..<length (nodes p)]" "0 < length (nodes p)"
    using assms(1) by (auto simp: array_ok_def array_core_def first_ok_def)
  then have "set (sent_ids xs) \<subseteq> set [1..<length (nodes p)]"
    unfolding elems_set_range [OF assms(2,3)] ids(1) [symmetric] by auto
  then show "ids_ok (length (nodes p)) xs" by (auto simp: ids_ok_def)
  show "0 < length (nodes p)" by (rule ids(2))
  show "sent_ids xs = [1..<length (nodes p)]" if "i = 0" "length xs = edges_N (edges p)"
    using ids(1) that unfolding elems_set_range [OF assms(2,3)] by (simp add: slots_def)
qed

lemma last_end_moved:
  assumes "array_ok (moved p i xs)" "sized (edges p)" "i + length xs \<le> edges_N (edges p)" "last_end p"
  shows "last_end (moved p i xs)"
proof -
  let ?n = "length (nodes p)" and ?ps = "zip [i..<i + length xs] xs"
  note ids = ids_ok_moved(1,2) [OF assms(1-3)]
  have e: "node_end (nodes (moved p i xs) ! (?n - 1)) = (if ?n - 1 \<in> set (sent_ids xs) then edges_N (edges p) - 1 else node_end (nodes p ! (?n - 1)))"
    using fix_all_last_end [of "nodes p" ?ps] ids(1) by (simp add: moved_def)
  show ?thesis
  proof (cases "?n - 1 \<in> set (sent_ids xs)")
    case True
    then have "1 < ?n" using ids(1) by (auto simp: ids_ok_def)
    then show ?thesis using e True by (simp add: last_end_def Let_def)
  next
    case False
    have "beginning (nodes (moved p i xs) ! (?n - 1)) = beginning (nodes p ! (?n - 1))"
      using False fix_all_other [of "nodes p" ?ps "?n - 1"] fix_all_first [of "nodes p" ?ps] ids by (cases "?n - 1") (simp_all add: moved_def)
    then show ?thesis using e False assms(4) by (simp add: last_end_def Let_def)
  qed
qed

text \<open>When the whole array is rebuilt every sentinel is set.\<close>

lemma last_end_rebuilt:
  assumes "array_ok (moved p 0 xs)" "sized (edges p)" "length xs = edges_N (edges p)"
    and "length (nodes p) = 1 \<Longrightarrow> node_end (nodes p ! 0) = beginning (nodes p ! 0) + 1"
  shows "last_end (moved p 0 xs)"
proof -
  let ?n = "length (nodes p)" and ?ps = "zip [0..<length xs] xs"
  have fit: "0 + length xs \<le> edges_N (edges p)" using assms(3) by simp
  note ids = ids_ok_moved(1,2) [OF assms(1,2) fit] ids_ok_moved(3) [OF assms(1,2) fit refl assms(3)]
  have e: "node_end (nodes (moved p 0 xs) ! (?n - 1)) = (if ?n - 1 \<in> set (sent_ids xs) then edges_N (edges p) - 1 else node_end (nodes p ! (?n - 1)))"
    using fix_all_last_end [of "nodes p" ?ps] ids(1) by (simp add: moved_def)
  show ?thesis
  proof (cases "1 < ?n")
    case True
    then have "?n - 1 \<in> set (sent_ids xs)" unfolding ids(3) set_upt atLeastLessThan_iff by linarith
    then show ?thesis using e True by (simp add: last_end_def Let_def)
  next
    case False
    then have "?n = 1" using ids(2) by linarith
    then show ?thesis using e assms(4) fix_all_first [of "nodes p" ?ps] ids by (simp add: last_end_def Let_def moved_def)
  qed
qed

section \<open>Growing\<close>

lemma set_density_bounds_fields [simp]:
  "edges (set_density_bounds rnd pma) = edges pma" "nodes (set_density_bounds rnd pma) = nodes pma"
  "node_lock (set_density_bounds rnd pma) = node_lock pma" "next_task_id (set_density_bounds rnd pma) = next_task_id pma"
  by (simp_all add: set_density_bounds_def)

lemma set_geometry_fields [simp]:
  "edges_N (set_geometry j k el) = edges_N el" "edge_vals (set_geometry j k el) = edge_vals el" "edge_dests (set_geometry j k el) = edge_dests el"
  by (simp_all add: set_geometry_def)

lemma slots_geometry [simp]: "slots (set_geometry j k el) a b = slots el a b"
  by (simp add: slots_def)

lemma elems_longer:
  "sized el \<Longrightarrow> elems (el\<lparr>edge_vals := edge_vals el @ replicate m 0, edge_dests := edge_dests el @ replicate m NULL_VAL, edges_N := k\<rparr>) = elems el"
  by (simp add: elems_def sized_def zip_append zip_replicate nonnull_def)

lemma even_pow: "0 < n \<Longrightarrow> even ((2 :: nat) ^ n)"
  by simp

text \<open>An array of twice as many slots as elements takes a redistribution of all of it.\<close>

lemma redistribute_all:
  assumes ok: "array_core pma" and room: "2 * length (elems (edges pma)) \<le> edges_N (edges pma)"
  shows "\<exists>ys. length ys = edges_N (edges pma) \<and> redistribute pma 0 (edges_N (edges pma)) = Some (moved pma 0 ys) \<and>
    array_ok (moved pma 0 ys) \<and> no_full_leaf (edges (moved pma 0 ys)) \<and> elems (edges (moved pma 0 ys)) = elems (edges pma) \<and>
    ys = spread (logN (edges pma)) (2 ^ edges_H (edges pma)) (filter nonnull (slots (edges pma) 0 (0 + edges_N (edges pma))))"
proof (rule redistribute_ok [OF ok])
  let ?el = "edges pma" and ?m = "(2 :: nat) ^ edges_H (edges pma)"
  have geo: "geometry_ok ?el" and sz: "sized ?el" using ok by (simp_all add: array_core_def)
  show "logN ?el dvd 0" "0 + edges_N ?el \<le> edges_N ?el" by simp_all
  show N: "edges_N ?el = logN ?el * ?m" using geo by (simp add: geometry_ok_def)
  have "1 \<le> edges_H ?el" using geo by (simp add: geometry_ok_def)
  then show "1 < ?m" "even ?m" using one_less_power [of "2 :: nat" "edges_H ?el"] by simp_all
  have "length (elems ?el) * 2 \<le> logN ?el * ?m" using room unfolding N by simp
  also have "\<dots> \<le> 2 * (logN ?el - 1) * ?m" using logN_pos [OF geo] by (intro mult_le_mono1) simp
  finally show "length (filter nonnull (slots ?el 0 (0 + edges_N ?el))) \<le> (logN ?el - 1) * ?m"
    by (simp add: elems_slots [OF sz])
qed (auto simp: slot_ok_def packed_at_def pointer_at_def last_free_def)

lemma redistribute_all_no_gap:
  fixes pma
  defines "ys \<equiv> spread (logN (edges pma)) (2 ^ edges_H (edges pma)) (filter nonnull (slots (edges pma) 0 (0 + edges_N (edges pma))))"
  assumes ok: "array_core pma" and few: "2 ^ edges_H (edges pma) \<le> length (elems (edges pma))"
  shows "no_gap (edges (moved pma 0 ys))"
proof -
  let ?el = "edges pma"
  have c: "sized ?el" "edges_N ?el = logN ?el * 2 ^ edges_H ?el" "0 < logN ?el"
    using ok logN_pos [of ?el] by (auto simp: array_core_def geometry_ok_def)
  show ?thesis unfolding ys_def moved_def using spread_no_gap [OF c(1,3), of 0 "2 ^ edges_H ?el"] c(2) few elems_slots [OF c(1)] by simp
qed

lemma elems_le: "sized el \<Longrightarrow> length (elems el) \<le> edges_N el"
  unfolding elems_def sized_def by (rule le_trans [OF length_filter_le]) simp

lemma locks_moved:
  "i < length (nodes pma) \<Longrightarrow> node_lock_of (nodes (moved pma k xs) ! i) = node_lock_of (nodes pma ! i)"
  "i < length (nodes pma) \<Longrightarrow> num_neighbors (nodes (moved pma k xs) ! i) = num_neighbors (nodes pma ! i)"
  by (simp_all add: moved_def)

lemma double_list_ok:
  assumes ok: "array_core pma" and size: "2 * edges_N (edges pma) \<le> 2 ^ 32" and t: "task_ok t" "all_mine t (nodes pma)" and r: "rounding_ok rnd"
  shows "\<exists>pma'. double_list rnd t pma = Some pma' \<and> array_ok pma' \<and> no_full_leaf (edges pma') \<and> elems (edges pma') = elems (edges pma) \<and>
    edges_N (edges pma') = 2 * edges_N (edges pma) \<and> quiet (nodes pma') \<and> bounds_ok pma' \<and>
    map num_neighbors (nodes pma') = map num_neighbors (nodes pma) \<and> node_lock pma' = node_lock pma \<and> next_task_id pma' = next_task_id pma \<and>
    (2 ^ edges_H (edges pma') \<le> length (elems (edges pma)) \<longrightarrow> no_gap (edges pma')) \<and>
    (last_end pma \<longrightarrow> last_end pma')"
proof -
  let ?el = "edges pma" and ?N = "edges_N (edges pma)" and ?ns = "map take_lock (nodes pma)"
  have sz: "sized ?el" and geo: "geometry_ok ?el" using ok by (simp_all add: array_core_def)
  define geom where "geom = set_geometry (bsr_word (bsr_word ?N + 1)) (?N * 2) ?el"
  define el where "el = geom\<lparr>edges_N := ?N * 2, edge_vals := edge_vals ?el @ replicate ?N 0, edge_dests := edge_dests ?el @ replicate ?N NULL_VAL\<rparr>"
  define p0 where "p0 = set_density_bounds rnd (pma\<lparr>nodes := ?ns, edges := geom\<rparr>)"
  define p1 where "p1 = p0\<lparr>edges := el\<rparr>"
  have geo': "geometry_ok el" using geometry_double [OF geo size] by (simp add: el_def geom_def)
  have el_elems: "elems el = elems ?el"
    using elems_longer [OF sz, of ?N] by (simp add: el_def geom_def set_geometry_def elems_def)
  have nodes1: "nodes p1 = ?ns" by (simp add: p1_def p0_def set_density_bounds_def)
  have "array_core (p1\<lparr>nodes := nodes pma\<rparr>)"
    using ok geo' el_elems sz by (auto simp: array_core_def first_ok_def p1_def sized_def nth_append el_def geom_def set_geometry_def)
  then have core: "array_core p1"
    by (rule array_core_same [where ns = ?ns]) (simp_all add: nodes1)
  have "2 * length (elems (edges p1)) \<le> edges_N (edges p1)"
    using elems_le [OF sz] by (simp add: p1_def el_elems) (simp add: el_def)
  from redistribute_all [OF core this] obtain ys where
    red: "redistribute p1 0 (edges_N (edges p1)) = Some (moved p1 0 ys)" and post: "array_ok (moved p1 0 ys)" "no_full_leaf (edges (moved p1 0 ys))"
      "elems (edges (moved p1 0 ys)) = elems (edges p1)"
    and len: "length ys = edges_N (edges p1)"
    and ys: "ys = spread (logN (edges p1)) (2 ^ edges_H (edges p1)) (filter nonnull (slots (edges p1) 0 (0 + edges_N (edges p1))))" by blast
  have gap: "2 ^ edges_H (edges p1) \<le> length (elems (edges p1)) \<longrightarrow> no_gap (edges (moved p1 0 ys))"
    unfolding ys using redistribute_all_no_gap [OF core] by blast
  have le: "last_end (moved p1 0 ys)" if "last_end pma"
    using that ok core nodes1 len by (intro last_end_rebuilt [OF post(1)]) (auto simp: array_core_def first_ok_def last_end_def Let_def)
  let ?p = "release_all_locks t True GENERAL (moved p1 0 ys)"
  have "double_list rnd t pma = do { pma \<leftarrow> redistribute p1 0 (edges_N (edges p1)); Some (release_all_locks t True GENERAL pma) }"
    using sz by (simp add: double_list_def grab_all_locks_ok [OF t(2)] Let_def p1_def p0_def el_def geom_def sized_def)
  then have "double_list rnd t pma = Some ?p" by (simp add: red)
  moreover have "array_ok ?p"
    by (rule array_ok_same [OF post(1), where ns = "nodes ?p"]) (simp_all add: release_all_locks_def)
  moreover have "quiet (nodes ?p)"
    using t unfolding release_all_locks_def
    by (simp, intro release_all_quiet) (auto simp: locks_moved nodes1 all_mine_def)
  moreover have "map num_neighbors (nodes ?p) = map num_neighbors (nodes pma)"
    by (rule nth_equalityI) (simp_all add: release_all_locks_def locks_moved nodes1)
  moreover have "bounds_ok ?p"
  proof -
    have "2 \<le> loglogN el" "loglogN el \<le> 32" "edges_H el \<le> 32" using size_pow(4) [OF geo'] geo' by (simp_all add: geometry_ok_def)
    then have "bounds_ok p0" unfolding p0_def
      by (intro set_density_bounds_ok [OF r, of _ "loglogN el"]) (simp_all add: el_def geom_def set_geometry_def)
    then show ?thesis by (simp add: bounds_ok_def release_all_locks_def p1_def el_def p0_def)
  qed
  moreover have "last_end ?p" if "last_end pma"
    by (rule last_end_same [OF le [OF that]]) (use ok nodes1 in \<open>auto simp: release_all_locks_def array_core_def first_ok_def\<close>)
  ultimately show ?thesis using post el_elems gap
    by (intro exI [of _ ?p]) (simp add: release_all_locks_def p1_def p0_def el_def set_density_bounds_def)
qed

section \<open>Shrinking\<close>

lemma elems_compact:
  "elems (el\<lparr>edge_vals := map fst xs @ replicate m 0, edge_dests := map snd xs @ replicate m NULL_VAL, edges_N := k\<rparr>) = filter nonnull xs"
  by (simp add: elems_def zip_append zip_replicate nonnull_def zip_map_fst_snd)

lemma first_elem:
  assumes "array_core pma"
  shows "elems (edges pma) \<noteq> []" "snd (elems (edges pma) ! 0) = edge_dests (edges pma) ! 0"
proof -
  let ?el = "edges pma"
  have *: "sized ?el" "0 < edges_N ?el" "nonnull (edge_vals ?el ! 0, edge_dests ?el ! 0)"
    using assms by (auto simp: array_core_def first_ok_def nonnull_def)
  then have "elems ?el = (edge_vals ?el ! 0, edge_dests ?el ! 0) # filter nonnull (slots ?el 1 (edges_N ?el))"
    by (simp add: elems_slots slots_Cons)
  then show "elems ?el \<noteq> []" "snd (elems ?el ! 0) = edge_dests ?el ! 0" by simp_all
qed

lemma half_list_ok:
  assumes ok: "array_core pma" and size: "32 \<le> edges_N (edges pma)" and few: "4 * length (elems (edges pma)) \<le> edges_N (edges pma)"
    and t: "task_ok t" "all_mine t (nodes pma)" and r: "rounding_ok rnd"
  shows "\<exists>pma'. half_list rnd t pma = Some pma' \<and> array_ok pma' \<and> no_full_leaf (edges pma') \<and> elems (edges pma') = elems (edges pma) \<and>
    2 * edges_N (edges pma') = edges_N (edges pma) \<and> quiet (nodes pma') \<and> bounds_ok pma' \<and>
    map num_neighbors (nodes pma') = map num_neighbors (nodes pma) \<and> node_lock pma' = node_lock pma \<and> next_task_id pma' = next_task_id pma \<and>
    (2 ^ edges_H (edges pma') \<le> length (elems (edges pma)) \<longrightarrow> no_gap (edges pma')) \<and>
    (last_end pma \<longrightarrow> last_end pma')"
proof -
  let ?el = "edges pma" and ?N = "edges_N (edges pma)" and ?ns = "map take_lock (nodes pma)" and ?E = "elems (edges pma)"
  have sz: "sized ?el" and geo: "geometry_ok ?el" using ok by (simp_all add: array_core_def)
  note pw = size_pow [OF geo]
  have even: "2 * (?N div 2) = ?N" using pw(1,2) by (cases "loglogN ?el + edges_H ?el") simp_all
  have bsr: "\<not> bsr_word ?N \<le> 1" using pw by simp
  have fit: "length ?E \<le> ?N div 2" "2 * length ?E \<le> ?N div 2" using few by linarith+
  define geom where "geom = set_geometry (bsr_word (bsr_word ?N - 1)) (?N div 2) ?el"
  define el where "el = geom\<lparr>edges_N := ?N div 2, edge_vals := map fst ?E @ replicate (?N div 2 - length ?E) 0,
    edge_dests := map snd ?E @ replicate (?N div 2 - length ?E) NULL_VAL\<rparr>"
  define p0 where "p0 = set_density_bounds rnd (pma\<lparr>nodes := ?ns, edges := geom\<rparr>)"
  define p1 where "p1 = p0\<lparr>edges := el\<rparr>"
  have geo': "geometry_ok el" using geometry_half [OF geo size] by (simp add: el_def geom_def)
  have nn: "filter nonnull ?E = ?E" by (simp add: elems_def)
  have el_elems: "elems el = ?E"
    using elems_compact [where el = geom and xs = ?E and m = "?N div 2 - length ?E"] nn by (simp add: el_def elems_def)
  have nodes1: "nodes p1 = ?ns" by (simp add: p1_def p0_def set_density_bounds_def)
  have sized1: "sized el" using fit by (simp add: sized_def el_def)
  have "array_core (p1\<lparr>nodes := nodes pma\<rparr>)"
    using ok geo' el_elems sized1 first_elem [OF ok] size
    by (auto simp: array_core_def first_ok_def p1_def) (simp_all add: nth_append el_def)
  then have core: "array_core p1"
    by (rule array_core_same [where ns = ?ns]) (simp_all add: nodes1)
  have "2 * length (elems (edges p1)) \<le> edges_N (edges p1)" using fit by (simp add: p1_def el_elems) (simp add: el_def)
  from redistribute_all [OF core this] obtain ys where
    red: "redistribute p1 0 (edges_N (edges p1)) = Some (moved p1 0 ys)" and post: "array_ok (moved p1 0 ys)" "no_full_leaf (edges (moved p1 0 ys))"
      "elems (edges (moved p1 0 ys)) = elems (edges p1)"
    and len: "length ys = edges_N (edges p1)"
    and ys: "ys = spread (logN (edges p1)) (2 ^ edges_H (edges p1)) (filter nonnull (slots (edges p1) 0 (0 + edges_N (edges p1))))" by blast
  have gap: "2 ^ edges_H (edges p1) \<le> length (elems (edges p1)) \<longrightarrow> no_gap (edges (moved p1 0 ys))"
    unfolding ys using redistribute_all_no_gap [OF core] by blast
  have le: "last_end (moved p1 0 ys)" if "last_end pma"
    using that ok core nodes1 len by (intro last_end_rebuilt [OF post(1)]) (auto simp: array_core_def first_ok_def last_end_def Let_def)
  let ?p = "release_all_locks t True GENERAL (moved p1 0 ys)"
  have kept: "filter (\<lambda>(v, d). d \<noteq> NULL_VAL) (slots ?el 0 ?N) = ?E"
    using elems_slots [OF sz] by (simp add: nonnull_fun case_prod_beta')
  have "half_list rnd t pma = do { pma \<leftarrow> redistribute p1 0 (?N div 2); Some (release_all_locks t True GENERAL pma) }"
    using bsr fit(1) by (simp add: half_list_def grab_all_locks_ok [OF t(2)] Let_def kept p1_def p0_def el_def geom_def)
  then have "half_list rnd t pma = Some ?p" using red by (simp add: p1_def) (simp add: el_def)
  moreover have "array_ok ?p"
    by (rule array_ok_same [OF post(1), where ns = "nodes ?p"]) (simp_all add: release_all_locks_def)
  moreover have "quiet (nodes ?p)"
    using t unfolding release_all_locks_def
    by (simp, intro release_all_quiet) (auto simp: locks_moved nodes1 all_mine_def)
  moreover have "map num_neighbors (nodes ?p) = map num_neighbors (nodes pma)"
    by (rule nth_equalityI) (simp_all add: release_all_locks_def locks_moved nodes1)
  moreover have "bounds_ok ?p"
  proof -
    have "2 \<le> loglogN el" "loglogN el \<le> 32" "edges_H el \<le> 32" using size_pow(4) [OF geo'] geo' by (simp_all add: geometry_ok_def)
    then have "bounds_ok p0" unfolding p0_def
      by (intro set_density_bounds_ok [OF r, of _ "loglogN el"]) (simp_all add: el_def geom_def set_geometry_def)
    then show ?thesis by (simp add: bounds_ok_def release_all_locks_def p1_def el_def p0_def)
  qed
  moreover have "last_end ?p" if "last_end pma"
    by (rule last_end_same [OF le [OF that]]) (use ok nodes1 in \<open>auto simp: release_all_locks_def array_core_def first_ok_def\<close>)
  ultimately show ?thesis using post el_elems gap even
    by (intro exI [of _ ?p]) (simp add: release_all_locks_def p1_def p0_def el_def set_density_bounds_def)
qed

end
