(* ===== verification/PMA_Search.thy ===== *)
theory PMA_Search
  imports PMA_Inv
begin

unbundle bit_operations_syntax

text \<open>
  The search for an edge in the slots of a vertex, and the iterator over them.  The search looks at the first slot of the next leaf when it
  hits an empty slot.  It is correct for a vertex whose slots end at a sentinel and meet no empty leaf; the last vertex, whose
  slots end at the last slot of the array, is not of this kind.
\<close>

section \<open>Definitions\<close>

primrec find_prev_valid :: "u32 list \<Rightarrow> nat \<Rightarrow> nat option" where
  "find_prev_valid ds 0 = (if ds ! 0 = NULL_VAL then None else Some 0)"
| "find_prev_valid ds (Suc start) = (if ds ! Suc start = NULL_VAL then find_prev_valid ds start else Some (Suc start))"

text \<open>
  The loop returns early with a position (\<open>Inl\<close>) or ends with its two bounds (\<open>Inr\<close>).  The middle is recomputed from
  the bounds at the end of each round.
\<close>

partial_function (option) search_loop :: "edge_list \<Rightarrow> u32 \<Rightarrow> nat \<Rightarrow> nat \<Rightarrow> (nat + nat \<times> nat) option" where
  "search_loop el elem_dest start stop =
    (if start + 1 < stop then
       let mid = (start + stop) div 2; ds = edge_dests el; item_dest = ds ! mid in
       if length ds \<le> mid then None
       else if item_dest = NULL_VAL then
         let check = next_leaf mid (loglogN el) in
         if check > stop then search_loop el elem_dest start mid
         else if length ds \<le> check then None
         else if ds ! check = NULL_VAL then do {
           early_check \<leftarrow> find_prev_valid ds mid;
           if ds ! early_check = SENT_VAL then Some (Inl (early_check + 1))
           else if early_check < start then search_loop el elem_dest mid stop
           else if elem_dest = ds ! early_check then Some (Inl early_check)
           else if elem_dest < ds ! early_check then search_loop el elem_dest start (early_check + 1)
           else search_loop el elem_dest (if early_check = start then early_check + 1 else early_check) stop
         }
         else if elem_dest = ds ! check then Some (Inl check)
         else if elem_dest < ds ! check then do {
           v \<leftarrow> find_prev_valid ds mid;
           search_loop el elem_dest start (v + 1)
         }
         else search_loop el elem_dest (if check = start then check + 1 else check) stop
       else if elem_dest < item_dest then search_loop el elem_dest start mid
       else if elem_dest > item_dest then search_loop el elem_dest mid stop
       else Some (Inl mid)
     else Some (Inr (start, stop)))"

declare search_loop.simps [code]

definition binary_search :: "edge_list \<Rightarrow> u32 \<Rightarrow> nat \<Rightarrow> nat \<Rightarrow> nat option" where
  "binary_search el elem_dest start stop = do {
     r \<leftarrow> search_loop el elem_dest start stop;
     case r of
       Inl loc \<Rightarrow> Some loc
     | Inr (start, stop) \<Rightarrow>
         let ds = edge_dests el;
             start = (if stop < start then stop else start) in
         if length ds \<le> start \<or> length ds \<le> stop then None
         else let stop = (if ds ! start = NULL_VAL \<and> ds ! stop = NULL_VAL then start else stop);
                  stop = (if elem_dest \<le> ds ! start \<and> ds ! start \<noteq> NULL_VAL then start else stop)
              in Some stop
   }"

subsection \<open>The iterator over the edges of a vertex\<close>

lemma next_leaf_gt: "p < next_leaf p j"
  using dividend_less_times_div [of "2 ^ j" p] by (simp add: next_leaf_def algebra_simps)

record edge_iterator =
  it_place :: nat
  it_end :: nat

function skip_null :: "edge_list \<Rightarrow> nat \<Rightarrow> nat \<Rightarrow> nat" where
  "skip_null el place stop =
    (if place < stop \<and> edge_dests el ! place = NULL_VAL then skip_null el (next_leaf place (loglogN el)) stop
     else if place > stop then stop else place)"
  by pat_completeness auto
termination
proof (relation "measure (\<lambda>(el, place, stop). stop - place)")
  fix el :: edge_list and place stop :: nat
  assume a: "place < stop \<and> edge_dests el ! place = NULL_VAL"
  from a next_leaf_gt [of place "loglogN el"] show "((el, next_leaf place (loglogN el), stop), el, place, stop) \<in> measure (\<lambda>(el, place, stop). stop - place)" by auto
qed simp

declare skip_null.simps [simp del]

definition iter_begin :: "PMA \<Rightarrow> nat \<Rightarrow> edge_iterator" where
  "iter_begin pma nd =
    (let stop = node_end (nodes pma ! nd)
     in \<lparr>it_place = skip_null (edges pma) (beginning (nodes pma ! nd) + 1) stop, it_end = stop\<rparr>)"

definition iter_next :: "PMA \<Rightarrow> edge_iterator \<Rightarrow> edge_iterator" where
  "iter_next pma it = it\<lparr>it_place := skip_null (edges pma) (it_place it + 1) (it_end it)\<rparr>"

definition iter_deref :: "PMA \<Rightarrow> edge_iterator \<Rightarrow> u32 \<times> u32" where
  "iter_deref pma it = (edge_vals (edges pma) ! it_place it, edge_dests (edges pma) ! it_place it)"

text \<open>The loop \<^verbatim>\<open>for (it = begin(nd); it != end(nd); ++it)\<close>, with the edges it sees in at most \<open>fuel\<close> rounds.\<close>

fun iter_edges :: "nat \<Rightarrow> PMA \<Rightarrow> edge_iterator \<Rightarrow> (u32 \<times> u32) list" where
  "iter_edges 0 pma it = []"
| "iter_edges (Suc fuel) pma it =
    (if it_place it = it_end it then [] else iter_deref pma it # iter_edges fuel pma (iter_next pma it))"

section \<open>Packed leaves\<close>

lemma packed_rest:
  assumes "\<And>p. packed_at el p" "logN el = 2 ^ loglogN el" "edge_dests el ! p = NULL_VAL" "p \<le> q" "q < next_leaf p (loglogN el)" "q < edges_N el"
  shows "edge_dests el ! q = NULL_VAL"
  using assms(4-6)
proof (induction q)
  case (Suc q)
  show ?case
  proof (cases "p = Suc q")
    case False
    have "Suc q mod logN el \<noteq> 0"
    proof
      assume "Suc q mod logN el = 0"
      then obtain c where c: "Suc q = logN el * c" by auto
      have "p div logN el < c" using False Suc.prems(1) c assms(2)
        by (metis le_neq_implies_less less_mult_imp_div_less mult.commute)
      then have "Suc (p div logN el) * logN el \<le> c * logN el" by (simp only: mult_le_mono1 Suc_leI)
      then show False using Suc.prems(2) c assms(2) by (simp add: next_leaf_def mult.commute)
    qed
    then show ?thesis using Suc False assms(1) [of "Suc q"] by (auto simp: packed_at_def)
  qed (use assms(3) in simp)
qed (use assms(3) in simp)

lemma find_prev_valid_spec:
  assumes "b \<le> p" "ds ! b \<noteq> NULL_VAL"
  shows "\<exists>v. find_prev_valid ds p = Some v \<and> b \<le> v \<and> v \<le> p \<and> ds ! v \<noteq> NULL_VAL \<and> (\<forall>q. v < q \<longrightarrow> q \<le> p \<longrightarrow> ds ! q = NULL_VAL)"
  using assms
proof (induction p)
  case (Suc p)
  show ?case
  proof (cases "ds ! Suc p = NULL_VAL")
    case True
    then have "b \<noteq> Suc p" using Suc.prems(2) by auto
    then obtain v where "find_prev_valid ds p = Some v" "b \<le> v" "v \<le> p" "ds ! v \<noteq> NULL_VAL" "\<forall>q. v < q \<longrightarrow> q \<le> p \<longrightarrow> ds ! q = NULL_VAL"
      using Suc by auto
    then show ?thesis using True by (auto simp: le_Suc_eq)
  qed (use Suc.prems in auto)
qed simp

section \<open>The search\<close>

lemma below_SENT: "(w :: u32) < SENT_VAL \<longleftrightarrow> w \<noteq> NULL_VAL \<and> w \<noteq> SENT_VAL"
proof -
  have "unat w < 2 ^ 32" using unsigned_less [of w] by simp
  moreover have "unat NULL_VAL = 2 ^ 32 - 1" "unat SENT_VAL = 2 ^ 32 - 2" by (simp_all add: NULL_VAL_def SENT_VAL_def)
  ultimately show ?thesis unfolding word_less_nat_alt word_unat_eq_iff [of w] by linarith
qed

text \<open>
  The slots \<open>lo\<close> to \<open>hi - 1\<close> of a vertex: they end at a sentinel, are in ascending order, and every leaf that begins among
  them has an element.
\<close>

definition searchable :: "edge_list \<Rightarrow> nat \<Rightarrow> nat \<Rightarrow> bool" where
  "searchable el lo hi \<longleftrightarrow>
    sized el \<and> logN el = 2 ^ loglogN el \<and> (\<forall>p. packed_at el p) \<and>
    0 < lo \<and> lo \<le> hi \<and> hi < edges_N el \<and> edge_dests el ! hi = SENT_VAL \<and> edge_dests el ! (lo - 1) \<noteq> NULL_VAL \<and>
    (\<forall>p q. lo \<le> p \<longrightarrow> p < q \<longrightarrow> q < hi \<longrightarrow> edge_dests el ! p \<noteq> NULL_VAL \<longrightarrow> edge_dests el ! q \<noteq> NULL_VAL \<longrightarrow>
       edge_dests el ! p < edge_dests el ! q) \<and>
    (\<forall>p. lo \<le> p \<longrightarrow> p < hi \<longrightarrow> edge_dests el ! p \<noteq> SENT_VAL) \<and>
    (\<forall>c. lo \<le> c \<longrightarrow> c \<le> hi \<longrightarrow> c mod logN el = 0 \<longrightarrow> edge_dests el ! c \<noteq> NULL_VAL)"

text \<open>Where an element belongs: the smaller elements are before, the larger ones after, and an empty slot follows an element.\<close>

definition belongs :: "edge_list \<Rightarrow> u32 \<Rightarrow> nat \<Rightarrow> nat \<Rightarrow> nat \<Rightarrow> bool" where
  "belongs el e lo hi loc \<longleftrightarrow> lo \<le> loc \<and> loc \<le> hi \<and>
    (\<forall>p. lo \<le> p \<longrightarrow> p < loc \<longrightarrow> edge_dests el ! p \<noteq> NULL_VAL \<longrightarrow> edge_dests el ! p < e) \<and>
    (\<forall>p. loc < p \<longrightarrow> p < hi \<longrightarrow> edge_dests el ! p \<noteq> NULL_VAL \<longrightarrow> e < edge_dests el ! p) \<and>
    (edge_dests el ! loc \<noteq> NULL_VAL \<longrightarrow> e \<le> edge_dests el ! loc) \<and>
    (edge_dests el ! loc = NULL_VAL \<longrightarrow> edge_dests el ! (loc - 1) \<noteq> NULL_VAL)"

definition search_inv :: "edge_list \<Rightarrow> u32 \<Rightarrow> nat \<Rightarrow> nat \<Rightarrow> nat \<Rightarrow> nat \<Rightarrow> bool" where
  "search_inv el e lo hi start stop \<longleftrightarrow> lo \<le> start \<and> start \<le> stop \<and> stop \<le> hi \<and>
    (\<forall>p. lo \<le> p \<longrightarrow> p < start \<longrightarrow> edge_dests el ! p \<noteq> NULL_VAL \<longrightarrow> edge_dests el ! p < e) \<and>
    (start = lo \<or> edge_dests el ! start \<noteq> NULL_VAL \<and> edge_dests el ! start < e) \<and>
    (\<forall>p. stop \<le> p \<longrightarrow> p < hi \<longrightarrow> edge_dests el ! p \<noteq> NULL_VAL \<longrightarrow> e < edge_dests el ! p)"

lemma searchable_sorted:
  assumes "searchable el lo hi" "lo \<le> p" "p < q" "q \<le> hi" "edge_dests el ! p \<noteq> NULL_VAL" "edge_dests el ! q \<noteq> NULL_VAL"
  shows "edge_dests el ! p < edge_dests el ! q"
proof (cases "q = hi")
  case True
  then show ?thesis using assms below_SENT by (simp add: searchable_def)
next
  case False
  then show ?thesis using assms by (simp add: searchable_def)
qed

lemma next_leaf_mod: "logN el = 2 ^ loglogN el \<Longrightarrow> next_leaf p (loglogN el) mod logN el = 0"
  by (simp add: next_leaf_def)

lemma search_mid_less:
  assumes "searchable el lo hi" "search_inv el e lo hi start stop" "start < mid" "mid < stop" "edge_dests el ! mid \<noteq> NULL_VAL"
  shows "e < edge_dests el ! mid \<Longrightarrow> search_inv el e lo hi start mid"
    and "edge_dests el ! mid < e \<Longrightarrow> search_inv el e lo hi mid stop"
    and "edge_dests el ! mid = e \<Longrightarrow> belongs el e lo hi mid"
proof -
  have b: "lo \<le> mid" "mid < hi" using assms(2-4) by (simp_all add: search_inv_def)
  have before: "edge_dests el ! p < edge_dests el ! mid" if "lo \<le> p" "p < mid" "edge_dests el ! p \<noteq> NULL_VAL" for p
    using searchable_sorted [OF assms(1) that(1,2)] b(2) that(3) assms(5) by simp
  have after: "edge_dests el ! mid < edge_dests el ! p" if "mid < p" "p < hi" "edge_dests el ! p \<noteq> NULL_VAL" for p
    using searchable_sorted [OF assms(1) b(1) that(1)] that(2,3) assms(5) by simp
  show "search_inv el e lo hi start mid" if e: "e < edge_dests el ! mid"
  proof -
    have "e < edge_dests el ! p" if "mid \<le> p" "p < hi" "edge_dests el ! p \<noteq> NULL_VAL" for p
      using e after [of p] that by (cases "p = mid") auto
    then show ?thesis using assms(2-4) b by (simp add: search_inv_def)
  qed
  show "search_inv el e lo hi mid stop" if e: "edge_dests el ! mid < e"
    using assms(2-5) b e less_trans [OF before e] by (simp add: search_inv_def)
  show "belongs el e lo hi mid" if "edge_dests el ! mid = e"
    using assms(5) b that before after by (auto simp: belongs_def)
qed

text \<open>The middle is empty: the first slot of the next leaf decides.\<close>

lemma search_mid_null:
  assumes el: "searchable el lo hi" and inv: "search_inv el e lo hi start stop" and mid: "start < mid" "mid < stop" "edge_dests el ! mid = NULL_VAL"
  defines "check \<equiv> next_leaf mid (loglogN el)"
  shows "check > stop \<Longrightarrow> search_inv el e lo hi start mid"
    and "check \<le> stop \<Longrightarrow> edge_dests el ! check \<noteq> NULL_VAL \<and> check \<le> hi \<and> start < check"
    and "check \<le> stop \<Longrightarrow> edge_dests el ! check = e \<Longrightarrow> e < SENT_VAL \<Longrightarrow> belongs el e lo hi check"
    and "check \<le> stop \<Longrightarrow> e < edge_dests el ! check \<Longrightarrow>
      \<exists>v. find_prev_valid (edge_dests el) mid = Some v \<and> v < mid \<and> search_inv el e lo hi start (v + 1)"
    and "check \<le> stop \<Longrightarrow> edge_dests el ! check < e \<Longrightarrow> e < SENT_VAL \<Longrightarrow> search_inv el e lo hi check stop"
proof -
  let ?D = "edge_dests el"
  have b: "lo \<le> start" "stop \<le> hi" "hi < edges_N el" "lo \<le> mid" "mid < hi"
    using inv mid el by (simp_all add: search_inv_def searchable_def)
  have rest: "?D ! p = NULL_VAL" if "mid \<le> p" "p < check" "p < edges_N el" for p
    using packed_rest [of el mid p] that mid(3) el by (simp add: searchable_def check_def)
  have gt: "mid < check" unfolding check_def by (rule next_leaf_gt)
  show "search_inv el e lo hi start mid" if c: "check > stop"
  proof -
    have "e < ?D ! p" if "mid \<le> p" "p < hi" "?D ! p \<noteq> NULL_VAL" for p
    proof -
      have "stop \<le> p" using rest [of p] that c b by (metis leI le_less_trans less_imp_le_nat less_trans)
      then show ?thesis using inv that by (simp add: search_inv_def)
    qed
    then show ?thesis using inv mid b by (simp add: search_inv_def)
  qed
  show nn: "?D ! check \<noteq> NULL_VAL \<and> check \<le> hi \<and> start < check" if c: "check \<le> stop"
    using el b c gt mid(1) next_leaf_mod [of el mid] by (simp add: searchable_def check_def)
  have before: "?D ! p < ?D ! check" if "check \<le> stop" "lo \<le> p" "p < check" "?D ! p \<noteq> NULL_VAL" for p
    using searchable_sorted [OF el that(2,3)] nn that by simp
  have after: "?D ! check < ?D ! p" if "check \<le> stop" "check < p" "p < hi" "?D ! p \<noteq> NULL_VAL" for p
    using searchable_sorted [OF el _ that(2)] nn that b gt by simp
  have valid: "?D ! check < SENT_VAL \<Longrightarrow> check \<le> stop \<Longrightarrow> check < hi"
    using nn el by (cases "check = hi") (auto simp: searchable_def)
  show "belongs el e lo hi check" if "check \<le> stop" "?D ! check = e" "e < SENT_VAL"
    using that before after nn b gt by (simp add: belongs_def)
  show "search_inv el e lo hi check stop" if "check \<le> stop" "?D ! check < e" "e < SENT_VAL"
    using that before nn b gt inv by (auto simp: search_inv_def dest: less_trans)
  show "\<exists>v. find_prev_valid ?D mid = Some v \<and> v < mid \<and> search_inv el e lo hi start (v + 1)" if c: "check \<le> stop" "e < ?D ! check"
  proof -
    have lo: "lo - 1 \<le> mid" "?D ! (lo - 1) \<noteq> NULL_VAL" using b(4) el by (simp_all add: searchable_def)
    obtain v where v: "find_prev_valid ?D mid = Some v" "lo - 1 \<le> v" "v \<le> mid" "?D ! v \<noteq> NULL_VAL" "\<And>q. v < q \<Longrightarrow> q \<le> mid \<Longrightarrow> ?D ! q = NULL_VAL"
      using find_prev_valid_spec [OF lo] by blast
    have vm: "v < mid" using v(3,4) mid(3) by (metis le_neq_implies_less)
    have "start \<le> v + 1"
      using inv v(2) v(5) [of start] mid(1) by (cases "start \<le> v") (auto simp: search_inv_def)
    moreover have "e < ?D ! p" if p: "v + 1 \<le> p" "p < hi" "?D ! p \<noteq> NULL_VAL" for p
    proof -
      have "check \<le> p" using p v(5) [of p] rest [of p] b(3) by (metis Suc_eq_plus1 Suc_le_eq leI less_trans nat_le_linear)
      then show ?thesis using c after [of p] p by (cases "p = check") auto
    qed
    ultimately show ?thesis using v(1) vm inv b mid by (auto simp: search_inv_def)
  qed
qed

lemma search_loop_correct:
  assumes "searchable el lo hi" "search_inv el e lo hi start stop" "e < SENT_VAL"
  shows "(\<exists>loc. search_loop el e start stop = Some (Inl loc) \<and> belongs el e lo hi loc) \<or>
    (\<exists>a b. search_loop el e start stop = Some (Inr (a, b)) \<and> search_inv el e lo hi a b \<and> b \<le> a + 1)"
  using assms(2)
proof (induction "stop - start" arbitrary: start stop rule: less_induct)
  case less
  let ?D = "edge_dests el" and ?mid = "(start + stop) div 2"
  let ?check = "next_leaf ?mid (loglogN el)"
  show ?case
  proof (cases "start + 1 < stop")
    case False
    then show ?thesis using less.prems by (subst (1 2) search_loop.simps) simp
  next
    case True
    then have mid: "start < ?mid" "?mid < stop" by linarith+
    have len: "?mid < length ?D" "length ?D = edges_N el" "hi < edges_N el" "stop \<le> hi"
      using assms(1) less.prems mid by (simp_all add: searchable_def sized_def search_inv_def)
    show ?thesis
    proof (cases "?D ! ?mid = NULL_VAL")
      case False
      note step = search_mid_less [OF assms(1) less.prems mid False]
      show ?thesis using True False len(1) mid step less.hyps [of ?mid start] less.hyps [of stop ?mid]
        by (subst (1 2) search_loop.simps) (auto simp: Let_def)
    next
      case null: True
      note step = search_mid_null [OF assms(1) less.prems mid null]
      show ?thesis
      proof (cases "?check > stop")
        case True
        then show ?thesis using \<open>start + 1 < stop\<close> null len(1) mid step(1) less.hyps [of ?mid start]
          by (subst (1 2) search_loop.simps) (auto simp: Let_def)
      next
        case False
        then have c: "?check \<le> stop" by simp
        note st = step(2-5) [OF c]
        have lc: "?check < length ?D" "?check \<noteq> start" "stop - ?check < stop - start" using st(1) len c mid by auto
        consider "?D ! ?check = e" | "e < ?D ! ?check" | "?D ! ?check < e" by fastforce
        then show ?thesis
        proof cases
          case 1
          then show ?thesis using True null len(1) c lc st(1,2) assms(3)
            by (subst (1 2) search_loop.simps) (auto simp: Let_def)
        next
          case 2
          then obtain v where v: "find_prev_valid ?D ?mid = Some v" "v < ?mid" "search_inv el e lo hi start (v + 1)" using st(3) by blast
          then have "search_loop el e start stop = search_loop el e start (v + 1)"
            using True null len(1) c lc st(1) 2 by (subst search_loop.simps) (simp add: Let_def less_imp_neq)
          moreover have "v + 1 - start < stop - start" using v(2) mid by linarith
          ultimately show ?thesis using less.hyps v(3) by simp
        next
          case 3
          then have "search_loop el e start stop = search_loop el e ?check stop"
            using True null len(1) c lc st(1) by (subst search_loop.simps) (auto simp: Let_def)
          then show ?thesis using less.hyps [of stop ?check] lc(3) st(4) [OF 3 assms(3)] by simp
        qed
      qed
    qed
  qed
qed

text \<open>The search returns, with the place of the element.\<close>

lemma binary_search_ok:
  assumes el: "searchable el lo hi" and e: "e < SENT_VAL"
  shows "\<exists>loc. binary_search el e lo hi = Some loc \<and> belongs el e lo hi loc"
proof -
  have "search_inv el e lo hi lo hi" using el by (simp add: search_inv_def searchable_def)
  from search_loop_correct [OF el this e] show ?thesis
  proof (elim disjE exE conjE)
    fix loc assume "search_loop el e lo hi = Some (Inl loc)" "belongs el e lo hi loc"
    then show ?thesis by (simp add: binary_search_def)
  next
    fix a b assume s: "search_loop el e lo hi = Some (Inr (a, b))" "search_inv el e lo hi a b" "b \<le> a + 1"
    let ?D = "edge_dests el"
    let ?stop = "if e \<le> ?D ! a \<and> ?D ! a \<noteq> NULL_VAL then a else if ?D ! a = NULL_VAL \<and> ?D ! b = NULL_VAL then a else b"
    have b: "lo \<le> a" "a \<le> b" "b \<le> hi" "b < length ?D" "?D ! (lo - 1) \<noteq> NULL_VAL" "0 < lo"
      using s(2) el by (auto simp: search_inv_def searchable_def sized_def)
    have "binary_search el e lo hi = Some ?stop"
      using s(1) b by (auto simp: binary_search_def Let_def)
    moreover have "belongs el e lo hi ?stop"
    proof -
      have L: "\<And>p. lo \<le> p \<Longrightarrow> p < a \<Longrightarrow> ?D ! p \<noteq> NULL_VAL \<Longrightarrow> ?D ! p < e"
        and S: "?D ! a = NULL_VAL \<Longrightarrow> a = lo"
        and R: "\<And>p. b \<le> p \<Longrightarrow> p < hi \<Longrightarrow> ?D ! p \<noteq> NULL_VAL \<Longrightarrow> e < ?D ! p"
        using s(2) by (auto simp: search_inv_def)
      have R': "e \<le> ?D ! b" if "?D ! b \<noteq> NULL_VAL"
        using that R [of b] b(3) el e by (cases "b = hi") (auto simp: searchable_def)
      have stay: "belongs el e lo hi a" if "?D ! a \<noteq> NULL_VAL \<Longrightarrow> e \<le> ?D ! a"
        using that L R S b s(3) by (auto simp: belongs_def)
      have step: "belongs el e lo hi b" if "b = Suc a" "?D ! a \<noteq> NULL_VAL \<Longrightarrow> ?D ! a < e" "?D ! a = NULL_VAL \<Longrightarrow> ?D ! b \<noteq> NULL_VAL"
        using that L R R' b by (auto simp: belongs_def less_Suc_eq)
      show ?thesis
      proof (cases "b = a")
        case True
        then show ?thesis using stay R' by simp
      next
        case False
        then have "b = Suc a" using b(2) s(3) by simp
        then show ?thesis using stay step by (auto simp: not_le)
      qed
    qed
    ultimately show ?thesis by blast
  qed
qed

end
