(* ===== verification/PMA_Update.thy ===== *)
theory PMA_Update
  imports PMA_Resize PMA_Search
begin

unbundle bit_operations_syntax

text \<open>
  The operations on the packed memory array: adding vertices, adding, updating and removing edges, and looking them up, as one thread
  runs them.  An update holds the locks of the nodes whose slots it may touch; while it rebalances a larger and larger
  range it gives the locks back for the reason \<open>REBALANCE\<close> and takes those of the larger range.  Where the code goes back to the start
  because a lock is taken or a pointer has moved, a thread that runs alone would do so for ever: \<open>None\<close>.
\<close>

section \<open>Ranges of locks\<close>

definition in_node :: "PMA \<Rightarrow> nat \<Rightarrow> nat \<Rightarrow> bool" where
  "in_node pma index i \<longleftrightarrow> beginning (nodes pma ! i) \<le> index \<and> index < node_end (nodes pma ! i)"

function contain_loop :: "PMA \<Rightarrow> nat \<Rightarrow> nat \<Rightarrow> nat \<Rightarrow> nat + nat \<times> nat" where
  "contain_loop pma index start stop =
    (if stop - start > 1 then
       let middle = (stop + start) div 2 in
       if in_node pma index middle then Inl middle
       else if index < beginning (nodes pma ! middle) then contain_loop pma index start middle
       else contain_loop pma index middle stop
     else Inr (start, stop))"
  by pat_completeness auto
termination by (relation "measure (\<lambda>(pma, index, start, stop). stop - start)") auto

declare contain_loop.simps [simp del]

definition find_contaning_node :: "PMA \<Rightarrow> nat \<Rightarrow> nat option" where
  "find_contaning_node pma index =
    (if nodes pma = [] then None
     else case contain_loop pma index 0 (length (nodes pma) - 1) of
         Inl middle \<Rightarrow> Some middle
       | Inr (start, stop) \<Rightarrow>
           if in_node pma index start then Some start
           else if in_node pma index stop then Some stop
           else if index \<ge> node_end (nodes pma ! (length (nodes pma) - 1)) then Some (length (nodes pma) - 1)
           else None)"

text \<open>The first of the nodes \<open>from\<close> to \<open>bnd - 1\<close> that contains the index.\<close>

definition scan_nodes :: "PMA \<Rightarrow> nat \<Rightarrow> nat \<Rightarrow> nat \<Rightarrow> nat option" where
  "scan_nodes pma index from bnd = List.find (in_node pma index) [from..<bnd]"

definition which_locks_in_range :: "PMA \<Rightarrow> nat \<Rightarrow> nat \<Rightarrow> nat \<Rightarrow> (nat \<times> nat) option" where
  "which_locks_in_range pma index len guess =
    (let n = length (nodes pma) in
     if n \<le> guess then None
     else do {
       start \<leftarrow>
         (if in_node pma index guess then Some guess
          else let st = (if guess > 50 then guess - 50 else 0);
                   en = (if guess + 50 < n then guess + 50 else n - 1)
               in case (if index \<ge> beginning (nodes pma ! st) \<and> index < node_end (nodes pma ! en)
                        then scan_nodes pma index st en else None) of
                    Some est \<Rightarrow> Some est
                  | None \<Rightarrow> find_contaning_node pma index);
       let start = (if index = beginning (nodes pma ! start) \<and> start > 0 then start - 1 else start);
       let end_index = next_leaf (index + len) (loglogN (edges pma)) - 1;
       stop \<leftarrow>
         (if end_index < node_end (nodes pma ! start) then Some start
          else case (if len \<le> 512
                     then scan_nodes pma end_index start (if start + 200 < n then start + 200 else n - 1) else None) of
                 Some est \<Rightarrow> Some est
               | None \<Rightarrow> find_contaning_node pma end_index);
       if stop < start then None else Some (start, stop)
     })"

fun unlock_nodes :: "u64 \<Rightarrow> REASONS \<Rightarrow> nat list \<Rightarrow> PMA \<Rightarrow> PMA option" where
  "unlock_nodes task_id r [] pma = Some pma"
| "unlock_nodes task_id r (i # is) pma =
    (if i < length (nodes pma)
     then unlock_nodes task_id r is (set_node_lock pma i (unlock_excl task_id r (node_lock_of (nodes pma ! i))))
     else None)"

definition release_locks_in_range :: "u64 \<Rightarrow> nat \<times> nat \<Rightarrow> REASONS \<Rightarrow> PMA \<Rightarrow> PMA option" where
  "release_locks_in_range task_id held r pma = unlock_nodes task_id r [fst held..<Suc (snd held)] pma"

fun try_locks :: "REASONS \<Rightarrow> nat list \<Rightarrow> PMA \<Rightarrow> PMA option" where
  "try_locks r [] pma = Some pma"
| "try_locks r (i # is) pma =
    (if i < length (nodes pma) then
       case try_lock (node_lock_of (nodes pma ! i)) r of
         (True, l) \<Rightarrow> try_locks r is (set_node_lock pma i l)
       | (False, l) \<Rightarrow> None
     else None)"

definition grab_locks_in_range_with_resets :: "PMA \<Rightarrow> nat \<Rightarrow> nat \<Rightarrow> REASONS \<Rightarrow> nat \<Rightarrow> ((nat \<times> nat) \<times> PMA) option" where
  "grab_locks_in_range_with_resets pma index len r guess = do {
     ends \<leftarrow> which_locks_in_range pma index len guess;
     pma \<leftarrow> try_locks r [fst ends..<Suc (snd ends)] pma;
     if beginning (nodes pma ! fst ends) \<le> index \<and>
        (index + len \<le> node_end (nodes pma ! snd ends) \<or> snd ends = length (nodes pma) - 1)
     then Some (ends, pma) else None
   }"

fun first_node_of :: "PMA \<Rightarrow> nat \<Rightarrow> nat \<Rightarrow> nat option" where
  "first_node_of pma start_index 0 = (if beginning (nodes pma ! 0) > start_index then None else Some 0)"
| "first_node_of pma start_index (Suc i) =
    (if beginning (nodes pma ! Suc i) > start_index then first_node_of pma start_index i else Some (Suc i))"

function last_node_of :: "PMA \<Rightarrow> nat \<Rightarrow> nat \<Rightarrow> nat" where
  "last_node_of pma end_index i =
    (if node_end (nodes pma ! i) < end_index \<and> i < length (nodes pma) - 1 then last_node_of pma end_index (i + 1) else i)"
  by pat_completeness auto
termination by (relation "measure (\<lambda>(pma, end_index, i). length (nodes pma) - i)") auto

declare last_node_of.simps [simp del]

definition which_locks_for_leaf :: "PMA \<Rightarrow> nat \<Rightarrow> (nat \<times> nat) option" where
  "which_locks_for_leaf pma src =
    (if length (nodes pma) \<le> src then None
     else let start_index = find_leaf (edges pma) (beginning (nodes pma ! src));
              end_index = next_leaf (node_end (nodes pma ! src)) (loglogN (edges pma))
          in map_option (\<lambda>first_node. (first_node, last_node_of pma end_index src)) (first_node_of pma start_index src))"

definition grab_locks_for_leaf_with_resets :: "PMA \<Rightarrow> nat \<Rightarrow> ((nat \<times> nat) \<times> PMA) option" where
  "grab_locks_for_leaf_with_resets pma src = do {
     ends \<leftarrow> which_locks_for_leaf pma src;
     pma \<leftarrow> try_locks GENERAL [fst ends..<Suc (snd ends)] pma;
     ends_check \<leftarrow> which_locks_for_leaf pma src;
     if ends \<noteq> ends_check then None else Some (ends, pma)
   }"

section \<open>Rebalancing\<close>

text \<open>
  The part that \<^verbatim>\<open>insert\<close> and \<^verbatim>\<open>remove\<close> share after the element is in place: with \<open>grow\<close> the bounds from above
  and doubling (\<^verbatim>\<open>insert\<close>), without it the bounds from below and halving (\<^verbatim>\<open>remove\<close>).  The range of locks held is \<open>held\<close>;
  \<open>lock_span\<close> is the range that was ever held.
\<close>

definition crowded :: "bool \<Rightarrow> PMA \<Rightarrow> nat \<Rightarrow> real \<Rightarrow> bool" where
  "crowded grow pma level density \<longleftrightarrow>
    (if grow then density \<ge> upper_density_bound pma level else density \<le> lower_density_bound pma level)"

datatype climbed = Resized PMA | Rebalance PMA nat nat "nat \<times> nat" "nat \<times> nat"

definition widen :: "nat \<times> nat \<Rightarrow> nat \<times> nat \<Rightarrow> nat \<times> nat" where
  "widen held lock_span = (min (fst held) (fst lock_span), max (snd held) (snd lock_span))"

fun climb ::
    "nat \<Rightarrow> bool \<Rightarrow> (real \<Rightarrow> real) \<Rightarrow> u64 \<Rightarrow> nat \<Rightarrow> PMA \<Rightarrow> nat \<Rightarrow> nat \<Rightarrow> nat \<times> nat \<Rightarrow> nat \<times> nat \<Rightarrow> climbed option" where
  "climb level grow rnd task_id src pma node_index len held lock_span = do {
     density \<leftarrow> get_density (edges pma) node_index len;
     if \<not> crowded grow pma level density then Some (Rebalance pma node_index len held lock_span)
     else if len * 2 \<le> edges_N (edges pma) then
       case level of
         0 \<Rightarrow> None
       | Suc level' \<Rightarrow> do {
           let new_node_index = find_node_start node_index (len * 2);
           pma \<leftarrow> release_locks_in_range task_id held REBALANCE pma;
           (held, pma) \<leftarrow> grab_locks_in_range_with_resets pma new_node_index (len * 2) REBALANCE src;
           climb level' grow rnd task_id src pma new_node_index (len * 2) held (widen held lock_span)
         }
     else do {
       pma \<leftarrow> release_locks_in_range task_id held DOUBLE pma;
       pma \<leftarrow> (if grow then double_list rnd task_id pma else half_list rnd task_id pma);
       Some (Resized pma)
     }
   }"

declare climb.simps [simp del]

text \<open>Taking and giving back each lock of a list, which resets its reason.\<close>

fun reset_locks :: "u64 \<Rightarrow> nat list \<Rightarrow> PMA \<Rightarrow> PMA option" where
  "reset_locks task_id [] pma = Some pma"
| "reset_locks task_id (i # is) pma =
    (if i < length (nodes pma) then do {
       l \<leftarrow> lock_excl (node_lock_of (nodes pma ! i)) REBALANCE;
       reset_locks task_id is (set_node_lock pma i (unlock_excl task_id GENERAL l))
     } else None)"

text \<open>
  The locks that the update holds are exchanged for those of the range to rebalance; the result is the range of locks held, the span and the array.
\<close>

definition exchange_locks :: "u64 \<Rightarrow> PMA \<Rightarrow> nat \<Rightarrow> nat \<Rightarrow> nat \<Rightarrow> nat \<times> nat \<Rightarrow> ((nat \<times> nat) \<times> (nat \<times> nat) \<times> PMA) option" where
  "exchange_locks task_id pma node_index len src held = do {
     needed \<leftarrow> which_locks_in_range pma node_index len src;
     pma \<leftarrow> unlock_nodes task_id GENERAL [fst held..<fst needed] pma;
     pma \<leftarrow> unlock_nodes task_id REBALANCE [max (fst needed) (fst held)..<Suc (min (snd held) (snd needed))] pma;
     pma \<leftarrow> unlock_nodes task_id GENERAL [snd needed + 1..<Suc (snd held)] pma;
     let lock_span = (max (fst needed) (fst held), max (snd needed) (snd held));
     (held, pma) \<leftarrow> grab_locks_in_range_with_resets pma node_index len REBALANCE src;
     Some (held, widen held lock_span, pma)
   }"

fun finish_rebalance :: "u64 \<Rightarrow> climbed \<Rightarrow> PMA option" where
  "finish_rebalance task_id (Resized pma) = Some pma"
| "finish_rebalance task_id (Rebalance pma node_index len held lock_span) = do {
     pma \<leftarrow> (if len > logN (edges pma) then redistribute pma node_index len else Some pma);
     pma \<leftarrow> release_locks_in_range task_id held GENERAL pma;
     pma \<leftarrow> reset_locks task_id [fst lock_span..<fst held] pma;
     reset_locks task_id [snd held + 1..<Suc (snd lock_span)] pma
   }"

definition rebalance :: "bool \<Rightarrow> (real \<Rightarrow> real) \<Rightarrow> u64 \<Rightarrow> PMA \<Rightarrow> nat \<Rightarrow> nat \<Rightarrow> nat \<times> nat \<Rightarrow> PMA option" where
  "rebalance grow rnd task_id pma index src held = do {
     let leaf = find_leaf (edges pma) index;
     density \<leftarrow> get_density (edges pma) leaf (logN (edges pma));
     (pma, node_index, len, level) \<leftarrow>
       (if density = (if grow then 1 else 0) then
          if edges_H (edges pma) = 0 then None
          else Some (pma, find_node_start leaf (logN (edges pma) * 2), logN (edges pma) * 2, edges_H (edges pma) - 1)
        else map_option (\<lambda>p. (p, leaf, logN (edges pma), edges_H (edges pma))) (redistribute pma leaf (logN (edges pma))));
     (held, lock_span, pma) \<leftarrow> exchange_locks task_id pma node_index len src held;
     r \<leftarrow> climb level grow rnd task_id src pma node_index len held lock_span;
     finish_rebalance task_id r
   }"

section \<open>Elements\<close>

definition set_value :: "PMA \<Rightarrow> nat \<Rightarrow> u32 \<Rightarrow> PMA" where
  "set_value pma loc v = pma\<lparr>edges := (edges pma)\<lparr>edge_vals := (edge_vals (edges pma))[loc := v]\<rparr>\<rparr>"

definition insert_elem ::
    "(real \<Rightarrow> real) \<Rightarrow> u64 \<Rightarrow> PMA \<Rightarrow> nat \<Rightarrow> u32 \<Rightarrow> u32 \<Rightarrow> nat \<Rightarrow> nat \<times> nat \<Rightarrow> PMA option" where
  "insert_elem rnd task_id pma index elem_dest elem_val src held =
    (if length (edge_dests (edges pma)) \<le> index then None
     else if edge_dests (edges pma) ! index = NULL_VAL then
       rebalance True rnd task_id (set_slot_at pma index elem_val elem_dest) index src held
     else if elem_dest \<noteq> SENT_VAL \<and> edge_dests (edges pma) ! index = elem_dest then
       release_locks_in_range task_id held GENERAL (set_value pma index elem_val)
     else do {
       pma \<leftarrow> slide_right pma index;
       rebalance True rnd task_id (set_slot_at pma index elem_val elem_dest) index src held
     })"

definition remove_elem :: "(real \<Rightarrow> real) \<Rightarrow> u64 \<Rightarrow> PMA \<Rightarrow> nat \<Rightarrow> nat \<Rightarrow> nat \<times> nat \<Rightarrow> PMA option" where
  "remove_elem rnd task_id pma index src held = do {
     pma \<leftarrow> slide_left pma index;
     rebalance False rnd task_id pma index src held
   }"

section \<open>Vertices\<close>

definition take_task :: "u64 \<Rightarrow> PMA \<Rightarrow> PMA" where
  "take_task k pma = pma\<lparr>next_task_id := next_task_id pma + k\<rparr>"

definition share_nodes :: "PMA \<Rightarrow> PMA option" where
  "share_nodes pma = map_option (\<lambda>l. pma\<lparr>node_lock := l\<rparr>) (lock_shared (node_lock pma))"

definition unshare_nodes :: "PMA \<Rightarrow> PMA" where
  "unshare_nodes pma = pma\<lparr>node_lock := unlock_shared (node_lock pma)\<rparr>"

text \<open>The search for the place of a new sentinel, to the left from the end of the array.\<close>

fun back_up :: "u32 list \<Rightarrow> nat \<Rightarrow> nat \<Rightarrow> nat option" where
  "back_up ds leaf 0 = None"
| "back_up ds leaf (Suc b) = (if ds ! b = NULL_VAL \<and> Suc b \<noteq> leaf then back_up ds leaf b else Some (Suc b))"

definition new_beginning :: "PMA \<Rightarrow> nat option" where
  "new_beginning pma =
    (let prev = nodes pma ! (length (nodes pma) - 1); b = node_end prev in
     if b = edges_N (edges pma) - 1 then
       if num_neighbors prev = 0 then Some (beginning prev + 1)
       else back_up (edge_dests (edges pma)) (find_leaf (edges pma) b) b
     else Some b)"

definition push_node :: "PMA \<Rightarrow> nat \<Rightarrow> PMA" where
  "push_node pma b =
    (let n = length (nodes pma); old = (if n = 0 then [] else (nodes pma)[n - 1 := (nodes pma ! (n - 1))\<lparr>node_end := b\<rparr>])
     in pma\<lparr>nodes := old @ [\<lparr>beginning = b, node_end = b + 1, num_neighbors = 0, node_lock_of = new_PMA_Lock\<rparr>]\<rparr>)"

definition add_node :: "(real \<Rightarrow> real) \<Rightarrow> PMA \<Rightarrow> PMA option" where
  "add_node rnd pma = do {
     let task_id = next_task_id pma;
     let pma = take_task 2 pma;
     l \<leftarrow> lock_excl (node_lock pma) GENERAL;
     let pma = pma\<lparr>node_lock := l\<rparr>;
     let len = length (nodes pma);
     b \<leftarrow> (if len > 0 then new_beginning pma else Some 0);
     let (dest, val) = (if len > 0 then (SENT_VAL, of_nat len) else (0, NULL_VAL));
     let pma = push_node pma b;
     (held, pma) \<leftarrow> grab_locks_for_leaf_with_resets pma len;
     let pma = pma\<lparr>node_lock := make_shared (node_lock pma)\<rparr>;
     pma \<leftarrow> insert_elem rnd task_id pma b dest val len held;
     Some (unshare_nodes pma)
   }"

fun add_nodes :: "(real \<Rightarrow> real) \<Rightarrow> nat \<Rightarrow> PMA \<Rightarrow> PMA option" where
  "add_nodes rnd 0 pma = Some pma"
| "add_nodes rnd (Suc m) pma = do { pma \<leftarrow> add_node rnd pma; add_nodes rnd m pma }"

text \<open>The array before any node; the density bounds that are not set hold the values \<open>u\<close> and \<open>l\<close>.\<close>

definition empty_PMA :: "(real \<Rightarrow> real) \<Rightarrow> (nat \<Rightarrow> real) \<Rightarrow> (nat \<Rightarrow> real) \<Rightarrow> nat \<Rightarrow> PMA" where
  "empty_PMA rnd u l sz =
    set_density_bounds rnd
      \<lparr>edges = set_geometry (bsr_word (bsr_word sz + 1)) sz
         \<lparr>edges_N = sz, edges_H = 0, logN = 0, loglogN = 0, mask_for_leaf = 0,
          edge_vals = replicate sz 0, edge_dests = replicate sz NULL_VAL, density_limit = 0\<rparr>,
       nodes = [], node_lock = new_PMA_Lock, next_task_id = 1, upper_density_bound = u, lower_density_bound = l\<rparr>"

definition init_size :: "nat \<Rightarrow> nat" where
  "init_size init_n = max (2 * 2 ^ bsr_word (init_n * 2 mod 2 ^ 32)) 16"

definition new_PMA :: "(real \<Rightarrow> real) \<Rightarrow> (nat \<Rightarrow> real) \<Rightarrow> (nat \<Rightarrow> real) \<Rightarrow> nat \<Rightarrow> PMA option" where
  "new_PMA rnd u l init_n =
    (if init_n * 2 mod 2 ^ 32 = 0 then None else add_nodes rnd init_n (empty_PMA rnd u l (init_size init_n)))"

definition copy_PMA :: "PMA \<Rightarrow> PMA" where
  "copy_PMA other = other\<lparr>next_task_id := 1, node_lock := new_PMA_Lock\<rparr>"

section \<open>Edges\<close>

text \<open>The locks of the leaf that an update touches are kept, those of the other nodes of the vertex are given back.\<close>

definition keep_needed_locks :: "u64 \<Rightarrow> PMA \<Rightarrow> nat \<Rightarrow> nat \<Rightarrow> nat \<times> nat \<Rightarrow> ((nat \<times> nat) \<times> PMA) option" where
  "keep_needed_locks task_id pma loc src held = do {
     needed \<leftarrow> which_locks_in_range pma (find_leaf (edges pma) loc) (logN (edges pma)) src;
     pma \<leftarrow> unlock_nodes task_id GENERAL [fst held..<fst needed] pma;
     pma \<leftarrow> unlock_nodes task_id GENERAL [snd needed + 1..<Suc (snd held)] pma;
     Some ((max (fst held) (fst needed), min (snd held) (snd needed)), pma)
   }"

definition search_vertex :: "PMA \<Rightarrow> nat \<Rightarrow> u32 \<Rightarrow> nat option" where
  "search_vertex pma src dest = do {
     loc \<leftarrow> binary_search (edges pma) dest (beginning (nodes pma ! src) + 1) (node_end (nodes pma ! src));
     if loc < length (edge_dests (edges pma)) then Some loc else None
   }"

definition change_degree :: "PMA \<Rightarrow> nat \<Rightarrow> u32 \<Rightarrow> PMA" where
  "change_degree pma src k =
    pma\<lparr>nodes := (nodes pma)[src := (nodes pma ! src)\<lparr>num_neighbors := num_neighbors (nodes pma ! src) + k\<rparr>]\<rparr>"

definition add_edge_update_fast :: "(real \<Rightarrow> real) \<Rightarrow> u64 \<Rightarrow> nat \<Rightarrow> u32 \<Rightarrow> u32 \<Rightarrow> PMA \<Rightarrow> (bool \<times> PMA) option" where
  "add_edge_update_fast rnd task_id src dest val pma =
    (if val \<noteq> 0 then do {
       (held, pma) \<leftarrow> grab_locks_for_leaf_with_resets pma src;
       loc \<leftarrow> search_vertex pma src dest;
       if edge_dests (edges pma) ! loc = dest then do {
         pma \<leftarrow> release_locks_in_range task_id held GENERAL (set_value pma loc val);
         Some (False, pma)
       } else do {
         (held, pma) \<leftarrow> keep_needed_locks task_id pma loc src held;
         pma \<leftarrow> insert_elem rnd task_id (change_degree pma src 1) loc dest val src held;
         Some (True, pma)
       }
     } else Some (False, pma))"

definition add_edge_update :: "(real \<Rightarrow> real) \<Rightarrow> nat \<Rightarrow> u32 \<Rightarrow> u32 \<Rightarrow> PMA \<Rightarrow> (bool \<times> PMA) option" where
  "add_edge_update rnd src dest val pma =
    (if val \<noteq> 0 then do {
       let task_id = next_task_id pma;
       pma \<leftarrow> share_nodes (take_task 2 pma);
       (added, pma) \<leftarrow> add_edge_update_fast rnd task_id src dest val pma;
       Some (added, unshare_nodes pma)
     } else Some (False, pma))"

definition add_edge :: "(real \<Rightarrow> real) \<Rightarrow> nat \<Rightarrow> u32 \<Rightarrow> u32 \<Rightarrow> PMA \<Rightarrow> PMA option" where
  "add_edge rnd src dest val pma =
    (if val \<noteq> 0 then do {
       let task_id = next_task_id pma;
       pma \<leftarrow> share_nodes (take_task 2 pma);
       (held, pma) \<leftarrow> grab_locks_for_leaf_with_resets pma src;
       let pma = change_degree pma src 1;
       loc \<leftarrow> search_vertex pma src dest;
       (held, pma) \<leftarrow> keep_needed_locks task_id pma loc src held;
       pma \<leftarrow> insert_elem rnd task_id pma loc dest val src held;
       Some (unshare_nodes pma)
     } else Some pma)"

definition remove_edge_fast :: "(real \<Rightarrow> real) \<Rightarrow> u64 \<Rightarrow> nat \<Rightarrow> u32 \<Rightarrow> PMA \<Rightarrow> (bool \<times> PMA) option" where
  "remove_edge_fast rnd task_id src dest pma = do {
     (held, pma) \<leftarrow> grab_locks_for_leaf_with_resets pma src;
     loc \<leftarrow> search_vertex pma src dest;
     if edge_dests (edges pma) ! loc \<noteq> dest then do {
       pma \<leftarrow> release_locks_in_range task_id held GENERAL pma;
       Some (False, pma)
     } else do {
       let pma = change_degree pma src (- 1);
       (held, pma) \<leftarrow> keep_needed_locks task_id pma loc src held;
       pma \<leftarrow> remove_elem rnd task_id pma loc src held;
       Some (True, pma)
     }
   }"

definition remove_edge :: "(real \<Rightarrow> real) \<Rightarrow> nat \<Rightarrow> u32 \<Rightarrow> PMA \<Rightarrow> (bool \<times> PMA) option" where
  "remove_edge rnd src dest pma = do {
     let task_id = next_task_id pma;
     pma \<leftarrow> share_nodes (take_task 2 pma);
     (removed, pma) \<leftarrow> remove_edge_fast rnd task_id src dest pma;
     Some (removed, unshare_nodes pma)
   }"

definition find_value :: "nat \<Rightarrow> u32 \<Rightarrow> PMA \<Rightarrow> (u32 \<times> PMA) option" where
  "find_value src dest pma = do {
     let task_id = next_task_id pma;
     pma \<leftarrow> share_nodes (take_task 2 pma);
     pma \<leftarrow> (if src < length (nodes pma) then map_option (set_node_lock pma src) (lock_excl (node_lock_of (nodes pma ! src)) GENERAL)
             else None);
     loc \<leftarrow> search_vertex pma src dest;
     let e_dest = edge_dests (edges pma) ! loc;
     let e_value = edge_vals (edges pma) ! loc;
     let pma = set_node_lock pma src (unlock_excl task_id GENERAL (node_lock_of (nodes pma ! src)));
     Some (if e_dest \<noteq> NULL_VAL \<and> e_dest = dest then e_value else 0, unshare_nodes pma)
   }"

subsection \<open>Batches and whole graphs\<close>

text \<open>The iterations of the parallel loops are run in order.\<close>

fun add_batch :: "(real \<Rightarrow> real) \<Rightarrow> u64 \<Rightarrow> (nat \<times> u32 \<times> u32) list \<Rightarrow> PMA \<Rightarrow> PMA option" where
  "add_batch rnd task_id [] pma = Some pma"
| "add_batch rnd task_id ((src, dest, val) # es) pma = do {
     (added, pma) \<leftarrow> add_edge_update_fast rnd task_id src dest val pma;
     add_batch rnd (task_id + 2) es pma
   }"

definition add_edge_batch_update :: "(real \<Rightarrow> real) \<Rightarrow> (nat \<times> u32 \<times> u32) list \<Rightarrow> PMA \<Rightarrow> PMA option" where
  "add_edge_batch_update rnd es pma = do {
     let task_id = next_task_id pma;
     pma \<leftarrow> share_nodes (take_task (2 * of_nat (length es)) pma);
     pma \<leftarrow> add_batch rnd task_id es pma;
     Some (unshare_nodes pma)
   }"

definition add_edge_batch_update_no_val :: "(real \<Rightarrow> real) \<Rightarrow> (nat \<times> u32) list \<Rightarrow> PMA \<Rightarrow> PMA option" where
  "add_edge_batch_update_no_val rnd es pma = add_edge_batch_update rnd (map (\<lambda>(src, dest). (src, dest, 1)) es) pma"

fun remove_batch :: "(real \<Rightarrow> real) \<Rightarrow> u64 \<Rightarrow> (nat \<times> u32) list \<Rightarrow> PMA \<Rightarrow> PMA option" where
  "remove_batch rnd task_id [] pma = Some pma"
| "remove_batch rnd task_id ((src, dest) # es) pma = do {
     (removed, pma) \<leftarrow> remove_edge_fast rnd task_id src dest pma;
     remove_batch rnd (task_id + 2) es pma
   }"

definition remove_edge_batch :: "(real \<Rightarrow> real) \<Rightarrow> (nat \<times> u32) list \<Rightarrow> PMA \<Rightarrow> PMA option" where
  "remove_edge_batch rnd es pma = do {
     let task_id = next_task_id pma;
     pma \<leftarrow> share_nodes (take_task (2 * of_nat (length es)) pma);
     pma \<leftarrow> remove_batch rnd task_id es pma;
     Some (unshare_nodes pma)
   }"

definition get_n :: "PMA \<Rightarrow> (nat \<times> PMA) option" where
  "get_n pma = map_option (\<lambda>p. (length (nodes p), unshare_nodes p)) (share_nodes pma)"

definition num_edges :: "PMA \<Rightarrow> u64 option" where
  "num_edges pma = map_option (\<lambda>(n, p). sum_list (map (\<lambda>i. ucast (num_neighbors (nodes p ! i))) [0..<n])) (get_n pma)"

fun edge_rows :: "nat list \<Rightarrow> PMA \<Rightarrow> ((nat \<times> u32 \<times> u32) list \<times> PMA) option" where
  "edge_rows [] pma = Some ([], pma)"
| "edge_rows (i # is) pma = do {
     l \<leftarrow> lock_shared (node_lock_of (nodes pma ! i));
     let pma = set_node_lock pma i l;
     let stop = node_end (nodes pma ! i);
     if length (edge_dests (edges pma)) < stop then None else do {
       let row = filter (\<lambda>(v, d). d \<noteq> NULL_VAL) (slots (edges pma) (beginning (nodes pma ! i) + 1) stop);
       let pma = set_node_lock pma i (unlock_shared (node_lock_of (nodes pma ! i)));
       (rows, pma) \<leftarrow> edge_rows is pma;
       Some (map (\<lambda>(v, d). (i, d, v)) row @ rows, pma)
     }
   }"

definition get_edges :: "PMA \<Rightarrow> ((nat \<times> u32 \<times> u32) list \<times> PMA) option" where
  "get_edges pma = do {
     pma \<leftarrow> share_nodes pma;
     (n, pma) \<leftarrow> get_n pma;
     (output, pma) \<leftarrow> edge_rows [0..<n] pma;
     Some (output, unshare_nodes pma)
   }"

end
