(* ===== verification/PMA_Ranges.thy ===== *)
theory PMA_Ranges
  imports PMA_Update
begin

unbundle bit_operations_syntax

text \<open>
  The nodes follow each other in the array without gaps, so that the nodes whose slots meet a range of slots are found, and the locks
  of a range can be taken and given back: the calls return, and change nothing but locks.
\<close>

section \<open>The chain of nodes\<close>

definition chained :: "node list \<Rightarrow> bool" where
  "chained ns \<longleftrightarrow> ns \<noteq> [] \<and> beginning (ns ! 0) = 0 \<and>
    (\<forall>i. Suc i < length ns \<longrightarrow> node_end (ns ! i) = beginning (ns ! Suc i) \<and> beginning (ns ! i) < beginning (ns ! Suc i))"

lemma chained_mono: "chained ns \<Longrightarrow> i < j \<Longrightarrow> j < length ns \<Longrightarrow> beginning (ns ! i) < beginning (ns ! j)"
proof (induction j)
  case (Suc j)
  have "beginning (ns ! j) < beginning (ns ! Suc j)" using Suc.prems by (simp add: chained_def)
  then show ?case using Suc by (cases "i = j") auto
qed simp

lemma chained_mono_le: "chained ns \<Longrightarrow> i \<le> j \<Longrightarrow> j < length ns \<Longrightarrow> beginning (ns ! i) \<le> beginning (ns ! j)"
  using chained_mono [of ns i j] by (cases "i = j") auto

text \<open>The sentinel of a node stands where the node says.\<close>

lemma sent_position:
  assumes "sized el" "sent_ids (elems el) = [1..<n]" "0 < i" "i < n"
  obtains p where "p < edges_N el" "edge_dests el ! p = SENT_VAL" "unat (edge_vals el ! p) = i"
proof -
  have "i \<in> set (sent_ids (slots el 0 (edges_N el)))"
    using assms by (simp flip: sent_ids_elems del: set_upt) simp
  then show thesis using that by (auto simp: sent_ids_def slots_def)
qed

lemma sent_order:
  assumes "sized el" "sent_ids (elems el) = [1..<n]" "p < q" "q < edges_N el" "edge_dests el ! p = SENT_VAL" "edge_dests el ! q = SENT_VAL"
  shows "unat (edge_vals el ! p) < unat (edge_vals el ! q)"
proof -
  let ?v = "unat (edge_vals el ! p)" and ?w = "unat (edge_vals el ! q)"
  have "slots el 0 (edges_N el) = slots el 0 p @ (edge_vals el ! p, edge_dests el ! p) # slots el (Suc p) (edges_N el)"
    using slots_append [of 0 p "edges_N el" el] slots_Cons [of p "edges_N el" el] assms(3,4) by simp
  then have "sent_ids (elems el) = sent_ids (slots el 0 p) @ ?v # sent_ids (slots el (Suc p) (edges_N el))"
    using sent_ids_elems [OF assms(1)] assms(5) by simp
  then have eq: "[1..<n] = sent_ids (slots el 0 p) @ ?v # sent_ids (slots el (Suc p) (edges_N el))" using assms(2) by simp
  have "sorted_wrt (<) (sent_ids (slots el 0 p) @ ?v # sent_ids (slots el (Suc p) (edges_N el)))"
    unfolding eq [symmetric] by (rule sorted_wrt_upt)
  moreover have "?w \<in> set (sent_ids (slots el (Suc p) (edges_N el)))"
    using sent_id_in [of q el "Suc p" "edges_N el"] assms(3-6) by simp
  ultimately show ?thesis by (simp add: sorted_wrt_append)
qed

lemma array_beginning:
  assumes "array_ok pma" "0 < i" "i < length (nodes pma)"
  shows "beginning (nodes pma ! i) < edges_N (edges pma)" "edge_dests (edges pma) ! beginning (nodes pma ! i) = SENT_VAL"
    "unat (edge_vals (edges pma) ! beginning (nodes pma ! i)) = i" "node_end (nodes pma ! (i - 1)) = beginning (nodes pma ! i)"
proof -
  have c: "sized (edges pma)" "sent_ids (elems (edges pma)) = [1..<length (nodes pma)]" "\<And>p. pointer_at (edges pma) (nodes pma) p"
    using assms(1) by (simp_all add: array_ok_def array_core_def slot_ok_def)
  obtain p where p: "p < edges_N (edges pma)" "edge_dests (edges pma) ! p = SENT_VAL" "unat (edge_vals (edges pma) ! p) = i"
    by (rule sent_position [OF c(1,2) assms(2,3)])
  then have "beginning (nodes pma ! i) = p" "node_end (nodes pma ! (i - 1)) = p" using c(3) [of p] by (simp_all add: pointer_at_def)
  with p show "beginning (nodes pma ! i) < edges_N (edges pma)" "edge_dests (edges pma) ! beginning (nodes pma ! i) = SENT_VAL"
    "unat (edge_vals (edges pma) ! beginning (nodes pma ! i)) = i" "node_end (nodes pma ! (i - 1)) = beginning (nodes pma ! i)" by simp_all
qed

lemma array_chained:
  assumes "array_ok pma"
  shows "chained (nodes pma)"
proof -
  have c: "sized (edges pma)" "sent_ids (elems (edges pma)) = [1..<length (nodes pma)]" "first_ok pma"
    using assms by (simp_all add: array_ok_def array_core_def)
  have "node_end (nodes pma ! i) = beginning (nodes pma ! Suc i) \<and> beginning (nodes pma ! i) < beginning (nodes pma ! Suc i)"
    if i: "Suc i < length (nodes pma)" for i
  proof
    note s = array_beginning [OF assms, of "Suc i", simplified, OF i]
    show "node_end (nodes pma ! i) = beginning (nodes pma ! Suc i)" by (rule s(4))
    show "beginning (nodes pma ! i) < beginning (nodes pma ! Suc i)"
    proof (cases i)
      case 0
      then show ?thesis using c(3) s(2) by (metis first_ok_def gr0I)
    next
      case (Suc j)
      note t = array_beginning [OF assms, of i, unfolded Suc, simplified, OF Suc_lessD [OF i [unfolded Suc]]]
      let ?p = "beginning (nodes pma ! Suc j)" and ?q = "beginning (nodes pma ! Suc (Suc j))"
      note s' = s [unfolded Suc]
      have "\<not> ?q < ?p" using sent_order [OF c(1,2) _ t(1) s'(2) t(2)] s'(3) t(3) by auto
      moreover have "?p \<noteq> ?q" using s'(3) t(3) by auto
      ultimately show ?thesis unfolding Suc by simp
    qed
  qed
  then show ?thesis using c(3) by (auto simp: chained_def first_ok_def)
qed

lemma same_chained: "chained ns \<Longrightarrow> same_nodes ns ns' \<Longrightarrow> chained ns'"
  by (auto simp: chained_def same_nodes_def)

section \<open>The nodes of a range\<close>

text \<open>The node that holds a slot; the last node holds all slots from its beginning on.\<close>

definition home :: "node list \<Rightarrow> nat \<Rightarrow> nat \<Rightarrow> bool" where
  "home ns index i \<longleftrightarrow> i < length ns \<and> beginning (ns ! i) \<le> index \<and> (Suc i < length ns \<longrightarrow> index < node_end (ns ! i))"

lemma home_in_node: "i < length (nodes pma) \<Longrightarrow> in_node pma index i \<Longrightarrow> home (nodes pma) index i"
  by (simp add: home_def in_node_def)

lemma home_le:
  assumes "chained ns" "home ns index i" "home ns index' j" "index \<le> index'"
  shows "i \<le> j"
proof (rule ccontr)
  assume "\<not> i \<le> j"
  then have "Suc j < length ns" "Suc j \<le> i" "i < length ns" using assms(2) by (auto simp: home_def)
  then have "index' < beginning (ns ! Suc j)" "beginning (ns ! Suc j) \<le> beginning (ns ! i)"
    using assms(1,3) chained_mono_le [OF assms(1)] by (auto simp: home_def chained_def)
  then show False using assms(2,4) by (simp add: home_def)
qed

lemma contain_loop_home:
  assumes "chained (nodes pma)" "start \<le> stop" "stop < length (nodes pma)" "beginning (nodes pma ! start) \<le> index"
    "index < beginning (nodes pma ! stop) \<or> Suc stop = length (nodes pma)"
  shows "(\<exists>i. contain_loop pma index start stop = Inl i \<and> home (nodes pma) index i) \<or>
    (\<exists>a b. contain_loop pma index start stop = Inr (a, b) \<and> a \<le> b \<and> b \<le> Suc a \<and> b < length (nodes pma) \<and>
       beginning (nodes pma ! a) \<le> index \<and> (index < beginning (nodes pma ! b) \<or> Suc b = length (nodes pma)))"
  using assms(2-5)
proof (induction "stop - start" arbitrary: start stop rule: less_induct)
  case less
  let ?m = "(stop + start) div 2"
  show ?case
  proof (cases "stop - start > 1")
    case False
    then show ?thesis using less.prems by (subst (1 2) contain_loop.simps) simp
  next
    case True
    then have m: "start < ?m" "?m < stop" "?m < length (nodes pma)" using less.prems by linarith+
    show ?thesis
    proof (cases "in_node pma index ?m")
      case in_m: True
      then show ?thesis using True home_in_node [OF m(3) in_m] by (subst (1 2) contain_loop.simps) (simp add: Let_def)
    next
      case out_m: False
      show ?thesis
      proof (cases "index < beginning (nodes pma ! ?m)")
        case lt: True
        have eq: "contain_loop pma index start stop = contain_loop pma index start ?m"
          using True out_m lt by (subst contain_loop.simps) (simp add: Let_def)
        show ?thesis unfolding eq using m less.prems lt by (intro less.hyps) auto
      next
        case ge: False
        have eq: "contain_loop pma index start stop = contain_loop pma index ?m stop"
          using True out_m ge by (subst contain_loop.simps) (simp add: Let_def)
        show ?thesis unfolding eq using m less.prems ge by (intro less.hyps) auto
      qed
    qed
  qed
qed

lemma find_contaning_node_home:
  assumes "chained (nodes pma)"
  shows "\<exists>i. find_contaning_node pma index = Some i \<and> home (nodes pma) index i"
proof -
  let ?n = "length (nodes pma)"
  have ne: "nodes pma \<noteq> []" "0 < ?n" "Suc (?n - 1) = ?n" using assms by (auto simp: chained_def)
  have "0 \<le> ?n - 1" "?n - 1 < ?n" "beginning (nodes pma ! 0) \<le> index" "index < beginning (nodes pma ! (?n - 1)) \<or> Suc (?n - 1) = ?n"
    using assms ne by (auto simp: chained_def)
  from contain_loop_home [OF assms this]
  consider (found) i where "contain_loop pma index 0 (?n - 1) = Inl i" "home (nodes pma) index i"
    | (ends) a b where "contain_loop pma index 0 (?n - 1) = Inr (a, b)" "a \<le> b" "b \<le> Suc a" "b < ?n" "beginning (nodes pma ! a) \<le> index"
        "index < beginning (nodes pma ! b) \<or> Suc b = ?n" by blast
  then show ?thesis
  proof cases
    case found
    then show ?thesis using ne(1) by (simp add: find_contaning_node_def)
  next
    case ends
    note r = ends(1-5) and end_b = ends(6)
    have a: "a < ?n" using r(2,4) by simp
    show ?thesis
    proof (cases "in_node pma index a")
      case True
      then show ?thesis using r(1) ne(1) home_in_node [OF a True] by (simp add: find_contaning_node_def)
    next
      case out_a: False
      then have ge: "node_end (nodes pma ! a) \<le> index" using r(5) by (simp add: in_node_def)
      have bb: "beginning (nodes pma ! b) \<le> index"
      proof (cases "b = a")
        case False
        then have "b = Suc a" using r(2,3) by simp
        then show ?thesis using assms ge r(4) by (simp add: chained_def)
      qed (use r(5) in simp)
      then have last: "Suc b = ?n" using end_b by auto
      then have "b = ?n - 1" by linarith
      moreover have "home (nodes pma) index b" using last bb by (simp add: home_def)
      ultimately show ?thesis using r(1) ne(1) out_a bb by (auto simp: find_contaning_node_def in_node_def)
    qed
  qed
qed

lemma scan_nodes_home: "bnd \<le> length (nodes pma) \<Longrightarrow> scan_nodes pma index lw bnd = Some i \<Longrightarrow> home (nodes pma) index i"
  by (auto simp: scan_nodes_def find_Some_iff intro!: home_in_node)

lemma scan_or_contain:
  assumes "chained (nodes pma)" "bnd \<le> length (nodes pma)"
  shows "\<exists>i. (case (if c then scan_nodes pma index lw bnd else None) of Some est \<Rightarrow> Some est | None \<Rightarrow> find_contaning_node pma index) = Some i \<and>
    home (nodes pma) index i"
  using find_contaning_node_home [OF assms(1), of index] scan_nodes_home [OF assms(2), of index lw]
  by (auto split: option.split)

text \<open>What the rest of the code uses of the pair of nodes: it covers the range.\<close>

definition covers :: "node list \<Rightarrow> nat \<Rightarrow> nat \<Rightarrow> nat \<times> nat \<Rightarrow> bool" where
  "covers ns index len r \<longleftrightarrow> fst r \<le> snd r \<and> snd r < length ns \<and> beginning (ns ! fst r) \<le> index \<and>
    (index + len \<le> node_end (ns ! snd r) \<or> Suc (snd r) = length ns)"

lemma next_leaf_end: "index + len \<le> next_leaf (index + len) j - 1"
  using next_leaf_gt [of "index + len" j] by simp

lemma which_locks_in_range_covers:
  assumes ch: "chained (nodes pma)" and g: "guess < length (nodes pma)"
  shows "\<exists>r. which_locks_in_range pma index len guess = Some r \<and> covers (nodes pma) index len r"
proof -
  let ?ns = "nodes pma" and ?n = "length (nodes pma)" and ?e = "next_leaf (index + len) (loglogN (edges pma)) - 1"
  let ?st = "if guess > 50 then guess - 50 else 0" and ?en = "if guess + 50 < ?n then guess + 50 else ?n - 1"
  define first where "first = (if in_node pma index guess then Some guess
    else case (if index \<ge> beginning (?ns ! ?st) \<and> index < node_end (?ns ! ?en) then scan_nodes pma index ?st ?en else None) of
      Some est \<Rightarrow> Some est | None \<Rightarrow> find_contaning_node pma index)"
  have ne: "0 < ?n" using g by linarith
  have en: "?en \<le> ?n" by simp
  obtain s where s: "first = Some s" "home ?ns index s"
  proof (cases "in_node pma index guess")
    case True
    then show thesis using that home_in_node [OF g True] by (simp add: first_def)
  next
    case False
    then show thesis using that scan_or_contain [OF ch en, where c = "index \<ge> beginning (?ns ! ?st) \<and> index < node_end (?ns ! ?en)" and index = index and lw = ?st]
      unfolding first_def by (simp only: if_False) blast
  qed
  define s' where "s' = (if index = beginning (?ns ! s) \<and> s > 0 then s - 1 else s)"
  define second where "second = (if ?e < node_end (?ns ! s') then Some s'
    else case (if len \<le> 512 then scan_nodes pma ?e s' (if s' + 200 < ?n then s' + 200 else ?n - 1) else None) of
      Some est \<Rightarrow> Some est | None \<Rightarrow> find_contaning_node pma ?e)"
  have s': "s' \<le> s" "s < ?n" "beginning (?ns ! s') \<le> index"
    using s(2) chained_mono_le [OF ch, of s' s] by (auto simp: s'_def home_def)
  have ie: "index \<le> ?e" "index + len \<le> ?e" using next_leaf_end [of index len "loglogN (edges pma)"] by simp_all
  have cov: "covers ?ns index len (s', e)" if "s' \<le> e" "home ?ns ?e e" for e
    using that s' ie by (auto simp: covers_def home_def)
  have "\<exists>e. second = Some e \<and> s' \<le> e \<and> covers ?ns index len (s', e)"
  proof (cases "?e < node_end (?ns ! s')")
    case True
    then show ?thesis using s' ie by (auto simp: second_def covers_def)
  next
    case False
    have lim: "(if s' + 200 < ?n then s' + 200 else ?n - 1) \<le> ?n" by simp
    obtain e where e: "second = Some e" "home ?ns ?e e"
      using False scan_or_contain [OF ch lim, where c = "len \<le> 512" and index = ?e and lw = s'] unfolding second_def by (simp only: if_False) blast
    have "s \<le> e" by (rule home_le [OF ch s(2) e(2) ie(1)])
    then show ?thesis using e cov s'(1) by auto
  qed
  then obtain e where e: "second = Some e" "s' \<le> e" "covers ?ns index len (s', e)" by blast
  have "which_locks_in_range pma index len guess = Some (s', e)"
    using g s(1) e(1,2) unfolding which_locks_in_range_def Let_def first_def second_def s'_def by (simp add: not_less)
  then show ?thesis using e(3) by blast
qed

lemma first_node_of_le:
  assumes "beginning (nodes pma ! 0) = 0"
  shows "\<exists>j \<le> i. first_node_of pma index i = Some j"
proof (induction i)
  case 0
  then show ?case using assms by simp
next
  case (Suc i)
  then show ?case by (auto intro: le_SucI)
qed

lemma last_node_of_ge: "i < length (nodes pma) \<Longrightarrow> i \<le> last_node_of pma index i \<and> last_node_of pma index i < length (nodes pma)"
proof (induction "length (nodes pma) - i" arbitrary: i)
  case (Suc m)
  show ?case
  proof (cases "node_end (nodes pma ! i) < index \<and> i < length (nodes pma) - 1")
    case True
    then show ?thesis using Suc.hyps(1) [of "Suc i"] Suc.hyps(2) by (subst (1 2) last_node_of.simps) force
  next
    case False
    then show ?thesis using Suc.prems by (subst (1 2) last_node_of.simps) auto
  qed
qed simp

lemma which_locks_for_leaf_ok:
  assumes "chained (nodes pma)" "src < length (nodes pma)"
  shows "\<exists>x y. which_locks_for_leaf pma src = Some (x, y) \<and> x \<le> src \<and> src \<le> y \<and> y < length (nodes pma)"
  using first_node_of_le [of pma src "find_leaf (edges pma) (beginning (nodes pma ! src))"]
    last_node_of_ge [OF assms(2), of "next_leaf (node_end (nodes pma ! src)) (loglogN (edges pma))"] assms
  by (auto simp: which_locks_for_leaf_def Let_def chained_def)

section \<open>Taking and giving back locks\<close>

text \<open>
  A lock as an update of task \<open>t\<close> keeps it: taken or not, and marked with the reason \<open>REBALANCE\<close> by this task or not.
\<close>

definition locked_as :: "u64 \<Rightarrow> bool \<Rightarrow> bool \<Rightarrow> PMA_Lock \<Rightarrow> bool" where
  "locked_as t held marked l \<longleftrightarrow> lock_x l = (if held then 1 else 0) \<and>
    (reason l = GENERAL \<and> reason_set_by l = 0 \<or> marked \<and> reason l \<le> REBALANCE \<and> reason_set_by l = ucast t)"

definition locks_are :: "u64 \<Rightarrow> node list \<Rightarrow> nat set \<Rightarrow> nat set \<Rightarrow> bool" where
  "locks_are t ns H S \<longleftrightarrow> (\<forall>i < length ns. locked_as t (i \<in> H) (i \<in> S) (node_lock_of (ns ! i)))"

text \<open>Only locks of nodes change.\<close>

definition relock :: "PMA \<Rightarrow> PMA \<Rightarrow> bool" where
  "relock p q \<longleftrightarrow> q = p\<lparr>nodes := nodes q\<rparr> \<and> same_nodes (nodes p) (nodes q)"

lemma relock_refl [simp]: "relock p p"
  by (simp add: relock_def same_nodes_def)

lemma relock_trans [trans]: "relock p q \<Longrightarrow> relock q r \<Longrightarrow> relock p r"
  by (cases p; cases q; cases r) (auto simp: relock_def same_nodes_def)

lemma relock_fields:
  assumes "relock p q"
  shows "edges q = edges p" "node_lock q = node_lock p" "next_task_id q = next_task_id p"
    "upper_density_bound q = upper_density_bound p" "lower_density_bound q = lower_density_bound p"
    "length (nodes q) = length (nodes p)"
  using assms by (cases p; cases q; simp add: relock_def same_nodes_def)+

lemma relock_array_ok: "relock p q \<Longrightarrow> array_ok p \<Longrightarrow> array_ok q"
  by (rule array_ok_same [of p "nodes q"]) (simp_all add: relock_fields, simp add: relock_def)

lemma relock_set_lock: "relock p (set_node_lock p i l)"
  by (cases "i < length (nodes p)")
    (auto simp: relock_def set_node_lock_def same_nodes_def nth_list_update list_update_beyond)

lemma locks_are_set:
  assumes "locks_are t (nodes p) H S" "locked_as t (i \<in> H') (i \<in> S') l" "\<And>j. j \<noteq> i \<Longrightarrow> (j \<in> H') = (j \<in> H) \<and> (j \<in> S') = (j \<in> S)"
  shows "locks_are t (nodes (set_node_lock p i l)) H' S'"
  unfolding locks_are_def
proof (intro allI impI)
  fix j assume "j < length (nodes (set_node_lock p i l))"
  then have j: "j < length (nodes p)" by (simp add: set_node_lock_def)
  show "locked_as t (j \<in> H') (j \<in> S') (node_lock_of (nodes (set_node_lock p i l) ! j))"
  proof (cases "j = i")
    case True
    then show ?thesis using assms(2) j by (simp add: set_node_lock_def)
  next
    case False
    then show ?thesis using assms(1) assms(3) [OF False] j by (simp add: set_node_lock_def locks_are_def)
  qed
qed

lemma quiet_locks_are: "quiet ns \<longleftrightarrow> locks_are t ns {} {}"
proof -
  have "locked_as t False False l \<longleftrightarrow> l = new_PMA_Lock" for l by (cases l) (auto simp: locked_as_def new_PMA_Lock_def)
  then show ?thesis by (simp add: quiet_def locks_are_def all_set_conv_all_nth)
qed

lemma locks_are_mono: "locks_are t ns H S \<Longrightarrow> S \<subseteq> S' \<Longrightarrow> locks_are t ns H S'"
  by (auto simp: locks_are_def locked_as_def)

lemma locked_unlock:
  assumes "task_ok t" "locked_as t h m l"
  shows "locked_as t False False (unlock_excl t GENERAL l)" "locked_as t False True (unlock_excl t REBALANCE l)"
  using assms by (auto simp: locked_as_def unlock_excl_def set_reason_def task_ok_def)

lemma locked_try:
  "locked_as t False m l \<Longrightarrow> r = GENERAL \<and> \<not> m \<or> r = REBALANCE \<Longrightarrow> try_lock l r = (True, l\<lparr>lock_x := 1\<rparr>) \<and> locked_as t True m (l\<lparr>lock_x := 1\<rparr>)"
  by (auto simp: locked_as_def try_lock_def cas_def not_less less_eq_REASONS_def less_REASONS_def)

lemma locked_lock: "locked_as t False m l \<Longrightarrow> lock_excl l REBALANCE = Some (l\<lparr>lock_x := 1\<rparr>) \<and> locked_as t True m (l\<lparr>lock_x := 1\<rparr>)"
  by (auto simp: locked_as_def lock_excl_def cas_def not_less less_eq_REASONS_def less_REASONS_def)

definition marks :: "REASONS \<Rightarrow> nat set \<Rightarrow> nat set \<Rightarrow> nat set" where
  "marks r S I = (if r = GENERAL then S - I else S \<union> I)"

lemma unlock_nodes_ok:
  assumes t: "task_ok t" and r: "r = GENERAL \<or> r = REBALANCE"
  shows "set is \<subseteq> {..<length (nodes p)} \<Longrightarrow> locks_are t (nodes p) H S \<Longrightarrow>
    \<exists>q. unlock_nodes t r is p = Some q \<and> relock p q \<and> locks_are t (nodes q) (H - set is) (marks r S (set is))"
proof (induction "is" arbitrary: p H S)
  case Nil
  then show ?case by (simp add: marks_def)
next
  case (Cons i "is")
  let ?l = "unlock_excl t r (node_lock_of (nodes p ! i))"
  let ?p = "set_node_lock p i ?l"
  have i: "i < length (nodes p)" using Cons.prems(1) by simp
  then have "locked_as t (i \<in> H - {i}) (i \<in> marks r S {i}) ?l"
    using Cons.prems(2) r locked_unlock [OF t] by (auto simp: locks_are_def marks_def)
  then have "locks_are t (nodes ?p) (H - {i}) (marks r S {i})"
    by (rule locks_are_set [OF Cons.prems(2)]) (auto simp: marks_def)
  moreover have rl: "relock p ?p" by (rule relock_set_lock)
  moreover have "set is \<subseteq> {..<length (nodes ?p)}" using Cons.prems(1) relock_fields(6) [OF rl] by simp
  ultimately obtain q where "unlock_nodes t r is ?p = Some q" "relock ?p q"
      "locks_are t (nodes q) (H - {i} - set is) (marks r (marks r S {i}) (set is))"
    using Cons.IH [of ?p "H - {i}" "marks r S {i}"] by blast
  moreover have "H - {i} - set is = H - set (i # is)" "marks r (marks r S {i}) (set is) = marks r S (set (i # is))"
    by (auto simp: marks_def)
  ultimately show ?case using i relock_trans [OF rl] by auto
qed

lemma try_locks_ok:
  "set is \<subseteq> {..<length (nodes p)} \<Longrightarrow> distinct is \<Longrightarrow> H \<inter> set is = {} \<Longrightarrow> r = GENERAL \<and> S = {} \<or> r = REBALANCE \<Longrightarrow>
   locks_are t (nodes p) H S \<Longrightarrow>
   \<exists>q. try_locks r is p = Some q \<and> relock p q \<and> locks_are t (nodes q) (H \<union> set is) S"
proof (induction "is" arbitrary: p H)
  case (Cons i "is")
  let ?l = "(node_lock_of (nodes p ! i))\<lparr>lock_x := 1\<rparr>"
  let ?p = "set_node_lock p i ?l"
  have i: "i < length (nodes p)" "i \<notin> H" using Cons.prems(1,3) by simp_all
  have l: "try_lock (node_lock_of (nodes p ! i)) r = (True, ?l) \<and> locked_as t True (i \<in> S) ?l"
    using Cons.prems(4,5) i by (intro locked_try) (auto simp: locks_are_def)
  then have "locks_are t (nodes ?p) (insert i H) S" by (intro locks_are_set [OF Cons.prems(5)]) auto
  moreover have rl: "relock p ?p" by (rule relock_set_lock)
  moreover have "set is \<subseteq> {..<length (nodes ?p)}" using Cons.prems(1) relock_fields(6) [OF rl] by simp
  moreover have "distinct is" "insert i H \<inter> set is = {}" using Cons.prems(2,3) by auto
  ultimately obtain q where "try_locks r is ?p = Some q" "relock ?p q" "locks_are t (nodes q) (insert i H \<union> set is) S"
    using Cons.IH [of ?p "insert i H"] Cons.prems(4) by blast
  then show ?case using i l relock_trans [OF rl] by auto
qed simp

lemma reset_locks_ok:
  assumes t: "task_ok t"
  shows "set is \<subseteq> {..<length (nodes p)} \<Longrightarrow> locks_are t (nodes p) {} S \<Longrightarrow>
    \<exists>q. reset_locks t is p = Some q \<and> relock p q \<and> locks_are t (nodes q) {} (S - set is)"
proof (induction "is" arbitrary: p S)
  case (Cons i "is")
  let ?l = "unlock_excl t GENERAL ((node_lock_of (nodes p ! i))\<lparr>lock_x := 1\<rparr>)"
  let ?p = "set_node_lock p i ?l"
  have i: "i < length (nodes p)" using Cons.prems(1) by simp
  then have l: "lock_excl (node_lock_of (nodes p ! i)) REBALANCE = Some ((node_lock_of (nodes p ! i))\<lparr>lock_x := 1\<rparr>)"
      "locked_as t True (i \<in> S) ((node_lock_of (nodes p ! i))\<lparr>lock_x := 1\<rparr>)"
    using Cons.prems(2) locked_lock [of t "i \<in> S" "node_lock_of (nodes p ! i)"] by (auto simp: locks_are_def)
  have "locks_are t (nodes ?p) {} (S - {i})"
    by (rule locks_are_set [OF Cons.prems(2)]) (use locked_unlock(1) [OF t l(2)] in auto)
  moreover have rl: "relock p ?p" by (rule relock_set_lock)
  moreover have "set is \<subseteq> {..<length (nodes ?p)}" using Cons.prems(1) relock_fields(6) [OF rl] by simp
  ultimately obtain q where "reset_locks t is ?p = Some q" "relock ?p q" "locks_are t (nodes q) {} (S - {i} - set is)"
    using Cons.IH [of ?p "S - {i}"] by blast
  moreover have "S - {i} - set is = S - set (i # is)" by auto
  ultimately show ?case using i l(1) relock_trans [OF rl] by auto
qed simp

section \<open>Ranges of locks\<close>

abbreviation lock_range :: "nat \<times> nat \<Rightarrow> nat set" where
  "lock_range r \<equiv> {fst r..snd r}"

lemma set_lock_range [simp]: "set [fst r..<Suc (snd r)] = lock_range r"
  by auto

lemma try_range_ok:
  assumes "snd held < length (nodes p)" "r = GENERAL \<and> S = {} \<or> r = REBALANCE" "locks_are t (nodes p) {} S"
  shows "\<exists>q. try_locks r [fst held..<Suc (snd held)] p = Some q \<and> relock p q \<and> locks_are t (nodes q) (lock_range held) S"
proof -
  have sub: "set [fst held..<Suc (snd held)] \<subseteq> {..<length (nodes p)}" using assms(1) by auto
  show ?thesis using try_locks_ok [OF sub distinct_upt Int_empty_left assms(2,3)] unfolding set_lock_range by simp
qed

lemma release_locks_in_range_ok:
  assumes "task_ok t" "r = GENERAL \<or> r = REBALANCE" "snd held < length (nodes p)" "locks_are t (nodes p) (lock_range held) S"
  shows "\<exists>q. release_locks_in_range t held r p = Some q \<and> relock p q \<and> locks_are t (nodes q) {} (marks r S (lock_range held))"
proof -
  have sub: "set [fst held..<Suc (snd held)] \<subseteq> {..<length (nodes p)}" using assms(3) by auto
  show ?thesis using unlock_nodes_ok [OF assms(1,2) sub assms(4)]
    unfolding release_locks_in_range_def set_lock_range by simp
qed

lemma covers_same: "same_nodes ns ns' \<Longrightarrow> covers ns index len r \<Longrightarrow> covers ns' index len r"
  by (auto simp: covers_def same_nodes_def)

lemma grab_locks_in_range_ok:
  assumes ch: "chained (nodes p)" and g: "guess < length (nodes p)" and l: "locks_are t (nodes p) {} S"
  shows "\<exists>held q. grab_locks_in_range_with_resets p index len REBALANCE guess = Some (held, q) \<and> relock p q \<and>
    covers (nodes q) index len held \<and> locks_are t (nodes q) (lock_range held) S"
proof -
  obtain r where r: "which_locks_in_range p index len guess = Some r" "covers (nodes p) index len r"
    using which_locks_in_range_covers [OF ch g] by blast
  obtain q where q: "try_locks REBALANCE [fst r..<Suc (snd r)] p = Some q" "relock p q" "locks_are t (nodes q) (lock_range r) S"
    using try_range_ok [of r p REBALANCE S t] l r(2) by (auto simp: covers_def simp del: upt_Suc)
  have cov: "covers (nodes q) index len r" using covers_same [OF _ r(2)] q(2) by (simp add: relock_def)
  then have "grab_locks_in_range_with_resets p index len REBALANCE guess = Some (r, q)"
    using r(1) q(1) by (auto simp: grab_locks_in_range_with_resets_def covers_def simp del: upt_Suc)
  then show ?thesis using q(2,3) cov by auto
qed

lemma first_node_of_relock: "relock p q \<Longrightarrow> i < length (nodes p) \<Longrightarrow> first_node_of q index i = first_node_of p index i"
  by (induction i) (auto simp: relock_def same_nodes_def)

lemma last_node_of_relock:
  assumes "relock p q"
  shows "i < length (nodes p) \<Longrightarrow> last_node_of q index i = last_node_of p index i"
proof (induction "length (nodes p) - i" arbitrary: i)
  case (Suc m)
  have "node_end (nodes q ! i) = node_end (nodes p ! i)" "length (nodes q) = length (nodes p)"
    using assms Suc.prems by (simp_all add: relock_def same_nodes_def)
  then show ?case using Suc.hyps(1) [of "i + 1"] Suc.hyps(2)
    by (subst (1 2) last_node_of.simps) auto
qed simp

lemma which_locks_for_leaf_relock: "relock p q \<Longrightarrow> which_locks_for_leaf q src = which_locks_for_leaf p src"
proof (cases "src < length (nodes p)")
  case True
  assume r: "relock p q"
  then have "beginning (nodes q ! src) = beginning (nodes p ! src)" "node_end (nodes q ! src) = node_end (nodes p ! src)"
    using True by (simp_all add: relock_def same_nodes_def)
  then show ?thesis using True first_node_of_relock [OF r True] last_node_of_relock [OF r True]
    by (simp add: which_locks_for_leaf_def Let_def relock_fields [OF r])
qed (simp add: which_locks_for_leaf_def relock_fields)

lemma grab_locks_for_leaf_ok:
  assumes ch: "chained (nodes p)" and s: "src < length (nodes p)" and l: "quiet (nodes p)"
  shows "\<exists>held q. grab_locks_for_leaf_with_resets p src = Some (held, q) \<and> relock p q \<and>
    fst held \<le> src \<and> src \<le> snd held \<and> snd held < length (nodes q) \<and> locks_are t (nodes q) (lock_range held) {}"
proof -
  obtain x y where r: "which_locks_for_leaf p src = Some (x, y)" "x \<le> src" "src \<le> y" "y < length (nodes p)"
    using which_locks_for_leaf_ok [OF ch s] by blast
  let ?r = "(x, y)"
  have "snd ?r < length (nodes p)" "locks_are t (nodes p) {} {}" using r(4) l quiet_locks_are by auto
  then obtain q where q: "try_locks GENERAL [fst ?r..<Suc (snd ?r)] p = Some q" "relock p q" "locks_are t (nodes q) (lock_range ?r) {}"
    using try_range_ok [of ?r p GENERAL "{}" t] by blast
  have "grab_locks_for_leaf_with_resets p src = Some (?r, q)"
    using r(1) q(1) which_locks_for_leaf_relock [OF q(2)] by (simp add: grab_locks_for_leaf_with_resets_def del: upt_Suc)
  then show ?thesis using q(2,3) r relock_fields(6) [OF q(2)] by (intro exI [of _ ?r] exI [of _ q]) auto
qed

lemma keep_needed_locks_ok:
  assumes t: "task_ok t" and ch: "chained (nodes p)" and s: "src < length (nodes p)" "snd held < length (nodes p)"
    and l: "locks_are t (nodes p) (lock_range held) {}"
  shows "\<exists>held' q. keep_needed_locks t p loc src held = Some (held', q) \<and> relock p q \<and> snd held' < length (nodes q) \<and>
    locks_are t (nodes q) (lock_range held') {}"
proof -
  let ?leaf = "find_leaf (edges p) loc"
  obtain r where r: "which_locks_in_range p ?leaf (logN (edges p)) src = Some r" "covers (nodes p) ?leaf (logN (edges p)) r"
    using which_locks_in_range_covers [OF ch s(1)] by blast
  have sub: "set [fst held..<fst r] \<subseteq> {..<length (nodes p)}" "set [snd r + 1..<Suc (snd held)] \<subseteq> {..<length (nodes p)}"
    using r(2) s(2) by (auto simp: covers_def)
  obtain q where q: "unlock_nodes t GENERAL [fst held..<fst r] p = Some q" "relock p q"
      "locks_are t (nodes q) (lock_range held - set [fst held..<fst r]) {}"
    using unlock_nodes_ok [OF t _ sub(1) l, of GENERAL] by (auto simp: marks_def)
  have sub': "set [snd r + 1..<Suc (snd held)] \<subseteq> {..<length (nodes q)}" using sub(2) relock_fields(6) [OF q(2)] by simp
  obtain q' where q': "unlock_nodes t GENERAL [snd r + 1..<Suc (snd held)] q = Some q'" "relock q q'"
      "locks_are t (nodes q') (lock_range held - set [fst held..<fst r] - set [snd r + 1..<Suc (snd held)]) {}"
    using unlock_nodes_ok [OF t _ sub' q(3), of GENERAL] by (auto simp: marks_def)
  have "lock_range held - set [fst held..<fst r] - set [snd r + 1..<Suc (snd held)] = lock_range (max (fst held) (fst r), min (snd held) (snd r))"
    by auto
  moreover have "keep_needed_locks t p loc src held = Some ((max (fst held) (fst r), min (snd held) (snd r)), q')"
    using r(1) q(1) q'(1) by (simp add: keep_needed_locks_def)
  ultimately show ?thesis using q'(3) relock_trans [OF q(2) q'(2)] relock_fields(6) [OF q(2)] relock_fields(6) [OF q'(2)] s(2)
    by (intro exI [of _ "(max (fst held) (fst r), min (snd held) (snd r))"] exI [of _ q']) auto
qed

end
