(* ===== verification/PMA_Rebalance.thy ===== *)
theory PMA_Rebalance
  imports PMA_Ranges
begin

unbundle bit_operations_syntax

text \<open>
  Rebalancing after an update: the climb from the leaf towards the root returns, and the array it leaves satisfies the invariant, has
  no full leaf and holds the same elements, with all locks given back.
\<close>

section \<open>Nodes of the implicit tree\<close>

definition tree_node :: "edge_list \<Rightarrow> nat \<Rightarrow> nat \<Rightarrow> nat \<Rightarrow> bool" where
  "tree_node el level index len \<longleftrightarrow> level \<le> edges_H el \<and> len = logN el * 2 ^ (edges_H el - level) \<and> len dvd index \<and> index + len \<le> edges_N el"

lemma tree_node_level: "tree_node el level index len \<Longrightarrow> level \<le> edges_H el"
  by (simp add: tree_node_def)

lemma tree_leaf:
  assumes "geometry_ok el" "index < edges_N el"
  shows "tree_node el (edges_H el) (find_leaf el index) (logN el)"
  using find_leaf_aligned [OF assms] by (simp add: tree_node_def)

lemma tree_up:
  assumes geo: "geometry_ok el" and t: "tree_node el (Suc level) index len"
  defines "up \<equiv> find_node_start index (len * 2)"
  shows "tree_node el level up (len * 2)" "up \<le> index" "index + len \<le> up + len * 2"
proof -
  have lv: "Suc level \<le> edges_H el" "len = logN el * 2 ^ (edges_H el - Suc level)" using t by (simp_all add: tree_node_def)
  have e: "edges_H el - level = Suc (edges_H el - Suc level)" "edges_H el = (edges_H el - Suc level) + Suc level" using lv(1) by simp_all
  have len: "0 < len" "len * 2 = logN el * 2 ^ (edges_H el - level)" "edges_N el = len * 2 ^ Suc level"
  proof -
    show "0 < len" using lv(2) logN_pos [OF geo] by simp
    show "len * 2 = logN el * 2 ^ (edges_H el - level)" unfolding e(1) lv(2) by simp
    have "edges_N el = logN el * 2 ^ edges_H el" using geo by (simp add: geometry_ok_def)
    also have "\<dots> = len * 2 ^ Suc level" by (subst e(2)) (simp only: power_add lv(2) mult.assoc)
    finally show "edges_N el = len * 2 ^ Suc level" .
  qed
  obtain c where c: "index = len * c" using t by (auto simp: tree_node_def)
  have up: "up = len * 2 * (c div 2)"
  proof -
    have "index div (len * 2) = c div 2" using len(1) by (simp add: c div_mult2_eq)
    then show ?thesis by (simp add: up_def find_node_start_def)
  qed
  have cc: "c = 2 * (c div 2) \<or> c = 2 * (c div 2) + 1" by presburger
  have "index + len \<le> edges_N el" using t by (simp add: tree_node_def)
  then have "len * (c + 1) \<le> len * 2 ^ Suc level" unfolding c len(3) by simp
  then have "c + 1 \<le> 2 ^ Suc level" using len(1) by (simp only: mult_le_cancel1)
  then have "c div 2 + 1 \<le> 2 ^ level" by simp
  then have "len * 2 * (c div 2 + 1) \<le> len * 2 * 2 ^ level" by (simp only: mult_le_mono2)
  then have "up + len * 2 \<le> edges_N el" using up len(3) by simp
  then show "tree_node el level up (len * 2)" using len(2) lv(1) dvd_triv_left [of "len * 2" "c div 2"] unfolding tree_node_def up by auto
  show "up \<le> index" "index + len \<le> up + len * 2"
  proof -
    have "2 * (c div 2) \<le> c" "c + 1 \<le> 2 * (c div 2) + 2" using cc by linarith+
    then have "len * (2 * (c div 2)) \<le> len * c" "len * (c + 1) \<le> len * (2 * (c div 2) + 2)" by (simp_all only: mult_le_mono2)
    then show "up \<le> index" "index + len \<le> up + len * 2" unfolding up c by (simp_all add: algebra_simps)
  qed
qed

lemma tree_root:
  assumes "geometry_ok el" "tree_node el 0 index len"
  shows "len = edges_N el \<and> index = 0"
proof -
  have "len = edges_N el" "index + len \<le> edges_N el" using assms by (simp_all add: tree_node_def geometry_ok_def)
  then show ?thesis by simp
qed

lemma tree_le: "geometry_ok el \<Longrightarrow> tree_node el level index len \<Longrightarrow> len * 2 \<le> edges_N el \<longleftrightarrow> level \<noteq> 0"
proof (cases level)
  case 0
  assume g: "geometry_ok el" and tn: "tree_node el level index len"
  have "len = edges_N el" using tree_root [OF g] tn 0 by blast
  moreover have "0 < edges_N el" using size_pow(1) [OF g] by simp
  ultimately show ?thesis using 0 by simp
next
  case (Suc l)
  assume "geometry_ok el" "tree_node el level index len"
  then have "tree_node el l (find_node_start index (len * 2)) (len * 2)" using tree_up(1) Suc by simp
  then show ?thesis using Suc by (simp add: tree_node_def)
qed

lemma tree_density:
  assumes "geometry_ok el" "sized el" "tree_node el level index len"
  shows "get_density el index len = Some (real (num_in el index len) / real len)"
proof -
  let ?k = "loglogN el + (edges_H el - level)"
  have "logN el = 2 ^ loglogN el" "len = logN el * 2 ^ (edges_H el - level)" using assms(1,3) by (simp_all add: tree_node_def geometry_ok_def)
  then have len: "len = 2 ^ ?k" "2 \<le> loglogN el" using assms(1) by (simp_all only: power_add) (simp add: geometry_ok_def)
  then have four: "4 dvd len" using le_imp_power_dvd [of 2 ?k "2 :: nat"] by simp
  have eight: "len < 8 \<or> 8 dvd len"
  proof (cases "?k = 2")
    case False
    then show ?thesis using len le_imp_power_dvd [of 3 ?k "2 :: nat"] by simp
  qed (simp add: len(1))
  have "index + len \<le> edges_N el" using assms(3) by (simp add: tree_node_def)
  then have "get_density_count el index len = Some (num_in el index len)" by (rule get_density_count_eq [OF assms(2) four eight])
  then show ?thesis by (simp add: get_density_def)
qed

section \<open>Locks of a resized array\<close>

lemma unlock_nodes_locks:
  "set is \<subseteq> {..<length (nodes p)} \<Longrightarrow> distinct is \<Longrightarrow>
   \<exists>q. unlock_nodes t r is p = Some q \<and> relock p q \<and>
     (\<forall>i < length (nodes p). node_lock_of (nodes q ! i) =
       (if i \<in> set is then unlock_excl t r (node_lock_of (nodes p ! i)) else node_lock_of (nodes p ! i)))"
proof (induction "is" arbitrary: p)
  case (Cons i "is")
  let ?p = "set_node_lock p i (unlock_excl t r (node_lock_of (nodes p ! i)))"
  have rl: "relock p ?p" by (rule relock_set_lock)
  have n: "length (nodes ?p) = length (nodes p)" by (rule relock_fields(6) [OF rl])
  have "set is \<subseteq> {..<length (nodes ?p)}" "distinct is" using Cons.prems n by simp_all
  from Cons.IH [OF this] obtain q where q: "unlock_nodes t r is ?p = Some q" "relock ?p q"
      "\<forall>j < length (nodes p). node_lock_of (nodes q ! j) =
        (if j \<in> set is then unlock_excl t r (node_lock_of (nodes ?p ! j)) else node_lock_of (nodes ?p ! j))" unfolding n by blast
  have "node_lock_of (nodes ?p ! j) = (if j = i then unlock_excl t r (node_lock_of (nodes p ! i)) else node_lock_of (nodes p ! j))"
    if "j < length (nodes p)" for j using that by (simp add: set_node_lock_def nth_list_update)
  then show ?case using q Cons.prems relock_trans [OF rl q(2)] by auto
qed simp

lemma mine_unlock_double: "task_ok t \<Longrightarrow> locked_as t h m l \<Longrightarrow> mine t (unlock_excl t DOUBLE l)"
  by (auto simp: mine_def locked_as_def unlock_excl_def set_reason_def task_ok_def less_eq_REASONS_def)

lemma mine_locked: "locked_as t False m l \<Longrightarrow> mine t l"
  by (cases "reason l") (auto simp: mine_def locked_as_def less_eq_REASONS_def)

lemma release_double_ok:
  assumes t: "task_ok t" and h: "snd held < length (nodes p)" and l: "locks_are t (nodes p) (lock_range held) S"
  shows "\<exists>q. release_locks_in_range t held DOUBLE p = Some q \<and> relock p q \<and> all_mine t (nodes q)"
proof -
  have sub: "set [fst held..<Suc (snd held)] \<subseteq> {..<length (nodes p)}" using h by auto
  obtain q where q: "unlock_nodes t DOUBLE [fst held..<Suc (snd held)] p = Some q" "relock p q"
      "\<forall>i < length (nodes p). node_lock_of (nodes q ! i) =
        (if i \<in> lock_range held then unlock_excl t DOUBLE (node_lock_of (nodes p ! i)) else node_lock_of (nodes p ! i))"
    using unlock_nodes_locks [OF sub distinct_upt, of t DOUBLE] unfolding set_lock_range by blast
  have "mine t (node_lock_of (nodes q ! i))" if "i < length (nodes p)" for i
  proof (cases "i \<in> lock_range held")
    case True
    then show ?thesis using q(3) that l mine_unlock_double [OF t] by (auto simp: locks_are_def)
  next
    case False
    have "locked_as t (i \<in> lock_range held) (i \<in> S) (node_lock_of (nodes p ! i))" using l that by (simp add: locks_are_def)
    then have "locked_as t False (i \<in> S) (node_lock_of (nodes p ! i))" using False by (simp only:)
    then show ?thesis using False q(3) that mine_locked by auto
  qed
  then have "all_mine t (nodes q)" using relock_fields(6) [OF q(2)] by (auto simp: all_mine_def in_set_conv_nth)
  then show ?thesis using q(1,2) by (auto simp: release_locks_in_range_def simp del: upt_Suc)
qed

section \<open>The climb\<close>

text \<open>The locks at a round of the climb: those of the range held are taken, and marks are left on the span only.\<close>

definition climb_locks :: "u64 \<Rightarrow> node list \<Rightarrow> nat \<times> nat \<Rightarrow> nat \<times> nat \<Rightarrow> bool" where
  "climb_locks t ns held sp \<longleftrightarrow> fst held \<le> snd held \<and> fst sp \<le> fst held \<and> snd held \<le> snd sp \<and> snd sp < length ns \<and>
    locks_are t ns (lock_range held) (lock_range sp)"

definition crowded_at :: "bool \<Rightarrow> PMA \<Rightarrow> nat \<Rightarrow> nat \<Rightarrow> nat \<Rightarrow> bool" where
  "crowded_at grow p level index len \<longleftrightarrow> crowded grow p level (real (num_in (edges p) index len) / real len)"

text \<open>The range at which the climb stops: it contains the range it began with, and every range below it was crowded.\<close>

definition climbed_to :: "bool \<Rightarrow> PMA \<Rightarrow> nat \<Rightarrow> nat \<Rightarrow> nat \<Rightarrow> nat \<Rightarrow> nat \<Rightarrow> nat \<Rightarrow> bool" where
  "climbed_to grow p level index len level' index' len' \<longleftrightarrow>
    tree_node (edges p) level' index' len' \<and> index' \<le> index \<and> index + len \<le> index' + len' \<and>
    (level' = level \<and> len' = len \<and> index' = index \<or>
     (\<exists>j l. len' = 2 * l \<and> tree_node (edges p) (Suc level') j l \<and> index' \<le> j \<and> j + l \<le> index' + len' \<and> crowded_at grow p (Suc level') j l))"

lemma climb_ok:
  assumes t: "task_ok t" and src: "src < length (nodes p)" and ok: "array_ok p"
    and tn: "tree_node (edges p) level index len" and lk: "climb_locks t (nodes p) held sp"
  shows "(\<exists>q level' index' len' held' sp'. climb level grow rnd t src p index len held sp = Some (Rebalance q index' len' held' sp') \<and>
      relock p q \<and> climb_locks t (nodes q) held' sp' \<and> climbed_to grow p level index len level' index' len' \<and>
      \<not> crowded_at grow p level' index' len') \<or>
    (\<exists>q. climb level grow rnd t src p index len held sp =
        map_option Resized (if grow then double_list rnd t q else half_list rnd t q) \<and>
      relock p q \<and> all_mine t (nodes q) \<and> crowded_at grow p 0 0 (edges_N (edges p)))"
  using src ok tn lk
proof (induction level arbitrary: p index len held sp)
  case (0 p index len held sp)
  have c: "sized (edges p)" "geometry_ok (edges p)" using "0.prems"(2) by (simp_all add: array_ok_def array_core_def)
  note dens = tree_density [OF c(2,1) "0.prems"(3)] and root = tree_root [OF c(2) "0.prems"(3)]
  have stop: "\<not> len * 2 \<le> edges_N (edges p)" using tree_le [OF c(2) "0.prems"(3)] by simp
  show ?case
  proof (cases "crowded_at grow p 0 index len")
    case False
    then have "climb 0 grow rnd t src p index len held sp = Some (Rebalance p index len held sp)"
      by (subst climb.simps) (simp add: dens crowded_at_def)
    moreover have "climbed_to grow p 0 index len 0 index len" using "0.prems"(3) by (simp add: climbed_to_def)
    ultimately show ?thesis using False "0.prems"(4) relock_refl by blast
  next
    case True
    have "snd held < length (nodes p)" "locks_are t (nodes p) (lock_range held) (lock_range sp)"
      using "0.prems"(4) by (auto simp: climb_locks_def)
    from release_double_ok [OF t this] obtain q where
      q: "release_locks_in_range t held DOUBLE p = Some q" "relock p q" "all_mine t (nodes q)" by blast
    have "climb 0 grow rnd t src p index len held sp = map_option Resized (if grow then double_list rnd t q else half_list rnd t q)"
      using True stop q(1) by (subst climb.simps) (simp add: dens crowded_at_def map_option_case split: option.split)
    then show ?thesis using q True root by auto
  qed
next
  case (Suc level p index len held sp)
  have c: "sized (edges p)" "geometry_ok (edges p)" using Suc.prems(2) by (simp_all add: array_ok_def array_core_def)
  note dens = tree_density [OF c(2,1) Suc.prems(3)] and up = tree_up [OF c(2) Suc.prems(3)]
  have more: "len * 2 \<le> edges_N (edges p)" using tree_le [OF c(2) Suc.prems(3)] by simp
  show ?case
  proof (cases "crowded_at grow p (Suc level) index len")
    case False
    then have "climb (Suc level) grow rnd t src p index len held sp = Some (Rebalance p index len held sp)"
      by (subst climb.simps) (simp add: dens crowded_at_def)
    moreover have "climbed_to grow p (Suc level) index len (Suc level) index len" using Suc.prems(3) by (simp add: climbed_to_def)
    ultimately show ?thesis using False Suc.prems(4) relock_refl by blast
  next
    case True
    let ?i = "find_node_start index (len * 2)"
    have lk: "snd held < length (nodes p)" "locks_are t (nodes p) (lock_range held) (lock_range sp)"
      using Suc.prems(4) by (auto simp: climb_locks_def)
    obtain q where q: "release_locks_in_range t held REBALANCE p = Some q" "relock p q" "locks_are t (nodes q) {} (marks REBALANCE (lock_range sp) (lock_range held))"
      using release_locks_in_range_ok [OF t _ lk] by blast
    have n: "length (nodes q) = length (nodes p)" by (rule relock_fields(6) [OF q(2)])
    have "marks REBALANCE (lock_range sp) (lock_range held) = lock_range sp"
      using Suc.prems(4) by (auto simp: climb_locks_def marks_def)
    then have lq: "locks_are t (nodes q) {} (lock_range sp)" using q(3) by simp
    have okq: "array_ok q" by (rule relock_array_ok [OF q(2) Suc.prems(2)])
    obtain held' r where r: "grab_locks_in_range_with_resets q ?i (len * 2) REBALANCE src = Some (held', r)" "relock q r"
        "covers (nodes r) ?i (len * 2) held'" "locks_are t (nodes r) (lock_range held') (lock_range sp)"
      using grab_locks_in_range_ok [OF array_chained [OF okq] _ lq] Suc.prems(1) n by metis
    have rl: "relock p r" by (rule relock_trans [OF q(2) r(2)])
    note fr = relock_fields [OF rl]
    have okr: "array_ok r" by (rule relock_array_ok [OF rl Suc.prems(2)])
    have cl: "climb_locks t (nodes r) held' (widen held' sp)"
    proof -
      have "lock_range sp \<subseteq> lock_range (widen held' sp)" by (auto simp: widen_def)
      then have "locks_are t (nodes r) (lock_range held') (lock_range (widen held' sp))" by (rule locks_are_mono [OF r(4)])
      then show ?thesis using r(3) Suc.prems(4) fr(6) by (auto simp: climb_locks_def covers_def widen_def)
    qed
    have srcr: "src < length (nodes r)" and tnr: "tree_node (edges r) level ?i (len * 2)" using Suc.prems(1) up(1) fr by simp_all
    have eq: "climb (Suc level) grow rnd t src p index len held sp = climb level grow rnd t src r ?i (len * 2) held' (widen held' sp)"
      using True more q(1) r(1) by (subst climb.simps) (simp add: dens crowded_at_def Let_def)
    have same: "crowded_at grow r = crowded_at grow p" by (simp add: fun_eq_iff crowded_at_def crowded_def fr)
    have lift: "climbed_to grow p (Suc level) index len l' i' len'" if "climbed_to grow r level ?i (len * 2) l' i' len'" for l' i' len'
      using that up Suc.prems(3) True unfolding climbed_to_def same fr(1) by (fastforce simp: mult.commute)
    show ?thesis using Suc.IH [OF srcr okr tnr cl] relock_trans [OF rl] lift unfolding eq same fr(1) by blast
  qed
qed

section \<open>Exchange of locks\<close>

lemma exchange_locks_ok:
  assumes t: "task_ok t" and ok: "array_ok p" and s: "src < length (nodes p)" "snd held < length (nodes p)"
    and l: "locks_are t (nodes p) (lock_range held) {}"
  shows "\<exists>held' sp q. exchange_locks t p index len src held = Some (held', sp, q) \<and> relock p q \<and> climb_locks t (nodes q) held' sp"
proof -
  let ?n = "length (nodes p)"
  obtain r where r: "which_locks_in_range p index len src = Some r" "covers (nodes p) index len r"
    using which_locks_in_range_covers [OF array_chained [OF ok] s(1)] by blast
  have rn: "fst r \<le> snd r" "snd r < ?n" using r(2) by (simp_all add: covers_def)
  let ?I1 = "[fst held..<fst r]" and ?I2 = "[max (fst r) (fst held)..<Suc (min (snd held) (snd r))]" and ?I3 = "[snd r + 1..<Suc (snd held)]"
  let ?sp = "(max (fst r) (fst held), max (snd r) (snd held))"
  have sub: "set ?I1 \<subseteq> {..<?n}" "set ?I2 \<subseteq> {..<?n}" "set ?I3 \<subseteq> {..<?n}" using rn s(2) by auto
  obtain q1 where q1: "unlock_nodes t GENERAL ?I1 p = Some q1" "relock p q1" "locks_are t (nodes q1) (lock_range held - set ?I1) (marks GENERAL {} (set ?I1))"
    using unlock_nodes_ok [OF t _ sub(1) l] by blast
  obtain q2 where q2: "unlock_nodes t REBALANCE ?I2 q1 = Some q2" "relock q1 q2"
      "locks_are t (nodes q2) (lock_range held - set ?I1 - set ?I2) (marks REBALANCE (marks GENERAL {} (set ?I1)) (set ?I2))"
    using unlock_nodes_ok [OF t _ _ q1(3), of REBALANCE ?I2] sub(2) relock_fields(6) [OF q1(2)] by metis
  have r2: "relock p q2" by (rule relock_trans [OF q1(2) q2(2)])
  obtain q3 where q3: "unlock_nodes t GENERAL ?I3 q2 = Some q3" "relock q2 q3"
      "locks_are t (nodes q3) (lock_range held - set ?I1 - set ?I2 - set ?I3) (marks GENERAL (marks REBALANCE (marks GENERAL {} (set ?I1)) (set ?I2)) (set ?I3))"
    using unlock_nodes_ok [OF t _ _ q2(3), of GENERAL ?I3] sub(3) relock_fields(6) [OF r2] by metis
  have r3: "relock p q3" by (rule relock_trans [OF r2 q3(2)])
  have "lock_range held - set ?I1 - set ?I2 - set ?I3 = {}" by auto
  moreover have "marks GENERAL (marks REBALANCE (marks GENERAL {} (set ?I1)) (set ?I2)) (set ?I3) \<subseteq> lock_range ?sp"
    by (auto simp: marks_def)
  ultimately have l3: "locks_are t (nodes q3) {} (lock_range ?sp)" using locks_are_mono [OF q3(3)] by (simp only:)
  have "src < length (nodes q3)" using s(1) relock_fields(6) [OF r3] by simp
  from grab_locks_in_range_ok [OF array_chained [OF relock_array_ok [OF r3 ok]] this l3]
  obtain held' q where q: "grab_locks_in_range_with_resets q3 index len REBALANCE src = Some (held', q)" "relock q3 q"
      "covers (nodes q) index len held'" "locks_are t (nodes q) (lock_range held') (lock_range ?sp)" by blast
  have rq: "relock p q" by (rule relock_trans [OF r3 q(2)])
  have "locks_are t (nodes q) (lock_range held') (lock_range (widen held' ?sp))"
    by (rule locks_are_mono [OF q(4)]) (auto simp: widen_def)
  then have "climb_locks t (nodes q) held' (widen held' ?sp)"
    using q(3) rn s(2) relock_fields(6) [OF rq] by (auto simp: climb_locks_def covers_def widen_def)
  moreover have "exchange_locks t p index len src held = Some (held', widen held' ?sp, q)"
    using r(1) q1(1) q2(1) q3(1) q(1) by (simp add: exchange_locks_def Let_def del: upt_Suc)
  ultimately show ?thesis using rq by blast
qed

section \<open>The last step\<close>

text \<open>What an update leaves: the invariant, the same elements and free locks.\<close>

definition settled :: "PMA \<Rightarrow> PMA \<Rightarrow> bool" where
  "settled p q \<longleftrightarrow> array_ok q \<and> no_full_leaf (edges q) \<and> elems (edges q) = elems (edges p) \<and> quiet (nodes q) \<and> bounds_ok q \<and>
    map num_neighbors (nodes q) = map num_neighbors (nodes p) \<and> node_lock q = node_lock p \<and> next_task_id q = next_task_id p \<and>
    (last_end p \<longrightarrow> last_end q)"

lemma relock_same_nodes: "relock p q \<Longrightarrow> same_nodes (nodes p) (nodes q)"
  unfolding relock_def by (rule conjunct2)

lemma relock_last_end: "relock p q \<Longrightarrow> 0 < length (nodes p) \<Longrightarrow> last_end p \<Longrightarrow> last_end q"
  using last_end_same [of p q] relock_fields(1) [of p q] relock_same_nodes [of p q] by simp

lemma relock_degrees: "relock p q \<Longrightarrow> map num_neighbors (nodes q) = map num_neighbors (nodes p)"
  by (intro nth_equalityI) (auto simp: relock_def same_nodes_def)

lemma relock_bounds_ok: "relock p q \<Longrightarrow> bounds_ok q = bounds_ok p"
  by (simp add: bounds_ok_def relock_fields)

lemma locks_are_moved: "locks_are t (nodes (moved p k xs)) H S = locks_are t (nodes p) H S"
  by (simp add: locks_are_def locks_moved)

lemma finish_locks_ok:
  assumes t: "task_ok t" and l: "climb_locks t (nodes q) held sp"
  shows "\<exists>q'. (do { pma \<leftarrow> release_locks_in_range t held GENERAL q; pma \<leftarrow> reset_locks t [fst sp..<fst held] pma;
      reset_locks t [snd held + 1..<Suc (snd sp)] pma }) = Some q' \<and> relock q q' \<and> quiet (nodes q')"
proof -
  have h: "snd held < length (nodes q)" "locks_are t (nodes q) (lock_range held) (lock_range sp)" "snd sp < length (nodes q)" "fst held \<le> snd held"
    using l by (auto simp: climb_locks_def)
  obtain q1 where q1: "release_locks_in_range t held GENERAL q = Some q1" "relock q q1" "locks_are t (nodes q1) {} (marks GENERAL (lock_range sp) (lock_range held))"
    using release_locks_in_range_ok [OF t _ h(1,2)] by blast
  have sub: "set [fst sp..<fst held] \<subseteq> {..<length (nodes q)}" "set [snd held + 1..<Suc (snd sp)] \<subseteq> {..<length (nodes q)}"
    using h by auto
  obtain q2 where q2: "reset_locks t [fst sp..<fst held] q1 = Some q2" "relock q1 q2"
      "locks_are t (nodes q2) {} (marks GENERAL (lock_range sp) (lock_range held) - set [fst sp..<fst held])"
    using reset_locks_ok [OF t _ q1(3)] sub(1) relock_fields(6) [OF q1(2)] by metis
  have r2: "relock q q2" by (rule relock_trans [OF q1(2) q2(2)])
  obtain q3 where q3: "reset_locks t [snd held + 1..<Suc (snd sp)] q2 = Some q3" "relock q2 q3"
      "locks_are t (nodes q3) {} (marks GENERAL (lock_range sp) (lock_range held) - set [fst sp..<fst held] - set [snd held + 1..<Suc (snd sp)])"
    using reset_locks_ok [OF t _ q2(3)] sub(2) relock_fields(6) [OF r2] by metis
  have "marks GENERAL (lock_range sp) (lock_range held) - set [fst sp..<fst held] - set [snd held + 1..<Suc (snd sp)] = {}"
    by (auto simp: marks_def)
  then have "quiet (nodes q3)" using q3(3) unfolding quiet_locks_are [of _ t] by (simp only:)
  then show ?thesis using q1(1) q2(1) q3(1) relock_trans [OF r2 q3(2)] by (simp del: upt_Suc)
qed

text \<open>In a packed leaf with an empty slot the last slot is empty.\<close>

lemma leaf_last_free:
  assumes "sized el" "geometry_ok el" "logN el dvd index" "index \<le> c" "c < index + logN el" "\<And>c. packed_at el c"
    and "num_in el index (logN el) \<le> logN el - 1"
  shows "last_free el c"
  unfolding last_free_def
proof (intro impI)
  assume cc: "c < edges_N el" "c mod logN el = logN el - 1"
  have L: "logN el = 2 ^ loglogN el" "0 < logN el" using assms(2) logN_pos [of el] by (auto simp: geometry_ok_def)
  obtain q where q: "index = logN el * q" using assms(3) by blast
  have "c mod logN el = c - index" using assms(4,5) q mod_mult_self4 [of "logN el" q "c - index"] by simp
  then have e: "c = index + (logN el - 1)" using cc(2) assms(4) by simp
  show "edge_dests el ! c = NULL_VAL"
  proof (rule ccontr)
    assume nn: "edge_dests el ! c \<noteq> NULL_VAL"
    have "edge_dests el ! (index + k) \<noteq> NULL_VAL" if k: "k < logN el" for k
    proof
      assume null: "edge_dests el ! (index + k) = NULL_VAL"
      have "(index + k) div logN el = q" using q k by simp
      then have "c < next_leaf (index + k) (loglogN el)" using q e L by (simp add: next_leaf_def algebra_simps)
      then show False using packed_rest [OF assms(6) L(1) null _ _ cc(1)] nn k e by simp
    qed
    then have "edge_dests el ! k \<noteq> NULL_VAL" if "index \<le> k" "k < index + logN el" for k
      using that by (metis le_add_diff_inverse nat_add_left_cancel_less)
    then have "filter nonnull (slots el index (index + logN el)) = slots el index (index + logN el)"
      by (intro filter_True) (auto simp: slots_def nonnull_def)
    then show False using assms(7) L(2) by (simp add: num_in_def)
  qed
qed

definition gap_outside :: "edge_list \<Rightarrow> nat \<Rightarrow> nat \<Rightarrow> bool" where
  "gap_outside el index len \<longleftrightarrow> (\<forall>c p. c mod logN el = 0 \<longrightarrow> c < index \<or> index + len \<le> c \<longrightarrow> c \<le> p \<longrightarrow> p < edges_N el \<longrightarrow>
     edge_dests el ! p = SENT_VAL \<longrightarrow> edge_dests el ! c \<noteq> NULL_VAL)"

lemma gap_outsideI: "no_gap el \<Longrightarrow> gap_outside el index len"
  by (auto simp: no_gap_def gap_outside_def)

lemma gap_outside_mono: "gap_outside el i l \<Longrightarrow> j \<le> i \<Longrightarrow> i + l \<le> j + k \<Longrightarrow> gap_outside el j k"
  unfolding gap_outside_def by (meson le_trans not_less)

text \<open>The range that is redistributed has a slot to spare per leaf, and every other leaf has its last slot free.\<close>

lemma finish_rebalance_ok:
  assumes t: "task_ok t" and ok: "array_ok p" and b: "bounds_ok p" and rl: "relock p q" and l: "climb_locks t (nodes q) held sp"
    and tn: "tree_node (edges p) level index len"
    and room: "num_in (edges p) index len \<le> (logN (edges p) - 1) * 2 ^ (edges_H (edges p) - level)"
    and free: "\<And>c. c < index \<or> index + len \<le> c \<Longrightarrow> last_free (edges p) c"
  shows "\<exists>q'. finish_rebalance t (Rebalance q index len held sp) = Some q' \<and> settled p q' \<and>
    ((if level = edges_H (edges p) then no_gap (edges p)
      else gap_outside (edges p) index len \<and> 2 ^ (edges_H (edges p) - level) \<le> num_in (edges p) index len) \<longrightarrow> no_gap (edges q')) \<and>
    edges_N (edges q') = edges_N (edges p) \<and> edges_H (edges q') = edges_H (edges p)"
proof -
  let ?el = "edges p" and ?m = "(2 :: nat) ^ (edges_H (edges p) - level)"
  let ?gap = "if level = edges_H ?el then no_gap ?el else gap_outside ?el index len \<and> ?m \<le> num_in ?el index len"
  have core: "array_core p" and sl: "\<And>c. slot_ok ?el (nodes p) c" using ok by (simp_all add: array_ok_def)
  have c: "sized ?el" "geometry_ok ?el" using core by (simp_all add: array_core_def)
  note fr = relock_fields [OF rl]
  have okq: "array_ok q" by (rule relock_array_ok [OF rl ok])
  have n: "level \<le> edges_H ?el" "len = logN ?el * ?m" "logN ?el dvd index" "index + len \<le> edges_N ?el" "0 < logN ?el"
    using tn logN_pos [OF c(2)] by (auto simp: tree_node_def intro: dvd_mult_left)
  have "\<exists>r ys. (if len > logN (edges q) then redistribute q index len else Some q) = Some r \<and> array_ok r \<and> no_full_leaf (edges r) \<and>
      elems (edges r) = elems ?el \<and> (?gap \<longrightarrow> no_gap (edges r)) \<and> (r = q \<or> r = moved q index ys \<and> index + length ys \<le> edges_N (edges q))"
  proof (cases "level = edges_H ?el")
    case True
    have "last_free ?el c" for c
      using free [of c] leaf_last_free [OF c n(3), of c] sl n(2) room True by (cases "c < index \<or> index + len \<le> c") (auto simp: slot_ok_def)
    then have "no_full_leaf ?el" by (simp add: no_full_leaf_def)
    then show ?thesis using True n(2) okq by (intro exI [of _ q]) (simp add: fr)
  next
    case False
    then have "0 < edges_H ?el - level" using n(1) by simp
    then have m: "1 < ?m" "even ?m" using one_less_power [of "2 :: nat"] by simp_all
    then have big: "logN ?el < len" using n(2,5) by simp
    have coreq: "array_core q" and slq: "\<And>c. slot_ok (edges q) (nodes q) c" using okq by (simp_all add: array_ok_def)
    from redistribute_ok [OF coreq, of index len ?m] n m room free slq
    obtain ys where len: "length ys = len" and ys: "redistribute q index len = Some (moved q index ys)" "array_ok (moved q index ys)" "no_full_leaf (edges (moved q index ys))"
        "elems (edges (moved q index ys)) = elems (edges q)" "ys = spread (logN ?el) ?m (filter nonnull (slots ?el index (index + len)))"
      unfolding fr(1) num_in_def by blast
    have "no_gap (set_range ?el index (spread (logN ?el) ?m (filter nonnull (slots ?el index (index + logN ?el * ?m)))))" if ?gap
    proof (rule spread_no_gap)
      show "?m \<le> length (filter nonnull (slots ?el index (index + logN ?el * ?m)))" using that False n(2) by (simp add: num_in_def)
      show "edge_dests ?el ! c \<noteq> NULL_VAL" if "c mod logN ?el = 0" "c < index \<or> index + logN ?el * ?m \<le> c" "c \<le> x" "x < edges_N ?el"
        "edge_dests ?el ! x = SENT_VAL" for c x using that \<open>?gap\<close> False n(2) unfolding gap_outside_def by metis
    qed (use c n in auto)
    then have "?gap \<longrightarrow> no_gap (edges (moved q index ys))" using ys(5) n(2) fr(1) by (simp add: moved_def)
    then show ?thesis using ys big fr(1) len n(4) by (intro exI [of _ "moved q index ys"] exI [of _ ys]) simp
  qed
  then obtain r ys where r: "(if len > logN (edges q) then redistribute q index len else Some q) = Some r" "array_ok r" "no_full_leaf (edges r)"
      "elems (edges r) = elems ?el" "?gap \<longrightarrow> no_gap (edges r)"
      "r = q \<or> r = moved q index ys \<and> index + length ys \<le> edges_N (edges q)" by blast
  let ?rest = "climb_locks t (nodes r) held sp \<and> bounds_ok r \<and> map num_neighbors (nodes r) = map num_neighbors (nodes p) \<and>
    node_lock r = node_lock p \<and> next_task_id r = next_task_id p \<and> (last_end p \<longrightarrow> last_end r) \<and> edges_N (edges r) = edges_N ?el \<and> edges_H (edges r) = edges_H ?el"
  have ne: "0 < length (nodes p)" using core by (simp add: array_core_def first_ok_def)
  have lq: "last_end p \<longrightarrow> last_end q" using relock_last_end [OF rl ne] by blast
  have rest: ?rest using r(6)
  proof
    assume "r = q"
    then show ?rest using l b relock_bounds_ok [OF rl] relock_degrees [OF rl] fr lq by simp
  next
    assume "r = moved q index ys \<and> index + length ys \<le> edges_N (edges q)"
    then have e: "r = moved q index ys" "index + length ys \<le> edges_N (edges q)" by simp_all
    have "sized (edges q)" using c(1) fr(1) by simp
    then have "last_end p \<longrightarrow> last_end r" unfolding e(1) using last_end_moved [of q index ys] r(2) e lq by blast
    moreover
    have "map num_neighbors (nodes r) = map num_neighbors (nodes q)" unfolding e(1) by (intro nth_equalityI) (simp_all add: locks_moved)
    ultimately show ?rest using l b relock_bounds_ok [OF rl] relock_degrees [OF rl] fr unfolding e(1)
      by (simp add: climb_locks_def locks_are_moved bounds_ok_def)
  qed
  obtain q' where q': "(do { pma \<leftarrow> release_locks_in_range t held GENERAL r; pma \<leftarrow> reset_locks t [fst sp..<fst held] pma;
      reset_locks t [snd held + 1..<Suc (snd sp)] pma }) = Some q'" "relock r q'" "quiet (nodes q')"
    using finish_locks_ok [OF t conjunct1 [OF rest]] by blast
  note fq = relock_fields [OF q'(2)]
  have "finish_rebalance t (Rebalance q index len held sp) = Some q'" using r(1) q'(1) by simp
  moreover have "last_end p \<longrightarrow> last_end q'"
    using relock_last_end [OF q'(2)] rest ne arg_cong [of _ _ length, OF relock_degrees [OF rl]] r(2) by (auto simp: array_ok_def array_core_def first_ok_def)
  then have "settled p q'"
    using relock_array_ok [OF q'(2) r(2)] r(3,4) q'(3) rest relock_bounds_ok [OF q'(2)] relock_degrees [OF q'(2)] fq
    by (simp add: settled_def)
  ultimately show ?thesis using fq(1) r(5) rest by auto
qed

section \<open>Rebalancing\<close>

lemma num_in_mono:
  assumes "i \<le> j" "j + l \<le> i + len"
  shows "num_in el j l \<le> num_in el i len"
proof -
  obtain a where a: "j = i + a" using assms(1) le_Suc_ex by blast
  then have "a + l \<le> len" using assms(2) by simp
  then obtain b where "len = a + l + b" using le_Suc_ex by blast
  then show ?thesis by (simp add: a num_in_add add.assoc)
qed

lemma num_in_all: "sized el \<Longrightarrow> num_in el 0 (edges_N el) = length (elems el)"
  by (simp add: num_in_def elems_slots)

text \<open>Where the climb begins: at the leaf, or one level up when the leaf is full (or, after a removal, empty).\<close>

definition climb_start :: "bool \<Rightarrow> edge_list \<Rightarrow> nat \<Rightarrow> nat \<Rightarrow> nat \<Rightarrow> nat \<Rightarrow> bool" where
  "climb_start grow el leaf level index len \<longleftrightarrow>
    tree_node el level index len \<and> index \<le> leaf \<and> leaf + logN el \<le> index + len \<and>
    (if num_in el leaf (logN el) = (if grow then logN el else 0) then Suc level = edges_H el \<and> len = 2 * logN el
     else level = edges_H el \<and> len = logN el \<and> index = leaf)"

lemma rebalance_start:
  assumes ok: "array_ok p" and i: "index < edges_N (edges p)"
  shows "\<exists>level idx len. climb_start grow (edges p) (find_leaf (edges p) index) level idx len \<and>
    rebalance grow rnd t p index src held = do {
      (held, sp, q) \<leftarrow> exchange_locks t p idx len src held;
      r \<leftarrow> climb level grow rnd t src q idx len held sp;
      finish_rebalance t r }"
proof -
  let ?el = "edges p" and ?leaf = "find_leaf (edges p) index"
  have c: "sized ?el" "geometry_ok ?el" using ok by (simp_all add: array_ok_def array_core_def)
  have tl: "tree_node ?el (edges_H ?el) ?leaf (logN ?el)" by (rule tree_leaf [OF c(2) i])
  note d = tree_density [OF c(2,1) tl]
  have L: "0 < logN ?el" "1 \<le> edges_H ?el" using logN_pos [OF c(2)] c(2) by (simp_all add: geometry_ok_def)
  have full: "real (num_in ?el ?leaf (logN ?el)) / real (logN ?el) = (if grow then 1 else 0) \<longleftrightarrow>
      num_in ?el ?leaf (logN ?el) = (if grow then logN ?el else 0)" using L(1) by (auto simp: field_simps)
  show ?thesis
  proof (cases "num_in ?el ?leaf (logN ?el) = (if grow then logN ?el else 0)")
    case True
    let ?i = "find_node_start ?leaf (logN ?el * 2)"
    obtain h where h: "edges_H ?el = Suc h" using L(2) by (cases "edges_H ?el") auto
    note up = tree_up [OF c(2) tl [unfolded h]]
    have "climb_start grow ?el ?leaf h ?i (logN ?el * 2)" using up True h by (simp add: climb_start_def)
    then show ?thesis using True full d h unfolding rebalance_def by (intro exI [of _ h] exI [of _ ?i] exI [of _ "logN ?el * 2"]) (simp add: Let_def)
  next
    case False
    have "climb_start grow ?el ?leaf (edges_H ?el) ?leaf (logN ?el)" using tl False by (simp add: climb_start_def)
    moreover have "redistribute p ?leaf (logN ?el) = Some p" by (simp add: redistribute_def)
    ultimately show ?thesis using False full d unfolding rebalance_def
      by (intro exI [of _ "edges_H ?el"] exI [of _ ?leaf] exI [of _ "logN ?el"]) (simp add: Let_def)
  qed
qed

lemma rebalance_outcome:
  assumes t: "task_ok t" and ok: "array_ok p" and i: "index < edges_N (edges p)"
    and s: "src < length (nodes p)" "snd held < length (nodes p)" and l: "locks_are t (nodes p) (lock_range held) {}"
  obtains (level) level idx len q level' idx' len' held' sp' where
      "climb_start grow (edges p) (find_leaf (edges p) index) level idx len" "climbed_to grow p level idx len level' idx' len'"
      "\<not> crowded_at grow p level' idx' len'" "relock p q" "climb_locks t (nodes q) held' sp'"
      "rebalance grow rnd t p index src held = finish_rebalance t (Rebalance q idx' len' held' sp')"
    | (root) q where "crowded_at grow p 0 0 (edges_N (edges p))" "relock p q" "all_mine t (nodes q)"
      "rebalance grow rnd t p index src held = (if grow then double_list rnd t q else half_list rnd t q)"
proof -
  obtain level idx len where st: "climb_start grow (edges p) (find_leaf (edges p) index) level idx len"
    and eq: "rebalance grow rnd t p index src held = do {
      (held, sp, q) \<leftarrow> exchange_locks t p idx len src held;
      r \<leftarrow> climb level grow rnd t src q idx len held sp;
      finish_rebalance t r }" using rebalance_start [OF ok i] by blast
  obtain h sp q where x: "exchange_locks t p idx len src held = Some (h, sp, q)" "relock p q" "climb_locks t (nodes q) h sp"
    using exchange_locks_ok [OF t ok s l] by blast
  note fr = relock_fields [OF x(2)]
  have q: "src < length (nodes q)" "array_ok q" "tree_node (edges q) level idx len"
    using s(1) fr relock_array_ok [OF x(2) ok] st by (simp_all add: climb_start_def)
  have same: "crowded_at grow q = crowded_at grow p" "climbed_to grow q = climbed_to grow p"
    by (simp_all add: fun_eq_iff climbed_to_def crowded_at_def crowded_def fr)
  show thesis using climb_ok [OF t q x(3), of grow rnd]
  proof (elim disjE exE conjE)
    fix q' level' idx' len' held' sp'
    assume c: "climb level grow rnd t src q idx len h sp = Some (Rebalance q' idx' len' held' sp')" "relock q q'" "climb_locks t (nodes q') held' sp'"
      "climbed_to grow q level idx len level' idx' len'" "\<not> crowded_at grow q level' idx' len'"
    have "rebalance grow rnd t p index src held = finish_rebalance t (Rebalance q' idx' len' held' sp')"
      by (simp only: eq x(1) c(1) bind.bind_lunit prod.case)
    then show thesis using level st c relock_trans [OF x(2) c(2)] unfolding same by blast
  next
    fix q'
    assume c: "climb level grow rnd t src q idx len h sp = map_option Resized (if grow then double_list rnd t q' else half_list rnd t q')"
      "relock q q'" "all_mine t (nodes q')" "crowded_at grow q 0 0 (edges_N (edges q))"
    have "rebalance grow rnd t p index src held = (if grow then double_list rnd t q' else half_list rnd t q')"
      by (simp add: eq x(1) c(1) map_option_case split: option.split)
    then show thesis using root c relock_trans [OF x(2) c(2)] unfolding same fr(1) by blast
  qed
qed

lemma crowded_grow:
  assumes "bounds_ok p" "crowded_at True p level index len" "level \<le> edges_H (edges p)" "0 < len"
  shows "len \<le> 2 * num_in (edges p) index len"
proof -
  have "1 / 2 \<le> upper_density_bound p level" using assms(1,3) by (simp add: bounds_ok_def)
  also have "\<dots> \<le> real (num_in (edges p) index len) / real len" using assms(2) by (simp add: crowded_at_def crowded_def)
  finally have "real len \<le> 2 * real (num_in (edges p) index len)" using assms(4) by (simp add: field_simps)
  then show ?thesis by linarith
qed

lemma uncrowded_grow:
  assumes "bounds_ok p" "\<not> crowded_at True p level index len" "level \<le> edges_H (edges p)" "geometry_ok (edges p)"
    "len = logN (edges p) * m" "0 < m"
  shows "num_in (edges p) index len \<le> (logN (edges p) - 1) * m"
proof -
  let ?L = "logN (edges p)" and ?k = "num_in (edges p) index len"
  have L: "4 \<le> ?L" by (rule logN_pos [OF assms(4)])
  have "real ?k / real len < upper_density_bound p level" using assms(2) by (simp add: crowded_at_def crowded_def)
  also have "\<dots> \<le> (real ?L - 1) / real ?L" using assms(1,3,4) by (simp add: bounds_ok_def geometry_ok_def)
  finally have "real ?k < (real ?L - 1) * real m" using L assms(5,6) by (simp add: field_simps)
  also have "\<dots> = real ((?L - 1) * m)" using L by (simp add: of_nat_diff)
  finally show ?thesis by linarith
qed

text \<open>After an insertion that may have filled a leaf.\<close>

lemma rebalance_grow_ok:
  assumes t: "task_ok t" and ok: "array_ok p" and i: "index < edges_N (edges p)"
    and s: "src < length (nodes p)" "snd held < length (nodes p)" and l: "locks_are t (nodes p) (lock_range held) {}"
    and b: "bounds_ok p" and r: "rounding_ok rnd" and gap: "no_gap (edges p)"
    and free: "\<And>c. c < find_leaf (edges p) index \<or> find_leaf (edges p) index + logN (edges p) \<le> c \<Longrightarrow> last_free (edges p) c"
    and size: "2 * edges_N (edges p) \<le> 2 ^ 32 \<or> 2 * length (elems (edges p)) < edges_N (edges p)"
  shows "\<exists>q. rebalance True rnd t p index src held = Some q \<and> settled p q \<and> no_gap (edges q) \<and>
    (edges_N (edges q) = edges_N (edges p) \<or> edges_N (edges q) = 2 * edges_N (edges p) \<and> edges_N (edges p) \<le> 2 * length (elems (edges p)))"
proof -
  let ?el = "edges p" and ?leaf = "find_leaf (edges p) index"
  have c: "sized ?el" "geometry_ok ?el" using ok by (simp_all add: array_ok_def array_core_def)
  have L: "4 \<le> logN ?el" by (rule logN_pos [OF c(2)])
  from t ok i s l show ?thesis
  proof (cases rule: rebalance_outcome [where grow = True and rnd = rnd])
    case (level level idx len q level' idx' len' held' sp')
    let ?m = "(2 :: nat) ^ (edges_H ?el - level')"
    have tn: "tree_node ?el level' idx' len'" "idx' \<le> idx" "idx + len \<le> idx' + len'" "idx \<le> ?leaf" "?leaf + logN ?el \<le> idx + len"
      using level(1,2) by (auto simp: climbed_to_def climb_start_def)
    have n: "level' \<le> edges_H ?el" "len' = logN ?el * ?m" using tn(1) by (simp_all add: tree_node_def)
    have room: "num_in ?el idx' len' \<le> (logN ?el - 1) * ?m"
      by (rule uncrowded_grow [OF b level(3) n(1) c(2) n(2)]) simp
    have free': "last_free ?el c" if "c < idx' \<or> idx' + len' \<le> c" for c using that tn by (intro free) linarith
    have few: "?m \<le> num_in ?el idx' len' \<or> level' = edges_H ?el"
      using level(2) unfolding climbed_to_def
    proof (elim conjE disjE exE)
      assume same: "level' = level" "len' = len" "idx' = idx"
      show ?thesis
      proof (cases "num_in ?el ?leaf (logN ?el) = logN ?el")
        case True
        then have sl: "Suc level' = edges_H ?el" using level(1) same(1) by (simp add: climb_start_def)
        have "?m = 2" unfolding sl [symmetric] by simp
        then show ?thesis using num_in_mono [of idx' ?leaf "logN ?el" len' ?el] tn True L by simp
      next
        case False
        then show ?thesis using level(1) same(1) by (simp add: climb_start_def)
      qed
    next
      fix j k assume k: "len' = 2 * k" "tree_node ?el (Suc level') j k" "idx' \<le> j" "j + k \<le> idx' + len'" "crowded_at True p (Suc level') j k"
      have "0 < k" "Suc level' \<le> edges_H ?el" using k(2) L by (auto simp: tree_node_def)
      then have "k \<le> 2 * num_in ?el j k" using crowded_grow [OF b k(5)] by simp
      moreover have "num_in ?el j k \<le> num_in ?el idx' len'" by (rule num_in_mono [OF k(3,4)])
      moreover have "4 * ?m \<le> len'" unfolding n(2) using L by (rule mult_le_mono1)
      ultimately show ?thesis using k(1) by linarith
    qed
    show ?thesis using finish_rebalance_ok [OF t ok b level(4,5) tn(1) room free'] level(6) few gap gap_outsideI [OF gap] by (auto split: if_splits)
  next
    case (root q)
    note fr = relock_fields [OF root(2)]
    have many: "edges_N ?el \<le> 2 * length (elems ?el)"
      using crowded_grow [OF b root(1)] num_in_all [OF c(1)] size_pow(1) [OF c(2)] by simp
    then have "2 * edges_N (edges q) \<le> 2 ^ 32" using size by (simp add: fr(1))
    moreover have "array_core q" using relock_array_ok [OF root(2) ok] by (simp add: array_ok_def)
    ultimately obtain q' where q': "double_list rnd t q = Some q'" "array_ok q'" "no_full_leaf (edges q')" "elems (edges q') = elems (edges q)"
        "edges_N (edges q') = 2 * edges_N (edges q)" "quiet (nodes q')" "bounds_ok q'" "map num_neighbors (nodes q') = map num_neighbors (nodes q)"
        "node_lock q' = node_lock q" "next_task_id q' = next_task_id q" "2 ^ edges_H (edges q') \<le> length (elems (edges q)) \<longrightarrow> no_gap (edges q')"
        "last_end q \<longrightarrow> last_end q'"
      using double_list_ok [OF _ _ t root(3) r] by blast
    have g': "geometry_ok (edges q')" using q'(2) by (simp add: array_ok_def array_core_def)
    have "edges_N (edges q') = logN (edges q') * 2 ^ edges_H (edges q')" using g' by (simp add: geometry_ok_def)
    then have "4 * 2 ^ edges_H (edges q') \<le> edges_N (edges q')" using logN_pos [OF g'] by (simp only: mult_le_mono1)
    then have "2 ^ edges_H (edges q') \<le> length (elems ?el)" using q'(5) many fr(1) by simp
    moreover have "last_end p \<longrightarrow> last_end q'" using q'(12) relock_last_end [OF root(2)] ok by (simp add: array_ok_def array_core_def first_ok_def)
    ultimately show ?thesis using q'(1-11) root(4) fr relock_degrees [OF root(2)] many by (auto simp: settled_def)
  qed
qed

lemma crowded_shrink:
  assumes "bounds_ok p" "crowded_at False p level index len" "level \<le> edges_H (edges p)" "0 < len"
  shows "4 * num_in (edges p) index len \<le> len"
proof -
  have "real (num_in (edges p) index len) / real len \<le> lower_density_bound p level" using assms(2) by (simp add: crowded_at_def crowded_def)
  also have "\<dots> \<le> 1 / 4" using assms(1,3) by (simp add: bounds_ok_def)
  finally have "4 * real (num_in (edges p) index len) \<le> real len" using assms(4) by (simp add: field_simps)
  then show ?thesis by linarith
qed

lemma uncrowded_shrink:
  assumes "bounds_ok p" "\<not> crowded_at False p level index len" "level \<le> edges_H (edges p)" "0 < len"
  shows "len < 8 * num_in (edges p) index len"
proof -
  have "1 / 8 \<le> lower_density_bound p level" using assms(1,3) by (simp add: bounds_ok_def)
  also have "\<dots> < real (num_in (edges p) index len) / real len" using assms(2) by (simp add: crowded_at_def crowded_def)
  finally have "real len < 8 * real (num_in (edges p) index len)" using assms(4) by (simp add: field_simps)
  then show ?thesis by linarith
qed

lemma num_in_no_full:
  assumes "no_full_leaf el" "sized el" "0 < logN el" "logN el dvd index"
  shows "index + logN el * m \<le> edges_N el \<Longrightarrow> num_in el index (logN el * m) \<le> (logN el - 1) * m"
proof (induction m)
  case (Suc m)
  let ?i = "index + logN el * m" and ?L = "logN el"
  have "?i + (?L - 1) < edges_N el" using Suc.prems assms(3) by simp
  moreover have "(?i + (?L - 1)) mod ?L = ?L - 1"
  proof -
    obtain d where "index = ?L * d" using assms(4) by blast
    then have "?i + (?L - 1) = (?L - 1) + ?L * (d + m)" by (simp add: algebra_simps)
    then have "(?i + (?L - 1)) mod ?L = (?L - 1) mod ?L" by (simp only: mod_mult_self2)
    then show ?thesis using assms(3) by simp
  qed
  ultimately have "edge_dests el ! (?i + (?L - 1)) = NULL_VAL" using assms(1) by (simp add: no_full_leaf_def last_free_def)
  then have "num_in el (?i + (?L - 1)) 1 = 0" by (simp add: num_in_def slots_def nonnull_def)
  then have "num_in el ?i ?L \<le> ?L - 1" using num_in_add [of el ?i "?L - 1" 1] num_in_le [of el ?i "?L - 1"] assms(3) by simp
  moreover have "num_in el index (?L * Suc m) = num_in el index (?L * m) + num_in el ?i ?L"
    using num_in_add [of el index "?L * m" ?L] by (simp add: add.commute)
  ultimately show ?case using Suc by simp
qed (simp add: num_in_def)

lemma packed_leaf_empty:
  assumes "geometry_ok el" "\<And>c. packed_at el c" "logN el dvd leaf" "leaf + logN el \<le> edges_N el" "edge_dests el ! leaf = NULL_VAL"
  shows "num_in el leaf (logN el) = 0"
proof -
  have L: "logN el = 2 ^ loglogN el" "0 < logN el" using assms(1) logN_pos [of el] by (auto simp: geometry_ok_def)
  have "next_leaf leaf (loglogN el) = leaf + logN el" using assms(3) L by (auto simp: next_leaf_def elim!: dvdE)
  then have "edge_dests el ! c = NULL_VAL" if "leaf \<le> c" "c < leaf + logN el" for c
    using packed_rest [OF assms(2) L(1) assms(5) that(1)] that assms(4) by simp
  then show ?thesis by (auto simp: num_in_def slots_def nonnull_def filter_empty_conv)
qed

text \<open>
  After a removal that may have emptied a leaf.  Leaves stay nonempty when they have at least eight slots and the array is not too sparse.
\<close>

lemma rebalance_shrink_ok:
  assumes t: "task_ok t" and ok: "array_ok p" and i: "index < edges_N (edges p)"
    and s: "src < length (nodes p)" "snd held < length (nodes p)" and l: "locks_are t (nodes p) (lock_range held) {}"
    and b: "bounds_ok p" and r: "rounding_ok rnd" and full: "no_full_leaf (edges p)"
    and size: "32 \<le> edges_N (edges p) \<or> edges_N (edges p) < 4 * length (elems (edges p))"
  shows "\<exists>q. rebalance False rnd t p index src held = Some q \<and> settled p q \<and>
    (gap_outside (edges p) (find_leaf (edges p) index) (logN (edges p)) \<longrightarrow> 8 \<le> logN (edges p) \<longrightarrow>
       edges_N (edges p) \<le> 8 * length (elems (edges p)) \<longrightarrow> no_gap (edges q)) \<and>
    (edges_N (edges q) = edges_N (edges p) \<or> 2 * edges_N (edges q) = edges_N (edges p) \<and> 4 * length (elems (edges p)) \<le> edges_N (edges p))"
proof -
  let ?el = "edges p" and ?leaf = "find_leaf (edges p) index"
  have c: "sized ?el" "geometry_ok ?el" "\<And>c. packed_at ?el c" using ok by (simp_all add: array_ok_def array_core_def slot_ok_def)
  have L: "0 < logN ?el" using logN_pos [OF c(2)] by simp
  note lf = find_leaf_aligned [OF c(2) i]
  from t ok i s l show ?thesis
  proof (cases rule: rebalance_outcome [where grow = False and rnd = rnd])
    case (level level idx len q level' idx' len' held' sp')
    let ?m = "(2 :: nat) ^ (edges_H ?el - level')"
    have tn: "tree_node ?el level' idx' len'" "idx' \<le> idx" "idx + len \<le> idx' + len'" "idx \<le> ?leaf" "?leaf + logN ?el \<le> idx + len"
      using level(1,2) by (auto simp: climbed_to_def climb_start_def)
    have n: "level' \<le> edges_H ?el" "len' = logN ?el * ?m" "logN ?el dvd idx'" "idx' + logN ?el * ?m \<le> edges_N ?el"
      using tn(1) by (auto simp: tree_node_def intro: dvd_mult_left)
    have room: "num_in ?el idx' len' \<le> (logN ?el - 1) * ?m" unfolding n(2) by (rule num_in_no_full [OF full c(1) L n(3,4)])
    have free': "last_free ?el c" if "c < idx' \<or> idx' + len' \<le> c" for c using full by (simp add: no_full_leaf_def)
    have gap: "if level' = edges_H ?el then no_gap ?el else gap_outside ?el idx' len' \<and> ?m \<le> num_in ?el idx' len'"
      if go: "gap_outside ?el ?leaf (logN ?el)" and big: "8 \<le> logN ?el"
    proof (cases "level' = edges_H ?el")
      case True
      have "level = edges_H ?el" using level(2) True unfolding climbed_to_def by (auto dest: tree_node_level)
      then have "num_in ?el ?leaf (logN ?el) \<noteq> 0" using level(1) by (auto simp: climb_start_def split: if_splits)
      then have "edge_dests ?el ! ?leaf \<noteq> NULL_VAL" using packed_leaf_empty [OF c(2,3) lf(1,4)] by auto
      moreover have "c = ?leaf" if al: "c mod logN ?el = 0" and cl: "\<not> (c < ?leaf \<or> ?leaf + logN ?el \<le> c)" for c
      proof -
        obtain a b where ab: "c = logN ?el * a" "?leaf = logN ?el * b" using al lf(1) by blast
        then have "logN ?el * b \<le> logN ?el * a" "logN ?el * a < logN ?el * Suc b" using cl by (simp_all only: not_le not_less de_Morgan_disj mult_Suc_right add.commute)
        then have "b \<le> a" "a < Suc b" using L by (simp_all only: mult_le_cancel1 mult_less_cancel1 simp_thms)
        then have "a = b" by simp
        then show ?thesis using ab by simp
      qed
      ultimately have at: "edge_dests ?el ! c \<noteq> NULL_VAL" if "c mod logN ?el = 0" "\<not> (c < ?leaf \<or> ?leaf + logN ?el \<le> c)" for c
        using that by metis
      have "no_gap ?el" unfolding no_gap_def
      proof (intro allI impI)
        fix c x assume a: "c mod logN ?el = 0" "c \<le> x" "x < edges_N ?el" "edge_dests ?el ! x = SENT_VAL"
        show "edge_dests ?el ! c \<noteq> NULL_VAL"
        proof (cases "c < ?leaf \<or> ?leaf + logN ?el \<le> c")
          case True
          then show ?thesis using go a unfolding gap_outside_def by metis
        qed (rule at [OF a(1)])
      qed
      then show ?thesis using True by simp
    next
      case False
      have "0 < len'" using n(2) L by simp
      then have "len' < 8 * num_in ?el idx' len'" using uncrowded_shrink [OF b level(3) n(1)] by simp
      moreover have "8 * ?m \<le> len'" unfolding n(2) using big by (rule mult_le_mono1)
      ultimately have "?m \<le> num_in ?el idx' len'" by linarith
      moreover have "gap_outside ?el idx' len'" by (rule gap_outside_mono [OF go]) (use tn in linarith)+
      ultimately show ?thesis using False by simp
    qed
    show ?thesis using finish_rebalance_ok [OF t ok b level(4,5) tn(1) room free'] level(6) gap by auto
  next
    case (root q)
    note fr = relock_fields [OF root(2)]
    have few: "4 * length (elems ?el) \<le> edges_N ?el"
      using crowded_shrink [OF b root(1)] num_in_all [OF c(1)] size_pow(1) [OF c(2)] by simp
    then have "32 \<le> edges_N (edges q)" using size by (simp add: fr(1))
    moreover have "array_core q" using relock_array_ok [OF root(2) ok] by (simp add: array_ok_def)
    moreover have "4 * length (elems (edges q)) \<le> edges_N (edges q)" using few fr(1) by simp
    ultimately obtain q' where q': "half_list rnd t q = Some q'" "array_ok q'" "no_full_leaf (edges q')" "elems (edges q') = elems (edges q)"
        "2 * edges_N (edges q') = edges_N (edges q)" "quiet (nodes q')" "bounds_ok q'" "map num_neighbors (nodes q') = map num_neighbors (nodes q)"
        "node_lock q' = node_lock q" "next_task_id q' = next_task_id q" "2 ^ edges_H (edges q') \<le> length (elems (edges q)) \<longrightarrow> no_gap (edges q')"
        "last_end q \<longrightarrow> last_end q'"
      using half_list_ok [OF _ _ _ t root(3) r] by blast
    have g': "geometry_ok (edges q')" using q'(2) by (simp add: array_ok_def array_core_def)
    have "edges_N (edges q') = logN (edges q') * 2 ^ edges_H (edges q')" using g' by (simp add: geometry_ok_def)
    then have "4 * 2 ^ edges_H (edges q') \<le> edges_N (edges q')" using logN_pos [OF g'] by (simp only: mult_le_mono1)
    then have "edges_N ?el \<le> 8 * length (elems ?el) \<longrightarrow> 2 ^ edges_H (edges q') \<le> length (elems ?el)" using q'(5) fr(1) by simp
    moreover have "last_end p \<longrightarrow> last_end q'" using q'(12) relock_last_end [OF root(2)] ok by (simp add: array_ok_def array_core_def first_ok_def)
    ultimately show ?thesis using q'(1-11) root(4) fr relock_degrees [OF root(2)] few by (auto simp: settled_def)
  qed
qed

end
