(* ===== verification/PMA_Graph.thy ===== *)
theory PMA_Graph
  imports PMA_Rebalance
begin

unbundle bit_operations_syntax

text \<open>
  The graph that the packed memory array stores: for every vertex the list of its edges in ascending order.  Adding, updating,
  removing and looking up an edge of a vertex that is not the last one act on that list as on a map from destinations to values.
\<close>

section \<open>Rows\<close>

text \<open>The elements between the sentinels.\<close>

fun segs :: "(u32 \<times> u32) list \<Rightarrow> (u32 \<times> u32) list list" where
  "segs [] = [[]]"
| "segs (x # xs) = (if snd x = SENT_VAL then [] # segs xs else (x # hd (segs xs)) # tl (segs xs))"

lemma segs_nonempty [simp]: "segs xs \<noteq> []"
  by (cases xs) auto

lemma length_segs: "length (segs xs) = Suc (length (sent_ids xs))"
  by (induction xs) auto

lemma segs_append: "segs (xs @ ys) = butlast (segs xs) @ (last (segs xs) @ hd (segs ys)) # tl (segs ys)"
proof (induction xs)
  case (Cons x xs)
  then show ?case by (cases "segs xs") (auto simp: hd_append)
qed simp

definition sent_free :: "(u32 \<times> u32) list \<Rightarrow> bool" where
  "sent_free xs \<longleftrightarrow> (\<forall>x \<in> set xs. snd x \<noteq> SENT_VAL)"

lemma segs_sent_free: "sent_free xs \<Longrightarrow> segs xs = [xs]"
  by (induction xs) (auto simp: sent_free_def)

text \<open>One row between what comes before and after it.\<close>

lemma segs_focus:
  assumes "xs = [] \<or> snd (last xs) = SENT_VAL" "ys = [] \<or> snd (hd ys) = SENT_VAL" "sent_free rs"
  shows "segs (xs @ rs @ ys) = butlast (segs xs) @ rs # tl (segs ys)"
proof -
  have "last (segs xs) = []"
  proof (cases "xs = []")
    case False
    then obtain zs z where "xs = zs @ [z]" "snd z = SENT_VAL" using assms(1) by (metis append_butlast_last_id)
    then show ?thesis by (simp add: segs_append)
  qed simp
  moreover have "hd (segs ys) = []" using assms(2) by (cases ys) auto
  ultimately show ?thesis using segs_sent_free [OF assms(3)] by (simp add: segs_append)
qed

definition rows :: "PMA \<Rightarrow> (u32 \<times> u32) list list" where
  "rows pma = segs (tl (elems (edges pma)))"

definition vertex_end :: "PMA \<Rightarrow> nat \<Rightarrow> nat" where
  "vertex_end pma i = (if Suc i < length (nodes pma) then beginning (nodes pma ! Suc i) else edges_N (edges pma))"

definition row_at :: "PMA \<Rightarrow> nat \<Rightarrow> (u32 \<times> u32) list" where
  "row_at pma i = filter nonnull (slots (edges pma) (Suc (beginning (nodes pma ! i))) (vertex_end pma i))"

text \<open>The elements before and after those of a vertex.\<close>

definition row_before :: "PMA \<Rightarrow> nat \<Rightarrow> (u32 \<times> u32) list" where
  "row_before pma i = tl (filter nonnull (slots (edges pma) 0 (Suc (beginning (nodes pma ! i)))))"

definition row_after :: "PMA \<Rightarrow> nat \<Rightarrow> (u32 \<times> u32) list" where
  "row_after pma i = filter nonnull (slots (edges pma) (vertex_end pma i) (edges_N (edges pma)))"

lemma array_facts:
  assumes "array_ok pma"
  shows "sized (edges pma)" "geometry_ok (edges pma)" "sent_ids (elems (edges pma)) = [1..<length (nodes pma)]" "first_ok pma"
    "\<And>p. packed_at (edges pma) p" "\<And>p. pointer_at (edges pma) (nodes pma) p" "chained (nodes pma)" "spaced (nodes pma) (elems (edges pma))"
  using assms array_chained by (simp_all add: array_ok_def array_core_def slot_ok_def)

lemma first_slot:
  assumes "array_ok pma"
  shows "0 < edges_N (edges pma)" "edge_dests (edges pma) ! 0 \<noteq> NULL_VAL" "edge_dests (edges pma) ! 0 \<noteq> SENT_VAL"
    "beginning (nodes pma ! 0) = 0" "0 < length (nodes pma)"
  using array_facts(4) [OF assms] by (auto simp: first_ok_def)

lemma sent_ids_tl:
  assumes "array_ok pma"
  shows "sent_ids (tl (elems (edges pma))) = [1..<length (nodes pma)]"
proof -
  have "elems (edges pma) \<noteq> []" "snd (hd (elems (edges pma))) \<noteq> SENT_VAL"
    using first_elem [of pma] assms first_slot(3) [OF assms] by (auto simp: array_ok_def hd_conv_nth)
  then have "sent_ids (tl (elems (edges pma))) = sent_ids (elems (edges pma))" by (cases "elems (edges pma)") auto
  then show ?thesis using array_facts(3) [OF assms] by simp
qed

lemma vertex_bounds:
  assumes ok: "array_ok pma" and asm: "i < length (nodes pma)"
  shows "beginning (nodes pma ! i) < vertex_end pma i" "vertex_end pma i \<le> edges_N (edges pma)" "beginning (nodes pma ! i) < edges_N (edges pma)"
    "edge_dests (edges pma) ! beginning (nodes pma ! i) \<noteq> NULL_VAL"
proof -
  note facts = array_facts [OF ok] and first = first_slot [OF ok]
  show b: "beginning (nodes pma ! i) < edges_N (edges pma)" using array_beginning(1) [OF ok, of i] asm first by (cases i) auto
  show "edge_dests (edges pma) ! beginning (nodes pma ! i) \<noteq> NULL_VAL" using array_beginning(2) [OF ok, of i] asm first by (cases i) auto
  show "beginning (nodes pma ! i) < vertex_end pma i" "vertex_end pma i \<le> edges_N (edges pma)"
    using b facts(7) array_beginning(1) [OF ok, of "Suc i"] asm by (auto simp: vertex_end_def chained_def)
qed

lemma vertex_no_sent:
  assumes ok: "array_ok pma" and asm: "i < length (nodes pma)" "beginning (nodes pma ! i) < p" "p < vertex_end pma i"
  shows "edge_dests (edges pma) ! p \<noteq> SENT_VAL"
proof
  note facts = array_facts [OF ok] and first = first_slot [OF ok]
  let ?v = "unat (edge_vals (edges pma) ! p)"
  assume s: "edge_dests (edges pma) ! p = SENT_VAL"
  have p: "p < edges_N (edges pma)" using asm(3) vertex_bounds(2) [OF ok asm(1)] by simp
  have b: "beginning (nodes pma ! ?v) = p" using facts(6) [of p] p s by (simp add: pointer_at_def)
  have v: "?v < length (nodes pma)" by (rule sent_id_range(2) [OF facts(1,3) p s])
  have iv: "i < ?v"
  proof (rule ccontr)
    assume "\<not> i < ?v"
    then have "beginning (nodes pma ! ?v) \<le> beginning (nodes pma ! i)" using chained_mono_le [OF facts(7)] asm(1) by simp
    then show False using asm(2) b by simp
  qed
  then have "Suc i < length (nodes pma)" "beginning (nodes pma ! Suc i) \<le> p" using v chained_mono_le [OF facts(7), of "Suc i" ?v] b by auto
  then show False using asm(3) by (simp add: vertex_end_def)
qed

lemma row_sent_free:
  "array_ok pma \<Longrightarrow> i < length (nodes pma) \<Longrightarrow> Suc (beginning (nodes pma ! i)) \<le> a \<Longrightarrow> b \<le> vertex_end pma i \<Longrightarrow>
   sent_free (filter nonnull (slots (edges pma) a b))"
  using vertex_no_sent by (auto simp: sent_free_def slots_def)

lemma elems_parts:
  assumes ok: "array_ok pma" and asm: "i < length (nodes pma)"
  shows "tl (elems (edges pma)) = row_before pma i @ row_at pma i @ row_after pma i"
proof -
  note facts = array_facts [OF ok] and first = first_slot [OF ok]
  let ?b = "beginning (nodes pma ! i)"
  have "elems (edges pma) = filter nonnull (slots (edges pma) 0 (Suc ?b)) @ filter nonnull (slots (edges pma) (Suc ?b) (vertex_end pma i)) @
      filter nonnull (slots (edges pma) (vertex_end pma i) (edges_N (edges pma)))"
    using vertex_bounds [OF ok asm] by (intro elems_split facts) auto
  moreover have "filter nonnull (slots (edges pma) 0 (Suc ?b)) \<noteq> []"
    using first by (auto simp: slots_Cons nonnull_def)
  ultimately show ?thesis by (simp add: row_before_def row_at_def row_after_def)
qed

lemma before_end:
  assumes ok: "array_ok pma" and asm: "i < length (nodes pma)"
  shows "row_before pma i = [] \<or> snd (last (row_before pma i)) = SENT_VAL"
proof (cases i)
  case 0
  then show ?thesis using first_slot [OF ok] by (simp add: row_before_def slots_def nonnull_def)
next
  case (Suc j)
  let ?b = "beginning (nodes pma ! i)"
  have s: "edge_dests (edges pma) ! ?b = SENT_VAL" using array_beginning(2) [OF ok, of i] asm Suc by simp
  have "filter nonnull (slots (edges pma) 0 (Suc ?b)) = filter nonnull (slots (edges pma) 0 ?b) @ [(edge_vals (edges pma) ! ?b, SENT_VAL)]"
    using s by (simp add: slots_snoc nonnull_def)
  then show ?thesis by (cases "filter nonnull (slots (edges pma) 0 ?b)") (auto simp: row_before_def)
qed

lemma after_begin:
  assumes ok: "array_ok pma" and asm: "i < length (nodes pma)"
  shows "row_after pma i = [] \<or> snd (hd (row_after pma i)) = SENT_VAL"
proof (cases "Suc i < length (nodes pma)")
  case True
  note b = array_beginning [OF ok zero_less_Suc True]
  then have "row_after pma i = (edge_vals (edges pma) ! vertex_end pma i, SENT_VAL) # filter nonnull (slots (edges pma) (Suc (vertex_end pma i)) (edges_N (edges pma)))"
    using True by (simp add: row_after_def vertex_end_def slots_Cons nonnull_def)
  then show ?thesis by simp
qed (simp add: row_after_def vertex_end_def)

lemma rows_parts:
  assumes ok: "array_ok pma" and asm: "i < length (nodes pma)"
  shows "rows pma = butlast (segs (row_before pma i)) @ row_at pma i # tl (segs (row_after pma i))"
  unfolding rows_def elems_parts [OF assms]
  by (rule segs_focus [OF before_end [OF assms] after_begin [OF assms]])
     (simp add: row_at_def row_sent_free [OF assms])

lemma sent_ids_before:
  assumes ok: "array_ok pma" and asm: "i < length (nodes pma)"
  shows "length (sent_ids (row_before pma i)) = i"
proof -
  note facts = array_facts [OF ok] and first = first_slot [OF ok]
  have "sent_ids (row_before pma i @ row_at pma i @ row_after pma i) = [1..<length (nodes pma)]"
    using elems_parts [OF ok asm] sent_ids_tl [OF ok] by simp
  moreover have "sent_ids (row_at pma i) = []"
    using row_sent_free [OF ok asm order_refl order_refl] by (auto simp: row_at_def sent_ids_def sent_free_def filter_empty_conv)
  ultimately have eq: "sent_ids (row_before pma i) @ sent_ids (row_after pma i) = [1..<length (nodes pma)]" by simp
  show ?thesis
  proof (cases "Suc i < length (nodes pma)")
    case True
    note b = array_beginning [OF ok zero_less_Suc True]
    have "sent_ids (row_after pma i) = Suc i # sent_ids (filter nonnull (slots (edges pma) (Suc (vertex_end pma i)) (edges_N (edges pma))))"
      using True b by (simp add: row_after_def vertex_end_def slots_Cons nonnull_def)
    then obtain zs where z: "[1..<length (nodes pma)] = sent_ids (row_before pma i) @ Suc i # zs" using eq by metis
    have "[1..<length (nodes pma)] ! length (sent_ids (row_before pma i)) = Suc i" unfolding z by simp
    moreover have "length (sent_ids (row_before pma i)) < length [1..<length (nodes pma)]" unfolding z by simp
    ultimately show ?thesis by simp
  next
    case False
    then have "sent_ids (row_after pma i) = []" by (simp add: row_after_def vertex_end_def)
    then have "sent_ids (row_before pma i) = [1..<length (nodes pma)]" using eq by simp
    then have "length (sent_ids (row_before pma i)) = length [1..<length (nodes pma)]" by (rule arg_cong)
    then show ?thesis using False asm by simp
  qed
qed

lemma length_rows: "array_ok pma \<Longrightarrow> length (rows pma) = length (nodes pma)"
  using sent_ids_tl [of pma] first_slot(5) [of pma] by (simp add: rows_def length_segs)

lemma nth_rows:
  assumes "array_ok pma" "i < length (nodes pma)"
  shows "rows pma ! i = row_at pma i"
  using sent_ids_before [OF assms] length_segs [of "row_before pma i"] by (simp add: rows_parts [OF assms] nth_append)

section \<open>Degrees\<close>

lemma hd_segs: "take (length (hd (segs xs))) xs = hd (segs xs)" "sent_free (hd (segs xs))"
  by (induction xs) (auto simp: sent_free_def)

text \<open>When the degrees count the rows, the search for sentinels during a redistribution may skip as many elements.\<close>

lemma spaced_segs:
  "sent_ids xs = [k..<n] \<Longrightarrow>
   (\<And>j. j < length (sent_ids xs) \<Longrightarrow> unat (num_neighbors (ns ! (k + j))) \<le> length (segs xs ! Suc j)) \<Longrightarrow> spaced ns xs"
proof (induction xs arbitrary: k)
  case (Cons x xs)
  show ?case
  proof (cases "snd x = SENT_VAL")
    case False
    have "unat (num_neighbors (ns ! (k + j))) \<le> length (segs xs ! Suc j)" if "j < length (sent_ids xs)" for j
      using Cons.prems(2) [of j] False that by (cases "segs xs") (auto simp: nth_Cons split: nat.splits)
    then have "spaced ns xs" using Cons.IH [of k] Cons.prems(1) False by simp
    then show ?thesis using False by (cases x) auto
  next
    case True
    then have k: "k < n" "unat (fst x) = k" "sent_ids xs = [Suc k..<n]"
      using Cons.prems(1) by (cases "k < n"; simp add: upt_conv_Cons)+
    have "unat (num_neighbors (ns ! (Suc k + j))) \<le> length (segs xs ! Suc j)" if "j < length (sent_ids xs)" for j
      using Cons.prems(2) [of "Suc j"] True that by simp
    then have "spaced ns xs" using Cons.IH [of "Suc k"] k(3) by blast
    moreover have le: "unat (num_neighbors (ns ! k)) \<le> length (hd (segs xs))"
      using Cons.prems(2) [of 0] True by (simp add: hd_conv_nth)
    have "take (unat (num_neighbors (ns ! k))) xs = take (unat (num_neighbors (ns ! k))) (take (length (hd (segs xs))) xs)"
      using le by simp
    then have "take (unat (num_neighbors (ns ! k))) xs = take (unat (num_neighbors (ns ! k))) (hd (segs xs))"
      by (simp only: hd_segs(1))
    then have "SENT_VAL \<notin> snd ` set (take (unat (num_neighbors (ns ! k))) xs)"
      using hd_segs(2) [of xs] set_take_subset [of "unat (num_neighbors (ns ! k))" "hd (segs xs)"] by (force simp: sent_free_def)
    ultimately show ?thesis using True k(2) by (cases x) auto
  qed
qed simp

definition degrees :: "PMA \<Rightarrow> nat list" where
  "degrees pma = map (unat \<circ> num_neighbors) (nodes pma)"

lemma spaced_rows:
  assumes "E \<noteq> []" "snd (hd E) \<noteq> SENT_VAL" "sent_ids E = [1..<length ns]" "map (unat \<circ> num_neighbors) ns = map length (segs (tl E))"
  shows "spaced ns E"
proof -
  obtain x xs where E: "E = x # xs" using assms(1) by (cases E) auto
  have ids: "sent_ids xs = [1..<length ns]" using assms(2,3) E by simp
  have "unat (num_neighbors (ns ! (1 + j))) \<le> length (segs xs ! Suc j)" if "j < length (sent_ids xs)" for j
  proof -
    have "Suc j < length ns" using that ids by simp
    then have "map (unat \<circ> num_neighbors) ns ! Suc j = map length (segs xs) ! Suc j" using assms(4) E by simp
    moreover have "Suc j < length (segs xs)" using that by (simp add: length_segs)
    ultimately show ?thesis using \<open>Suc j < length ns\<close> by simp
  qed
  then have "spaced ns xs" using spaced_segs [OF ids] by blast
  then show ?thesis using assms(2) E by (cases x) auto
qed

section \<open>Inserting an element\<close>

lemma first_null:
  assumes "no_full_leaf el" "geometry_ok el" "loc < edges_N el"
  shows "\<exists>q. loc \<le> q \<and> q < find_leaf el loc + logN el \<and> edge_dests el ! q = NULL_VAL \<and> (\<forall>c. loc \<le> c \<longrightarrow> c < q \<longrightarrow> edge_dests el ! c \<noteq> NULL_VAL)"
proof -
  note lf = find_leaf_aligned [OF assms(2,3)]
  let ?z = "find_leaf el loc + (logN el - 1)"
  have L: "0 < logN el" using logN_pos [OF assms(2)] by simp
  obtain d where "find_leaf el loc = logN el * d" using lf(1) by blast
  then have "?z mod logN el = (logN el - 1) mod logN el" by (simp only: mod_mult_self4)
  then have "?z mod logN el = logN el - 1" using L by simp
  then have z: "edge_dests el ! ?z = NULL_VAL" "loc \<le> ?z" "?z < find_leaf el loc + logN el"
    using assms(1) lf L by (simp_all add: no_full_leaf_def last_free_def)
  define q where "q = (LEAST c. loc \<le> c \<and> edge_dests el ! c = NULL_VAL)"
  have "loc \<le> q \<and> edge_dests el ! q = NULL_VAL" unfolding q_def by (rule LeastI [of _ ?z]) (use z in simp)
  moreover have "q \<le> ?z" unfolding q_def by (rule Least_le) (use z in simp)
  moreover have "\<forall>c. loc \<le> c \<longrightarrow> c < q \<longrightarrow> edge_dests el ! c \<noteq> NULL_VAL" unfolding q_def using not_less_Least by blast
  ultimately show ?thesis using le_less_trans [OF _ z(3)] by blast
qed

text \<open>The array with the element put at \<open>loc\<close> and the elements up to the empty slot \<open>q\<close> moved by one slot.\<close>

definition put_elem :: "PMA \<Rightarrow> nat \<Rightarrow> nat \<Rightarrow> u32 \<Rightarrow> u32 \<Rightarrow> PMA" where
  "put_elem p loc q v d = moved p loc ((v, d) # slots (edges p) loc q)"

lemma moved_head:
  "sized (edges p) \<Longrightarrow> i + Suc (length ys) \<le> edges_N (edges p) \<Longrightarrow> d \<noteq> SENT_VAL \<Longrightarrow>
   set_slot_at (moved p i ((0, NULL_VAL) # ys)) i v d = moved p i ((v, d) # ys)"
proof -
  assume a: "sized (edges p)" "i + Suc (length ys) \<le> edges_N (edges p)" "d \<noteq> SENT_VAL"
  have u: "[i..<Suc (i + length ys)] = i # [Suc i..<Suc i + length ys]" by (subst upt_conv_Cons) simp_all
  have "(put_at xs i (x # zs))[i := y] = put_at xs i (y # zs)" if "i < length xs" for xs :: "u32 list" and x y zs
    using that by (simp add: put_at_def list_update_append)
  then show ?thesis using a by (simp add: moved_def set_slot_at_def set_range_def sized_def u del: upt_Suc)
qed

lemma insert_elem_eq:
  assumes "sized (edges p)" "loc \<le> q" "q < edges_N (edges p)" "edge_dests (edges p) ! q = NULL_VAL"
    and "\<And>c. loc \<le> c \<Longrightarrow> c < q \<Longrightarrow> edge_dests (edges p) ! c \<noteq> NULL_VAL"
    and "sent_ids (elems (edges p)) = [1..<length (nodes p)]" "d \<noteq> SENT_VAL" "edge_dests (edges p) ! loc \<noteq> d"
  shows "insert_elem rnd t p loc d v src held = rebalance True rnd t (put_elem p loc q v d) loc src held"
proof (cases "q = loc")
  case True
  have "set_slot_at p loc v d = moved p loc [(v, d)]"
    using assms(1,3,7) True by (simp add: moved_def set_slot_at_def set_range_def put_at_def sized_def upd_conv_take_nth_drop)
  then show ?thesis using True assms(1,3,4) by (simp add: insert_elem_def put_elem_def sized_def)
next
  case False
  then have lt: "loc < q" using assms(2) by simp
  have ids: "ids_ok (length (nodes p)) (slots (edges p) loc q)" using ids_ok_slots [OF assms(1,6)] assms(3) by simp
  have "slide_right p loc = Some (moved p loc ((0, NULL_VAL) # slots (edges p) loc q))"
    using lt assms(1-5) ids by (intro slide_right_spec) auto
  moreover have "edge_dests (edges p) ! loc \<noteq> NULL_VAL" using assms(5) lt by simp
  ultimately show ?thesis using assms(1,3,7,8) lt moved_head [OF assms(1), of loc "slots (edges p) loc q" d v]
    by (simp add: insert_elem_def put_elem_def sized_def)
qed

lemma put_elem_slots:
  assumes "sized (edges p)" "loc \<le> q" "q < edges_N (edges p)" "c < edges_N (edges p)"
  shows "edge_dests (edges (put_elem p loc q v d)) ! c =
    (if c < loc \<or> q < c then edge_dests (edges p) ! c else if c = loc then d else edge_dests (edges p) ! (c - 1))"
proof -
  let ?xs = "(v, d) # slots (edges p) loc q"
  have fit: "loc + length ?xs \<le> edges_N (edges p)" using assms(2,3) by simp
  show ?thesis
  proof (cases "c < loc \<or> q < c")
    case True
    then show ?thesis using set_range_outside(2) [OF assms(1) fit assms(4)] assms(2) by (auto simp: put_elem_def)
  next
    case False
    have "snd (?xs ! (c - loc)) = (if c = loc then d else edge_dests (edges p) ! (c - 1))"
    proof (cases "c = loc")
      case c: False
      then obtain k where k: "c = loc + Suc k" using False by (metis less_imp_Suc_add linorder_neqE_nat add_Suc_right)
      then show ?thesis using False by (simp add: nth_slots)
    qed simp
    then show ?thesis using False set_range_inside(2) [OF assms(1) fit, of c] assms(2) by (auto simp: put_elem_def)
  qed
qed

lemma put_elem_filled:
  assumes "sized (edges p)" "loc \<le> c" "c \<le> q" "q < edges_N (edges p)" "d \<noteq> NULL_VAL"
    and "\<And>c. loc \<le> c \<Longrightarrow> c < q \<Longrightarrow> edge_dests (edges p) ! c \<noteq> NULL_VAL"
  shows "edge_dests (edges (put_elem p loc q v d)) ! c \<noteq> NULL_VAL"
proof (cases "c = loc")
  case True
  then show ?thesis using put_elem_slots [of p loc q c v d] assms by simp
next
  case False
  then have "loc \<le> c - 1" "c - 1 < q" using assms(2,3) by linarith+
  then show ?thesis using put_elem_slots [of p loc q c v d] assms False by simp
qed

lemma put_elem_elems:
  assumes "sized (edges p)" "loc \<le> q" "q < edges_N (edges p)" "edge_dests (edges p) ! q = NULL_VAL" "d \<noteq> NULL_VAL"
  shows "elems (edges (put_elem p loc q v d)) =
    filter nonnull (slots (edges p) 0 loc) @ (v, d) # filter nonnull (slots (edges p) loc (edges_N (edges p)))"
proof -
  let ?el = "edges p" and ?xs = "(v, d) # slots (edges p) loc q"
  have fit: "loc + length ?xs \<le> edges_N ?el" "loc + length ?xs = Suc q" using assms(2,3) by simp_all
  have "slots ?el loc (edges_N ?el) = slots ?el loc q @ (edge_vals ?el ! q, edge_dests ?el ! q) # slots ?el (Suc q) (edges_N ?el)"
    using slots_append [of loc q "edges_N ?el" ?el] slots_Cons [of q "edges_N ?el" ?el] assms(2,3) by simp
  then have "filter nonnull (slots ?el loc (edges_N ?el)) = filter nonnull (slots ?el loc q) @ filter nonnull (slots ?el (Suc q) (edges_N ?el))"
    using assms(4) by (simp add: nonnull_def)
  then show ?thesis using elems_set_range [OF assms(1) fit(1)] fit(2) assms(5) by (simp add: put_elem_def nonnull_def)
qed

text \<open>The invariant after the element is put in its place.\<close>

lemma put_elem_ok:
  assumes ok: "sized (edges p)" "geometry_ok (edges p)" "first_ok p" "\<And>c. pointer_at (edges p) (nodes p) c" "\<And>c. packed_at (edges p) c"
    and loc: "0 < loc" "loc \<le> q" "q < edges_N (edges p)" "edge_dests (edges p) ! q = NULL_VAL"
    and mid: "\<And>c. loc \<le> c \<Longrightarrow> c < q \<Longrightarrow> edge_dests (edges p) ! c \<noteq> NULL_VAL"
    and prev: "edge_dests (edges p) ! loc = NULL_VAL \<Longrightarrow> edge_dests (edges p) ! (loc - 1) \<noteq> NULL_VAL"
    and d: "d \<noteq> NULL_VAL"
    and ids: "sent_ids (elems (edges (put_elem p loc q v d))) = [1..<length (nodes p)]"
    and sp: "spaced (nodes p) (elems (edges (put_elem p loc q v d)))"
  shows "array_ok (put_elem p loc q v d)"
proof -
  let ?el = "edges p" and ?el' = "edges (put_elem p loc q v d)"
  note new = put_elem_slots [OF ok(1) loc(2,3), where v = v and d = d]
  have N: "edges_N ?el' = edges_N ?el" "logN ?el' = logN ?el" by (simp_all add: put_elem_def)
  have filled: "edge_dests ?el' ! c \<noteq> NULL_VAL" if "loc \<le> c" "c \<le> q" for c
    by (rule put_elem_filled [OF ok(1) that loc(3) d mid])
  have "packed_at ?el' c" for c unfolding packed_at_def N
  proof (intro impI)
    assume c: "c < edges_N ?el" "c mod logN ?el \<noteq> 0" "edge_dests ?el' ! c \<noteq> NULL_VAL"
    have c1: "c - 1 < edges_N ?el" using c(1) by simp
    show "edge_dests ?el' ! (c - 1) \<noteq> NULL_VAL"
    proof (cases "loc \<le> c - 1 \<and> c - 1 \<le> q")
      case True
      then show ?thesis using filled by simp
    next
      case False
      have old: "edge_dests ?el' ! (c - 1) = edge_dests ?el ! (c - 1)" using False new [OF c1] by auto
      show ?thesis
      proof (cases "c = loc")
        case True
        then show ?thesis using old prev ok(5) [of loc] c loc(1) by (auto simp: packed_at_def)
      next
        case False
        have "c < loc \<or> q < c" using False \<open>\<not> (loc \<le> c - 1 \<and> c - 1 \<le> q)\<close> loc by linarith
        then show ?thesis using old new [OF c(1)] ok(5) [of c] c by (simp add: packed_at_def)
      qed
    qed
  qed
  moreover have "edge_dests ?el' ! 0 = edge_dests ?el ! 0" using new [of 0] loc by simp
  ultimately show ?thesis using ok ids sp loc d unfolding put_elem_def
    by (intro array_ok_moved) (simp_all add: first_ok_def)
qed

lemma put_elem_free:
  assumes "sized (edges p)" "geometry_ok (edges p)" "no_full_leaf (edges p)"
    and "loc \<le> q" "q < find_leaf (edges p) loc + logN (edges p)" "loc < edges_N (edges p)"
    and "c < find_leaf (edges p) loc \<or> find_leaf (edges p) loc + logN (edges p) \<le> c"
  shows "last_free (edges (put_elem p loc q v d)) c"
proof -
  note lf = find_leaf_aligned [OF assms(2,6)]
  have q: "q < edges_N (edges p)" "c < loc \<or> q < c" using assms(5,7) lf by linarith+
  show ?thesis using assms(3) q put_elem_slots [OF assms(1,4) q(1), of c v d]
    by (auto simp: no_full_leaf_def last_free_def put_elem_def)
qed

lemma put_elem_gap:
  assumes "sized (edges p)" "no_gap (edges p)" "loc \<le> q" "q < edges_N (edges p)" "edge_dests (edges p) ! q = NULL_VAL" "d \<noteq> SENT_VAL" "d \<noteq> NULL_VAL"
    and "\<And>c. loc \<le> c \<Longrightarrow> c < q \<Longrightarrow> edge_dests (edges p) ! c \<noteq> NULL_VAL"
  shows "no_gap (edges (put_elem p loc q v d))"
  unfolding no_gap_def
proof (intro allI impI notI)
  let ?el = "edges p" and ?el' = "edges (put_elem p loc q v d)"
  note new = put_elem_slots [OF assms(1,3,4), where v = v and d = d]
  fix c x assume a: "c mod logN ?el' = 0" "c \<le> x" "x < edges_N ?el'" "edge_dests ?el' ! x = SENT_VAL" "edge_dests ?el' ! c = NULL_VAL"
  have N: "c < edges_N ?el" "x < edges_N ?el" "c mod logN ?el = 0" using a by (simp_all add: put_elem_def)
  have c1: "c < loc \<or> q < c" using put_elem_filled [OF assms(1) _ _ assms(4,7,8), where c = c and v = v] a(5) by (metis linorder_not_less)
  then have c: "c < loc \<or> q < c" "edge_dests ?el ! c = NULL_VAL" using new [OF N(1)] a(5) by simp_all
  have "\<exists>y \<ge> c. y < edges_N ?el \<and> edge_dests ?el ! y = SENT_VAL"
  proof (cases "x < loc \<or> q < x")
    case True
    then show ?thesis using new [OF N(2)] a N by auto
  next
    case False
    then have "x \<noteq> loc" "edge_dests ?el ! (x - 1) = SENT_VAL" using new [OF N(2)] a(4) assms(6) by (auto split: if_splits)
    then show ?thesis using False a(2) c(1) N by (intro exI [of _ "x - 1"]) auto
  qed
  then show False using assms(2) c(2) N unfolding no_gap_def by metis
qed

section \<open>Searching a vertex\<close>

lemma row_sorted_slots:
  assumes "sorted_wrt (<) (map snd (filter nonnull (slots el lo hi)))" "lo \<le> p" "p < q" "q < hi"
    "edge_dests el ! p \<noteq> NULL_VAL" "edge_dests el ! q \<noteq> NULL_VAL"
  shows "edge_dests el ! p < edge_dests el ! q"
proof -
  have "slots el lo hi = slots el lo p @ (edge_vals el ! p, edge_dests el ! p) # slots el (Suc p) q @ (edge_vals el ! q, edge_dests el ! q) # slots el (Suc q) hi"
    using slots_append [of lo p hi el] slots_Cons [of p hi el] slots_append [of "Suc p" q hi el] slots_Cons [of q hi el] assms(2-4) by simp
  then show ?thesis using assms(1,5,6) by (simp add: nonnull_def sorted_wrt_append)
qed

lemma vertex_searchable:
  assumes ok: "array_ok p" and gap: "no_gap (edges p)" and i: "Suc i < length (nodes p)" and srt: "sorted_wrt (<) (map snd (rows p ! i))"
  shows "searchable (edges p) (Suc (beginning (nodes p ! i))) (node_end (nodes p ! i))" "node_end (nodes p ! i) = vertex_end p i"
proof -
  note facts = array_facts [OF ok]
  have il: "i < length (nodes p)" using i by simp
  note b = array_beginning [OF ok zero_less_Suc i] and vb = vertex_bounds [OF ok il]
  show e: "node_end (nodes p ! i) = vertex_end p i" using b(4) i by (simp add: vertex_end_def)
  have hi: "edge_dests (edges p) ! vertex_end p i = SENT_VAL" "vertex_end p i < edges_N (edges p)" using b i by (simp_all add: vertex_end_def)
  have "sorted_wrt (<) (map snd (filter nonnull (slots (edges p) (Suc (beginning (nodes p ! i))) (vertex_end p i))))"
    using srt nth_rows [OF ok il] by (simp add: row_at_def)
  note asc = row_sorted_slots [OF this]
  have leaf: "edge_dests (edges p) ! c \<noteq> NULL_VAL" if "c \<le> vertex_end p i" "c mod logN (edges p) = 0" for c
    using gap hi that unfolding no_gap_def by metis
  show "searchable (edges p) (Suc (beginning (nodes p ! i))) (node_end (nodes p ! i))"
    using facts(1,2,5) vb hi asc leaf vertex_no_sent [OF ok il] unfolding e searchable_def
    by (auto simp: geometry_ok_def Suc_le_eq)
qed

lemma search_vertex_ok:
  assumes ok: "array_ok p" "no_gap (edges p)" "Suc i < length (nodes p)" "sorted_wrt (<) (map snd (rows p ! i))" and d: "d < SENT_VAL"
  shows "\<exists>loc. search_vertex p i d = Some loc \<and> loc < edges_N (edges p) \<and> belongs (edges p) d (Suc (beginning (nodes p ! i))) (vertex_end p i) loc"
proof -
  note se = vertex_searchable [OF ok]
  obtain loc where l: "binary_search (edges p) d (Suc (beginning (nodes p ! i))) (node_end (nodes p ! i)) = Some loc"
      "belongs (edges p) d (Suc (beginning (nodes p ! i))) (vertex_end p i) loc"
    using binary_search_ok [OF se(1) d] se(2) by auto
  have "loc < edges_N (edges p)" "length (edge_dests (edges p)) = edges_N (edges p)"
    using l(2) se by (auto simp: belongs_def searchable_def sized_def)
  then show ?thesis using l by (simp add: search_vertex_def)
qed

section \<open>Edges of a vertex as a sorted list\<close>

fun insert_edge :: "u32 \<Rightarrow> u32 \<Rightarrow> (u32 \<times> u32) list \<Rightarrow> (u32 \<times> u32) list" where
  "insert_edge v d [] = [(v, d)]"
| "insert_edge v d ((w, e) # xs) = (if e < d then (w, e) # insert_edge v d xs else if e = d then (v, d) # xs else (v, d) # (w, e) # xs)"

definition delete_edge :: "u32 \<Rightarrow> (u32 \<times> u32) list \<Rightarrow> (u32 \<times> u32) list" where
  "delete_edge d xs = filter (\<lambda>(w, e). e \<noteq> d) xs"

definition edge_map :: "(u32 \<times> u32) list \<Rightarrow> u32 \<rightharpoonup> u32" where
  "edge_map xs = map_of (map (\<lambda>(v, d). (d, v)) xs)"

lemma insert_edge_split:
  "\<forall>x \<in> set xs. snd x < d \<Longrightarrow> \<forall>x \<in> set ys. d < snd x \<Longrightarrow> insert_edge v d (xs @ ys) = xs @ (v, d) # ys"
  by (induction xs) (cases ys, auto)

lemma insert_edge_same: "\<forall>x \<in> set xs. snd x < d \<Longrightarrow> insert_edge v d (xs @ (w, d) # ys) = xs @ (v, d) # ys"
  by (induction xs) auto

lemma insert_edge_sorted: "sorted_wrt (<) (map snd xs) \<Longrightarrow> sorted_wrt (<) (map snd (insert_edge v d xs))"
proof -
  have "snd ` set (insert_edge v d xs) \<subseteq> insert d (snd ` set xs)" for xs by (induction v d xs rule: insert_edge.induct) auto
  then show "sorted_wrt (<) (map snd xs) \<Longrightarrow> ?thesis"
    by (induction v d xs rule: insert_edge.induct) (fastforce+)
qed

lemma insert_edge_map: "sorted_wrt (<) (map snd xs) \<Longrightarrow> edge_map (insert_edge v d xs) = (edge_map xs)(d \<mapsto> v)"
  by (induction v d xs rule: insert_edge.induct) (auto simp: edge_map_def fun_eq_iff)

lemma length_insert_edge: "sorted_wrt (<) (map snd xs) \<Longrightarrow> length (insert_edge v d xs) = (if d \<in> snd ` set xs then length xs else Suc (length xs))"
  by (induction v d xs rule: insert_edge.induct) force+

lemma delete_edge_split:
  "\<forall>x \<in> set xs. snd x < d \<Longrightarrow> \<forall>x \<in> set ys. d < snd x \<Longrightarrow> delete_edge d (xs @ (w, d) # ys) = xs @ ys"
proof -
  assume a: "\<forall>x \<in> set xs. snd x < d" "\<forall>x \<in> set ys. d < snd x"
  have "filter (\<lambda>(w, e). e \<noteq> d) xs = xs" "filter (\<lambda>(w, e). e \<noteq> d) ys = ys" by (rule filter_True, use a in force)+
  then show ?thesis by (simp add: delete_edge_def)
qed

lemma delete_edge_sorted: "sorted_wrt (<) (map snd xs) \<Longrightarrow> sorted_wrt (<) (map snd (delete_edge d xs))"
  by (induction xs) (auto simp: delete_edge_def)

lemma delete_edge_map: "edge_map (delete_edge d xs) = (edge_map xs)(d := None)"
  by (induction xs) (auto simp: edge_map_def delete_edge_def fun_eq_iff)

lemma edge_map_dom: "dom (edge_map xs) = snd ` set xs"
  by (force simp: edge_map_def dom_map_of_conv_image_fst image_image)

section \<open>The invariant of the graph\<close>

definition graph_ok :: "PMA \<Rightarrow> bool" where
  "graph_ok p \<longleftrightarrow> array_ok p \<and> no_full_leaf (edges p) \<and> no_gap (edges p) \<and> bounds_ok p \<and> degrees p = map length (rows p) \<and>
    (\<forall>r \<in> set (rows p). sorted_wrt (<) (map snd r)) \<and> last_end p"

lemma graph_okD:
  assumes "graph_ok p"
  shows "array_ok p" "no_full_leaf (edges p)" "no_gap (edges p)" "bounds_ok p" "degrees p = map length (rows p)"
    "i < length (nodes p) \<Longrightarrow> sorted_wrt (<) (map snd (rows p ! i))" "last_end p"
  using assms length_rows [of p] by (auto simp: graph_ok_def)

lemma relock_rows: "relock p q \<Longrightarrow> rows q = rows p" "relock p q \<Longrightarrow> degrees q = degrees p"
  using relock_degrees [of p q] by (simp_all add: rows_def degrees_def relock_fields flip: map_map)

lemma relock_graph_ok: "relock p q \<Longrightarrow> graph_ok p \<Longrightarrow> graph_ok q"
  using relock_array_ok [of p q] relock_bounds_ok [of p q] relock_rows [of p q] relock_last_end [of p q] first_slot(5) [of p]
  by (simp add: graph_ok_def relock_fields)

lemma settled_rows: "settled p q \<Longrightarrow> rows q = rows p" "settled p q \<Longrightarrow> degrees q = degrees p"
  by (simp_all add: settled_def rows_def degrees_def flip: map_map)

text \<open>An element in its place between those of a vertex.\<close>

lemma vertex_split:
  assumes ok: "array_ok p" and i: "i < length (nodes p)" and loc: "beginning (nodes p ! i) < loc" "loc \<le> vertex_end p i"
  defines "A \<equiv> filter nonnull (slots (edges p) (Suc (beginning (nodes p ! i))) loc)" and "B \<equiv> filter nonnull (slots (edges p) loc (vertex_end p i))"
  shows "rows p ! i = A @ B" "sent_free A" "sent_free B"
    "tl (filter nonnull (slots (edges p) 0 loc)) = row_before p i @ A" "filter nonnull (slots (edges p) 0 loc) \<noteq> []"
    "filter nonnull (slots (edges p) loc (edges_N (edges p))) = B @ row_after p i"
proof -
  note vb = vertex_bounds [OF ok i]
  show "rows p ! i = A @ B"
    using slots_append [of "Suc (beginning (nodes p ! i))" loc "vertex_end p i" "edges p"] loc
    by (simp add: nth_rows [OF ok i] row_at_def A_def B_def)
  show "sent_free A" "sent_free B" unfolding A_def B_def using loc by (intro row_sent_free [OF ok i]; simp)+
  have "slots (edges p) 0 loc = slots (edges p) 0 (Suc (beginning (nodes p ! i))) @ slots (edges p) (Suc (beginning (nodes p ! i))) loc"
    using loc by (intro slots_append) auto
  moreover have ne: "filter nonnull (slots (edges p) 0 (Suc (beginning (nodes p ! i)))) \<noteq> []"
    using first_slot(2) [OF ok] by (simp add: slots_Cons nonnull_def)
  ultimately show "tl (filter nonnull (slots (edges p) 0 loc)) = row_before p i @ A" "filter nonnull (slots (edges p) 0 loc) \<noteq> []"
    by (simp_all add: row_before_def A_def)
  show "filter nonnull (slots (edges p) loc (edges_N (edges p))) = B @ row_after p i"
    using slots_append [of loc "vertex_end p i" "edges_N (edges p)" "edges p"] loc vb by (simp add: row_after_def B_def)
qed

text \<open>Replacing the elements of one vertex replaces its row.\<close>

lemma rows_replace:
  assumes ok: "array_ok p" and i: "i < length (nodes p)" and r: "sent_free r"
  shows "segs (row_before p i @ r @ row_after p i) = (rows p)[i := r]"
proof -
  have "segs (row_before p i @ r @ row_after p i) = butlast (segs (row_before p i)) @ r # tl (segs (row_after p i))"
    by (rule segs_focus [OF before_end [OF ok i] after_begin [OF ok i] r])
  moreover have "length (butlast (segs (row_before p i))) = i" using sent_ids_before [OF ok i] by (simp add: length_segs)
  ultimately show ?thesis using rows_parts [OF ok i] by (simp add: list_update_append)
qed

lemma sent_ids_row: "sent_free r \<Longrightarrow> sent_ids r = []"
  by (auto simp: sent_free_def sent_ids_def filter_empty_conv)

lemma sent_ids_around:
  assumes "array_ok p" "i < length (nodes p)"
  shows "sent_ids (row_before p i @ row_after p i) = [1..<length (nodes p)]"
proof -
  have "sent_ids (row_at p i) = []" unfolding row_at_def by (rule sent_ids_row [OF row_sent_free [OF assms order_refl order_refl]])
  then show ?thesis using sent_ids_tl [OF assms(1)] elems_parts [OF assms] by simp
qed

lemma change_degree_fields [simp]:
  "edges (change_degree p s k) = edges p" "length (nodes (change_degree p s k)) = length (nodes p)"
  "node_lock (change_degree p s k) = node_lock p" "next_task_id (change_degree p s k) = next_task_id p"
  "upper_density_bound (change_degree p s k) = upper_density_bound p" "lower_density_bound (change_degree p s k) = lower_density_bound p"
  by (simp_all add: change_degree_def)

lemma change_degree_nodes:
  assumes "s < length (nodes p)"
  shows "beginning (nodes (change_degree p s k) ! j) = beginning (nodes p ! j)" "node_end (nodes (change_degree p s k) ! j) = node_end (nodes p ! j)"
    "node_lock_of (nodes (change_degree p s k) ! j) = node_lock_of (nodes p ! j)"
    "num_neighbors (nodes (change_degree p s k) ! j) = num_neighbors (nodes p ! j) + (if j = s then k else 0)"
  using assms by (cases "j = s"; simp add: change_degree_def)+

lemma change_degree_degrees:
  assumes "s < length (nodes p)"
  shows "degrees (change_degree p s k) = (degrees p)[s := unat (num_neighbors (nodes p ! s) + k)]"
  using assms by (simp add: degrees_def change_degree_def map_update)

lemma few_elems:
  assumes "array_ok p" "no_full_leaf (edges p)"
  shows "length (elems (edges p)) < edges_N (edges p)"
proof -
  note facts = array_facts [OF assms(1)]
  have L: "0 < logN (edges p)" "edges_N (edges p) = logN (edges p) * 2 ^ edges_H (edges p)"
    using facts(2) logN_pos [of "edges p"] by (auto simp: geometry_ok_def)
  have "num_in (edges p) 0 (edges_N (edges p)) \<le> (logN (edges p) - 1) * 2 ^ edges_H (edges p)"
    using num_in_no_full [OF assms(2) facts(1) L(1), of 0 "2 ^ edges_H (edges p)"] L(2) by simp
  also have "\<dots> < edges_N (edges p)" unfolding L(2) using L(1) by simp
  finally show ?thesis using num_in_all [OF facts(1)] by simp
qed

lemma row_length:
  assumes "array_ok p" "i < length (nodes p)"
  shows "Suc (length (rows p ! i)) \<le> length (elems (edges p))"
proof -
  have "elems (edges p) \<noteq> []" using first_elem(1) [of p] assms(1) by (simp add: array_ok_def)
  then show ?thesis using elems_parts [OF assms] nth_rows [OF assms] by (cases "elems (edges p)") auto
qed

section \<open>Adding an edge\<close>

text \<open>What an update keeps: the invariant, free locks, the vertices and the counters of tasks.\<close>

definition same_frame :: "PMA \<Rightarrow> PMA \<Rightarrow> bool" where
  "same_frame p q \<longleftrightarrow> length (nodes q) = length (nodes p) \<and> node_lock q = node_lock p \<and> next_task_id q = next_task_id p"

lemma relock_frame: "relock p q \<Longrightarrow> same_frame p q"
  by (simp add: same_frame_def relock_fields)

lemma same_frame_trans [trans]: "same_frame p q \<Longrightarrow> same_frame q r \<Longrightarrow> same_frame p r"
  by (simp add: same_frame_def)

lemma settled_frame: "settled p q \<Longrightarrow> same_frame p q"
  using map_eq_imp_length_eq [of num_neighbors "nodes q" num_neighbors "nodes p"] by (simp add: settled_def same_frame_def)

lemma settled_graph_ok:
  assumes "settled p q" "no_gap (edges q)" "degrees p = map length (rows p)" "\<forall>r \<in> set (rows p). sorted_wrt (<) (map snd r)" "last_end p"
  shows "graph_ok q"
  using assms settled_rows [OF assms(1)] by (simp add: graph_ok_def settled_def)

lemma sorted_update: "\<forall>r \<in> set rs. P r \<Longrightarrow> P x \<Longrightarrow> \<forall>r \<in> set (rs[i := x]). P r"
  using set_update_subset_insert by fastforce

text \<open>One row is replaced: what the elements become, and that the invariant of the graph holds when the array has settled.\<close>

lemma replaced_row:
  assumes ok: "array_ok p" "degrees p = map length (rows p)" and i: "i < length (nodes p)" and R: "sent_free R"
    and E: "E \<noteq> []" "hd E = hd (elems (edges p))" "tl E = row_before p i @ R @ row_after p i"
    and ns: "map (unat \<circ> num_neighbors) ns = (degrees p)[i := length R]"
  shows "segs (tl E) = (rows p)[i := R]" "sent_ids E = [1..<length (nodes p)]" "spaced ns E"
proof -
  have len: "length ns = length (nodes p)" using arg_cong [OF ns, of length] by (simp add: degrees_def)
  show segs: "segs (tl E) = (rows p)[i := R]" unfolding E(3) by (rule rows_replace [OF ok(1) i R])
  have h: "snd (hd E) \<noteq> SENT_VAL"
    using E(2) first_elem [of p] first_slot(3) [OF ok(1)] ok(1) by (simp add: array_ok_def hd_conv_nth)
  then have "sent_ids E = sent_ids (tl E)" using E(1) by (cases E) auto
  then show ids: "sent_ids E = [1..<length (nodes p)]" using E(3) sent_ids_around [OF ok(1) i] sent_ids_row [OF R] by simp
  show "spaced ns E" by (rule spaced_rows [OF E(1) h]) (simp_all add: ids len ns segs ok(2) map_update)
qed

lemma replaced_graph_ok:
  assumes g: "graph_ok p" and s: "settled P q" "no_gap (edges q)" "last_end P"
    and r: "rows P = (rows p)[i := R]" "degrees P = (degrees p)[i := length R]" "sorted_wrt (<) (map snd R)"
  shows "graph_ok q \<and> rows q = (rows p)[i := R]"
proof
  have "\<forall>r \<in> set (rows P). sorted_wrt (<) (map snd r)"
    unfolding r(1) by (rule sorted_update) (use g r(3) in \<open>simp_all add: graph_ok_def\<close>)
  then show "graph_ok q" using settled_graph_ok [OF s(1,2) _ _ s(3)] r graph_okD(5) [OF g] by (simp add: map_update)
  show "rows q = (rows p)[i := R]" using settled_rows(1) [OF s(1)] r(1) by simp
qed

lemma change_degree_last_end: "i < length (nodes p) \<Longrightarrow> last_end (change_degree p i k) = last_end p"
  by (simp add: last_end_def Let_def change_degree_nodes)

lemma moved_degrees: "degrees (moved p k xs) = degrees p"
  unfolding degrees_def by (intro nth_equalityI) (simp_all add: locks_moved)

lemma degree_of_row:
  assumes "graph_ok p" "i < length (nodes p)"
  shows "unat (num_neighbors (nodes p ! i)) = length (rows p ! i)"
proof -
  have "degrees p ! i = length (rows p ! i)" using graph_okD(5) [OF assms(1)] assms(2) length_rows [OF graph_okD(1) [OF assms(1)]] by simp
  then show ?thesis using assms(2) by (simp add: degrees_def)
qed

text \<open>The place of an element splits the row into the smaller and the larger elements.\<close>

lemma belongs_split:
  assumes "belongs el d lo hi loc"
  shows "\<forall>x \<in> set (filter nonnull (slots el lo loc)). snd x < d"
    "edge_dests el ! loc \<noteq> d \<Longrightarrow> \<forall>x \<in> set (filter nonnull (slots el loc hi)). d < snd x"
    "\<forall>x \<in> set (filter nonnull (slots el (Suc loc) hi)). d < snd x"
proof -
  show "\<forall>x \<in> set (filter nonnull (slots el lo loc)). snd x < d" using assms by (auto simp: slots_def belongs_def nonnull_def)
  show "\<forall>x \<in> set (filter nonnull (slots el (Suc loc) hi)). d < snd x" using assms by (auto simp: slots_def belongs_def nonnull_def)
  assume ne: "edge_dests el ! loc \<noteq> d"
  have "d < edge_dests el ! c" if "loc \<le> c" "c < hi" "edge_dests el ! c \<noteq> NULL_VAL" for c
    using assms ne that by (cases "c = loc") (auto simp: belongs_def)
  then show "\<forall>x \<in> set (filter nonnull (slots el loc hi)). d < snd x" by (auto simp: slots_def nonnull_def)
qed

lemma locks_change_degree: "i < length (nodes p) \<Longrightarrow> locks_are t (nodes (change_degree p i k)) H S = locks_are t (nodes p) H S"
  by (simp add: locks_are_def change_degree_nodes)

text \<open>The array after an edge is put at its place, before it is rebalanced.\<close>

lemma put_edge_ok:
  fixes p i d loc q0 v
  defines "P \<equiv> put_elem (change_degree p i 1) loc q0 v d"
  assumes g: "graph_ok p" and i: "i < length (nodes p)" and d: "d < SENT_VAL"
    and loc: "beginning (nodes p ! i) < loc" "loc \<le> vertex_end p i" "loc < edges_N (edges p)"
    and bel: "belongs (edges p) d (Suc (beginning (nodes p ! i))) (vertex_end p i) loc" "edge_dests (edges p) ! loc \<noteq> d"
    and q0: "loc \<le> q0" "q0 < edges_N (edges p)" "edge_dests (edges p) ! q0 = NULL_VAL" "\<forall>c. loc \<le> c \<longrightarrow> c < q0 \<longrightarrow> edge_dests (edges p) ! c \<noteq> NULL_VAL"
    and size: "Suc (length (elems (edges p))) \<le> 2 ^ 32"
  shows "array_ok P" "rows P = (rows p)[i := insert_edge v d (rows p ! i)]" "degrees P = (degrees p)[i := length (insert_edge v d (rows p ! i))]"
    "length (elems (edges P)) = Suc (length (elems (edges p)))" "d \<notin> snd ` set (rows p ! i)"
    "last_end P"
proof -
  let ?el = "edges p" and ?p = "change_degree p i 1"
  note ok = graph_okD(1) [OF g] and deg = change_degree_nodes [OF i, of 1]
  note facts = array_facts [OF ok]
  define A where "A = filter nonnull (slots ?el (Suc (beginning (nodes p ! i))) loc)"
  define B where "B = filter nonnull (slots ?el loc (vertex_end p i))"
  note vs = vertex_split [OF ok i loc(1,2), folded A_def B_def]
  have d': "d \<noteq> NULL_VAL" "d \<noteq> SENT_VAL" using d below_SENT by auto
  have AB: "\<forall>x \<in> set A. snd x < d" "\<forall>x \<in> set B. d < snd x" using belongs_split(1,2) [OF bel(1)] bel(2) by (simp_all add: A_def B_def)
  have ins: "insert_edge v d (rows p ! i) = A @ (v, d) # B" unfolding vs(1) by (rule insert_edge_split [OF AB])
  show new: "d \<notin> snd ` set (rows p ! i)" using AB vs(1) by force
  have elemsP: "elems (edges P) = filter nonnull (slots ?el 0 loc) @ (v, d) # filter nonnull (slots ?el loc (edges_N ?el))"
    using put_elem_elems [of ?p loc q0 d v] facts(1) q0 d' by (simp add: P_def)
  have split0: "elems ?el = filter nonnull (slots ?el 0 loc) @ filter nonnull (slots ?el loc (edges_N ?el))"
    using elems_split [OF facts(1), of loc "edges_N ?el"] loc(3) by simp
  show "length (elems (edges P)) = Suc (length (elems ?el))" unfolding elemsP split0 by simp
  have "unat (num_neighbors (nodes p ! i) + 1) = Suc (length (rows p ! i))"
    using degree_of_row [OF g i] row_length [OF ok i] size by (simp add: unat_word_ariths)
  then have degp: "degrees ?p = (degrees p)[i := length (A @ (v, d) # B)]"
    using vs(1) change_degree_degrees [OF i, of 1] by simp
  have free: "sent_free (A @ (v, d) # B)" using vs(2,3) d' by (auto simp: sent_free_def)
  have E: "elems (edges P) \<noteq> []" "hd (elems (edges P)) = hd (elems ?el)" "tl (elems (edges P)) = row_before p i @ (A @ (v, d) # B) @ row_after p i"
    using vs(4,5,6) by (simp_all add: elemsP split0)
  note rep = replaced_row [OF ok graph_okD(5) [OF g] i free E degp [unfolded degrees_def [of ?p]]]
  show "rows P = (rows p)[i := insert_edge v d (rows p ! i)]" using rep(1) unfolding ins rows_def [of P] .
  show "degrees P = (degrees p)[i := length (insert_edge v d (rows p ! i))]"
    using degp unfolding ins P_def put_elem_def moved_degrees .
  show okP: "array_ok P" unfolding P_def
  proof (rule put_elem_ok)
    show "pointer_at (edges ?p) (nodes ?p) c" for c using facts(6) [of c] by (simp add: pointer_at_def deg)
    show "first_ok ?p" using facts(4) by (simp add: first_ok_def deg)
    show "edge_dests (edges ?p) ! (loc - 1) \<noteq> NULL_VAL" if "edge_dests (edges ?p) ! loc = NULL_VAL" using bel that by (simp add: belongs_def)
  qed (use facts loc q0 d' rep in \<open>auto simp: P_def\<close>)
  show "last_end P" using okP facts(1) q0 graph_okD(7) [OF g] i unfolding P_def put_elem_def
    by (intro last_end_moved) (simp_all add: change_degree_last_end)
qed

lemma insert_elem_ok:
  assumes g: "graph_ok p" and i: "i < length (nodes p)" and t: "task_ok t" and r: "rounding_ok rnd"
    and l: "snd held < length (nodes p)" "locks_are t (nodes p) (lock_range held) {}"
    and d: "d < SENT_VAL" and loc: "beginning (nodes p ! i) < loc" "loc \<le> vertex_end p i" "loc < edges_N (edges p)"
    and bel: "belongs (edges p) d (Suc (beginning (nodes p ! i))) (vertex_end p i) loc" "edge_dests (edges p) ! loc \<noteq> d"
    and size: "4 * Suc (length (elems (edges p))) \<le> 2 ^ 32"
  shows "\<exists>q. insert_elem rnd t (change_degree p i 1) loc d v i held = Some q \<and> graph_ok q \<and> quiet (nodes q) \<and> same_frame p q \<and>
    rows q = (rows p)[i := insert_edge v d (rows p ! i)] \<and> d \<notin> snd ` set (rows p ! i) \<and> length (elems (edges q)) = Suc (length (elems (edges p))) \<and>
    (edges_N (edges q) = edges_N (edges p) \<or> edges_N (edges q) = 2 * edges_N (edges p) \<and> edges_N (edges p) \<le> 2 * Suc (length (elems (edges p))))"
proof -
  let ?el = "edges p" and ?p = "change_degree p i 1"
  note ok = graph_okD(1) [OF g] and full = graph_okD(2) [OF g] and gap = graph_okD(3) [OF g] and srt = graph_okD(6) [OF g i]
  note facts = array_facts [OF ok]
  have d': "d \<noteq> NULL_VAL" "d \<noteq> SENT_VAL" using d below_SENT by auto
  obtain q0 where q0: "loc \<le> q0" "q0 < find_leaf ?el loc + logN ?el" "edge_dests ?el ! q0 = NULL_VAL" "\<forall>c. loc \<le> c \<longrightarrow> c < q0 \<longrightarrow> edge_dests ?el ! c \<noteq> NULL_VAL"
    using first_null [OF full facts(2) loc(3)] by blast
  have qN: "q0 < edges_N ?el" using q0(2) find_leaf_aligned(4) [OF facts(2) loc(3)] by linarith
  have "Suc (length (elems ?el)) \<le> 2 ^ 32" using size by simp
  note P = put_edge_ok(1-4) [OF g i d loc bel q0(1) qN q0(3,4) this, where v = v] put_edge_ok(6) [OF g i d loc bel q0(1) qN q0(3,4) this, where v = v] put_edge_ok(5) [OF g i d loc bel q0(1) qN q0(3,4) this]
  let ?P = "put_elem ?p loc q0 v d"
  have "locks_are t (nodes ?p) (lock_range held) {}" using l(2) locks_change_degree [OF i] by blast
  then have locksP: "locks_are t (nodes ?P) (lock_range held) {}" unfolding put_elem_def locks_are_moved .
  have fieldsP: "find_leaf (edges ?P) loc = find_leaf ?el loc" "logN (edges ?P) = logN ?el" "edges_N (edges ?P) = edges_N ?el"
    "length (nodes ?P) = length (nodes p)" by (simp_all add: put_elem_def find_leaf_def)
  have boundsP: "bounds_ok ?P" using graph_okD(4) [OF g] by (simp add: bounds_ok_def put_elem_def)
  have freeP: "last_free (edges ?P) c" if "c < find_leaf (edges ?P) loc \<or> find_leaf (edges ?P) loc + logN (edges ?P) \<le> c" for c
    using put_elem_free [of ?p loc q0 c v d] facts full q0 loc(3) that unfolding fieldsP by simp
  have gapP: "no_gap (edges ?P)" using facts gap q0 qN d' by (intro put_elem_gap) auto
  have sizeP: "2 * edges_N (edges ?P) \<le> 2 ^ 32 \<or> 2 * length (elems (edges ?P)) < edges_N (edges ?P)"
    using size P(4) unfolding fieldsP by (intro disjCI) simp
  obtain q where q: "rebalance True rnd t ?P loc i held = Some q" "settled ?P q" "no_gap (edges q)"
      "edges_N (edges q) = edges_N (edges ?P) \<or> edges_N (edges q) = 2 * edges_N (edges ?P) \<and> edges_N (edges ?P) \<le> 2 * length (elems (edges ?P))"
    using rebalance_grow_ok [where index = loc and src = i, OF t P(1) _ _ _ locksP boundsP r gapP freeP sizeP] loc(3) i l(1)
    unfolding fieldsP by blast
  have "insert_elem rnd t ?p loc d v i held = Some q"
    using insert_elem_eq [of ?p loc q0 d rnd t v i held] facts q0 qN d' bel(2) q(1) by simp
  moreover have "graph_ok q \<and> rows q = (rows p)[i := insert_edge v d (rows p ! i)]"
    by (rule replaced_graph_ok [OF g q(2,3) P(5,2,3) insert_edge_sorted [OF srt]])
  moreover have "same_frame p q" using settled_frame [OF q(2)] by (simp add: same_frame_def put_elem_def)
  ultimately show ?thesis using q(2,4) P(4,6) unfolding fieldsP by (auto simp: settled_def)
qed

end
