(* ===== verification/PMA_Edges.thy ===== *)
theory PMA_Edges
  imports PMA_Graph
begin

unbundle bit_operations_syntax

text \<open>
  The operations on edges, from the locks they take to the locks they give back: adding or updating, finding and removing an edge of a vertex
  that is not the last one.  Each refines the operation on the list of edges of the vertex.
\<close>

section \<open>Changing the value of an edge\<close>

lemma set_value_moved:
  assumes "sized (edges p)" "loc < edges_N (edges p)" "edge_dests (edges p) ! loc = d" "d \<noteq> SENT_VAL"
  shows "set_value p loc v = moved p loc [(v, d)]"
proof -
  have "put_at (edge_dests (edges p)) loc [d] = edge_dests (edges p)"
    using id_take_nth_drop [of loc "edge_dests (edges p)"] assms by (simp add: put_at_def sized_def)
  then show ?thesis using assms by (simp add: set_value_def moved_def set_range_def sized_def) (simp add: put_at_def upd_conv_take_nth_drop)
qed

lemma set_value_fields [simp]:
  "edge_dests (edges (set_value p loc v)) = edge_dests (edges p)" "edges_N (edges (set_value p loc v)) = edges_N (edges p)"
  "logN (edges (set_value p loc v)) = logN (edges p)" "nodes (set_value p loc v) = nodes p"
  "length (edge_vals (edges (set_value p loc v))) = length (edge_vals (edges p))" "node_lock (set_value p loc v) = node_lock p"
  "next_task_id (set_value p loc v) = next_task_id p"
  by (simp_all add: set_value_def)

lemma set_value_keeps:
  "no_full_leaf (edges (set_value p loc v)) = no_full_leaf (edges p)" "no_gap (edges (set_value p loc v)) = no_gap (edges p)"
  "last_end (set_value p loc v) = last_end p" "bounds_ok (set_value p loc v) = bounds_ok p"
  by (simp_all add: no_full_leaf_def last_free_def no_gap_def last_end_def bounds_ok_def) (simp add: set_value_def)

text \<open>The place of an edge that is there.\<close>

lemma found_split:
  assumes ok: "array_ok p" and i: "i < length (nodes p)" and loc: "beginning (nodes p ! i) < loc" "loc < vertex_end p i"
    and bel: "belongs (edges p) d (Suc (beginning (nodes p ! i))) (vertex_end p i) loc" "edge_dests (edges p) ! loc = d" and d: "d < SENT_VAL"
  defines "A \<equiv> filter nonnull (slots (edges p) (Suc (beginning (nodes p ! i))) loc)"
    and "B \<equiv> filter nonnull (slots (edges p) (Suc loc) (vertex_end p i))"
  shows "rows p ! i = A @ (edge_vals (edges p) ! loc, d) # B" "sent_free A" "sent_free B" "\<forall>x \<in> set A. snd x < d" "\<forall>x \<in> set B. d < snd x"
    "tl (filter nonnull (slots (edges p) 0 loc)) = row_before p i @ A" "filter nonnull (slots (edges p) 0 loc) \<noteq> []"
    "filter nonnull (slots (edges p) (Suc loc) (edges_N (edges p))) = B @ row_after p i"
proof -
  note vs = vertex_split [OF ok i loc(1) less_imp_le [OF loc(2)], folded A_def] and vb = vertex_bounds [OF ok i]
  have d': "nonnull (w, d)" for w using d below_SENT [of d] by (simp add: nonnull_def)
  have B: "filter nonnull (slots (edges p) loc (vertex_end p i)) = (edge_vals (edges p) ! loc, d) # B"
    using bel(2) d' loc(2) by (simp add: slots_Cons B_def)
  have "filter nonnull (slots (edges p) loc (edges_N (edges p))) = (edge_vals (edges p) ! loc, d) # filter nonnull (slots (edges p) (Suc loc) (edges_N (edges p)))"
    using bel(2) d' loc(2) vb(2) by (simp add: slots_Cons)
  then show "filter nonnull (slots (edges p) (Suc loc) (edges_N (edges p))) = B @ row_after p i" using vs(6) B by simp
  show "rows p ! i = A @ (edge_vals (edges p) ! loc, d) # B" using vs(1) B by simp
  show "sent_free A" "sent_free B" using vs(2,3) B by (simp_all add: sent_free_def)
  show "tl (filter nonnull (slots (edges p) 0 loc)) = row_before p i @ A" "filter nonnull (slots (edges p) 0 loc) \<noteq> []" using vs(4,5) by simp_all
  show "\<forall>x \<in> set A. snd x < d" "\<forall>x \<in> set B. d < snd x" using belongs_split(1,3) [OF bel(1)] by (simp_all add: A_def B_def)
qed

lemma set_value_ok:
  assumes g: "graph_ok p" and i: "i < length (nodes p)" and loc: "beginning (nodes p ! i) < loc" "loc < vertex_end p i"
    and bel: "belongs (edges p) d (Suc (beginning (nodes p ! i))) (vertex_end p i) loc" "edge_dests (edges p) ! loc = d" and d: "d < SENT_VAL"
  shows "graph_ok (set_value p loc v)" "rows (set_value p loc v) = (rows p)[i := insert_edge v d (rows p ! i)]" "d \<in> snd ` set (rows p ! i)"
    "length (elems (edges (set_value p loc v))) = length (elems (edges p))"
proof -
  let ?q = "set_value p loc v" and ?el = "edges p"
  note ok = graph_okD(1) [OF g]
  note facts = array_facts [OF ok] and fs = found_split [OF ok i loc bel d] and vb = vertex_bounds [OF ok i]
  define A where "A = filter nonnull (slots ?el (Suc (beginning (nodes p ! i))) loc)"
  define B where "B = filter nonnull (slots ?el (Suc loc) (vertex_end p i))"
  note fs = fs [folded A_def B_def]
  have d': "d \<noteq> NULL_VAL" "d \<noteq> SENT_VAL" using d below_SENT by auto
  have lN: "loc < edges_N ?el" using loc(2) vb(2) by simp
  have mv: "?q = moved p loc [(v, d)]" by (rule set_value_moved [OF facts(1) lN bel(2) d'(2)])
  have ins: "insert_edge v d (rows p ! i) = A @ (v, d) # B" unfolding fs(1) by (rule insert_edge_same [OF fs(4)])
  have E: "elems (edges ?q) = filter nonnull (slots ?el 0 loc) @ (v, d) # filter nonnull (slots ?el (Suc loc) (edges_N ?el))"
    using elems_set_range [OF facts(1), of loc "[(v, d)]"] lN d' by (simp add: mv nonnull_def)
  have E0: "elems ?el = filter nonnull (slots ?el 0 loc) @ (edge_vals ?el ! loc, d) # filter nonnull (slots ?el (Suc loc) (edges_N ?el))"
    using elems_split [OF facts(1), of loc "edges_N ?el"] lN bel(2) d' by (simp add: slots_Cons nonnull_def)
  show "length (elems (edges ?q)) = length (elems ?el)" unfolding E E0 by simp
  show "d \<in> snd ` set (rows p ! i)" by (simp add: fs(1))
  have R: "sent_free (A @ (v, d) # B)" using fs(2,3) d' by (auto simp: sent_free_def)
  have len: "(degrees p)[i := length (A @ (v, d) # B)] = degrees p"
    using degree_of_row [OF g i] i fs(1) by (simp add: degrees_def list_update_same_conv)
  have "E \<noteq> []" "hd E = hd (elems ?el)" "tl E = row_before p i @ (A @ (v, d) # B) @ row_after p i" if "E = elems (edges ?q)" for E
    using fs(6,7,8) unfolding that E E0 by simp_all
  note rep = replaced_row [OF ok graph_okD(5) [OF g] i R this(1-3) [OF refl], of "nodes p"]
  have deg: "map (unat \<circ> num_neighbors) (nodes p) = (degrees p)[i := length (A @ (v, d) # B)]" unfolding len by (simp add: degrees_def)
  show rows: "rows ?q = (rows p)[i := insert_edge v d (rows p ! i)]" using rep(1) [OF deg] unfolding ins rows_def [of ?q] .
  have dests: "edge_dests (set_range ?el loc [(v, d)]) = edge_dests ?el"
    using arg_cong [OF mv, of "\<lambda>x. edge_dests (edges x)"] by simp
  have "array_ok ?q" unfolding mv
  proof (rule array_ok_moved)
    show "packed_at (set_range ?el loc [(v, d)]) c" for c using facts(5) [of c] by (simp add: packed_at_def dests)
    show "sent_ids (elems (set_range ?el loc [(v, d)])) = [1..<length (nodes p)]" "spaced (nodes p) (elems (set_range ?el loc [(v, d)]))"
      using rep(2,3) [OF deg] by (simp_all add: mv)
  qed (use facts lN first_slot [OF ok] dests in simp_all)
  moreover have "degrees ?q = map length (rows ?q)"
    using graph_okD(5) [OF g] len by (simp add: rows map_update ins degrees_def)
  moreover have "\<forall>r \<in> set (rows ?q). sorted_wrt (<) (map snd r)" unfolding rows
    by (rule sorted_update) (use g insert_edge_sorted [OF graph_okD(6) [OF g i]] in \<open>simp_all add: graph_ok_def\<close>)
  ultimately show "graph_ok ?q" using graph_okD(2,3,4,7) [OF g] unfolding graph_ok_def set_value_keeps by blast
qed

section \<open>Adding or updating an edge\<close>

lemma relock_vertices:
  assumes "relock p q" "j < length (nodes p)"
  shows "beginning (nodes q ! j) = beginning (nodes p ! j)" "vertex_end q j = vertex_end p j"
  using assms relock_fields(1) [OF assms(1)] by (auto simp: relock_def same_nodes_def vertex_end_def)

lemma release_held_ok:
  assumes "task_ok t" "snd held < length (nodes p)" "locks_are t (nodes p) (lock_range held) {}"
  shows "\<exists>q. release_locks_in_range t held GENERAL p = Some q \<and> relock p q \<and> quiet (nodes q)"
  using release_locks_in_range_ok [OF assms(1) disjI1 [OF refl] assms(2,3)] quiet_locks_are by (simp add: marks_def)

text \<open>The search under the locks of the vertex.\<close>

lemma locked_search:
  assumes g: "graph_ok p" and l: "quiet (nodes p)" and i: "Suc i < length (nodes p)" and d: "d < SENT_VAL"
  shows "\<exists>held q loc. grab_locks_for_leaf_with_resets p i = Some (held, q) \<and> relock p q \<and> snd held < length (nodes q) \<and>
    locks_are t (nodes q) (lock_range held) {} \<and> search_vertex q i d = Some loc \<and> loc < edges_N (edges q) \<and>
    belongs (edges q) d (Suc (beginning (nodes q ! i))) (vertex_end q i) loc \<and> (edge_dests (edges q) ! loc = d \<longrightarrow> loc < vertex_end q i)"
proof -
  note ok = graph_okD(1) [OF g]
  have il: "i < length (nodes p)" using i by simp
  obtain held q where q: "grab_locks_for_leaf_with_resets p i = Some (held, q)" "relock p q" "snd held < length (nodes q)"
      "locks_are t (nodes q) (lock_range held) {}"
    using grab_locks_for_leaf_ok [OF array_facts(7) [OF ok] il l, of t] by blast
  note gq = relock_graph_ok [OF q(2) g]
  have iq: "Suc i < length (nodes q)" "i < length (nodes q)" using i relock_fields(6) [OF q(2)] by simp_all
  obtain loc where loc: "search_vertex q i d = Some loc" "loc < edges_N (edges q)"
      "belongs (edges q) d (Suc (beginning (nodes q ! i))) (vertex_end q i) loc"
    using search_vertex_ok [OF graph_okD(1,3) [OF gq] iq(1) graph_okD(6) [OF gq iq(2)] d] by blast
  have "edge_dests (edges q) ! vertex_end q i = SENT_VAL"
    using array_beginning(2) [OF graph_okD(1) [OF gq] zero_less_Suc iq(1)] iq(1) by (simp add: vertex_end_def)
  then have "loc < vertex_end q i" if "edge_dests (edges q) ! loc = d"
    using loc(3) d that by (cases "loc = vertex_end q i") (auto simp: belongs_def)
  then show ?thesis using q loc by blast
qed

definition updated :: "PMA \<Rightarrow> nat \<Rightarrow> (u32 \<times> u32) list \<Rightarrow> PMA \<Rightarrow> bool" where
  "updated p i r q \<longleftrightarrow> quiet (nodes q) \<and> same_frame p q \<and> rows q = (rows p)[i := r]"

lemma updatedI:
  assumes "relock p p'" "relock q' q" "quiet (nodes q)" "same_frame p' q'" "rows q' = (rows p')[i := r]"
  shows "updated p i r q"
  using assms relock_rows(1) [OF assms(1)] relock_rows(1) [OF assms(2)] same_frame_trans relock_frame unfolding updated_def by metis

lemma add_edge_update_fast_ok:
  assumes g: "graph_ok p" and l: "quiet (nodes p)" and i: "Suc i < length (nodes p)" and t: "task_ok t" and r: "rounding_ok rnd"
    and d: "d < SENT_VAL" "v \<noteq> 0" and size: "4 * Suc (length (elems (edges p))) \<le> 2 ^ 32"
  shows "\<exists>q. add_edge_update_fast rnd t i d v p = Some (d \<notin> snd ` set (rows p ! i), q) \<and> graph_ok q \<and> updated p i (insert_edge v d (rows p ! i)) q \<and>
    length (elems (edges q)) \<le> Suc (length (elems (edges p)))"
proof -
  obtain held p1 loc where p1: "grab_locks_for_leaf_with_resets p i = Some (held, p1)" "relock p p1" "snd held < length (nodes p1)"
      "locks_are t (nodes p1) (lock_range held) {}" "search_vertex p1 i d = Some loc" "loc < edges_N (edges p1)"
      "belongs (edges p1) d (Suc (beginning (nodes p1 ! i))) (vertex_end p1 i) loc" "edge_dests (edges p1) ! loc = d \<longrightarrow> loc < vertex_end p1 i"
    using locked_search [OF g l i d(1), of t] by blast
  note g1 = relock_graph_ok [OF p1(2) g] and f1 = relock_fields [OF p1(2)] and r1 = relock_rows [OF p1(2)]
  have i1: "i < length (nodes p1)" using i f1 by simp
  have b1: "beginning (nodes p1 ! i) < loc" "loc \<le> vertex_end p1 i" using p1(7) by (simp_all add: belongs_def)
  show ?thesis
  proof (cases "edge_dests (edges p1) ! loc = d")
    case True
    note sv = set_value_ok [OF g1 i1 b1(1) _ p1(7) True d(1)]
    have lt: "loc < vertex_end p1 i" using p1(8) True by simp
    obtain q where q: "release_locks_in_range t held GENERAL (set_value p1 loc v) = Some q" "relock (set_value p1 loc v) q"
        "quiet (nodes q)"
      using release_held_ok [OF t, of held "set_value p1 loc v"] p1(3,4) by auto
    then have "updated p i (insert_edge v d (rows p ! i)) q"
      using updatedI [OF p1(2) q(2,3)] sv(2) [OF lt, of v] r1 by (simp add: same_frame_def)
    moreover have "graph_ok q" by (rule relock_graph_ok [OF q(2) sv(1) [OF lt]])
    ultimately show ?thesis using p1(1,5) True q(1) d(2) sv(3) [OF lt] sv(4) [OF lt, of v] r1 f1 relock_fields(1) [OF q(2)]
      by (auto simp: add_edge_update_fast_def)
  next
    case False
    obtain held' p2 where p2: "keep_needed_locks t p1 loc i held = Some (held', p2)" "relock p1 p2" "snd held' < length (nodes p2)"
        "locks_are t (nodes p2) (lock_range held') {}"
      using keep_needed_locks_ok [OF t array_facts(7) [OF graph_okD(1) [OF g1]] i1 p1(3,4)] by blast
    note g2 = relock_graph_ok [OF p2(2) g1] and f2 = relock_fields [OF p2(2)] and v2 = relock_vertices [OF p2(2) i1] and r2 = relock_rows [OF p2(2)]
    have i2: "i < length (nodes p2)" using i1 f2 by simp
    have "4 * Suc (length (elems (edges p2))) \<le> 2 ^ 32" using size unfolding f1 f2 .
    then obtain q where q: "insert_elem rnd t (change_degree p2 i 1) loc d v i held' = Some q" "graph_ok q" "quiet (nodes q)" "same_frame p2 q"
        "rows q = (rows p2)[i := insert_edge v d (rows p2 ! i)]" "d \<notin> snd ` set (rows p2 ! i)"
        "length (elems (edges q)) = Suc (length (elems (edges p2)))"
      using insert_elem_ok [OF g2 i2 t r p2(3,4) d(1), of loc v] b1 p1(6,7) False unfolding v2 f2 by blast
    have "updated p i (insert_edge v d (rows p ! i)) q"
      using updatedI [OF relock_trans [OF p1(2) p2(2)] relock_refl q(3,4,5)] r1 r2 by simp
    then show ?thesis using p1(1,5) False p2(1) q d(2) r1 r2 f1 f2 by (auto simp: add_edge_update_fast_def)
  qed
qed

section \<open>Removing an edge\<close>

text \<open>The array with the element at \<open>loc\<close> overwritten by those after it, up to the empty slot \<open>q\<close>.\<close>

definition take_elem :: "PMA \<Rightarrow> nat \<Rightarrow> nat \<Rightarrow> PMA" where
  "take_elem p loc q = moved p loc (slots (edges p) (Suc loc) (Suc q))"

lemma take_elem_slots:
  assumes "sized (edges p)" "loc < q" "q < edges_N (edges p)" "c < edges_N (edges p)"
  shows "edge_dests (edges (take_elem p loc q)) ! c = (if loc \<le> c \<and> c < q then edge_dests (edges p) ! Suc c else edge_dests (edges p) ! c)"
proof -
  let ?xs = "slots (edges p) (Suc loc) (Suc q)"
  have fit: "loc + length ?xs \<le> edges_N (edges p)" using assms(2,3) by simp
  show ?thesis
  proof (cases "loc \<le> c \<and> c < q")
    case True
    then show ?thesis using set_range_inside(2) [OF assms(1) fit, of c] by (auto simp: take_elem_def nth_slots)
  next
    case False
    then show ?thesis using set_range_outside(2) [OF assms(1) fit assms(4)] assms(2) by (auto simp: take_elem_def)
  qed
qed

lemma take_elem_elems:
  assumes "sized (edges p)" "loc < q" "q < edges_N (edges p)" "edge_dests (edges p) ! q = NULL_VAL"
  shows "elems (edges (take_elem p loc q)) = filter nonnull (slots (edges p) 0 loc) @ filter nonnull (slots (edges p) (Suc loc) (edges_N (edges p)))"
proof -
  let ?el = "edges p" and ?xs = "slots (edges p) (Suc loc) (Suc q)"
  have fit: "loc + length ?xs \<le> edges_N ?el" "loc + length ?xs = q" using assms(2,3) by simp_all
  have "slots ?el q (edges_N ?el) = (edge_vals ?el ! q, NULL_VAL) # slots ?el (Suc q) (edges_N ?el)" using assms(3,4) by (simp add: slots_Cons)
  moreover have "slots ?el (Suc loc) (edges_N ?el) = ?xs @ slots ?el (Suc q) (edges_N ?el)" using assms(2,3) by (intro slots_append) simp_all
  ultimately show ?thesis using elems_set_range [OF assms(1) fit(1)] fit(2) by (simp add: take_elem_def nonnull_def)
qed

lemma take_elem_ok:
  assumes ok: "sized (edges p)" "geometry_ok (edges p)" "first_ok p" "\<And>c. pointer_at (edges p) (nodes p) c" "\<And>c. packed_at (edges p) c"
    and loc: "0 < loc" "loc < q" "q < edges_N (edges p)" "edge_dests (edges p) ! q = NULL_VAL"
    and mid: "\<And>c. loc \<le> c \<Longrightarrow> c < q \<Longrightarrow> edge_dests (edges p) ! c \<noteq> NULL_VAL"
    and ids: "sent_ids (elems (edges (take_elem p loc q))) = [1..<length (nodes p)]"
    and sp: "spaced (nodes p) (elems (edges (take_elem p loc q)))"
  shows "array_ok (take_elem p loc q)"
proof -
  let ?el = "edges p" and ?el' = "edges (take_elem p loc q)"
  note new = take_elem_slots [OF ok(1) loc(2,3)]
  have N: "edges_N ?el' = edges_N ?el" "logN ?el' = logN ?el" by (simp_all add: take_elem_def)
  have "packed_at ?el' c" for c unfolding packed_at_def N
  proof (intro impI)
    assume c: "c < edges_N ?el" "c mod logN ?el \<noteq> 0" "edge_dests ?el' ! c \<noteq> NULL_VAL"
    then have c1: "c - 1 < edges_N ?el" "0 < c" by (simp, cases c) simp_all
    have cq: "c \<noteq> q" using new [OF c(1)] c(3) loc(4) by auto
    show "edge_dests ?el' ! (c - 1) \<noteq> NULL_VAL"
    proof (cases "loc < c \<and> c < q")
      case True
      have "loc \<le> c - 1" "c - 1 < q" using True by linarith+
      then have "edge_dests ?el' ! (c - 1) = edge_dests ?el ! c" using new [OF c1(1)] c1(2) by simp
      then show ?thesis using mid [of c] True by simp
    next
      case False
      have out: "\<not> (loc \<le> c - 1 \<and> c - 1 < q)" using False c1(2) cq by linarith
      have "edge_dests ?el ! c \<noteq> NULL_VAL" using False new [OF c(1)] c(3) mid [of loc] loc(2) by (cases "c = loc") (auto split: if_splits)
      then have "edge_dests ?el ! (c - 1) \<noteq> NULL_VAL" using ok(5) [of c] c by (simp add: packed_at_def)
      then show ?thesis unfolding new [OF c1(1)] if_not_P [OF out] .
    qed
  qed
  moreover have "edge_dests ?el' ! 0 = edge_dests ?el ! 0" using new [of 0] loc by simp
  ultimately show ?thesis using ok ids sp loc unfolding take_elem_def
    by (intro array_ok_moved) (simp_all add: first_ok_def)
qed

lemma take_elem_free:
  assumes "sized (edges p)" "no_full_leaf (edges p)" "loc < q" "q < edges_N (edges p)"
    and "\<And>c. loc \<le> c \<Longrightarrow> c < q \<Longrightarrow> edge_dests (edges p) ! c \<noteq> NULL_VAL"
  shows "no_full_leaf (edges (take_elem p loc q))"
  unfolding no_full_leaf_def last_free_def
proof (intro allI impI)
  fix c assume c: "c < edges_N (edges (take_elem p loc q))" "c mod logN (edges (take_elem p loc q)) = logN (edges (take_elem p loc q)) - 1"
  then have "c < edges_N (edges p)" "edge_dests (edges p) ! c = NULL_VAL" using assms(2) by (auto simp: no_full_leaf_def last_free_def take_elem_def)
  then show "edge_dests (edges (take_elem p loc q)) ! c = NULL_VAL" using take_elem_slots [OF assms(1,3,4)] assms(5) [of c] by auto
qed

lemma take_elem_gap:
  assumes "sized (edges p)" "geometry_ok (edges p)" "no_gap (edges p)" "loc < q" "q < find_leaf (edges p) loc + logN (edges p)" "loc < edges_N (edges p)"
  shows "gap_outside (edges (take_elem p loc q)) (find_leaf (edges p) loc) (logN (edges p))"
  unfolding gap_outside_def
proof (intro allI impI)
  let ?el = "edges p" and ?el' = "edges (take_elem p loc q)"
  note lf = find_leaf_aligned [OF assms(2,6)]
  have q: "q < edges_N ?el" using assms(5) lf by linarith
  note new = take_elem_slots [OF assms(1,4) q]
  fix c x assume a: "c mod logN ?el' = 0" "c < find_leaf ?el loc \<or> find_leaf ?el loc + logN ?el \<le> c" "c \<le> x" "x < edges_N ?el'" "edge_dests ?el' ! x = SENT_VAL"
  have N: "c < edges_N ?el" "x < edges_N ?el" "c mod logN ?el = 0" using a by (simp_all add: take_elem_def)
  have old: "edge_dests ?el' ! c = edge_dests ?el ! c" using new [OF N(1)] a(2) assms(5) lf by auto
  have "\<exists>y \<ge> c. y < edges_N ?el \<and> edge_dests ?el ! y = SENT_VAL"
    using new [OF N(2)] a(3,5) N(2) q by (cases "loc \<le> x \<and> x < q") (auto intro: exI [of _ "Suc x"])
  then show "edge_dests ?el' ! c \<noteq> NULL_VAL" using assms(3) N(3) unfolding no_gap_def old by metis
qed

text \<open>The array after an edge is taken out, before it is rebalanced.\<close>

lemma take_edge_ok:
  fixes p i d loc q0
  defines "P \<equiv> take_elem (change_degree p i (- 1)) loc q0"
  assumes g: "graph_ok p" and i: "i < length (nodes p)" and loc: "beginning (nodes p ! i) < loc" "loc < vertex_end p i"
    and bel: "belongs (edges p) d (Suc (beginning (nodes p ! i))) (vertex_end p i) loc" "edge_dests (edges p) ! loc = d" and d: "d < SENT_VAL"
    and q0: "loc < q0" "q0 < edges_N (edges p)" "edge_dests (edges p) ! q0 = NULL_VAL" "\<forall>c. loc \<le> c \<longrightarrow> c < q0 \<longrightarrow> edge_dests (edges p) ! c \<noteq> NULL_VAL"
  shows "array_ok P" "rows P = (rows p)[i := delete_edge d (rows p ! i)]" "degrees P = (degrees p)[i := length (delete_edge d (rows p ! i))]"
    "Suc (length (elems (edges P))) = length (elems (edges p))" "d \<in> snd ` set (rows p ! i)"
    "last_end P"
proof -
  let ?el = "edges p" and ?p = "change_degree p i (- 1)"
  note ok = graph_okD(1) [OF g] and deg = change_degree_nodes [OF i, of "- 1"]
  note facts = array_facts [OF ok] and fs = found_split [OF ok i loc bel d] and vb = vertex_bounds [OF ok i]
  define A where "A = filter nonnull (slots ?el (Suc (beginning (nodes p ! i))) loc)"
  define B where "B = filter nonnull (slots ?el (Suc loc) (vertex_end p i))"
  note fs = fs [folded A_def B_def]
  have d': "d \<noteq> NULL_VAL" "d \<noteq> SENT_VAL" using d below_SENT by auto
  have lN: "loc < edges_N ?el" using loc(2) vb(2) by simp
  have del: "delete_edge d (rows p ! i) = A @ B" unfolding fs(1) by (rule delete_edge_split [OF fs(4,5)])
  show "d \<in> snd ` set (rows p ! i)" by (simp add: fs(1))
  have E: "elems (edges P) = filter nonnull (slots ?el 0 loc) @ filter nonnull (slots ?el (Suc loc) (edges_N ?el))"
    using take_elem_elems [of ?p loc q0] facts(1) q0 by (simp add: P_def)
  have E0: "elems ?el = filter nonnull (slots ?el 0 loc) @ (edge_vals ?el ! loc, d) # filter nonnull (slots ?el (Suc loc) (edges_N ?el))"
    using elems_split [OF facts(1), of loc "edges_N ?el"] lN bel(2) d' by (simp add: slots_Cons nonnull_def)
  show "Suc (length (elems (edges P))) = length (elems ?el)" unfolding E E0 by simp
  have "unat (num_neighbors (nodes p ! i)) = Suc (length (A @ B))" using degree_of_row [OF g i] fs(1) by simp
  then have "unat (num_neighbors (nodes p ! i) - 1) = length (A @ B)" by (subst unat_minus_one) auto
  then have degp: "degrees ?p = (degrees p)[i := length (A @ B)]" using change_degree_degrees [OF i, of "- 1"] by simp
  have R: "sent_free (A @ B)" using fs(2,3) by (auto simp: sent_free_def)
  have Es: "elems (edges P) \<noteq> []" "hd (elems (edges P)) = hd (elems ?el)" "tl (elems (edges P)) = row_before p i @ (A @ B) @ row_after p i"
    using fs(6,7,8) by (simp_all add: E E0)
  note rep = replaced_row [OF ok graph_okD(5) [OF g] i R Es degp [unfolded degrees_def [of ?p]]]
  show "rows P = (rows p)[i := delete_edge d (rows p ! i)]" using rep(1) unfolding del rows_def [of P] .
  show "degrees P = (degrees p)[i := length (delete_edge d (rows p ! i))]" using degp unfolding del P_def take_elem_def moved_degrees .
  show okP: "array_ok P" unfolding P_def
  proof (rule take_elem_ok)
    show "pointer_at (edges ?p) (nodes ?p) c" for c using facts(6) [of c] by (simp add: pointer_at_def deg)
    show "first_ok ?p" using facts(4) by (simp add: first_ok_def deg)
  qed (use facts loc q0 rep in \<open>auto simp: P_def\<close>)
  show "last_end P" using okP facts(1) q0 graph_okD(7) [OF g] i unfolding P_def take_elem_def
    by (intro last_end_moved) (simp_all add: change_degree_last_end)
qed

text \<open>
  What removal keeps: all of the invariant but that every leaf is in use, which the search relies on; that part is kept as long as the
  leaves have eight slots and one slot in eight is in use.
\<close>

definition graph_kept :: "PMA \<Rightarrow> PMA \<Rightarrow> bool" where
  "graph_kept p q \<longleftrightarrow> (no_gap (edges q) \<longrightarrow> graph_ok q) \<and>
     (8 \<le> logN (edges p) \<longrightarrow> edges_N (edges p) < 8 * length (elems (edges p)) \<longrightarrow> no_gap (edges q))"

lemma remove_elem_ok:
  assumes g: "graph_ok p" and i: "i < length (nodes p)" and t: "task_ok t" and r: "rounding_ok rnd"
    and l: "snd held < length (nodes p)" "locks_are t (nodes p) (lock_range held) {}"
    and d: "d < SENT_VAL" and loc: "beginning (nodes p ! i) < loc" "loc < vertex_end p i"
    and bel: "belongs (edges p) d (Suc (beginning (nodes p ! i))) (vertex_end p i) loc" "edge_dests (edges p) ! loc = d"
    and size: "32 \<le> edges_N (edges p) \<or> edges_N (edges p) + 4 < 4 * length (elems (edges p))"
  shows "\<exists>q. remove_elem rnd t (change_degree p i (- 1)) loc i held = Some q \<and> graph_kept p q \<and> quiet (nodes q) \<and> same_frame p q \<and>
    rows q = (rows p)[i := delete_edge d (rows p ! i)] \<and> d \<in> snd ` set (rows p ! i) \<and> Suc (length (elems (edges q))) = length (elems (edges p))"
proof -
  let ?el = "edges p" and ?p = "change_degree p i (- 1)"
  note ok = graph_okD(1) [OF g] and full = graph_okD(2) [OF g] and gap = graph_okD(3) [OF g] and srt = graph_okD(6) [OF g i]
  note facts = array_facts [OF ok]
  have d': "d \<noteq> NULL_VAL" "d \<noteq> SENT_VAL" using d below_SENT by auto
  have lN: "loc < edges_N ?el" using loc(2) vertex_bounds(2) [OF ok i] by simp
  obtain q0 where q0: "loc \<le> q0" "q0 < find_leaf ?el loc + logN ?el" "edge_dests ?el ! q0 = NULL_VAL" "\<forall>c. loc \<le> c \<longrightarrow> c < q0 \<longrightarrow> edge_dests ?el ! c \<noteq> NULL_VAL"
    using first_null [OF full facts(2) lN] by blast
  have qN: "q0 < edges_N ?el" using q0(2) find_leaf_aligned(4) [OF facts(2) lN] by linarith
  have lq: "loc < q0" using q0(1,3) bel(2) d' by (cases "q0 = loc") auto
  note P = take_edge_ok [OF g i loc bel d lq qN q0(3,4)]
  let ?P = "take_elem ?p loc q0"
  have "locks_are t (nodes ?p) (lock_range held) {}" using l(2) locks_change_degree [OF i] by blast
  then have locksP: "locks_are t (nodes ?P) (lock_range held) {}" unfolding take_elem_def locks_are_moved .
  have fieldsP: "find_leaf (edges ?P) loc = find_leaf ?el loc" "logN (edges ?P) = logN ?el" "edges_N (edges ?P) = edges_N ?el"
    "length (nodes ?P) = length (nodes p)" by (simp_all add: take_elem_def find_leaf_def)
  have boundsP: "bounds_ok ?P" using graph_okD(4) [OF g] by (simp add: bounds_ok_def take_elem_def)
  have freeP: "no_full_leaf (edges ?P)" using take_elem_free [of ?p loc q0] facts(1) full lq qN q0(4) by simp
  have gapP: "gap_outside (edges ?P) (find_leaf ?el loc) (logN ?el)" using take_elem_gap [of ?p loc q0] facts(1,2) gap lq q0(2) lN by simp
  have sizeP: "32 \<le> edges_N (edges ?P) \<or> edges_N (edges ?P) < 4 * length (elems (edges ?P))" using size P(4) unfolding fieldsP by linarith
  obtain q where q: "rebalance False rnd t ?P loc i held = Some q" "settled ?P q"
      "8 \<le> logN ?el \<longrightarrow> edges_N ?el \<le> 8 * length (elems (edges ?P)) \<longrightarrow> no_gap (edges q)"
    using rebalance_shrink_ok [where index = loc and src = i, OF t P(1) _ _ _ locksP boundsP r freeP sizeP] gapP lN i l(1)
    unfolding fieldsP by blast
  have ids: "ids_ok (length (nodes ?p)) (slots (edges ?p) (Suc loc) (Suc q0))" using ids_ok_slots [OF facts(1,3), of "Suc q0" "Suc loc"] qN by simp
  have "slide_left ?p loc = Some ?P" unfolding take_elem_def
    by (rule slide_left_spec) (use facts(1) lq qN q0 ids in auto)
  then have "remove_elem rnd t ?p loc i held = Some q" using q(1) by (simp add: remove_elem_def)
  moreover have "graph_ok q" if "no_gap (edges q)"
    using replaced_graph_ok [OF g q(2) that P(6,2,3) delete_edge_sorted [OF srt]] by simp
  moreover have "no_gap (edges q)" if "8 \<le> logN ?el" "edges_N ?el < 8 * length (elems ?el)"
  proof -
    have "2 ^ 3 \<le> logN ?el" "8 dvd edges_N ?el"
      using that(1) facts(2) le_imp_power_dvd [of 3 "loglogN ?el" "2 :: nat"] power_increasing_iff [of "2 :: nat" 3 "loglogN ?el"] by (auto simp: geometry_ok_def)
    then obtain m where m: "edges_N ?el = 8 * m" by blast
    then have "m < length (elems ?el)" using that(2) by simp
    then have "edges_N ?el \<le> 8 * length (elems (edges ?P))" using m P(4) by linarith
    then show ?thesis using q(3) that(1) by blast
  qed
  moreover have "same_frame p q" using settled_frame [OF q(2)] by (simp add: same_frame_def take_elem_def)
  moreover have "rows q = (rows p)[i := delete_edge d (rows p ! i)]" using settled_rows(1) [OF q(2)] P(2) by simp
  ultimately show ?thesis using q(2) P(4,5) unfolding graph_kept_def by (auto simp: settled_def)
qed

lemma delete_edge_absent: "d \<notin> snd ` set xs \<Longrightarrow> delete_edge d xs = xs"
  unfolding delete_edge_def by (rule filter_True) force

text \<open>The order of changing a degree and the locks does not matter.\<close>

lemma unchange_degree:
  assumes i: "i < length (nodes p)" and q: "relock (change_degree p i k) q" "locks_are t (nodes q) H S"
  shows "\<exists>p'. q = change_degree p' i k \<and> relock p p' \<and> locks_are t (nodes p') H S"
proof (intro exI conjI)
  let ?p = "change_degree q i (- k)"
  note f = relock_fields [OF q(1)]
  have iq: "i < length (nodes q)" using i f(6) by simp
  show "q = change_degree ?p i k" using iq by (simp add: change_degree_def)
  show "locks_are t (nodes ?p) H S" using q(2) locks_change_degree [OF iq] by blast
  have "same_nodes (nodes p) (nodes ?p)"
    using q(1) i iq by (simp add: relock_def same_nodes_def change_degree_nodes)
  moreover have "?p = p\<lparr>nodes := nodes ?p\<rparr>" using q(1) by (cases p; cases q) (simp add: relock_def change_degree_def)
  ultimately show "relock p ?p" by (simp add: relock_def)
qed

lemma remove_edge_fast_ok:
  assumes g: "graph_ok p" and l: "quiet (nodes p)" and i: "Suc i < length (nodes p)" and t: "task_ok t" and r: "rounding_ok rnd"
    and d: "d < SENT_VAL" and size: "32 \<le> edges_N (edges p) \<or> edges_N (edges p) + 4 < 4 * length (elems (edges p))"
  shows "\<exists>q. remove_edge_fast rnd t i d p = Some (d \<in> snd ` set (rows p ! i), q) \<and> graph_kept p q \<and> updated p i (delete_edge d (rows p ! i)) q \<and>
    length (elems (edges q)) \<le> length (elems (edges p)) \<and> length (elems (edges p)) \<le> Suc (length (elems (edges q)))"
proof -
  obtain held p1 loc where p1: "grab_locks_for_leaf_with_resets p i = Some (held, p1)" "relock p p1" "snd held < length (nodes p1)"
      "locks_are t (nodes p1) (lock_range held) {}" "search_vertex p1 i d = Some loc" "loc < edges_N (edges p1)"
      "belongs (edges p1) d (Suc (beginning (nodes p1 ! i))) (vertex_end p1 i) loc" "edge_dests (edges p1) ! loc = d \<longrightarrow> loc < vertex_end p1 i"
    using locked_search [OF g l i d, of t] by blast
  note g1 = relock_graph_ok [OF p1(2) g] and f1 = relock_fields [OF p1(2)] and r1 = relock_rows [OF p1(2)]
  have i1: "i < length (nodes p1)" using i f1 by simp
  have b1: "beginning (nodes p1 ! i) < loc" "loc \<le> vertex_end p1 i" using p1(7) by (simp_all add: belongs_def)
  show ?thesis
  proof (cases "edge_dests (edges p1) ! loc = d")
    case False
    have new: "d \<notin> snd ` set (rows p1 ! i)"
      using belongs_split(1,2) [OF p1(7)] False vertex_split(1) [OF graph_okD(1) [OF g1] i1 b1] by force
    then have del: "(rows p1)[i := delete_edge d (rows p1 ! i)] = rows p1"
      using delete_edge_absent [of d "rows p1 ! i"] by simp
    obtain q where q: "release_locks_in_range t held GENERAL p1 = Some q" "relock p1 q" "quiet (nodes q)"
      using release_held_ok [OF t p1(3,4)] by blast
    have "updated p i (delete_edge d (rows p ! i)) q"
      using updatedI [OF p1(2) q(2,3)] del r1 by (simp add: same_frame_def)
    moreover have "graph_kept p q" using relock_graph_ok [OF q(2) g1] graph_okD(3) by (auto simp: graph_kept_def)
    ultimately show ?thesis using p1(1,5) False q(1) new r1 f1 relock_fields(1) [OF q(2)] by (auto simp: remove_edge_fast_def)
  next
    case True
    let ?p = "change_degree p1 i (- 1)"
    have "nodes ?p \<noteq> []" using i1 by (simp flip: length_greater_0_conv)
    then have ch: "chained (nodes ?p)" using array_facts(7) [OF graph_okD(1) [OF g1]] i1 by (simp add: chained_def change_degree_nodes)
    obtain held' p2 where p2: "keep_needed_locks t ?p loc i held = Some (held', p2)" "relock ?p p2" "snd held' < length (nodes p2)"
        "locks_are t (nodes p2) (lock_range held') {}"
      using keep_needed_locks_ok [OF t ch, of i held loc] i1 p1(3,4) locks_change_degree [OF i1] by auto
    obtain p3 where p3: "p2 = change_degree p3 i (- 1)" "relock p1 p3" "locks_are t (nodes p3) (lock_range held') {}"
      using unchange_degree [OF i1 p2(2,4)] by blast
    note g3 = relock_graph_ok [OF p3(2) g1] and f3 = relock_fields [OF p3(2)] and v3 = relock_vertices [OF p3(2) i1] and r3 = relock_rows [OF p3(2)]
    have i3: "i < length (nodes p3)" using i1 f3 by simp
    have h3: "snd held' < length (nodes p3)" using p2(3) p3(1) by simp
    obtain q where q: "remove_elem rnd t p2 loc i held' = Some q" "graph_kept p3 q" "quiet (nodes q)" "same_frame p3 q"
        "rows q = (rows p3)[i := delete_edge d (rows p3 ! i)]" "d \<in> snd ` set (rows p3 ! i)" "Suc (length (elems (edges q))) = length (elems (edges p3))"
      using remove_elem_ok [OF g3 i3 t r h3 p3(3) d, of loc] b1 p1(7,8) True size p3(1) unfolding v3 f3 f1 by auto
    have "updated p i (delete_edge d (rows p ! i)) q"
      using updatedI [OF relock_trans [OF p1(2) p3(2)] relock_refl q(3,4,5)] r1 r3 by simp
    then show ?thesis using p1(1,5) True p2(1) q r1 r3 f1 f3 by (auto simp: remove_edge_fast_def graph_kept_def)
  qed
qed

section \<open>The public operations\<close>

text \<open>The invariant between two calls: no lock is held.\<close>

definition at_rest :: "PMA \<Rightarrow> bool" where
  "at_rest p \<longleftrightarrow> graph_ok p \<and> quiet (nodes p) \<and> node_lock p = new_PMA_Lock"

text \<open>The effect of a call: the edges of vertex \<open>i\<close> become \<open>r\<close>.\<close>

definition call_effect :: "PMA \<Rightarrow> u64 \<Rightarrow> (u32 \<times> u32) list list \<Rightarrow> PMA \<Rightarrow> bool" where
  "call_effect p k rs q \<longleftrightarrow> quiet (nodes q) \<and> node_lock q = new_PMA_Lock \<and> next_task_id q = next_task_id p + k \<and>
     length (nodes q) = length (nodes p) \<and> rows q = rs"

abbreviation with_shared :: "PMA \<Rightarrow> u64 \<Rightarrow> PMA" where
  "with_shared p k \<equiv> p\<lparr>node_lock := new_PMA_Lock\<lparr>lock_x := 2\<rparr>, next_task_id := next_task_id p + k\<rparr>"

lemma share_nodes_new: "node_lock p = new_PMA_Lock \<Longrightarrow> share_nodes (take_task k p) = Some (with_shared p k)"
  by (cases p) (simp add: share_nodes_def take_task_def lock_shared_def cas_def new_PMA_Lock_def)

lemma array_ok_cong: "edges q = edges p \<Longrightarrow> nodes q = nodes p \<Longrightarrow> array_ok q = array_ok p"
  by (simp add: array_ok_def array_core_def first_ok_def)

lemma graph_ok_shared [simp]: "graph_ok (p\<lparr>node_lock := l, next_task_id := k\<rparr>) = graph_ok p"
  using array_ok_cong [of "p\<lparr>node_lock := l, next_task_id := k\<rparr>" p] by (simp add: graph_ok_def bounds_ok_def degrees_def rows_def last_end_def)

lemma graph_ok_unshare [simp]: "graph_ok (unshare_nodes p) = graph_ok p"
  using array_ok_cong [of "unshare_nodes p" p] by (simp add: graph_ok_def bounds_ok_def degrees_def rows_def last_end_def unshare_nodes_def)

lemma rows_shared [simp]: "rows (p\<lparr>node_lock := l, next_task_id := k\<rparr>) = rows p" "rows (unshare_nodes p) = rows p"
  by (simp_all add: rows_def unshare_nodes_def)

lemma unshare_fields [simp]:
  "nodes (unshare_nodes p) = nodes p" "edges (unshare_nodes p) = edges p" "next_task_id (unshare_nodes p) = next_task_id p"
  by (simp_all add: unshare_nodes_def)

lemma updated_call:
  "updated (with_shared p k) i r q \<Longrightarrow> call_effect p k ((rows p)[i := r]) (unshare_nodes q)"
  by (cases q) (auto simp: updated_def call_effect_def same_frame_def unshare_nodes_def unlock_shared_def new_PMA_Lock_def rows_def)

lemma graph_kept_shared: "graph_kept (p\<lparr>node_lock := l, next_task_id := k\<rparr>) q \<Longrightarrow> graph_kept p (unshare_nodes q)"
  by (simp add: graph_kept_def)

lemma at_rest_call: "graph_ok q \<Longrightarrow> call_effect p k rs q \<Longrightarrow> at_rest q"
  by (simp add: at_rest_def call_effect_def)

lemma add_edge_update_ok:
  assumes p: "at_rest p" and i: "Suc i < length (nodes p)" and t: "task_ok (next_task_id p)" and r: "rounding_ok rnd"
    and d: "d < SENT_VAL" "v \<noteq> 0" and size: "4 * Suc (length (elems (edges p))) \<le> 2 ^ 32"
  shows "\<exists>q. add_edge_update rnd i d v p = Some (d \<notin> snd ` set (rows p ! i), q) \<and> at_rest q \<and>
    call_effect p 2 ((rows p)[i := insert_edge v d (rows p ! i)]) q \<and> length (elems (edges q)) \<le> Suc (length (elems (edges p)))"
proof -
  have p': "graph_ok (with_shared p 2)" "quiet (nodes (with_shared p 2))" "node_lock p = new_PMA_Lock" using p by (simp_all add: at_rest_def)
  obtain q where q: "add_edge_update_fast rnd (next_task_id p) i d v (with_shared p 2) = Some (d \<notin> snd ` set (rows p ! i), q)" "graph_ok q"
      "updated (with_shared p 2) i (insert_edge v d (rows p ! i)) q" "length (elems (edges q)) \<le> Suc (length (elems (edges p)))"
    using add_edge_update_fast_ok [OF p'(1,2) _ t r d, of i] i size by auto
  note e = updated_call [OF q(3)]
  have "add_edge_update rnd i d v p = Some (d \<notin> snd ` set (rows p ! i), unshare_nodes q)"
    using q(1) d(2) by (simp add: add_edge_update_def share_nodes_new [OF p'(3)])
  moreover have "at_rest (unshare_nodes q)" by (rule at_rest_call [OF _ e]) (simp add: q(2))
  ultimately show ?thesis using e q(4) by auto
qed

lemma remove_edge_ok:
  assumes p: "at_rest p" and i: "Suc i < length (nodes p)" and t: "task_ok (next_task_id p)" and r: "rounding_ok rnd"
    and d: "d < SENT_VAL" and size: "32 \<le> edges_N (edges p) \<or> edges_N (edges p) + 4 < 4 * length (elems (edges p))"
  shows "\<exists>q. remove_edge rnd i d p = Some (d \<in> snd ` set (rows p ! i), q) \<and> graph_kept p q \<and> call_effect p 2 ((rows p)[i := delete_edge d (rows p ! i)]) q"
proof -
  have p': "graph_ok (with_shared p 2)" "quiet (nodes (with_shared p 2))" "node_lock p = new_PMA_Lock" using p by (simp_all add: at_rest_def)
  obtain q where q: "remove_edge_fast rnd (next_task_id p) i d (with_shared p 2) = Some (d \<in> snd ` set (rows p ! i), q)" "graph_kept (with_shared p 2) q"
      "updated (with_shared p 2) i (delete_edge d (rows p ! i)) q"
    using remove_edge_fast_ok [OF p'(1,2) _ t r d, of i] i size by auto
  have "remove_edge rnd i d p = Some (d \<in> snd ` set (rows p ! i), unshare_nodes q)"
    using q(1) by (simp add: remove_edge_def share_nodes_new [OF p'(3)])
  then show ?thesis using updated_call [OF q(3)] graph_kept_shared [OF q(2)] by blast
qed

text \<open>Finding an edge.\<close>

lemma edge_map_split: "\<forall>x \<in> set xs. snd x < d \<Longrightarrow> edge_map (xs @ (w, d) # ys) d = Some w"
  by (induction xs) (auto simp: edge_map_def)

lemma found_value:
  assumes ok: "graph_ok p" and i: "Suc i < length (nodes p)" and d: "d < SENT_VAL"
  shows "\<exists>loc. search_vertex p i d = Some loc \<and>
    edge_map (rows p ! i) d = (if edge_dests (edges p) ! loc = d then Some (edge_vals (edges p) ! loc) else None)"
proof -
  have il: "i < length (nodes p)" using i by simp
  obtain loc where loc: "search_vertex p i d = Some loc" "loc < edges_N (edges p)"
      "belongs (edges p) d (Suc (beginning (nodes p ! i))) (vertex_end p i) loc"
    using search_vertex_ok [OF graph_okD(1,3) [OF ok] i graph_okD(6) [OF ok il] d] by blast
  have b: "beginning (nodes p ! i) < loc" "loc \<le> vertex_end p i" using loc(3) by (simp_all add: belongs_def)
  show ?thesis
  proof (cases "edge_dests (edges p) ! loc = d")
    case True
    have "edge_dests (edges p) ! vertex_end p i = SENT_VAL"
      using array_beginning(2) [OF graph_okD(1) [OF ok] zero_less_Suc i] i by (simp add: vertex_end_def)
    then have lt: "loc < vertex_end p i" using b(2) True d by (cases "loc = vertex_end p i") auto
    note fs = found_split [OF graph_okD(1) [OF ok] il b(1) lt loc(3) True d]
    have "edge_map (rows p ! i) d = Some (edge_vals (edges p) ! loc)"
      unfolding fs(1) by (rule edge_map_split [OF fs(4)])
    then show ?thesis using loc(1) True by auto
  next
    case False
    have "d \<notin> snd ` set (rows p ! i)"
      using belongs_split(1,2) [OF loc(3)] False vertex_split(1) [OF graph_okD(1) [OF ok] il b] by force
    then have "edge_map (rows p ! i) d = None" using edge_map_dom [of "rows p ! i"] by auto
    then show ?thesis using loc(1) False by auto
  qed
qed

lemma set_node_lock_twice:
  "i < length (nodes p) \<Longrightarrow> set_node_lock (set_node_lock p i l) i (node_lock_of (nodes p ! i)) = p"
  by (simp add: set_node_lock_def)

lemma find_value_ok:
  assumes p: "at_rest p" and i: "Suc i < length (nodes p)" and d: "d < SENT_VAL"
  shows "find_value i d p = Some (case edge_map (rows p ! i) d of None \<Rightarrow> 0 | Some v \<Rightarrow> v, p\<lparr>next_task_id := next_task_id p + 2\<rparr>)"
proof -
  let ?s = "with_shared p 2" and ?l = "new_PMA_Lock\<lparr>lock_x := 1\<rparr>"
  let ?q = "set_node_lock ?s i ?l"
  have p': "graph_ok p" "quiet (nodes p)" "node_lock p = new_PMA_Lock" using p by (simp_all add: at_rest_def)
  have il: "i < length (nodes p)" using i by simp
  have new: "node_lock_of (nodes p ! i) = new_PMA_Lock" using p'(2) il by (simp add: quiet_def)
  obtain loc where loc: "search_vertex p i d = Some loc"
      "edge_map (rows p ! i) d = (if edge_dests (edges p) ! loc = d then Some (edge_vals (edges p) ! loc) else None)"
    using found_value [OF p'(1) i d] by blast
  have "search_vertex ?q i d = Some loc" using loc(1) il by (simp add: search_vertex_def set_node_lock_def)
  moreover have "lock_excl new_PMA_Lock GENERAL = Some ?l" by (simp add: lock_excl_def cas_def new_PMA_Lock_def)
  moreover have "unlock_excl (next_task_id p) GENERAL ?l = new_PMA_Lock" by (simp add: unlock_excl_def set_reason_def new_PMA_Lock_def)
  moreover have "node_lock_of (nodes ?q ! i) = ?l" "edges ?q = edges p" using il by (simp_all add: set_node_lock_def)
  moreover have "set_node_lock ?q i new_PMA_Lock = ?s" using set_node_lock_twice [of i ?s ?l] il new by simp
  moreover have "unshare_nodes ?s = p\<lparr>next_task_id := next_task_id p + 2\<rparr>"
    using p'(3) by (cases p) (simp add: unshare_nodes_def unlock_shared_def new_PMA_Lock_def)
  moreover have "d \<noteq> NULL_VAL" using d below_SENT by auto
  ultimately show ?thesis using il new loc(2) by (auto simp: find_value_def share_nodes_new [OF p'(3)])
qed

end
