(* ===== verification/PMA_Build.thy ===== *)
theory PMA_Build
  imports PMA_Edges
begin

unbundle bit_operations_syntax

text \<open>
  The construction of a packed memory array: every \<^verbatim>\<open>add_node\<close> appends a vertex without edges, and the constructor makes a
  graph of the given number of vertices that is at rest.
\<close>

section \<open>A sentinel in its place\<close>

text \<open>Rebalancing after an element was put into an empty slot.\<close>

lemma placed_ok:
  assumes t: "task_ok t" and r: "rounding_ok rnd" and P: "array_ok P" "bounds_ok P" "no_gap (edges P)" "last_end P"
    and b: "b < edges_N (edges P)" "\<And>c. c < find_leaf (edges P) b \<or> find_leaf (edges P) b + logN (edges P) \<le> c \<Longrightarrow> last_free (edges P) c"
    and l: "src < length (nodes P)" "snd held < length (nodes P)" "locks_are t (nodes P) (lock_range held) {}"
    and d: "degrees P = map length (rows P)" "\<forall>r \<in> set (rows P). sorted_wrt (<) (map snd r)"
    and size: "4 * length (elems (edges P)) \<le> 2 ^ 32"
  shows "\<exists>q. rebalance True rnd t P b src held = Some q \<and> graph_ok q \<and> quiet (nodes q) \<and> rows q = rows P \<and> same_frame P q \<and> elems (edges q) = elems (edges P)"
proof -
  have "2 * edges_N (edges P) \<le> 2 ^ 32 \<or> 2 * length (elems (edges P)) < edges_N (edges P)" using size by (intro disjCI) simp
  from rebalance_grow_ok [OF t P(1) b(1) l P(2) r P(3) b(2) this] obtain q where
    q: "rebalance True rnd t P b src held = Some q" "settled P q" "no_gap (edges q)" by blast
  then show ?thesis using settled_graph_ok [OF q(2,3) d P(4)] settled_rows(1) [OF q(2)] settled_frame [OF q(2)] by (auto simp: settled_def)
qed

text \<open>The slots after the last sentinel are empty when the last vertex has no edges.\<close>

abbreviation last_node :: "PMA \<Rightarrow> node" where
  "last_node p \<equiv> nodes p ! (length (nodes p) - 1)"

lemma empty_tail:
  assumes g: "graph_ok p" and e: "last (rows p) = []"
  defines "b \<equiv> beginning (last_node p) + 1"
  shows "b < edges_N (edges p)" "b mod logN (edges p) \<noteq> 0" "edge_dests (edges p) ! (b - 1) \<noteq> NULL_VAL"
    "\<And>c. b \<le> c \<Longrightarrow> c < edges_N (edges p) \<Longrightarrow> edge_dests (edges p) ! c = NULL_VAL" "new_beginning p = Some b"
    "elems (edges p) = filter nonnull (slots (edges p) 0 b)"
proof -
  let ?n = "length (nodes p)" and ?el = "edges p"
  note ok = graph_okD(1) [OF g] and full = graph_okD(2) [OF g]
  note facts = array_facts [OF ok] and n0 = first_slot(5) [OF ok]
  have i: "?n - 1 < ?n" using n0 by simp
  note vb = vertex_bounds [OF ok i]
  have ve: "vertex_end p (?n - 1) = edges_N ?el" using n0 by (simp add: vertex_end_def)
  have L: "4 \<le> logN ?el" by (rule logN_pos [OF facts(2)])
  show prev: "edge_dests ?el ! (b - 1) \<noteq> NULL_VAL" using vb(4) by (simp add: b_def)
  have "(b - 1) mod logN ?el \<noteq> logN ?el - 1" using full vb(3) prev by (auto simp: b_def no_full_leaf_def last_free_def)
  then show bm: "b mod logN ?el \<noteq> 0" using L by (auto simp: b_def mod_Suc split: if_splits)
  have "edges_N ?el mod logN ?el = 0" using facts(2) by (simp add: geometry_ok_def)
  then show bN: "b < edges_N ?el" using vb(3) bm by (cases "b = edges_N ?el") (auto simp: b_def)
  have last: "last (rows p) = rows p ! (?n - 1)" using length_rows [OF ok] n0 by (simp add: last_conv_nth flip: length_greater_0_conv)
  have "filter nonnull (slots ?el b (edges_N ?el)) = []"
    using e nth_rows [OF ok i] ve unfolding last by (simp add: row_at_def b_def)
  then have null: "\<not> nonnull x" if "x \<in> set (slots ?el b (edges_N ?el))" for x using that by (simp add: filter_empty_conv)
  show tail: "edge_dests ?el ! c = NULL_VAL" if "b \<le> c" "c < edges_N ?el" for c
    using null [of "(edge_vals ?el ! c, edge_dests ?el ! c)"] that by (auto simp: slots_def nonnull_def)
  have "num_neighbors (last_node p) = 0"
    using degree_of_row [OF g i] e unfolding last by (simp add: unat_eq_0)
  then show "new_beginning p = Some b" using graph_okD(7) [OF g] by (auto simp: new_beginning_def last_end_def Let_def b_def)
  have "elems ?el = filter nonnull (slots ?el 0 b) @ filter nonnull (slots ?el b (edges_N ?el))"
    using elems_split [OF facts(1), of b "edges_N ?el"] bN by simp
  then show "elems ?el = filter nonnull (slots ?el 0 b)" using null by (simp add: filter_empty_conv)
qed

text \<open>The array with a new vertex and its sentinel, before it is rebalanced.\<close>

definition with_vertex :: "PMA \<Rightarrow> PMA" where
  "with_vertex p = (let b = beginning (last_node p) + 1 in set_slot_at (push_node p b) b (of_nat (length (nodes p))) SENT_VAL)"

lemma push_node_nodes:
  assumes "0 < length (nodes p)"
  shows "length (nodes (push_node p b)) = Suc (length (nodes p))" "edges (push_node p b) = edges p"
    "j < length (nodes p) \<Longrightarrow> beginning (nodes (push_node p b) ! j) = beginning (nodes p ! j)"
    "j < length (nodes p) \<Longrightarrow> num_neighbors (nodes (push_node p b) ! j) = num_neighbors (nodes p ! j)"
    "j < length (nodes p) \<Longrightarrow> node_lock_of (nodes (push_node p b) ! j) = node_lock_of (nodes p ! j)"
    "j < length (nodes p) \<Longrightarrow> node_end (nodes (push_node p b) ! j) = (if j = length (nodes p) - 1 then b else node_end (nodes p ! j))"
    "nodes (push_node p b) ! length (nodes p) = \<lparr>beginning = b, node_end = b + 1, num_neighbors = 0, node_lock_of = new_PMA_Lock\<rparr>"
  using assms by (auto simp: push_node_def Let_def nth_append upd_nth)

lemma push_node_quiet: "0 < length (nodes p) \<Longrightarrow> quiet (nodes p) \<Longrightarrow> quiet (nodes (push_node p b))"
  unfolding quiet_def all_set_conv_all_nth push_node_nodes(1)
  by (auto simp: push_node_nodes less_Suc_eq)

lemma with_vertex_fields:
  assumes "0 < length (nodes p)"
  shows "nodes (with_vertex p) = nodes (push_node p (beginning (last_node p) + 1))" "length (nodes (with_vertex p)) = Suc (length (nodes p))"
    "node_lock (with_vertex p) = node_lock p" "next_task_id (with_vertex p) = next_task_id p" "logN (edges (with_vertex p)) = logN (edges p)"
    "edges_N (edges (with_vertex p)) = edges_N (edges p)" "edges_H (edges (with_vertex p)) = edges_H (edges p)"
    "edge_dests (edges (with_vertex p)) = (edge_dests (edges p))[beginning (last_node p) + 1 := SENT_VAL]"
    "bounds_ok (with_vertex p) = bounds_ok p" "find_leaf (edges (with_vertex p)) = find_leaf (edges p)"
  using assms by (auto simp: with_vertex_def set_slot_at_def push_node_def Let_def bounds_ok_def find_leaf_def fun_eq_iff)

lemma with_vertex_elems:
  assumes g: "graph_ok p" "last (rows p) = []"
  shows "elems (edges (with_vertex p)) = elems (edges p) @ [(of_nat (length (nodes p)), SENT_VAL)]"
    "sized (edges (with_vertex p))" "geometry_ok (edges (with_vertex p))"
proof -
  let ?b = "beginning (last_node p) + 1" and ?v = "of_nat (length (nodes p))" and ?el = "edges p"
  note ok = graph_okD(1) [OF g(1)] and tail = empty_tail [OF g]
  note facts = array_facts [OF ok]
  have eq: "edges (with_vertex p) = set_range ?el ?b [(?v, SENT_VAL)]"
    using facts(1) tail(1) by (simp add: with_vertex_def push_node_def Let_def set_slot_at_def set_range_def put_at_def sized_def upd_conv_take_nth_drop)
  have fit: "?b + length [(?v, SENT_VAL)] \<le> edges_N ?el" using tail(1) by simp
  have "filter nonnull (slots ?el (Suc ?b) (edges_N ?el)) = []"
    using tail(4) by (auto simp: filter_empty_conv slots_def nonnull_def)
  then show "elems (edges (with_vertex p)) = elems ?el @ [(?v, SENT_VAL)]"
    unfolding eq elems_set_range [OF facts(1) fit] using tail(6) by (simp add: nonnull_def NULL_VAL_def SENT_VAL_def)
  show "sized (edges (with_vertex p))" "geometry_ok (edges (with_vertex p))" unfolding eq using facts(1,2) fit by simp_all
qed

lemma with_vertex_rows:
  assumes g: "graph_ok p" "last (rows p) = []"
  shows "rows (with_vertex p) = rows p @ [[]]" "degrees (with_vertex p) = degrees p @ [0]"
proof -
  have n0: "0 < length (nodes p)" by (rule first_slot(5) [OF graph_okD(1) [OF g(1)]])
  have "elems (edges p) \<noteq> []" using first_elem(1) [of p] graph_okD(1) [OF g(1)] by (simp add: array_ok_def)
  then show "rows (with_vertex p) = rows p @ [[]]"
    by (simp add: rows_def with_vertex_elems [OF g] segs_append)
  show "degrees (with_vertex p) = degrees p @ [0]"
    by (rule nth_equalityI) (auto simp: degrees_def with_vertex_fields [OF n0] push_node_nodes [OF n0] nth_append less_Suc_eq)
qed

lemma with_vertex_ok:
  assumes g: "graph_ok p" "last (rows p) = []" and size: "length (nodes p) < 2 ^ 32"
  shows "array_ok (with_vertex p)"
proof -
  let ?P = "with_vertex p" and ?b = "beginning (last_node p) + 1" and ?n = "length (nodes p)" and ?el = "edges p"
  note ok = graph_okD(1) [OF g(1)] and tail = empty_tail [OF g] and new = with_vertex_elems [OF g] and rw = with_vertex_rows [OF g]
  note facts = array_facts [OF ok] and n0 = first_slot(5) [OF ok]
  note f = with_vertex_fields [OF n0] and push = push_node_nodes [OF n0]
  have sz: "length (edge_dests ?el) = edges_N ?el" "length (edge_vals ?el) = edges_N ?el" using facts(1) by (simp_all add: sized_def)
  have v: "unat (of_nat ?n :: u32) = ?n" using size by (simp add: unat_of_nat take_bit_nat_eq_self)
  have vals: "edge_vals (edges ?P) = (edge_vals ?el)[?b := of_nat ?n]" by (simp add: with_vertex_def set_slot_at_def push_node_def Let_def)
  have first: "first_ok ?P" using facts(4) n0 by (auto simp: first_ok_def f push)
  have E0: "elems ?el \<noteq> []" "snd (hd (elems ?el)) \<noteq> SENT_VAL"
    using first_elem [of p] ok first_slot(3) [OF ok] by (auto simp: array_ok_def hd_conv_nth)
  have ids: "sent_ids (elems (edges ?P)) = [1..<Suc ?n]" using facts(3) n0 v by (simp add: new Suc_le_eq)
  have sp: "spaced (nodes ?P) (elems (edges ?P))"
  proof (rule spaced_rows)
    show "map (unat \<circ> num_neighbors) (nodes ?P) = map length (segs (tl (elems (edges ?P))))"
      using rw graph_okD(5) [OF g(1)] by (simp add: degrees_def rows_def)
  qed (use E0 ids f new(1) in simp_all)
  have "packed_at (edges ?P) c" for c
    using tail(1,3) facts(5) [of c] unfolding packed_at_def f by (auto simp: upd_nth sz NULL_VAL_def SENT_VAL_def split: if_splits)
  moreover have "pointer_at (edges ?P) (nodes ?P) c" for c
  proof (cases "c = ?b")
    case True
    then show ?thesis using tail(1) n0 by (simp add: pointer_at_def f vals sz v push)
  next
    case False
    have "unat (edge_vals ?el ! c) < ?n \<and> unat (edge_vals ?el ! c) - 1 < ?n \<and> unat (edge_vals ?el ! c) - 1 \<noteq> ?n - 1"
      if "c < edges_N ?el" "edge_dests ?el ! c = SENT_VAL" using sent_id_range [OF facts(1,3) that] by linarith
    then show ?thesis using False facts(6) [of c] unfolding pointer_at_def f vals by (auto simp: push)
  qed
  ultimately show ?thesis using first ids sp new(2,3) f(2) by (simp add: array_ok_def array_core_def slot_ok_def)
qed

lemma with_vertex_rest:
  assumes g: "graph_ok p" "last (rows p) = []"
  defines "b \<equiv> beginning (last_node p) + 1"
  shows "no_gap (edges (with_vertex p))" "last_end (with_vertex p)" "b < edges_N (edges (with_vertex p))"
    "c < find_leaf (edges (with_vertex p)) b \<or> find_leaf (edges (with_vertex p)) b + logN (edges (with_vertex p)) \<le> c \<Longrightarrow> last_free (edges (with_vertex p)) c"
proof -
  let ?P = "with_vertex p" and ?n = "length (nodes p)" and ?el = "edges p"
  note ok = graph_okD(1) [OF g(1)] and tail = empty_tail [OF g, folded b_def]
  note facts = array_facts [OF ok] and n0 = first_slot(5) [OF ok]
  note f = with_vertex_fields [OF n0, folded b_def] and push = push_node_nodes [OF n0]
  have sz: "length (edge_dests ?el) = edges_N ?el" using facts(1) by (simp add: sized_def)
  show "b < edges_N (edges ?P)" using tail(1) by (simp add: f)
  show "last_end ?P" by (simp add: last_end_def f push)
  show "last_free (edges ?P) c" if "c < find_leaf (edges ?P) b \<or> find_leaf (edges ?P) b + logN (edges ?P) \<le> c"
    using that find_leaf_aligned(2,3) [OF facts(2) tail(1)] graph_okD(2) [OF g(1)]
    by (auto simp: f last_free_def no_full_leaf_def upd_nth)
  have prev: "b - 1 < edges_N ?el" "?n = 1 \<Longrightarrow> b - 1 = 0" "1 < ?n \<Longrightarrow> edge_dests ?el ! (b - 1) = SENT_VAL"
    using tail(1) first_slot(4) [OF ok] array_beginning(2) [OF ok, of "?n - 1"] by (auto simp: b_def)
  have old: "edge_dests ?el ! c \<noteq> NULL_VAL" if "c mod logN ?el = 0" "c \<le> x" "x < edges_N ?el" "edge_dests (edges ?P) ! x = SENT_VAL" for c x
  proof (cases "x = b")
    case False
    then show ?thesis using that graph_okD(3) [OF g(1)] unfolding f no_gap_def by (metis nth_list_update_neq)
  next
    case True
    then have "c \<noteq> b" using that(1) tail(2) by auto
    then have c: "c \<le> b - 1" using that(2) True by simp
    show ?thesis
    proof (cases "1 < ?n")
      case True
      then show ?thesis using graph_okD(3) [OF g(1)] c prev that(1) unfolding no_gap_def by metis
    next
      case False
      then have "?n = 1" using n0 by linarith
      then show ?thesis using c prev(2) first_slot(2) [OF ok] by simp
    qed
  qed
  show "no_gap (edges ?P)" unfolding no_gap_def
  proof (intro allI impI)
    fix c x assume a: "c mod logN (edges ?P) = 0" "c \<le> x" "x < edges_N (edges ?P)" "edge_dests (edges ?P) ! x = SENT_VAL"
    then have "edge_dests ?el ! c \<noteq> NULL_VAL" "c < edges_N ?el" using old [of c x] by (simp_all add: f)
    then show "edge_dests (edges ?P) ! c \<noteq> NULL_VAL" by (auto simp: f upd_nth SENT_VAL_def NULL_VAL_def)
  qed
qed

section \<open>Adding a vertex\<close>

text \<open>Two arrays that differ in their locks and counters only.\<close>

definition alike :: "PMA \<Rightarrow> PMA \<Rightarrow> bool" where
  "alike p q \<longleftrightarrow> edges q = edges p \<and> same_nodes (nodes p) (nodes q) \<and>
     upper_density_bound q = upper_density_bound p \<and> lower_density_bound q = lower_density_bound p"

lemma alike_keeps:
  assumes "alike p q"
  shows "array_ok p \<Longrightarrow> array_ok q" "bounds_ok q = bounds_ok p" "rows q = rows p" "degrees q = degrees p"
    "0 < length (nodes p) \<Longrightarrow> last_end p \<Longrightarrow> last_end q" "edges q = edges p" "length (nodes q) = length (nodes p)"
proof -
  have a: "edges q = edges p" "same_nodes (nodes p) (nodes q)" using assms by (simp_all add: alike_def)
  show "array_ok p \<Longrightarrow> array_ok q" using array_ok_same [of p "nodes q" q] a by simp
  show "bounds_ok q = bounds_ok p" "rows q = rows p" using assms by (simp_all add: alike_def bounds_ok_def rows_def)
  show "degrees q = degrees p" unfolding degrees_def by (rule nth_equalityI) (use a(2) in \<open>simp_all add: same_nodes_def\<close>)
  show "0 < length (nodes p) \<Longrightarrow> last_end p \<Longrightarrow> last_end q" using last_end_same [of p q] a by simp
  show "edges q = edges p" "length (nodes q) = length (nodes p)" using a by (simp_all add: same_nodes_def)
qed

text \<open>The rest of \<^verbatim>\<open>add_node\<close> once the place of the new vertex is known: \<open>P\<close> is the array with the vertex in its place.\<close>

lemma add_node_rest:
  assumes P: "array_ok P" "bounds_ok P" "no_gap (edges P)" "last_end P" "degrees P = map length (rows P)" "\<forall>r \<in> set (rows P). sorted_wrt (<) (map snd r)"
    and size: "4 * length (elems (edges P)) \<le> 2 ^ 32"
    and s: "nodes s = nodes P" "quiet (nodes s)" "chained (nodes s)" "length (nodes s) = Suc n" "node_lock s = new_PMA_Lock\<lparr>lock_x := 1\<rparr>"
    and put: "set_slot_at s b v d = P\<lparr>node_lock := node_lock s, next_task_id := next_task_id s\<rparr>"
    and b: "edge_dests (edges s) ! b = NULL_VAL" "b < length (edge_dests (edges s))" "b < edges_N (edges P)"
      "\<And>c. c < find_leaf (edges P) b \<or> find_leaf (edges P) b + logN (edges P) \<le> c \<Longrightarrow> last_free (edges P) c"
    and t: "task_ok t" and r: "rounding_ok rnd"
  shows "\<exists>q. (do { (held, pma) \<leftarrow> grab_locks_for_leaf_with_resets s n; let pma = pma\<lparr>node_lock := make_shared (node_lock pma)\<rparr>;
      pma \<leftarrow> insert_elem rnd t pma b d v n held; Some (unshare_nodes pma) }) = Some q \<and>
    at_rest q \<and> rows q = rows P \<and> next_task_id q = next_task_id s \<and> length (nodes q) = Suc n \<and> elems (edges q) = elems (edges P)"
proof -
  have n: "n < length (nodes s)" using s(4) by simp
  obtain held p1 where p1: "grab_locks_for_leaf_with_resets s n = Some (held, p1)" "relock s p1" "snd held < length (nodes p1)"
      "locks_are t (nodes p1) (lock_range held) {}"
    using grab_locks_for_leaf_ok [OF s(3) n s(2), of t] by blast
  note f1 = relock_fields [OF p1(2)]
  let ?l = "new_PMA_Lock\<lparr>lock_x := 2\<rparr>"
  let ?p2 = "p1\<lparr>node_lock := ?l\<rparr>"
  let ?P = "set_slot_at ?p2 b v d"
  have l: "make_shared (node_lock p1) = ?l" using s(5) f1(2) by (simp add: make_shared_def cas_def new_PMA_Lock_def)
  have "alike P ?P"
  proof -
    have "edges (set_slot_at s b v d) = edges P" "upper_density_bound (set_slot_at s b v d) = upper_density_bound P"
        "lower_density_bound (set_slot_at s b v d) = lower_density_bound P" unfolding put by simp_all
    then show ?thesis using f1 s(1) relock_same_nodes [OF p1(2)] by (simp add: alike_def set_slot_at_def)
  qed
  note k = alike_keeps [OF this]
  have n0: "0 < length (nodes P)" using s(1,4) by simp
  have "\<exists>q. rebalance True rnd t ?P b n held = Some q \<and> graph_ok q \<and> quiet (nodes q) \<and> rows q = rows ?P \<and> same_frame ?P q \<and> elems (edges q) = elems (edges ?P)"
  proof (rule placed_ok [OF t r k(1) [OF P(1)]])
    show "last_end ?P" by (rule k(5) [OF n0 P(4)])
    show "locks_are t (nodes ?P) (lock_range held) {}" "snd held < length (nodes ?P)" using p1(3,4) by (simp_all add: set_slot_at_def)
  qed (use k(2-4,6,7) P size b n s(1) in simp_all)
  then obtain q where q: "rebalance True rnd t ?P b n held = Some q" "graph_ok q" "quiet (nodes q)" "rows q = rows P" "same_frame ?P q" "elems (edges q) = elems (edges P)"
    using k(3,6) by auto
  have "insert_elem rnd t ?p2 b d v n held = Some q" using b(1,2) q(1) f1(1) by (simp add: insert_elem_def)
  moreover have "at_rest (unshare_nodes q)" using q(2,3,5) by (simp add: at_rest_def same_frame_def set_slot_at_def) (simp add: unshare_nodes_def unlock_shared_def new_PMA_Lock_def)
  moreover have "next_task_id q = next_task_id s" "length (nodes q) = Suc n" using q(5) f1(3) k(7) s(1,4) by (simp_all add: same_frame_def) (simp add: set_slot_at_def)
  ultimately show ?thesis using p1(1) l q(4,6) by (auto simp: Let_def)
qed

abbreviation building :: "PMA \<Rightarrow> PMA" where
  "building p \<equiv> p\<lparr>next_task_id := next_task_id p + 2, node_lock := new_PMA_Lock\<lparr>lock_x := 1\<rparr>\<rparr>"

lemma lock_for_building: "lock_excl new_PMA_Lock GENERAL = Some (new_PMA_Lock\<lparr>lock_x := 1\<rparr>)"
  by (simp add: lock_excl_def cas_def new_PMA_Lock_def)

lemma push_node_chained:
  assumes "array_ok p"
  shows "chained (nodes (push_node p (beginning (last_node p) + 1)))"
proof -
  let ?n = "length (nodes p)"
  have n0: "0 < ?n" by (rule first_slot(5) [OF assms])
  note push = push_node_nodes [OF n0] and ch = array_facts(7) [OF assms]
  have "node_end (nodes (push_node p (beginning (last_node p) + 1)) ! i) = beginning (nodes (push_node p (beginning (last_node p) + 1)) ! Suc i) \<and>
      beginning (nodes (push_node p (beginning (last_node p) + 1)) ! i) < beginning (nodes (push_node p (beginning (last_node p) + 1)) ! Suc i)" if "i < ?n" for i
  proof (cases "Suc i = ?n")
    case True
    then have i: "i = ?n - 1" by simp
    show ?thesis unfolding True using push(3,6) [OF that] push(7) i by simp
  next
    case False
    then have i: "Suc i < ?n" "i \<noteq> ?n - 1" using that by linarith+
    then show ?thesis using ch push(3,6) [OF that] push(3) [OF i(1)] by (simp add: chained_def)
  qed
  moreover have "nodes (push_node p (beginning (last_node p) + 1)) \<noteq> []" by (simp add: push flip: length_greater_0_conv)
  moreover have "beginning (nodes (push_node p (beginning (last_node p) + 1)) ! 0) = 0" using ch push(3) [OF n0] by (simp add: chained_def)
  ultimately show ?thesis by (simp add: chained_def push(1))
qed

lemma add_node_ok:
  assumes p: "at_rest p" "last (rows p) = []" and t: "task_ok (next_task_id p)" and r: "rounding_ok rnd"
    and size: "4 * Suc (length (elems (edges p))) \<le> 2 ^ 32" "length (nodes p) < 2 ^ 32"
  shows "\<exists>q. add_node rnd p = Some q \<and> at_rest q \<and> rows q = rows p @ [[]] \<and> next_task_id q = next_task_id p + 2 \<and>
    length (nodes q) = Suc (length (nodes p)) \<and> length (elems (edges q)) = Suc (length (elems (edges p)))"
proof -
  let ?n = "length (nodes p)" and ?b = "beginning (last_node p) + 1" and ?P = "with_vertex p"
  have g: "graph_ok p" and q: "quiet (nodes p)" and l: "node_lock p = new_PMA_Lock" using p(1) by (simp_all add: at_rest_def)
  note ok = graph_okD(1) [OF g] and rw = with_vertex_rows [OF g p(2)] and rest = with_vertex_rest [OF g p(2)] and tail = empty_tail [OF g p(2)]
  have n0: "0 < ?n" by (rule first_slot(5) [OF ok])
  note f = with_vertex_fields [OF n0]
  let ?s = "push_node (building p) ?b"
  have s: "nodes ?s = nodes ?P" "edges ?s = edges p" "node_lock ?s = new_PMA_Lock\<lparr>lock_x := 1\<rparr>" "next_task_id ?s = next_task_id p + 2"
    unfolding f(1) by (simp_all add: push_node_def Let_def)
  have put: "set_slot_at ?s ?b (of_nat ?n) SENT_VAL = ?P\<lparr>node_lock := node_lock ?s, next_task_id := next_task_id ?s\<rparr>"
    by (simp add: with_vertex_def set_slot_at_def push_node_def Let_def)
  have "\<forall>r \<in> set (rows ?P). sorted_wrt (<) (map snd r)" using g by (auto simp: rw graph_ok_def)
  moreover have "degrees ?P = map length (rows ?P)" using graph_okD(5) [OF g] by (simp add: rw)
  moreover have "4 * length (elems (edges ?P)) \<le> 2 ^ 32" using size(1) by (simp add: with_vertex_elems(1) [OF g p(2)])
  ultimately obtain q where q: "(do { (held, pma) \<leftarrow> grab_locks_for_leaf_with_resets ?s ?n; let pma = pma\<lparr>node_lock := make_shared (node_lock pma)\<rparr>;
        pma \<leftarrow> insert_elem rnd (next_task_id p) pma ?b SENT_VAL (of_nat ?n) ?n held; Some (unshare_nodes pma) }) = Some q"
      "at_rest q" "rows q = rows ?P" "next_task_id q = next_task_id ?s" "length (nodes q) = Suc ?n" "elems (edges q) = elems (edges ?P)"
    using add_node_rest [OF with_vertex_ok [OF g p(2) size(2)] _ rest(1,2) _ _ _ s(1) _ _ _ s(3) put _ _ rest(3,4) t r, of ?n]
      push_node_quiet [OF n0 q] push_node_chained [OF ok] graph_okD(4) [OF g] tail(1,4) array_facts(1) [OF ok] f(2,9) s(1,2) unfolding f(1) by (auto simp: sized_def)
  have "new_beginning (building p) = new_beginning p" by (simp add: new_beginning_def Let_def)
  then have "new_beginning (building p) = Some ?b" using tail(5) by simp
  then have "add_node rnd p = Some q" using q(1) n0 l by (simp add: add_node_def take_task_def lock_for_building Let_def)
  then show ?thesis using q(2-6) rw(1) s(4) by (simp add: with_vertex_elems(1) [OF g p(2)])
qed

section \<open>The constructor\<close>

lemma init_size_pow:
  assumes "0 < n" "n < 2 ^ 29"
  shows "\<exists>k. init_size n = 2 ^ k \<and> 4 \<le> k \<and> k \<le> 31"
proof -
  have m: "n * 2 mod 2 ^ 32 = n * 2" using assms(2) by simp
  have "2 ^ bsr_word (n * 2) \<le> n * 2" using bsr_word_bounds [of "n * 2"] assms(1) by simp
  then have "(2 :: nat) ^ bsr_word (n * 2) < 2 ^ 30" using assms(2) by simp
  then have lt: "bsr_word (n * 2) < 30" by (rule power_less_imp_less_exp [rotated]) simp
  let ?k = "max (Suc (bsr_word (n * 2))) 4"
  have "max (2 ^ a) (2 ^ b) = (2 :: nat) ^ max a b" for a b
    by (simp add: max_def power_increasing_iff)
  from this [of "Suc (bsr_word (n * 2))" 4] have "init_size n = 2 ^ ?k" unfolding init_size_def m by simp
  then show ?thesis using lt by (intro exI [of _ ?k]) simp
qed

text \<open>The empty array, and the array with its first vertex before it is rebalanced.\<close>

lemma empty_PMA_ok:
  assumes sz: "sz = 2 ^ k" "4 \<le> k" "k \<le> 31" and r: "rounding_ok rnd"
  shows "geometry_ok (edges (empty_PMA rnd u l sz))" "bounds_ok (empty_PMA rnd u l sz)" "edge_dests (edges (empty_PMA rnd u l sz)) = replicate sz NULL_VAL"
    "edge_vals (edges (empty_PMA rnd u l sz)) = replicate sz 0" "edges_N (edges (empty_PMA rnd u l sz)) = sz"
    "nodes (empty_PMA rnd u l sz) = []" "node_lock (empty_PMA rnd u l sz) = new_PMA_Lock" "next_task_id (empty_PMA rnd u l sz) = 1"
proof -
  let ?j = "bsr_word (k + 1)" and ?p = "empty_PMA rnd u l sz"
  have j: "2 \<le> ?j" "2 ^ ?j \<le> k + 1" using bsr_2 [of "k + 1"] bsr_word_bounds [of "k + 1"] sz(2) by simp_all
  then show geo: "geometry_ok (edges ?p)" unfolding empty_PMA_def sz(1) bsr_word_pow using sz(2,3) by (simp, intro geometry_okI) simp_all
  have le: "loglogN (edges ?p) \<le> 32" "edges_H (edges ?p) \<le> 32" using size_pow(4) [OF geo] by simp_all
  show "bounds_ok ?p" unfolding empty_PMA_def
    by (rule set_density_bounds_ok [OF r, of _ "loglogN (edges ?p)"]) (use geo le in \<open>simp_all add: geometry_ok_def empty_PMA_def set_geometry_def\<close>)
qed (simp_all add: empty_PMA_def)

definition first_vertex :: "PMA \<Rightarrow> PMA" where
  "first_vertex p = set_slot_at (push_node p 0) 0 NULL_VAL 0"

lemma first_vertex_ok:
  assumes e: "geometry_ok (edges e)" "edge_dests (edges e) = replicate (edges_N (edges e)) NULL_VAL" "edge_vals (edges e) = replicate (edges_N (edges e)) 0" "nodes e = []"
  shows "array_ok (first_vertex e)" "no_gap (edges (first_vertex e))" "last_end (first_vertex e)" "rows (first_vertex e) = [[]]" "degrees (first_vertex e) = [0]"
    "elems (edges (first_vertex e)) = [(NULL_VAL, 0)]" "c < find_leaf (edges (first_vertex e)) 0 \<or> find_leaf (edges (first_vertex e)) 0 + logN (edges (first_vertex e)) \<le> c \<Longrightarrow> last_free (edges (first_vertex e)) c"
proof -
  let ?P = "first_vertex e" and ?N = "edges_N (edges e)"
  have L: "4 \<le> logN (edges e)" "edges_N (edges e) = logN (edges e) * 2 ^ edges_H (edges e)" using e(1) logN_pos by (auto simp: geometry_ok_def)
  then have N: "0 < ?N" by simp
  have nodes: "nodes ?P = [\<lparr>beginning = 0, node_end = 1, num_neighbors = 0, node_lock_of = new_PMA_Lock\<rparr>]"
    using e(4) by (simp add: first_vertex_def set_slot_at_def push_node_def Let_def)
  have el: "edges_N (edges ?P) = ?N" "logN (edges ?P) = logN (edges e)" "edge_dests (edges ?P) = (replicate ?N NULL_VAL)[0 := 0]"
      "edge_vals (edges ?P) = (replicate ?N 0)[0 := NULL_VAL]"
    using e(2,3) by (simp_all add: first_vertex_def set_slot_at_def push_node_def Let_def)
  have dests: "edge_dests (edges ?P) ! c = (if c = 0 then 0 else NULL_VAL)" if "c < ?N" for c using that by (simp add: el)
  have "geometry_ok (el\<lparr>edge_vals := vs, edge_dests := ds\<rparr>) = geometry_ok el" for el vs ds by (simp add: geometry_ok_def)
  then have geo: "geometry_ok (edges ?P)" using e(1) by (simp add: first_vertex_def set_slot_at_def push_node_def Let_def)
  have sz: "sized (edges ?P)" by (simp add: sized_def el)
  obtain m where m: "?N = Suc m" using N by (cases ?N) auto
  show E: "elems (edges ?P) = [(NULL_VAL, 0)]" by (simp add: elems_def el m nonnull_def NULL_VAL_def)
  show "rows ?P = [[]]" "degrees ?P = [0]" by (simp_all add: rows_def E degrees_def nodes)
  show "no_gap (edges ?P)" using dests by (auto simp: no_gap_def el(1) SENT_VAL_def NULL_VAL_def split: if_splits)
  show "last_end ?P" by (simp add: last_end_def nodes)
  have "packed_at (edges ?P) c" "pointer_at (edges ?P) (nodes ?P) c" for c
    using dests by (auto simp: packed_at_def pointer_at_def el(1) SENT_VAL_def NULL_VAL_def split: if_splits)
  moreover have "first_ok ?P" using dests [OF N] N by (simp add: first_ok_def nodes el(1) SENT_VAL_def NULL_VAL_def)
  ultimately show "array_ok ?P" using sz geo by (simp add: array_ok_def array_core_def slot_ok_def E nodes SENT_VAL_def)
  show "last_free (edges ?P) c" using dests [of c] L(1) by (auto simp: last_free_def el(1,2))
qed

lemma first_node_ok:
  assumes e: "geometry_ok (edges e)" "edge_dests (edges e) = replicate (edges_N (edges e)) NULL_VAL" "edge_vals (edges e) = replicate (edges_N (edges e)) 0"
    "nodes e = []" "node_lock e = new_PMA_Lock" "bounds_ok e" and t: "task_ok (next_task_id e)" and r: "rounding_ok rnd"
  shows "\<exists>q. add_node rnd e = Some q \<and> at_rest q \<and> rows q = [[]] \<and> next_task_id q = next_task_id e + 2 \<and> length (nodes q) = 1 \<and> length (elems (edges q)) = 1"
proof -
  note v = first_vertex_ok [OF e(1-4)]
  let ?s = "push_node (building e) 0" and ?P = "first_vertex e"
  have N: "0 < edges_N (edges e)" using e(1) logN_pos [OF e(1)] by (simp add: geometry_ok_def)
  have s: "nodes ?s = nodes ?P" "edges ?s = edges e" "node_lock ?s = new_PMA_Lock\<lparr>lock_x := 1\<rparr>" "next_task_id ?s = next_task_id e + 2"
      "nodes ?s = [\<lparr>beginning = 0, node_end = 1, num_neighbors = 0, node_lock_of = new_PMA_Lock\<rparr>]" "edges_N (edges ?P) = edges_N (edges e)"
    using e(4) by (simp_all add: first_vertex_def set_slot_at_def push_node_def Let_def)
  have put: "set_slot_at ?s 0 NULL_VAL 0 = ?P\<lparr>node_lock := node_lock ?s, next_task_id := next_task_id ?s\<rparr>"
    by (simp add: first_vertex_def set_slot_at_def push_node_def Let_def)
  have b: "bounds_ok ?P" using e(6) by (simp add: bounds_ok_def first_vertex_def set_slot_at_def push_node_def Let_def)
  obtain q where q: "(do { (held, pma) \<leftarrow> grab_locks_for_leaf_with_resets ?s 0; let pma = pma\<lparr>node_lock := make_shared (node_lock pma)\<rparr>;
        pma \<leftarrow> insert_elem rnd (next_task_id e) pma 0 0 NULL_VAL 0 held; Some (unshare_nodes pma) }) = Some q"
      "at_rest q" "rows q = rows ?P" "next_task_id q = next_task_id ?s" "length (nodes q) = Suc 0" "elems (edges q) = elems (edges ?P)"
    using add_node_rest [OF v(1) b v(2,3) _ _ _ s(1) _ _ _ s(3) put _ _ _ v(7) t r, of 0] v(4-6) s(2,5,6) e(2) N
    by (auto simp: quiet_def chained_def)
  have "add_node rnd e = Some q" using q(1) e(4,5) by (simp add: add_node_def take_task_def lock_for_building Let_def)
  then show ?thesis using q(2-6) v(4,6) s(4) by simp
qed

lemma task_ok_nat: "m < 2 ^ 32 \<Longrightarrow> task_ok (of_nat m)"
proof -
  assume m: "m < 2 ^ 32"
  have "unat (ucast (ucast (of_nat m :: u64) :: u32) :: u64) = m" using m by (simp add: unsigned_ucast_eq unsigned_take_bit_eq unat_of_nat take_bit_nat_eq_self)
  moreover have "unat (of_nat m :: u64) = m" using m by (simp add: unat_of_nat take_bit_nat_eq_self)
  ultimately show ?thesis by (simp add: task_ok_def word_unat_eq_iff)
qed

definition built :: "nat \<Rightarrow> PMA \<Rightarrow> bool" where
  "built k p \<longleftrightarrow> at_rest p \<and> rows p = replicate k [] \<and> length (nodes p) = k \<and> next_task_id p = of_nat (2 * k + 1) \<and> length (elems (edges p)) = k"

lemma add_nodes_ok:
  assumes r: "rounding_ok rnd"
  shows "built k p \<Longrightarrow> 0 < k \<Longrightarrow> k + m < 2 ^ 29 \<Longrightarrow> \<exists>q. add_nodes rnd m p = Some q \<and> built (k + m) q"
proof (induction m arbitrary: k p)
  case (Suc m)
  have b: "at_rest p" "rows p = replicate k []" "length (nodes p) = k" "next_task_id p = of_nat (2 * k + 1)" "length (elems (edges p)) = k"
    using Suc.prems(1) by (simp_all add: built_def)
  have small: "4 * Suc k \<le> 2 ^ 32" "k < 2 ^ 32" "2 * k + 1 < 2 ^ 32" using Suc.prems(3) by simp_all
  have "task_ok (next_task_id p)" unfolding b(4) by (rule task_ok_nat [OF small(3)])
  then obtain q where q: "add_node rnd p = Some q" "at_rest q" "rows q = rows p @ [[]]" "next_task_id q = next_task_id p + 2"
      "length (nodes q) = Suc (length (nodes p))" "length (elems (edges q)) = Suc (length (elems (edges p)))"
    using add_node_ok [OF b(1) _ _ r, unfolded b(3,5)] small(1,2) b(2,3,5) Suc.prems(2) by auto
  have "built (Suc k) q" using q b by (simp add: built_def replicate_append_same [symmetric])
  then show ?case using Suc.IH [of "Suc k" q] Suc.prems(3) q(1) by simp
qed simp

lemma new_PMA_ok:
  assumes n: "0 < n" "n < 2 ^ 29" and r: "rounding_ok rnd"
  shows "\<exists>p. new_PMA rnd u l n = Some p \<and> built n p"
proof -
  obtain k where k: "init_size n = 2 ^ k" "4 \<le> k" "k \<le> 31" using init_size_pow [OF n] by blast
  let ?e = "empty_PMA rnd u l (init_size n)"
  note e = empty_PMA_ok [OF k r]
  have one: "task_ok (next_task_id ?e)" using task_ok_nat [of 1] e(8) [of u l] by simp
  obtain p where p: "add_node rnd ?e = Some p" "at_rest p" "rows p = [[]]" "next_task_id p = next_task_id ?e + 2" "length (nodes p) = 1" "length (elems (edges p)) = 1"
    using first_node_ok [of ?e rnd, OF _ _ _ _ _ _ one r] e by auto
  have "built 1 p" using p(2-6) e(8) [of u l] by (simp add: built_def)
  moreover obtain m where m: "n = Suc m" using n(1) by (cases n) auto
  ultimately obtain q where "add_nodes rnd m p = Some q" "built n q" using add_nodes_ok [OF r, of 1 p m] n(2) by auto
  then show ?thesis using p(1) n m by (simp add: new_PMA_def)
qed

end
