(* ===== verification/PMA_Correct.thy ===== *)
theory PMA_Correct
  imports PMA_Build
begin

unbundle bit_operations_syntax

text \<open>
  The packed memory array as a graph: the interface of a store of edges, the proof that the array implements it, batches, the list of
  all edges, and the properties of the array from its constructor on.
\<close>

section \<open>Sequences of calls\<close>

fun run_all :: "('c \<Rightarrow> 's \<Rightarrow> ('a \<times> 's) option) \<Rightarrow> 'c list \<Rightarrow> 's \<Rightarrow> ('a list \<times> 's) option" where
  "run_all step [] s = Some ([], s)"
| "run_all step (c # cs) s = do { (a, s) \<leftarrow> step c s; (as, s) \<leftarrow> run_all step cs s; Some (a # as, s) }"

fun spec_all :: "('c \<Rightarrow> 't \<Rightarrow> 'a \<times> 't) \<Rightarrow> 'c list \<Rightarrow> 't \<Rightarrow> 'a list \<times> 't" where
  "spec_all spec [] t = ([], t)"
| "spec_all spec (c # cs) t = (let (a, t) = spec c t; (as, t) = spec_all spec cs t in (a # as, t))"

text \<open>
  The interface of a component that answers calls as an abstract one does, as long as it has room for them (counters and sizes have their
  widths): one legal call uses up one unit of room.
\<close>

locale simulation =
  fixes room :: "nat \<Rightarrow> 's \<Rightarrow> bool" and size_of :: "'s \<Rightarrow> nat" and legal :: "nat \<Rightarrow> 'c \<Rightarrow> bool" and abs :: "'s \<Rightarrow> 't"
    and step :: "'c \<Rightarrow> 's \<Rightarrow> ('a \<times> 's) option" and spec :: "'c \<Rightarrow> 't \<Rightarrow> 'a \<times> 't"
  assumes step_law: "room (Suc b) s \<Longrightarrow> legal (size_of s) c \<Longrightarrow>
      \<exists>s'. step c s = Some (fst (spec c (abs s)), s') \<and> abs s' = snd (spec c (abs s)) \<and> room b s' \<and> size_of s' = size_of s"
begin

lemma runs_refine:
  "room (b + length cs) s \<Longrightarrow> \<forall>c \<in> set cs. legal (size_of s) c \<Longrightarrow>
   \<exists>s'. run_all step cs s = Some (fst (spec_all spec cs (abs s)), s') \<and> abs s' = snd (spec_all spec cs (abs s)) \<and> room b s' \<and> size_of s' = size_of s"
proof (induction cs arbitrary: s)
  case (Cons c cs)
  have "room (Suc (b + length cs)) s" "legal (size_of s) c" using Cons.prems by simp_all
  from step_law [OF this] obtain s1 where
    s1: "step c s = Some (fst (spec c (abs s)), s1)" "abs s1 = snd (spec c (abs s))" "room (b + length cs) s1" "size_of s1 = size_of s" by blast
  from Cons.IH [OF s1(3)] obtain s2 where
    s2: "run_all step cs s1 = Some (fst (spec_all spec cs (abs s1)), s2)" "abs s2 = snd (spec_all spec cs (abs s1))" "room b s2" "size_of s2 = size_of s1"
    using Cons.prems(2) s1(4) by auto
  then show ?case using s1 by (auto simp: case_prod_beta Let_def)
qed simp

end

section \<open>A store of edges\<close>

type_synonym adjacency = "nat \<Rightarrow> u32 \<rightharpoonup> u32"

datatype graph_cmd = Put nat u32 u32 | Get nat u32

datatype graph_answer = Added bool | Value u32

text \<open>What a user expects: an update with value 0 does nothing, a lookup of a missing edge answers 0.\<close>

fun spec_cmd :: "graph_cmd \<Rightarrow> adjacency \<Rightarrow> graph_answer \<times> adjacency" where
  "spec_cmd (Put i d v) g = (if v = 0 then (Added False, g) else (Added (g i d = None), g(i := (g i)(d \<mapsto> v))))"
| "spec_cmd (Get i d) g = (Value (case g i d of None \<Rightarrow> 0 | Some v \<Rightarrow> v), g)"

fun run_cmd ::
    "(nat \<Rightarrow> u32 \<Rightarrow> u32 \<Rightarrow> 's \<Rightarrow> (bool \<times> 's) option) \<Rightarrow> (nat \<Rightarrow> u32 \<Rightarrow> 's \<Rightarrow> (u32 \<times> 's) option) \<Rightarrow> graph_cmd \<Rightarrow> 's \<Rightarrow> (graph_answer \<times> 's) option" where
  "run_cmd put get (Put i d v) s = map_option (\<lambda>(b, s). (Added b, s)) (put i d v s)"
| "run_cmd put get (Get i d) s = map_option (\<lambda>(v, s). (Value v, s)) (get i d s)"

fun legal_cmd :: "nat \<Rightarrow> graph_cmd \<Rightarrow> bool" where
  "legal_cmd n (Put i d v) \<longleftrightarrow> i < n \<and> d < SENT_VAL"
| "legal_cmd n (Get i d) \<longleftrightarrow> i < n \<and> d < SENT_VAL"

text \<open>The interface: a put is the update of one entry, a get reads one entry.\<close>

locale graph_store =
  fixes room :: "nat \<Rightarrow> 's \<Rightarrow> bool" and vertices :: "'s \<Rightarrow> nat" and adj :: "'s \<Rightarrow> adjacency"
    and put :: "nat \<Rightarrow> u32 \<Rightarrow> u32 \<Rightarrow> 's \<Rightarrow> (bool \<times> 's) option" and get :: "nat \<Rightarrow> u32 \<Rightarrow> 's \<Rightarrow> (u32 \<times> 's) option"
  assumes put_law: "room (Suc b) s \<Longrightarrow> legal_cmd (vertices s) (Put i d v) \<Longrightarrow>
      \<exists>s'. put i d v s = Some (v \<noteq> 0 \<and> adj s i d = None, s') \<and> room b s' \<and> vertices s' = vertices s \<and>
        adj s' = (if v = 0 then adj s else (adj s)(i := (adj s i)(d \<mapsto> v)))"
    and get_law: "room (Suc b) s \<Longrightarrow> legal_cmd (vertices s) (Get i d) \<Longrightarrow>
      \<exists>s'. get i d s = Some (case adj s i d of None \<Rightarrow> 0 | Some v \<Rightarrow> v, s') \<and> room b s' \<and> vertices s' = vertices s \<and> adj s' = adj s"
begin

lemma cmd_refines:
  "room (Suc b) s \<Longrightarrow> legal_cmd (vertices s) c \<Longrightarrow>
   \<exists>s'. run_cmd put get c s = Some (fst (spec_cmd c (adj s)), s') \<and> adj s' = snd (spec_cmd c (adj s)) \<and> room b s' \<and> vertices s' = vertices s"
proof (cases c)
  case (Put i d v)
  assume a: "room (Suc b) s" "legal_cmd (vertices s) c"
  obtain s' where "put i d v s = Some (v \<noteq> 0 \<and> adj s i d = None, s')" "room b s'" "vertices s' = vertices s"
      "adj s' = (if v = 0 then adj s else (adj s)(i := (adj s i)(d \<mapsto> v)))"
    using put_law [OF a [unfolded Put]] by blast
  then show ?thesis by (simp add: Put)
next
  case (Get i d)
  assume a: "room (Suc b) s" "legal_cmd (vertices s) c"
  obtain s' where "get i d s = Some (case adj s i d of None \<Rightarrow> 0 | Some v \<Rightarrow> v, s')" "room b s'" "vertices s' = vertices s" "adj s' = adj s"
    using get_law [OF a [unfolded Get]] by blast
  then show ?thesis by (simp add: Get)
qed

end

sublocale graph_store \<subseteq> calls: simulation room vertices legal_cmd adj "run_cmd put get" spec_cmd
  by unfold_locales (rule cmd_refines)

section \<open>The packed memory array is a store of edges\<close>

definition graph_of :: "PMA \<Rightarrow> adjacency" where
  "graph_of p i = (if i < length (rows p) then edge_map (rows p ! i) else Map.empty)"

text \<open>Room for \<open>b\<close> calls: the task numbers stay below \<open>2 ^ 32\<close>, which a lock remembers of them, and so do the slots.  The last vertex has no edges.\<close>

definition pma_room :: "nat \<Rightarrow> PMA \<Rightarrow> bool" where
  "pma_room b p \<longleftrightarrow> at_rest p \<and> last (rows p) = [] \<and> unat (next_task_id p) + 2 * b < 2 ^ 32 \<and> 4 * (length (elems (edges p)) + b) \<le> 2 ^ 32"

lemma task_ok_small: "unat t < 2 ^ 32 \<Longrightarrow> task_ok t"
  using task_ok_nat [of "unat t"] by simp

lemma pma_room_calls:
  assumes "pma_room b p" "0 < b"
  shows "task_ok (next_task_id p)" "4 * Suc (length (elems (edges p))) \<le> 2 ^ 32"
proof -
  have "unat (next_task_id p) < 2 ^ 32" using assms(1) unfolding pma_room_def by linarith
  then show "task_ok (next_task_id p)" by (rule task_ok_small)
  have "4 * Suc (length (elems (edges p))) \<le> 4 * (length (elems (edges p)) + b)" using assms(2) by simp
  then show "4 * Suc (length (elems (edges p))) \<le> 2 ^ 32" using assms(1) unfolding pma_room_def by linarith
qed

lemma next_task: "unat (t :: u64) + 2 < 2 ^ 64 \<Longrightarrow> unat (t + 2) = unat t + 2"
  by (simp add: unat_word_ariths)

lemma graph_of_update:
  assumes "graph_ok p" "i < length (nodes p)" "rows q = (rows p)[i := insert_edge v d (rows p ! i)]"
  shows "graph_of q = (graph_of p)(i := (graph_of p i)(d \<mapsto> v))"
  using assms length_rows [OF graph_okD(1) [OF assms(1)]] insert_edge_map [OF graph_okD(6) [OF assms(1,2)]]
  by (auto simp: graph_of_def fun_eq_iff nth_list_update)

lemma new_edge:
  assumes "graph_ok p" "i < length (nodes p)"
  shows "d \<notin> snd ` set (rows p ! i) \<longleftrightarrow> graph_of p i d = None"
  using assms length_rows [OF graph_okD(1) [OF assms(1)]] edge_map_dom [of "rows p ! i"] by (auto simp: graph_of_def)

lemma last_update: "Suc i < length xs \<Longrightarrow> last (xs[i := x]) = last xs"
  by (cases xs rule: rev_cases) (auto simp: list_update_append nth_append)

lemma pma_put_row:
  assumes r: "rounding_ok rnd" and room: "pma_room (Suc b) p" and i: "Suc i < length (nodes p)" and d: "d < SENT_VAL" "v \<noteq> 0"
  shows "\<exists>q. add_edge_update rnd i d v p = Some (d \<notin> snd ` set (rows p ! i), q) \<and> pma_room b q \<and> length (nodes q) = length (nodes p) \<and>
    rows q = (rows p)[i := insert_edge v d (rows p ! i)] \<and> length (elems (edges q)) \<le> Suc (length (elems (edges p)))"
proof -
  have p: "at_rest p" "graph_ok p" "last (rows p) = []" using room by (simp_all add: pma_room_def at_rest_def)
  note small = pma_room_calls [OF room zero_less_Suc]
  obtain q where q: "add_edge_update rnd i d v p = Some (d \<notin> snd ` set (rows p ! i), q)" "at_rest q"
      "call_effect p 2 ((rows p)[i := insert_edge v d (rows p ! i)]) q" "length (elems (edges q)) \<le> Suc (length (elems (edges p)))"
    using add_edge_update_ok [OF p(1) i small(1) r d small(2)] by blast
  have rq: "rows q = (rows p)[i := insert_edge v d (rows p ! i)]" "length (nodes q) = length (nodes p)" "next_task_id q = next_task_id p + 2"
    using q(3) by (simp_all add: call_effect_def)
  have "unat (next_task_id q) = unat (next_task_id p) + 2" unfolding rq(3) using room by (intro next_task) (simp add: pma_room_def)
  moreover have "last (rows q) = []" using p(3) last_update [of i "rows p"] i length_rows [OF graph_okD(1) [OF p(2)]] by (simp add: rq(1))
  ultimately have "pma_room b q" using room q(2,4) by (simp add: pma_room_def)
  then show ?thesis using q(1,4) rq(1,2) by blast
qed

lemma pma_put:
  assumes r: "rounding_ok rnd" and room: "pma_room (Suc b) p" and c: "legal_cmd (length (nodes p) - 1) (Put i d v)"
  shows "\<exists>q. add_edge_update rnd i d v p = Some (v \<noteq> 0 \<and> graph_of p i d = None, q) \<and> pma_room b q \<and> length (nodes q) - 1 = length (nodes p) - 1 \<and>
    graph_of q = (if v = 0 then graph_of p else (graph_of p)(i := (graph_of p i)(d \<mapsto> v)))"
proof (cases "v = 0")
  case True
  then show ?thesis using room by (auto simp: add_edge_update_def pma_room_def)
next
  case False
  have i: "Suc i < length (nodes p)" "i < length (nodes p)" and d: "d < SENT_VAL" using c by auto
  have g: "graph_ok p" using room by (simp add: pma_room_def at_rest_def)
  obtain q where q: "add_edge_update rnd i d v p = Some (d \<notin> snd ` set (rows p ! i), q)" "pma_room b q" "length (nodes q) = length (nodes p)"
      "rows q = (rows p)[i := insert_edge v d (rows p ! i)]"
    using pma_put_row [OF r room i(1) d False] by blast
  then show ?thesis using False graph_of_update [OF g i(2) q(4)] new_edge [OF g i(2)] by auto
qed

lemma pma_get:
  assumes room: "pma_room (Suc b) p" and c: "legal_cmd (length (nodes p) - 1) (Get i d)"
  shows "\<exists>q. find_value i d p = Some (case graph_of p i d of None \<Rightarrow> 0 | Some v \<Rightarrow> v, q) \<and> pma_room b q \<and> length (nodes q) - 1 = length (nodes p) - 1 \<and>
    graph_of q = graph_of p"
proof -
  let ?q = "p\<lparr>next_task_id := next_task_id p + 2\<rparr>"
  have i: "Suc i < length (nodes p)" "i < length (nodes p)" and d: "d < SENT_VAL" using c by auto
  have p: "at_rest p" "graph_ok p" using room by (simp_all add: pma_room_def at_rest_def)
  have "unat (next_task_id p + 2) = unat (next_task_id p) + 2" using room by (intro next_task) (simp add: pma_room_def)
  moreover have "graph_ok (p\<lparr>node_lock := node_lock p, next_task_id := next_task_id p + 2\<rparr>)" using p(2) unfolding graph_ok_shared .
  then have "graph_ok ?q" by simp
  moreover have "rows ?q = rows p" by (simp add: rows_def)
  ultimately have "pma_room b ?q" "graph_of ?q = graph_of p" using room by (simp_all add: pma_room_def at_rest_def graph_of_def fun_eq_iff)
  moreover have "graph_of p i = edge_map (rows p ! i)" using i(2) length_rows [OF graph_okD(1) [OF p(2)]] by (simp add: graph_of_def)
  ultimately show ?thesis using find_value_ok [OF p(1) i(1) d] by auto
qed

interpretation pma: graph_store "\<lambda>b p. rounding_ok rnd \<and> pma_room b p" "\<lambda>p. length (nodes p) - 1" graph_of "add_edge_update rnd" find_value for rnd
proof unfold_locales
  fix b s i d v
  assume "rounding_ok rnd \<and> pma_room (Suc b) s" "legal_cmd (length (nodes s) - 1) (Put i d v)"
  then show "\<exists>s'. add_edge_update rnd i d v s = Some (v \<noteq> 0 \<and> graph_of s i d = None, s') \<and> (rounding_ok rnd \<and> pma_room b s') \<and>
      length (nodes s') - 1 = length (nodes s) - 1 \<and> graph_of s' = (if v = 0 then graph_of s else (graph_of s)(i := (graph_of s i)(d \<mapsto> v)))"
    using pma_put by blast
next
  fix b s i d
  assume "rounding_ok rnd \<and> pma_room (Suc b) s" "legal_cmd (length (nodes s) - 1) (Get i d)"
  then show "\<exists>s'. find_value i d s = Some (case graph_of s i d of None \<Rightarrow> 0 | Some v \<Rightarrow> v, s') \<and> (rounding_ok rnd \<and> pma_room b s') \<and>
      length (nodes s') - 1 = length (nodes s) - 1 \<and> graph_of s' = graph_of s"
    using pma_get by blast
qed

text \<open>A new array has room for as many calls as its counters allow.\<close>

lemma built_room:
  assumes "built n p" "0 < n" "n + b < 2 ^ 29"
  shows "pma_room b p" "graph_of p = (\<lambda>_. Map.empty)" "length (nodes p) = n"
proof -
  have b: "at_rest p" "rows p = replicate n []" "length (nodes p) = n" "next_task_id p = of_nat (2 * n + 1)" "length (elems (edges p)) = n"
    using assms(1) by (simp_all add: built_def)
  have "unat (next_task_id p) = 2 * n + 1" unfolding b(4) by (simp only: unat_of_nat) (use assms(3) in \<open>simp add: take_bit_nat_eq_self\<close>)
  then show "pma_room b p" using b assms(2,3) by (simp add: pma_room_def)
  show "graph_of p = (\<lambda>_. Map.empty)" by (auto simp: graph_of_def b(2) edge_map_def fun_eq_iff)
  show "length (nodes p) = n" by (rule b(3))
qed

section \<open>Batches\<close>

fun put_edge :: "nat \<times> u32 \<times> u32 \<Rightarrow> (u32 \<times> u32) list list \<Rightarrow> (u32 \<times> u32) list list" where
  "put_edge (i, d, v) rs = (if v = 0 then rs else rs[i := insert_edge v d (rs ! i)])"

definition legal_edge :: "nat \<Rightarrow> nat \<times> u32 \<times> u32 \<Rightarrow> bool" where
  "legal_edge n e \<longleftrightarrow> Suc (fst e) < n \<and> fst (snd e) < SENT_VAL"

lemma add_batch_ok:
  assumes r: "rounding_ok rnd"
  shows "graph_ok p \<Longrightarrow> quiet (nodes p) \<Longrightarrow> \<forall>e \<in> set es. legal_edge (length (nodes p)) e \<Longrightarrow> unat t + 2 * length es < 2 ^ 32 \<Longrightarrow>
    4 * (length (elems (edges p)) + length es) \<le> 2 ^ 32 \<Longrightarrow>
    \<exists>q. add_batch rnd t es p = Some q \<and> graph_ok q \<and> quiet (nodes q) \<and> same_frame p q \<and> rows q = fold put_edge es (rows p)"
proof (induction es arbitrary: t p)
  case (Cons e es)
  obtain i d v where e: "e = (i, d, v)" by (cases e) auto
  have i: "Suc i < length (nodes p)" and d: "d < SENT_VAL" using Cons.prems(3) by (simp_all add: e legal_edge_def)
  have t: "task_ok t" "unat (t + 2) = unat t + 2" using Cons.prems(4) task_ok_small [of t] next_task [of t] by simp_all
  have size: "4 * Suc (length (elems (edges p))) \<le> 2 ^ 32" using Cons.prems(5) by simp
  have "\<exists>b q. add_edge_update_fast rnd t i d v p = Some (b, q) \<and> graph_ok q \<and> quiet (nodes q) \<and> same_frame p q \<and> rows q = put_edge e (rows p) \<and>
      length (elems (edges q)) \<le> Suc (length (elems (edges p)))"
  proof (cases "v = 0")
    case True
    then show ?thesis using Cons.prems(1,2) by (intro exI [of _ False] exI [of _ p]) (simp add: add_edge_update_fast_def e same_frame_def)
  next
    case False
    from add_edge_update_fast_ok [OF Cons.prems(1,2) i t(1) r d False size] show ?thesis using False by (auto simp: updated_def e)
  qed
  then obtain b q where q: "add_edge_update_fast rnd t i d v p = Some (b, q)" "graph_ok q" "quiet (nodes q)" "same_frame p q" "rows q = put_edge e (rows p)"
      "length (elems (edges q)) \<le> Suc (length (elems (edges p)))" by blast
  have n: "length (nodes q) = length (nodes p)" using q(4) by (simp add: same_frame_def)
  obtain q' where "add_batch rnd (t + 2) es q = Some q'" "graph_ok q'" "quiet (nodes q')" "same_frame q q'" "rows q' = fold put_edge es (rows q)"
    using Cons.IH [OF q(2,3), of "t + 2"] Cons.prems(3,4,5) q(6) n t(2) by auto
  then show ?case using q same_frame_trans [OF q(4)] by (auto simp: e)
qed (simp add: same_frame_def)

lemma add_edge_batch_update_ok:
  assumes p: "at_rest p" and r: "rounding_ok rnd" and es: "\<forall>e \<in> set es. legal_edge (length (nodes p)) e"
    and size: "unat (next_task_id p) + 2 * length es < 2 ^ 32" "4 * (length (elems (edges p)) + length es) \<le> 2 ^ 32"
  shows "\<exists>q. add_edge_batch_update rnd es p = Some q \<and> at_rest q \<and> call_effect p (2 * of_nat (length es)) (fold put_edge es (rows p)) q"
proof -
  let ?k = "2 * of_nat (length es) :: u64"
  have l: "node_lock p = new_PMA_Lock" using p by (simp add: at_rest_def)
  obtain q where q: "add_batch rnd (next_task_id p) es (with_shared p ?k) = Some q" "graph_ok q" "quiet (nodes q)" "same_frame (with_shared p ?k) q"
      "rows q = fold put_edge es (rows p)"
    using add_batch_ok [OF r, of "with_shared p ?k" es "next_task_id p"] p es size by (auto simp: at_rest_def)
  have e: "call_effect p ?k (fold put_edge es (rows p)) (unshare_nodes q)"
    using q(3-5) by (simp add: call_effect_def same_frame_def) (simp add: unshare_nodes_def unlock_shared_def new_PMA_Lock_def)
  have "add_edge_batch_update rnd es p = Some (unshare_nodes q)" using q(1) by (simp add: add_edge_batch_update_def share_nodes_new [OF l])
  then show ?thesis using e at_rest_call [OF _ e] q(2) by auto
qed

text \<open>The same edges added one by one.\<close>

fun add_singly :: "(real \<Rightarrow> real) \<Rightarrow> (nat \<times> u32 \<times> u32) list \<Rightarrow> PMA \<Rightarrow> PMA option" where
  "add_singly rnd [] p = Some p"
| "add_singly rnd ((i, d, v) # es) p = do { (added, p) \<leftarrow> add_edge_update rnd i d v p; add_singly rnd es p }"

lemma add_singly_ok:
  assumes r: "rounding_ok rnd"
  shows "at_rest p \<Longrightarrow> \<forall>e \<in> set es. legal_edge (length (nodes p)) e \<Longrightarrow> unat (next_task_id p) + 2 * length es < 2 ^ 32 \<Longrightarrow>
    4 * (length (elems (edges p)) + length es) \<le> 2 ^ 32 \<Longrightarrow> \<exists>q. add_singly rnd es p = Some q \<and> at_rest q \<and> rows q = fold put_edge es (rows p)"
proof (induction es arbitrary: p)
  case (Cons e es)
  obtain i d v where e: "e = (i, d, v)" by (cases e) auto
  have i: "Suc i < length (nodes p)" and d: "d < SENT_VAL" using Cons.prems(2) by (simp_all add: e legal_edge_def)
  have t: "task_ok (next_task_id p)" using Cons.prems(3) by (intro task_ok_small) simp
  have size: "4 * Suc (length (elems (edges p))) \<le> 2 ^ 32" using Cons.prems(4) by simp
  have "\<exists>b q. add_edge_update rnd i d v p = Some (b, q) \<and> at_rest q \<and> rows q = put_edge e (rows p) \<and> length (nodes q) = length (nodes p) \<and>
      length (elems (edges q)) \<le> Suc (length (elems (edges p))) \<and> unat (next_task_id q) \<le> unat (next_task_id p) + 2"
  proof (cases "v = 0")
    case True
    then show ?thesis using Cons.prems(1) by (intro exI [of _ False] exI [of _ p]) (simp add: add_edge_update_def e)
  next
    case False
    have "unat (next_task_id p + 2) = unat (next_task_id p) + 2" using Cons.prems(3) by (intro next_task) simp
    with add_edge_update_ok [OF Cons.prems(1) i t r d False size] show ?thesis using False by (auto simp: call_effect_def e)
  qed
  then obtain b q where q: "add_edge_update rnd i d v p = Some (b, q)" "at_rest q" "rows q = put_edge e (rows p)" "length (nodes q) = length (nodes p)"
      "length (elems (edges q)) \<le> Suc (length (elems (edges p)))" "unat (next_task_id q) \<le> unat (next_task_id p) + 2" by blast
  obtain q' where "add_singly rnd es q = Some q'" "at_rest q'" "rows q' = fold put_edge es (rows q)"
    using Cons.IH [OF q(2)] Cons.prems(2-4) q(4-6) by auto
  then show ?case using q(1,3) by (auto simp: e)
qed simp

section \<open>The list of all edges\<close>

definition all_edges :: "(u32 \<times> u32) list list \<Rightarrow> nat list \<Rightarrow> (nat \<times> u32 \<times> u32) list" where
  "all_edges rs is = concat (map (\<lambda>i. map (\<lambda>(v, d). (i, d, v)) (rs ! i)) is)"

text \<open>The slots a vertex is read from: up to the end its node names, which for the last vertex need not be the end of the array.\<close>

lemma node_slots:
  assumes g: "graph_ok p" and i: "i < length (nodes p)" and e: "last (rows p) = []"
  shows "node_end (nodes p ! i) \<le> edges_N (edges p)" "filter nonnull (slots (edges p) (beginning (nodes p ! i) + 1) (node_end (nodes p ! i))) = rows p ! i"
proof -
  let ?n = "length (nodes p)"
  note ok = graph_okD(1) [OF g] and tail = empty_tail [OF g e]
  have "node_end (nodes p ! i) \<le> edges_N (edges p) \<and> filter nonnull (slots (edges p) (beginning (nodes p ! i) + 1) (node_end (nodes p ! i))) = rows p ! i"
  proof (cases "Suc i < ?n")
    case True
    have "node_end (nodes p ! i) = vertex_end p i" using array_beginning(4) [OF ok zero_less_Suc True] True by (simp add: vertex_end_def)
    then show ?thesis using nth_rows [OF ok i] vertex_bounds(2) [OF ok i] by (simp add: row_at_def)
  next
    case False
    then have last: "i = ?n - 1" using i by linarith
    then have r: "rows p ! i = []" using e length_rows [OF ok] i by (simp add: last_conv_nth flip: length_greater_0_conv)
    have le: "node_end (nodes p ! i) \<le> edges_N (edges p)" using graph_okD(7) [OF g] tail(1) last by (auto simp: last_end_def Let_def)
    moreover have "filter nonnull (slots (edges p) (beginning (nodes p ! i) + 1) (node_end (nodes p ! i))) = []"
      using tail(4) le last by (auto simp: filter_empty_conv slots_def nonnull_def)
    ultimately show ?thesis using r by simp
  qed
  then show "node_end (nodes p ! i) \<le> edges_N (edges p)" "filter nonnull (slots (edges p) (beginning (nodes p ! i) + 1) (node_end (nodes p ! i))) = rows p ! i"
    by simp_all
qed

lemma share_unshare: "lock_shared new_PMA_Lock = Some (new_PMA_Lock\<lparr>lock_x := 2\<rparr>)" "unlock_shared (new_PMA_Lock\<lparr>lock_x := 2\<rparr>) = new_PMA_Lock"
  by (simp_all add: lock_shared_def unlock_shared_def cas_def new_PMA_Lock_def)

lemma edge_rows_ok:
  assumes g: "graph_ok p" and e: "last (rows p) = []" and q: "quiet (nodes p)"
  shows "set is \<subseteq> {..<length (nodes p)} \<Longrightarrow> edge_rows is p = Some (all_edges (rows p) is, p)"
proof (induction "is")
  case (Cons i js)
  have i: "i < length (nodes p)" using Cons.prems by simp
  let ?l = "new_PMA_Lock\<lparr>lock_x := 2\<rparr>"
  have new: "node_lock_of (nodes p ! i) = new_PMA_Lock" using q i by (simp add: quiet_def)
  have f: "edges (set_node_lock p i ?l) = edges p" "node_end (nodes (set_node_lock p i ?l) ! i) = node_end (nodes p ! i)"
      "beginning (nodes (set_node_lock p i ?l) ! i) = beginning (nodes p ! i)" "node_lock_of (nodes (set_node_lock p i ?l) ! i) = ?l"
    using i by (simp_all add: set_node_lock_def)
  have undo: "set_node_lock (set_node_lock p i ?l) i new_PMA_Lock = p" using set_node_lock_twice [OF i, of ?l] new by simp
  have "length (edge_dests (edges p)) = edges_N (edges p)" using array_facts(1) [OF graph_okD(1) [OF g]] by (simp add: sized_def)
  then have "\<not> length (edge_dests (edges p)) < node_end (nodes p ! i)" using node_slots(1) [OF g i e] by simp
  moreover have "filter (\<lambda>(v, d). d \<noteq> NULL_VAL) (slots (edges p) (Suc (beginning (nodes p ! i))) (node_end (nodes p ! i))) = rows p ! i"
    using node_slots(2) [OF g i e] by (simp add: nonnull_fun case_prod_beta')
  ultimately show ?case using Cons new by (simp add: share_unshare f undo all_edges_def)
qed (simp add: all_edges_def)

lemma get_n_shared:
  "node_lock p = new_PMA_Lock\<lparr>lock_x := 2\<rparr> \<Longrightarrow> get_n p = Some (length (nodes p), p)"
  "node_lock p = new_PMA_Lock \<Longrightarrow> get_n p = Some (length (nodes p), p)"
  by (cases p; simp add: get_n_def share_nodes_def unshare_nodes_def lock_shared_def unlock_shared_def cas_def new_PMA_Lock_def)+

lemma get_edges_ok:
  assumes p: "at_rest p" and e: "last (rows p) = []"
  shows "get_edges p = Some (all_edges (rows p) [0..<length (nodes p)], p)"
proof -
  let ?s = "p\<lparr>node_lock := new_PMA_Lock\<lparr>lock_x := 2\<rparr>\<rparr>"
  have l: "node_lock p = new_PMA_Lock" using p by (simp add: at_rest_def)
  then have "share_nodes p = Some ?s" by (simp add: share_nodes_def share_unshare)
  moreover have "get_n ?s = Some (length (nodes p), ?s)" using get_n_shared(1) [of ?s] by simp
  moreover have "graph_ok (p\<lparr>node_lock := new_PMA_Lock\<lparr>lock_x := 2\<rparr>, next_task_id := next_task_id p\<rparr>)" using p unfolding graph_ok_shared by (simp add: at_rest_def)
  then have "edge_rows [0..<length (nodes p)] ?s = Some (all_edges (rows ?s) [0..<length (nodes p)], ?s)"
    using p e by (intro edge_rows_ok) (auto simp: at_rest_def rows_def)
  moreover have "unshare_nodes ?s = p" using l by (simp add: unshare_nodes_def share_unshare)
  moreover have "rows ?s = rows p" by (simp add: rows_def)
  ultimately show ?thesis by (simp add: get_edges_def)
qed

lemma sum_list_of_nat: "sum_list (map of_nat xs) = (of_nat (sum_list xs) :: u64)"
  by (induction xs) simp_all

lemma num_edges_ok:
  assumes p: "at_rest p"
  shows "num_edges p = Some (of_nat (sum_list (map length (rows p))))"
proof -
  have l: "node_lock p = new_PMA_Lock" and g: "graph_ok p" using p by (simp_all add: at_rest_def)
  have "(ucast (num_neighbors (nodes p ! i)) :: u64) = of_nat (degrees p ! i)" if "i < length (nodes p)" for i
    using that by (simp add: degrees_def)
  then have "map (\<lambda>i. ucast (num_neighbors (nodes p ! i)) :: u64) [0..<length (nodes p)] = map of_nat (degrees p)"
    by (intro nth_equalityI) (simp_all add: degrees_def)
  then have "sum_list (map (\<lambda>i. ucast (num_neighbors (nodes p ! i)) :: u64) [0..<length (nodes p)]) = of_nat (sum_list (degrees p))"
    by (simp only: sum_list_of_nat)
  then show ?thesis using graph_okD(5) [OF g] by (simp add: num_edges_def get_n_shared(2) [OF l])
qed

section \<open>The degree after \<^verbatim>\<open>add_edge\<close>\<close>

lemma add_edge_existing:
  assumes p: "at_rest p" and i: "Suc i < length (nodes p)" and t: "task_ok (next_task_id p)" and d: "d < SENT_VAL" "v \<noteq> 0" "d \<in> snd ` set (rows p ! i)"
  shows "\<exists>q. add_edge rnd i d v p = Some q \<and> rows q = (rows p)[i := insert_edge v d (rows p ! i)] \<and>
    num_neighbors (nodes q ! i) = num_neighbors (nodes p ! i) + 1 \<and> quiet (nodes q)"
proof -
  have l: "node_lock p = new_PMA_Lock" and g: "graph_ok (with_shared p 2)" and qt: "quiet (nodes (with_shared p 2))" using p by (simp_all add: at_rest_def)
  let ?t = "next_task_id p"
  have i': "Suc i < length (nodes (with_shared p 2))" using i by simp
  obtain held p1 loc where p1: "grab_locks_for_leaf_with_resets (with_shared p 2) i = Some (held, p1)" "relock (with_shared p 2) p1" "snd held < length (nodes p1)"
      "locks_are ?t (nodes p1) (lock_range held) {}" "search_vertex p1 i d = Some loc" "loc < edges_N (edges p1)"
      "belongs (edges p1) d (Suc (beginning (nodes p1 ! i))) (vertex_end p1 i) loc" "edge_dests (edges p1) ! loc = d \<longrightarrow> loc < vertex_end p1 i"
    using locked_search [OF g qt i' d(1), of ?t] by blast
  note g1 = relock_graph_ok [OF p1(2) g] and f1 = relock_fields [OF p1(2)] and r1 = relock_rows(1) [OF p1(2)]
  note ok1 = graph_okD(1) [OF g1]
  have i1: "i < length (nodes p1)" using i f1(6) by simp
  have b1: "beginning (nodes p1 ! i) < loc" "loc \<le> vertex_end p1 i" using p1(7) by (simp_all add: belongs_def)
  have found: "edge_dests (edges p1) ! loc = d"
  proof (rule ccontr)
    assume n: "edge_dests (edges p1) ! loc \<noteq> d"
    have "d \<notin> snd ` set (rows p1 ! i)" using belongs_split(1,2) [OF p1(7)] n vertex_split(1) [OF ok1 i1 b1] by force
    then show False using d(3) r1 by simp
  qed
  let ?p = "change_degree p1 i 1"
  have ne: "nodes ?p \<noteq> []" using i1 by (simp flip: length_greater_0_conv)
  then have ch: "chained (nodes ?p)" using array_facts(7) [OF ok1] i1 by (simp add: chained_def change_degree_nodes)
  obtain held' p2 where p2: "keep_needed_locks ?t ?p loc i held = Some (held', p2)" "relock ?p p2" "snd held' < length (nodes p2)"
      "locks_are ?t (nodes p2) (lock_range held') {}"
    using keep_needed_locks_ok [OF t ch, of i held loc] i1 p1(3,4) locks_change_degree [OF i1] by auto
  note f2 = relock_fields [OF p2(2)]
  obtain q where q: "release_locks_in_range ?t held' GENERAL (set_value p2 loc v) = Some q" "relock (set_value p2 loc v) q" "quiet (nodes q)"
    using release_held_ok [OF t, of held' "set_value p2 loc v"] p2(3,4) by auto
  have d': "d \<noteq> NULL_VAL" "d \<noteq> SENT_VAL" using d(1) below_SENT by auto
  have "length (edge_dests (edges p1)) = edges_N (edges p1)" using array_facts(1) [OF ok1] by (simp add: sized_def)
  then have ins: "insert_elem rnd ?t p2 loc d v i held' = Some q" using found d' q(1) p1(6) f2(1) by (simp add: insert_elem_def)
  have "search_vertex ?p i d = Some loc" using p1(5) i1 by (simp add: search_vertex_def change_degree_nodes)
  then have "add_edge rnd i d v p = Some (unshare_nodes q)"
    using p1(1) p2(1) ins d(2) by (simp add: add_edge_def share_nodes_new [OF l])
  moreover have "rows q = (rows p)[i := insert_edge v d (rows p ! i)]"
  proof -
    have "edges (set_value p2 loc v) = edges (set_value p1 loc v)" using f2(1) by (simp add: set_value_def)
    then have "rows q = rows (set_value p1 loc v)" using relock_fields(1) [OF q(2)] by (simp add: rows_def)
    then show ?thesis using set_value_ok(2) [OF g1 i1 b1(1) _ p1(7) found d(1), of v] p1(8) found r1 by simp
  qed
  moreover have "num_neighbors (nodes q ! i) = num_neighbors (nodes p ! i) + 1"
  proof -
    have "num_neighbors (nodes q ! i) = num_neighbors (nodes p2 ! i)" "num_neighbors (nodes p2 ! i) = num_neighbors (nodes ?p ! i)" "num_neighbors (nodes p1 ! i) = num_neighbors (nodes p ! i)"
      using relock_same_nodes [OF q(2)] relock_same_nodes [OF p2(2)] relock_same_nodes [OF p1(2)] i i1 by (simp_all add: same_nodes_def)
    then show ?thesis using i1 by (simp add: change_degree_nodes)
  qed
  ultimately show ?thesis using q(3) by simp
qed

section \<open>Iterating over the edges of a vertex\<close>

lemma skip_null_ok:
  assumes "\<And>c. packed_at el c" "logN el = 2 ^ loglogN el" "stop \<le> edges_N el"
  shows "place \<le> stop \<Longrightarrow> place \<le> skip_null el place stop \<and> skip_null el place stop \<le> stop \<and>
    (\<forall>c. place \<le> c \<longrightarrow> c < skip_null el place stop \<longrightarrow> edge_dests el ! c = NULL_VAL) \<and>
    (skip_null el place stop < stop \<longrightarrow> edge_dests el ! skip_null el place stop \<noteq> NULL_VAL)"
proof (induction "stop - place" arbitrary: place rule: less_induct)
  case less
  let ?next = "next_leaf place (loglogN el)"
  show ?case
  proof (cases "place < stop \<and> edge_dests el ! place = NULL_VAL")
    case False
    then show ?thesis using less.prems by (subst (1 2 3 4 5) skip_null.simps) auto
  next
    case True
    have nl: "place < ?next" by (rule next_leaf_gt)
    have rest: "edge_dests el ! c = NULL_VAL" if "place \<le> c" "c < ?next" "c < stop" for c
      using packed_rest [OF assms(1,2) _ that(1,2)] True that(3) assms(3) by simp
    have step: "skip_null el place stop = skip_null el ?next stop" using True by (subst skip_null.simps) simp
    show ?thesis
    proof (cases "?next \<le> stop")
      case le: True
      show ?thesis using less.hyps [of ?next] nl True le rest unfolding step by (meson diff_less_mono2 le_less_trans less_imp_le not_le order_trans)
    next
      case False
      then have "skip_null el ?next stop = stop" by (subst skip_null.simps) simp
      then show ?thesis using less.prems rest False unfolding step by simp
    qed
  qed
qed

lemma iter_edges_ok:
  assumes ok: "\<And>c. packed_at (edges p) c" "logN (edges p) = 2 ^ loglogN (edges p)" "stop \<le> edges_N (edges p)"
  shows "place \<le> stop \<Longrightarrow> length (filter nonnull (slots (edges p) place stop)) < fuel \<Longrightarrow>
    iter_edges fuel p \<lparr>it_place = skip_null (edges p) place stop, it_end = stop\<rparr> = filter nonnull (slots (edges p) place stop)"
proof (induction fuel arbitrary: place)
  case (Suc fuel)
  let ?el = "edges p" and ?s = "skip_null (edges p) place stop"
  note sk = skip_null_ok [OF ok Suc.prems(1)]
  have "slots ?el place stop = slots ?el place ?s @ slots ?el ?s stop" using sk by (intro slots_append) auto
  moreover have "filter nonnull (slots ?el place ?s) = []" using sk by (auto simp: filter_empty_conv slots_def nonnull_def)
  ultimately have eq: "filter nonnull (slots ?el place stop) = filter nonnull (slots ?el ?s stop)" by simp
  show ?case
  proof (cases "?s = stop")
    case True
    then show ?thesis using eq by (simp add: slots_def)
  next
    case False
    then have lt: "?s < stop" "edge_dests ?el ! ?s \<noteq> NULL_VAL" using sk by auto
    have row: "filter nonnull (slots ?el ?s stop) = (edge_vals ?el ! ?s, edge_dests ?el ! ?s) # filter nonnull (slots ?el (Suc ?s) stop)"
      using lt by (simp add: slots_Cons nonnull_def)
    have "iter_edges fuel p \<lparr>it_place = skip_null ?el (Suc ?s) stop, it_end = stop\<rparr> = filter nonnull (slots ?el (Suc ?s) stop)"
      using Suc.IH [of "Suc ?s"] Suc.prems(2) lt(1) row eq by simp
    then show ?thesis using False row eq by (simp add: iter_next_def iter_deref_def)
  qed
qed simp

lemma iterator_ok:
  assumes g: "graph_ok p" and i: "i < length (nodes p)" and e: "last (rows p) = []" and fuel: "length (rows p ! i) < fuel"
  shows "iter_edges fuel p (iter_begin p i) = rows p ! i"
proof -
  note ok = graph_okD(1) [OF g] and ns = node_slots [OF g i e] and tail = empty_tail [OF g e]
  note facts = array_facts [OF ok]
  have "beginning (nodes p ! i) + 1 \<le> node_end (nodes p ! i)"
  proof (cases "Suc i < length (nodes p)")
    case True
    then show ?thesis using facts(7) by (simp add: chained_def Suc_le_eq)
  next
    case False
    then have "i = length (nodes p) - 1" using i by linarith
    then show ?thesis using graph_okD(7) [OF g] tail(1) by (auto simp: last_end_def Let_def)
  qed
  moreover have "logN (edges p) = 2 ^ loglogN (edges p)" using facts(2) by (simp add: geometry_ok_def)
  ultimately show ?thesis using iter_edges_ok [OF facts(5) _ ns(1), of "beginning (nodes p ! i) + 1" fuel] fuel unfolding ns(2)
    by (simp add: iter_begin_def Let_def)
qed

section \<open>Properties\<close>

lemma rounding_exact_arith: "rounding_ok (\<lambda>x. x)"
  by (simp add: rounding_ok_def mono_def)

text \<open>
  C1.  From the constructor on, every sequence of updates and lookups of edges of the vertices but the last returns, and answers as a table of
  edges does: an update reports whether the edge was new, a lookup returns its value or 0.  In the end no lock is held, the invariant holds and
  the array stores the table.  The calls neither deadlock on a lock of their own nor run into their retry loops; the array is redistributed
  and doubled on the way as its density demands.
\<close>

theorem pma_commands_correct:
  assumes "rounding_ok rnd" "0 < n" "n + length cs < 2 ^ 29" "\<forall>c \<in> set cs. legal_cmd (n - 1) c"
  shows "\<exists>p q. new_PMA rnd u l n = Some p \<and> run_all (run_cmd (add_edge_update rnd) find_value) cs p = Some (fst (spec_all spec_cmd cs (\<lambda>_. Map.empty)), q) \<and>
    graph_of q = snd (spec_all spec_cmd cs (\<lambda>_. Map.empty)) \<and> at_rest q"
proof -
  obtain p where p: "new_PMA rnd u l n = Some p" "built n p" using new_PMA_ok [of n rnd u l] assms by auto
  note room = built_room [OF p(2) assms(2,3)]
  show ?thesis using pma.calls.runs_refine [of rnd 0 cs p] p(1) assms(1,4) room by (auto simp: pma_room_def)
qed

theorem pma_commands_correct_witness:
  "\<exists>p q. new_PMA (\<lambda>x. x) (\<lambda>_. 0) (\<lambda>_. 0) 3 = Some p \<and>
     run_all (run_cmd (add_edge_update (\<lambda>x. x)) find_value) [Put 0 7 1, Put 1 7 2, Put 0 4 5, Put 0 7 3, Get 0 7, Get 1 4] p =
       Some ([Added True, Added True, Added True, Added False, Value 3, Value 0], q) \<and> graph_of q 0 4 = Some 5 \<and> at_rest q"
proof -
  let ?cs = "[Put 0 7 1, Put 1 7 2, Put 0 4 5, Put 0 7 3, Get 0 7, Get 1 4]"
  have "\<forall>c \<in> set ?cs. legal_cmd (3 - 1) c" by (simp add: SENT_VAL_def)
  from pma_commands_correct [OF rounding_exact_arith _ _ this] show ?thesis by fastforce
qed

text \<open>
  C9.  \<^verbatim>\<open>remove_edge\<close> removes the edge and answers whether it was there, gives back all its locks and leaves the other edges alone, on an array of
  at least 32 slots (or one that is more than a quarter full).  All of the invariant is kept, but for the fullness of the leaves, on which the search relies:
  that is kept as long as leaves have eight slots and one slot in eight is in use.
\<close>

theorem pma_remove_correct:
  assumes "at_rest p" "Suc i < length (nodes p)" "task_ok (next_task_id p)" "rounding_ok rnd" "d < SENT_VAL"
    and "32 \<le> edges_N (edges p) \<or> edges_N (edges p) + 4 < 4 * length (elems (edges p))"
  shows "\<exists>q. remove_edge rnd i d p = Some (graph_of p i d \<noteq> None, q) \<and> graph_of q = (graph_of p)(i := (graph_of p i)(d := None)) \<and> quiet (nodes q) \<and>
    node_lock q = new_PMA_Lock \<and> (no_gap (edges q) \<longrightarrow> at_rest q) \<and>
    (8 \<le> logN (edges p) \<longrightarrow> edges_N (edges p) < 8 * length (elems (edges p)) \<longrightarrow> at_rest q)"
proof -
  have g: "graph_ok p" and i: "i < length (nodes p)" using assms(1,2) by (simp_all add: at_rest_def)
  obtain q where q: "remove_edge rnd i d p = Some (d \<in> snd ` set (rows p ! i), q)" "graph_kept p q" "call_effect p 2 ((rows p)[i := delete_edge d (rows p ! i)]) q"
    using remove_edge_ok [OF assms] by blast
  have "graph_of q = (graph_of p)(i := (graph_of p i)(d := None))"
    using q(3) i length_rows [OF graph_okD(1) [OF g]] by (auto simp: call_effect_def graph_of_def fun_eq_iff nth_list_update delete_edge_map)
  then show ?thesis using q new_edge [OF g i, of d] at_rest_call [OF _ q(3)] by (auto simp: graph_kept_def call_effect_def)
qed

text \<open>There are more slots than vertices.\<close>

lemma vertices_slots:
  assumes "at_rest p"
  shows "length (nodes p) < edges_N (edges p)"
proof -
  have ok: "array_ok p" "no_full_leaf (edges p)" using assms by (simp_all add: at_rest_def graph_ok_def)
  have ne: "elems (edges p) \<noteq> []" using first_elem(1) [of p] ok(1) by (simp add: array_ok_def)
  have "length (sent_ids xs) \<le> length xs" for xs by (simp add: sent_ids_def)
  then have "length [1..<length (nodes p)] \<le> length (tl (elems (edges p)))" using sent_ids_tl [OF ok(1)] by metis
  then have "length (nodes p) \<le> length (elems (edges p))" using ne by (cases "elems (edges p)") auto
  then show ?thesis using few_elems [OF ok] by simp
qed

theorem pma_remove_correct_witness:
  "\<exists>p q r. new_PMA (\<lambda>x. x) (\<lambda>_. 0) (\<lambda>_. 0) 40 = Some p \<and> add_edge_update (\<lambda>x. x) 5 9 1 p = Some (True, q) \<and>
     remove_edge (\<lambda>x. x) 5 9 q = Some (True, r) \<and> graph_of r = (\<lambda>_. Map.empty) \<and> quiet (nodes r)"
proof -
  obtain p where p: "new_PMA (\<lambda>x. x) (\<lambda>_. 0) (\<lambda>_. 0) 40 = Some p" "built 40 p" using new_PMA_ok [OF _ _ rounding_exact_arith, of 40] by auto
  note room = built_room [OF p(2), of "Suc 1"]
  have "legal_cmd (length (nodes p) - 1) (Put 5 9 1)" "pma_room (Suc 1) p" using room(1,3) by (simp_all add: SENT_VAL_def)
  from pma_put [OF rounding_exact_arith this(2,1)] obtain q where q: "add_edge_update (\<lambda>x. x) 5 9 1 p = Some (True, q)" "pma_room 1 q"
      "length (nodes q) = 40" "graph_of q = (\<lambda>_. Map.empty)(5 := [9 \<mapsto> 1])" using room(2,3) by auto
  have "at_rest q" "task_ok (next_task_id q)" "40 < edges_N (edges q)"
    using q(2,3) pma_room_calls(1) [OF q(2)] vertices_slots [of q] by (simp_all add: pma_room_def)
  then have "\<exists>r. remove_edge (\<lambda>x. x) 5 9 q = Some (True, r) \<and> graph_of r = (\<lambda>_. Map.empty) \<and> quiet (nodes r)"
    using pma_remove_correct [of q 5 "\<lambda>x. x" 9] q(3,4) rounding_exact_arith by (auto simp: SENT_VAL_def fun_eq_iff)
  then show ?thesis using p(1) q(1) by blast
qed

text \<open>
  C10.  The constructor makes, for up to \<open>2 ^ 29 - 1\<close> vertices, an array at rest with that many vertices and no edges, whatever the unset entries of
  its density tables hold.
\<close>

theorem pma_constructor_correct:
  assumes "rounding_ok rnd" "0 < n" "n < 2 ^ 29"
  shows "\<exists>p. new_PMA rnd u l n = Some p \<and> at_rest p \<and> graph_of p = (\<lambda>_. Map.empty) \<and> length (nodes p) = n \<and> num_edges p = Some 0 \<and>
    next_task_id p = of_nat (2 * n + 1)"
proof -
  obtain p where p: "new_PMA rnd u l n = Some p" "built n p" using new_PMA_ok [of n rnd u l] assms by auto
  have r: "at_rest p" "rows p = replicate n []" using p(2) by (simp_all add: built_def)
  have "num_edges p = Some 0" using num_edges_ok [OF r(1)] by (simp add: r(2) sum_list_replicate)
  then show ?thesis using p built_room(2,3) [OF p(2) assms(2), of 0] assms(3) by (auto simp: built_def)
qed

theorem pma_constructor_correct_witness:
  "\<exists>p. new_PMA (\<lambda>x. x) (\<lambda>_. 0) (\<lambda>_. 0) 100 = Some p \<and> at_rest p \<and> length (nodes p) = 100 \<and> num_edges p = Some 0 \<and> next_task_id p = 201"
  using pma_constructor_correct [OF rounding_exact_arith, of 100 "\<lambda>_. 0" "\<lambda>_. 0"] by auto



lemma edge_map_mem: "sorted_wrt (<) (map snd xs) \<Longrightarrow> (v, d) \<in> set xs \<longleftrightarrow> edge_map xs d = Some v"
proof -
  assume s: "sorted_wrt (<) (map snd xs)"
  have "map fst (map (\<lambda>(v, d). (d, v)) xs) = map snd xs" by (simp add: case_prod_beta')
  then have "distinct (map fst (map (\<lambda>(v, d). (d, v)) xs))" using s strict_sorted_iff by metis
  then have "edge_map xs d = Some v \<longleftrightarrow> (d, v) \<in> set (map (\<lambda>(v, d). (d, v)) xs)" unfolding edge_map_def by (rule map_of_eq_Some_iff)
  then show ?thesis by auto
qed

lemma graph_of_mem:
  assumes "graph_ok p" "i < length (nodes p)"
  shows "(v, d) \<in> set (rows p ! i) \<longleftrightarrow> graph_of p i d = Some v"
  using edge_map_mem [OF graph_okD(6) [OF assms]] assms(2) length_rows [OF graph_okD(1) [OF assms(1)]] by (simp add: graph_of_def)

definition edge_before :: "nat \<times> u32 \<times> u32 \<Rightarrow> nat \<times> u32 \<times> u32 \<Rightarrow> bool" where
  "edge_before e f \<longleftrightarrow> fst e < fst f \<or> fst e = fst f \<and> fst (snd e) < fst (snd f)"

lemma all_edges_sorted:
  "\<forall>i \<in> set is. sorted_wrt (<) (map snd (rs ! i)) \<Longrightarrow> sorted_wrt (<) is \<Longrightarrow> sorted_wrt edge_before (all_edges rs is)"
proof (induction "is")
  case (Cons i js)
  have "sorted_wrt edge_before (map (\<lambda>(v, d). (i, d, v)) (rs ! i))"
    using Cons.prems(1) by (auto simp: sorted_wrt_map edge_before_def case_prod_beta intro: sorted_wrt_mono_rel [rotated])
  moreover have "sorted_wrt edge_before (all_edges rs js)" using Cons by simp
  moreover have "edge_before e f" if "e \<in> set (map (\<lambda>(v, d). (i, d, v)) (rs ! i))" "f \<in> set (all_edges rs js)" for e f
    using that Cons.prems(2) by (auto simp: all_edges_def edge_before_def)
  moreover have "all_edges rs (i # js) = map (\<lambda>(v, d). (i, d, v)) (rs ! i) @ all_edges rs js" by (simp add: all_edges_def)
  ultimately show ?case by (simp add: sorted_wrt_append)
qed (simp add: all_edges_def)

lemma length_all_edges: "length (all_edges rs is) = sum_list (map (\<lambda>i. length (rs ! i)) is)"
  by (induction "is") (simp_all add: all_edges_def)

text \<open>
  C11.  \<^verbatim>\<open>get_edges\<close> lists exactly the edges of the graph with their values, by source and destination, each once, and leaves the array as it was;
  \<^verbatim>\<open>num_edges\<close> is their number.  The last vertex is to have no edges.
\<close>

theorem pma_get_edges_correct:
  assumes "at_rest p" "last (rows p) = []"
  shows "\<exists>out. get_edges p = Some (out, p) \<and> set out = {(i, d, v). graph_of p i d = Some v} \<and> sorted_wrt edge_before out \<and> num_edges p = Some (of_nat (length out))"
proof -
  let ?out = "all_edges (rows p) [0..<length (nodes p)]"
  have g: "graph_ok p" using assms(1) by (simp add: at_rest_def)
  note len = length_rows [OF graph_okD(1) [OF g]]
  have "set ?out = {(i, d, v). i < length (nodes p) \<and> (v, d) \<in> set (rows p ! i)}" by (force simp: all_edges_def)
  also have "\<dots> = {(i, d, v). graph_of p i d = Some v}" using graph_of_mem [OF g] len by (auto simp: graph_of_def split: if_splits)
  finally have "set ?out = {(i, d, v). graph_of p i d = Some v}" .
  moreover have "sorted_wrt edge_before ?out" using graph_okD(6) [OF g] by (intro all_edges_sorted) (auto simp: sorted_wrt_upt)
  moreover have "map (\<lambda>i. length (rows p ! i)) [0..<length (nodes p)] = map length (rows p)" by (rule nth_equalityI) (simp_all add: len)
  then have "length ?out = sum_list (map length (rows p))" by (simp only: length_all_edges)
  ultimately show ?thesis using get_edges_ok [OF assms] num_edges_ok [OF assms(1)] by simp
qed

text \<open>A graph of three vertices with one edge, for the witnesses.\<close>

lemma sample_edge:
  "\<exists>p q. new_PMA (\<lambda>x. x) (\<lambda>_. 0) (\<lambda>_. 0) 3 = Some p \<and> add_edge_update (\<lambda>x. x) 1 8 6 p = Some (True, q) \<and> pma_room 1 q \<and> length (nodes q) = 3 \<and>
     graph_of q = (\<lambda>_. Map.empty)(1 := [8 \<mapsto> 6])"
proof -
  obtain p where p: "new_PMA (\<lambda>x. x) (\<lambda>_. 0) (\<lambda>_. 0) 3 = Some p" "built 3 p" using new_PMA_ok [OF _ _ rounding_exact_arith, of 3] by auto
  note room = built_room [OF p(2), of "Suc 1"]
  have "legal_cmd (length (nodes p) - 1) (Put 1 8 6)" "pma_room (Suc 1) p" using room(1,3) by (simp_all add: SENT_VAL_def)
  from pma_put [OF rounding_exact_arith this(2,1)] show ?thesis using room(2,3) p(1) by auto
qed

theorem pma_get_edges_correct_witness:
  "\<exists>p q. new_PMA (\<lambda>x. x) (\<lambda>_. 0) (\<lambda>_. 0) 3 = Some p \<and> add_edge_update (\<lambda>x. x) 1 8 6 p = Some (True, q) \<and> get_edges q = Some ([(1, 8, 6)], q)"
proof -
  obtain p q where p: "new_PMA (\<lambda>x. x) (\<lambda>_. 0) (\<lambda>_. 0) 3 = Some p" and q: "add_edge_update (\<lambda>x. x) 1 8 6 p = Some (True, q)" "pma_room 1 q"
      "length (nodes q) = 3" "graph_of q = (\<lambda>_. Map.empty)(1 := [8 \<mapsto> 6])"
    using sample_edge by blast
  obtain out where out: "get_edges q = Some (out, q)" "set out = {(i, d, v). graph_of q i d = Some v}" "sorted_wrt edge_before out"
    using pma_get_edges_correct [of q] q(2) by (auto simp: pma_room_def)
  have s: "set out = {(1, 8, 6)}" unfolding out(2) q(4) by (auto split: if_splits)
  have "out = [(1, 8, 6)]"
  proof (cases out)
    case (Cons e es)
    have "es = []" using out(3) s Cons by (cases es) (auto simp: edge_before_def)
    then show ?thesis using s Cons by simp
  qed (use s in simp)
  then show ?thesis using p q(1) out(1) by blast
qed

text \<open>
  C39.  The loop over the iterator of a vertex ends after as many rounds as the vertex has edges, having seen each of them once, in ascending order.
\<close>

theorem pma_iterator_correct:
  assumes "at_rest p" "last (rows p) = []" "i < length (nodes p)"
  shows "\<exists>row. (\<forall>fuel. length row < fuel \<longrightarrow> iter_edges fuel p (iter_begin p i) = row) \<and> length row = unat (num_neighbors (nodes p ! i)) \<and>
    sorted_wrt (<) (map snd row) \<and> set row = {(v, d). graph_of p i d = Some v}"
proof (intro exI [of _ "rows p ! i"] conjI)
  have g: "graph_ok p" using assms(1) by (simp add: at_rest_def)
  show "\<forall>fuel. length (rows p ! i) < fuel \<longrightarrow> iter_edges fuel p (iter_begin p i) = rows p ! i" using iterator_ok [OF g assms(3,2)] by blast
  show "length (rows p ! i) = unat (num_neighbors (nodes p ! i))" using degree_of_row [OF g assms(3)] by simp
  show "sorted_wrt (<) (map snd (rows p ! i))" by (rule graph_okD(6) [OF g assms(3)])
  show "set (rows p ! i) = {(v, d). graph_of p i d = Some v}" using graph_of_mem [OF g assms(3)] by auto
qed

theorem pma_iterator_correct_witness:
  "\<exists>p q. new_PMA (\<lambda>x. x) (\<lambda>_. 0) (\<lambda>_. 0) 3 = Some p \<and> add_edge_update (\<lambda>x. x) 1 8 6 p = Some (True, q) \<and> iter_edges 2 q (iter_begin q 1) = [(6, 8)]"
proof -
  obtain p q where p: "new_PMA (\<lambda>x. x) (\<lambda>_. 0) (\<lambda>_. 0) 3 = Some p" and q: "add_edge_update (\<lambda>x. x) 1 8 6 p = Some (True, q)" "pma_room 1 q"
      "length (nodes q) = 3" "graph_of q = (\<lambda>_. Map.empty)(1 := [8 \<mapsto> 6])"
    using sample_edge by blast
  obtain row where row: "\<forall>fuel. length row < fuel \<longrightarrow> iter_edges fuel q (iter_begin q 1) = row" "sorted_wrt (<) (map snd row)" "set row = {(v, d). graph_of q 1 d = Some v}"
    using pma_iterator_correct [of q 1] q(2,3) by (auto simp: pma_room_def)
  have s: "set row = {(6, 8)}" unfolding row(3) q(4) by (auto split: if_splits)
  have "row = [(6, 8)]"
  proof (cases row)
    case (Cons e es)
    have "es = []" using row(2) s Cons by (cases es) auto
    then show ?thesis using s Cons by simp
  qed (use s in simp)
  then show ?thesis using p q(1) row(1) by force
qed

text \<open>
  C40.  \<^verbatim>\<open>add_edge\<close> of an edge that is there changes its value but counts it again: the degree of the vertex becomes one more than the number of its
  edges, so that the invariant is lost.
\<close>

theorem pma_add_edge_overcounts:
  assumes "at_rest p" "Suc i < length (nodes p)" "task_ok (next_task_id p)" "d < SENT_VAL" "v \<noteq> 0" "graph_of p i d \<noteq> None"
  shows "\<exists>q. add_edge rnd i d v p = Some q \<and> graph_of q = (graph_of p)(i := (graph_of p i)(d \<mapsto> v)) \<and>
    num_neighbors (nodes q ! i) = num_neighbors (nodes p ! i) + 1 \<and> card (dom (graph_of q i)) = unat (num_neighbors (nodes p ! i))"
proof -
  have g: "graph_ok p" and i: "i < length (nodes p)" using assms(1,2) by (simp_all add: at_rest_def)
  have d: "d \<in> snd ` set (rows p ! i)" using new_edge [OF g i, of d] assms(6) by simp
  obtain q where q: "add_edge rnd i d v p = Some q" "rows q = (rows p)[i := insert_edge v d (rows p ! i)]" "num_neighbors (nodes q ! i) = num_neighbors (nodes p ! i) + 1"
    using add_edge_existing [OF assms(1-5) d] by blast
  note gq = graph_of_update [OF g i q(2)]
  have eq: "graph_of p i = edge_map (rows p ! i)" using i length_rows [OF graph_okD(1) [OF g]] by (simp add: graph_of_def)
  have "dom (graph_of q i) = snd ` set (rows p ! i)" using d by (auto simp: gq eq edge_map_dom)
  moreover have "distinct (map snd (rows p ! i))" using graph_okD(6) [OF g i] unfolding strict_sorted_iff by (rule conjunct2)
  then have "card (set (map snd (rows p ! i))) = length (rows p ! i)" by (simp only: distinct_card length_map)
  ultimately have "card (dom (graph_of q i)) = unat (num_neighbors (nodes p ! i))" using degree_of_row [OF g i] by simp
  then show ?thesis using q gq by blast
qed

theorem pma_add_edge_overcounts_witness:
  "\<exists>p q r. new_PMA (\<lambda>x. x) (\<lambda>_. 0) (\<lambda>_. 0) 3 = Some p \<and> add_edge_update (\<lambda>x. x) 1 8 6 p = Some (True, q) \<and>
     add_edge (\<lambda>x. x) 1 8 7 q = Some r \<and> num_neighbors (nodes r ! 1) = num_neighbors (nodes q ! 1) + 1"
proof -
  obtain p q where p: "new_PMA (\<lambda>x. x) (\<lambda>_. 0) (\<lambda>_. 0) 3 = Some p" and q: "add_edge_update (\<lambda>x. x) 1 8 6 p = Some (True, q)" "pma_room 1 q"
      "length (nodes q) = 3" "graph_of q = (\<lambda>_. Map.empty)(1 := [8 \<mapsto> 6])"
    using sample_edge by blast
  have "at_rest q" "task_ok (next_task_id q)" using q(2) pma_room_calls(1) [OF q(2)] by (simp_all add: pma_room_def)
  then show ?thesis using pma_add_edge_overcounts [of q 1 8 7 "\<lambda>x. x"] q(1,3,4) p by (auto simp: SENT_VAL_def)
qed

end
