(* ===== verification/Spec2Isabelle.thy ===== *)
theory Spec2Isabelle
  imports GQF_Contents GQF_File Partitioned_Counter BTree_Correct AGM_Sketch Int127 PMA_Correct
begin

text \<open>
  \<^bold>\<open>A verification library for ZeppelinExperiments\<close>

  The repository holds the experiments of the GraphZeppelin paper: drivers of its own, the linear sketches they compare against
  (\<^verbatim>\<open>sketch_expr/agm_sketching\<close>), and the two graph systems GraphZeppelin is measured against, Aspen and Terrace
  (\<^verbatim>\<open>comparison_systems\<close>).  The library models the parts that carry data structures of their own: the packed memory array and the
  B-tree in which Terrace keeps the neighbours of vertices of medium and high degree (\<^verbatim>\<open>terrace/code/src/PMA.cc\<close>, \<^verbatim>\<open>PMA_Lock.cc\<close>,
  \<^verbatim>\<open>terrace/code/include/btree.h\<close>), the counting quotient filter and its partitioned counter, which Terrace ships
  (\<^verbatim>\<open>terrace/code/src/gqf\<close>, \<^verbatim>\<open>partitioned_counter.c\<close>), and the AGM sketch.

  \<^bold>\<open>The packed memory array.\<close>  One array holds the edges of all vertices, vertex after vertex, with empty slots in between; a sentinel opens the
  edges of a vertex and points back to its node, and leaves of slots are the bottom of an implicit tree with bounds on the density of its ranges.
  \<^item> \<open>PMA_Lock\<close>: the reader-writer lock with reasons (\<^verbatim>\<open>PMA_Lock.cc\<close>), as calls of one thread and as atomic accesses of many.
  \<^item> \<open>PMA_Array\<close>: the records of \<^verbatim>\<open>PMA.hpp\<close>, densities, redistribution, slides, doubling and halving; \<open>PMA_Search\<close>: \<^verbatim>\<open>binary_search\<close> and the iterator;
    \<open>PMA_Update\<close>: ranges of locks, \<^verbatim>\<open>insert\<close>, \<^verbatim>\<open>remove\<close> with their rebalancing, and the public operations of \<^verbatim>\<open>PMA.cc\<close>.
  \<^item> \<open>PMA_Moves\<close>, \<open>PMA_Inv\<close>, \<open>PMA_Resize\<close>: what slides, redistribution and resizing do, and the invariant of the array (\<open>array_ok\<close>: leaves packed to the
    left, every sentinel where its nodes say); \<open>PMA_Ranges\<close>, \<open>PMA_Rebalance\<close>: the locks taken cover the range that is rewritten, a call never waits for a
    lock of its own or goes back to its start, and rebalancing keeps the elements and leaves no full leaf.
  \<^item> \<open>PMA_Graph\<close>, \<open>PMA_Edges\<close>: the rows of edges between the sentinels and the invariant of the graph (\<open>graph_ok\<close>), which every update of an edge keeps;
    \<open>PMA_Build\<close>: the constructor; \<open>PMA_Correct\<close>: the locale \<open>graph_store\<close>, the interface of a store of edges, its interpretation \<open>pma\<close> on the array, batches,
    the list of edges and the properties.

  The results hold for a thread that runs alone, with the iterations of the parallel loops in order, for vertices but the last one (whose
  end is not a sentinel, and for which the search is wrong, see the findings), below \<open>2 ^ 32\<close> slots and task numbers.  Floating-point
  rounding is a parameter; \<open>rounding_ok\<close> states that it is monotone and exact on the fractions a double represents.

  \<^bold>\<open>The quotient filter.\<close>  A filter is a header and an array of bytes.
  \<^item> \<open>Byte_Mem\<close>: little-endian loads and stores of a byte memory; \<open>Rank_Select\<close>: \<^verbatim>\<open>rank_select.c\<close>; \<open>Hashutil\<close>: \<^verbatim>\<open>hashutil.c\<close>.
  \<^item> \<open>GQF_Block\<close>: the records of \<^verbatim>\<open>gqf_int.h\<close>, the block layout, slots and metadata bits of \<^verbatim>\<open>gqf.c\<close>.
  \<^item> \<open>GQF_Run\<close>: run ends, offsets and free slots; \<open>GQF_Shift\<close>: moving slots and runend bits; \<open>GQF_Lock\<close>: the region locks, for one thread
    and as a step relation for many; \<open>GQF_Counter\<close>: the counters written into the slots of a run.
  \<^item> \<open>GQF_Insert\<close>, \<open>GQF_Query\<close>, \<open>GQF_Remove\<close>: \<^verbatim>\<open>insert1\<close>, \<^verbatim>\<open>insert\<close>, lookups, iterators, \<^verbatim>\<open>_remove\<close>; \<open>GQF_API\<close>: creation, resizing, the
    top-level updates and the operations on several filters; \<open>GQF_File\<close>: \<^verbatim>\<open>gqf_file.c\<close>; \<open>Partitioned_Counter\<close>: \<^verbatim>\<open>partitioned_counter.c\<close>.
  \<^item> \<open>GQF_Contents\<close>: the abstract contents of a filter, a list of (remainder, count) entries per bucket, and how insertion changes them.

  The lemmas show that run navigation agrees with counting bits (\<open>run_inv\<close>), that reads and shifts of packed slots are reads and moves of
  an array, that encoded counters are read back, that a lookup returns the abstract count, that the locks exclude each other without
  deadlock, that hashes are invertible or injective, that no update of the partitioned counter is lost, and that a file gives back
  the filter.  The locale \<open>cell_store\<close> (Prelude) is the interface of an indexed store, interpreted on the slots and on the offsets of a
  filter; \<open>word_array\<close> (GQF_Shift) is the interface of an array of 64-bit words, interpreted on remainder words and runend words.

  \<^bold>\<open>The B-tree.\<close>  \<open>Terrace_BTree\<close> models \<^verbatim>\<open>btree.h\<close> in the unweighted build: nodes as a datatype of live keys and children, one function
  per method, total by descending heights.  \<open>BTree_Correct\<close> shows that insertion and removal keep the shape (\<open>shape\<close>: leaves on one
  level, key bounds) and refine the operations on the sorted list of keys, that lookup is membership and that the iterator visits that
  list.  The locale \<open>sorted_container\<close> states the interface and \<open>terrace_tree\<close> interprets it.

  \<^bold>\<open>The sketch.\<close>  \<open>Prime_Generator\<close>: modular powers, the primality test and the prime search; \<open>Sketch_Util\<close>: edge numbering;
  \<open>Int127\<close>: the sign-and-magnitude integer; \<open>AGM_Sketch\<close>: buckets and sketches, in the 128-bit build.  A bucket holds three sums over the
  coordinates it contains (\<open>bucket_holds\<close>), and every operation of the sketch is shown to be the operation on vectors
  (\<open>sketch_holds\<close>).  The locale \<open>linear_summary\<close> states what a user relies on and \<open>agm\<close> interprets it.  \<^verbatim>\<open>XXH64\<close> and the floating-point
  logarithm are parameters; the statements hold for every hash function.

  \<^bold>\<open>Conventions.\<close>  Machine integers are words, or natural numbers where the code stays far from the bound (indices, sizes); wrap-around is
  written out where it can happen.  Exceptions and error codes are values; \<open>None\<close> is a trap, a failed assertion or a loop that does not end.
  Loops are recursive functions with termination proofs; \<open>find_first_empty_slot\<close> and \<open>generate_prime\<close> may run forever and are partial
  functions, and that they return is proved; the iterator loop of the B-tree takes a number of rounds, and the number of keys is enough.
  Decisions of the operating system (memory, files, compare-and-swap outcomes) are arguments.

  \<^bold>\<open>Not modelled.\<close>  Insertion into an occupied run is modelled (\<open>insert1\<close>, \<open>insert_qf\<close>) but its effect on the abstract contents is proved
  only for a free home slot; likewise removal is modelled and only its error path is proved.  Of the packed memory array, \<^verbatim>\<open>clear\<close> (undefined behaviour), the
  printing functions and the parallel redistribution and merges of large batches, which its constants keep from running, are left out.  The graph
  container of Terrace (\<^verbatim>\<open>graph.h\<close>), which dispatches an edge to one of its containers, its graph algorithms, Aspen's trees and graphs, the Cilk runtime and the vendored libraries (spdlog, cpp-btree, pbbslib) are left out, as are the experiment drivers, tests and
  benchmarks, which only run programs and print times, and GraphZeppelin itself, which is not part of the repository.

  This theory holds the properties that span the filter's components, with the concrete filters of their witnesses; the properties of the
  packed memory array, of the B-tree and of the sketch stand in their theories.
\<close>

unbundle bit_operations_syntax

section \<open>A sample filter\<close>

text \<open>
  The filter \<^verbatim>\<open>qf_init\<close> makes for 64 slots, 14-bit keys and no values, and the same filter with one run: bucket 5 holds
  remainder 7 once.  They are the concrete inputs of the witnesses.
\<close>

definition sample_qf :: QF where
  "sample_qf =
    \<lparr>runtimedata = \<lparr>fd = 0, filepath = None, container_resize = Resize_malloc, num_locks = 2, metadata_lock = 0, locks = [0, 0]\<rparr>,
     metadata = \<lparr>magic_endian_number = MAGIC_NUMBER, hash_mode = QF_HASH_NONE, auto_resize = 0, total_size_in_bytes = 246,
       md_seed = 0, nslots = 64, xnslots = 144, key_bits = 14, value_bits = 0, key_remainder_bits = 8, bits_per_slot = 8,
       md_range = 16384, nblocks = 3, nelts = 0, ndistinct_elts = 0, noccupied_slots = 0\<rparr>,
     blocks = zero_mem\<rparr>"

definition sample_one :: QF where
  "sample_one = fill_slot sample_qf 5 7"

lemma sample_width: "width_ok sample_qf"
  by (simp add: width_ok_def sample_qf_def)

lemma sample_inv: "qf_inv sample_qf"
  by (simp add: qf_inv_def sample_width zero_run_inv sample_qf_def) (simp add: width_ok_def)

lemma sample_contents: "contents sample_qf (\<lambda>_. [])"
  by (simp add: contents_def sample_qf_def zero_mem_bits)

lemma sample_bits: "\<not> is_occupied sample_qf j" "\<not> is_runend sample_qf j" "block_off sample_qf k = 0"
  by (simp_all add: zero_mem_bits sample_qf_def)

lemma sample_slots: "get_slot sample_qf j = 0"
  by (rule bit_word_eqI) (simp add: bit_get_slot sample_width, simp add: sample_qf_def zero_mem_def membit_def)

lemma nbelow_none: "(\<And>j. \<not> P j) \<Longrightarrow> nbelow P k = 0"
  by (simp add: nbelow_def)

lemma sample_free: "slot_free sample_qf x"
  by (simp add: slot_free_def nbelow_none sample_bits)

lemma sample_md: "bits_per_slot (metadata sample_qf) = 8" "nblocks (metadata sample_qf) = 3" "xnslots (metadata sample_qf) = 144"
  "nslots (metadata sample_qf) = 64" "key_bits (metadata sample_qf) = 14" "value_bits (metadata sample_qf) = 0"
  "metadata_lock (runtimedata sample_qf) = 0" "locks (runtimedata sample_qf) = [0, 0]" "hash_mode (metadata sample_qf) = QF_HASH_NONE"
  by (simp_all add: sample_qf_def)

lemma sample_set_locks: "set_locks sample_qf [0, 0] = sample_qf"
  by (simp add: set_locks_def sample_qf_def)

lemma bitmask_8: "BITMASK 8 = 255"
  by (simp add: BITMASK_def MAX_VALUE_def)

lemma sample_filled: "filled sample_qf 5 7 sample_one"
  unfolding sample_one_def by (rule fill_slot_filled) (simp_all add: sample_width sample_md bitmask_8)

lemma sample_one_md: "metadata sample_one = metadata sample_qf" "runtimedata sample_one = runtimedata sample_qf"
  by (simp_all add: sample_one_def)

lemma sample_one_inv: "qf_inv sample_one"
  using filled_run_inv [OF _ _ sample_free sample_filled] sample_inv
  by (simp add: qf_inv_def sample_one_md sample_md width_ok_def)

lemma sample_one_contents: "contents sample_one ((\<lambda>_. [])(5 := [(7, 1)]))"
  using filled_contents [OF _ _ sample_free sample_filled _ sample_contents] sample_inv
  by (simp add: qf_inv_def sample_md bitmask_8)

section \<open>The filter as a map from hashes to counts\<close>

text \<open>
  C5.  \<^verbatim>\<open>insert1\<close> on a hash whose home slot is free: the call returns distance 0, keeps the invariant of the filter,
  adds exactly the entry of the hash (its remainder once, in its bucket) to the contents and leaves every other
  run as it is, and the three element counters grow by one.
\<close>

theorem insert1_empty_slot:
  assumes "qf_inv qf" "contents qf m" "GET_NO_LOCK flag = QF_NO_LOCK"
    and "hash_bucket_of qf hash < 64 * nblocks (metadata qf)" "slot_free qf (hash_bucket_of qf hash)"
  shows "\<exists>qf'. insert1 qf hash flag = Some (0, qf') \<and> qf_inv qf' \<and>
    contents qf' (m(hash_bucket_of qf hash := [(hash_remainder_of qf hash, 1)])) \<and>
    nelts (metadata qf') = nelts (metadata qf) + 1 \<and> ndistinct_elts (metadata qf') = ndistinct_elts (metadata qf) + 1 \<and>
    noccupied_slots (metadata qf') = noccupied_slots (metadata qf) + 1"
  by (rule insert1_empty_aux [OF assms])

theorem insert1_empty_slot_witness:
  "\<exists>qf'. insert1 sample_qf 0x0507 QF_NO_LOCK = Some (0, qf') \<and> qf_inv qf' \<and> contents qf' ((\<lambda>_. [])(5 := [(7, 1)]))"
proof -
  have h: "hash_bucket_of sample_qf 0x0507 = 5" "hash_remainder_of sample_qf 0x0507 = 7"
    by (simp_all add: hash_bucket_of_def hash_remainder_of_def sample_md bitmask_8 drop_bit_eq_div)
  show ?thesis
    using insert1_empty_slot [OF sample_inv sample_contents, of QF_NO_LOCK "0x0507"] sample_free [of 5]
    by (auto simp: h sample_md GET_NO_LOCK_def QF_NO_LOCK_def)
qed

text \<open>
  C4.  \<^verbatim>\<open>qf_count_key_value\<close> returns the count the contents give to the hash of the key and value, 0 when there
  is none, for every key whose bucket is in the table.
\<close>

theorem count_key_value_correct:
  assumes "qf_inv qf" "contents qf m"
    and "h = key_value_hash qf (hash_key qf key flags) value" "unat (drop_bit (qf_bps qf) h) < 64 * nblocks (metadata qf)"
  shows "qf_count_key_value qf key value flags =
    Some (count_of (m (unat (drop_bit (qf_bps qf) h))) (h AND BITMASK (qf_bps qf)))"
  by (rule count_correct_aux [OF assms])

theorem count_key_value_correct_witness: "qf_count_key_value sample_one 0x0507 0 QF_NO_LOCK = Some 1"
proof -
  have h: "hash_key sample_one 0x0507 QF_NO_LOCK = 0x0507" "key_value_hash sample_one 0x0507 0 = 0x0507"
    by (simp_all add: hash_key_def key_value_hash_def sample_one_md sample_md)
  show ?thesis
    using count_key_value_correct [OF sample_one_inv sample_one_contents refl, of "0x0507" QF_NO_LOCK 0]
    by (simp add: h sample_one_md sample_md bitmask_8 drop_bit_eq_div count_of_def)
qed

section \<open>Navigation\<close>

text \<open>
  C13.  \<^verbatim>\<open>run_end\<close> returns, for every bucket of the table, the end of its run as the bit counts define it: the first
  position from the bucket on at which as many runs have ended as buckets up to this one are occupied.
\<close>

theorem run_end_correct:
  assumes "run_inv qf" "x < 64 * nblocks (metadata qf)"
  shows "\<exists>r. run_end qf x = Some r \<and> is_run_end qf x r"
  by (rule run_end_correct_aux [OF assms])

theorem run_end_correct_witness: "\<exists>r. run_end sample_one 5 = Some r \<and> is_run_end sample_one 5 r"
  using run_end_correct [of sample_one 5] sample_one_inv by (simp add: qf_inv_def sample_one_md sample_md)

text \<open>
  C14.  \<^verbatim>\<open>find_first_empty_slot\<close> terminates and returns the first free slot from its argument on, whenever the table has one: its
  jumps by \<^verbatim>\<open>offset_lower_bound\<close> never pass a free slot.
\<close>

theorem find_first_empty_slot_correct:
  assumes "run_inv qf" "64 * nblocks (metadata qf) < 2 ^ 64"
    and "x \<le> e" "e < 64 * nblocks (metadata qf)" "slot_free qf e" "\<forall>s. x \<le> s \<and> s < e \<longrightarrow> \<not> slot_free qf s"
  shows "find_first_empty_slot qf x = Some e"
  using assms by (intro find_first_empty_slot_correct_aux) auto

lemma sample_one_counts:
  "nbelow (is_occupied sample_one) k = (if 5 < k then 1 else 0)" "nbelow (is_runend sample_one) k = (if 5 < k then 1 else 0)"
  using sample_filled sample_bits nbelow_insert [of "is_occupied sample_qf" 5 k] nbelow_insert [of "is_runend sample_qf" 5 k]
  by (simp_all add: filled_def nbelow_none)

theorem find_first_empty_slot_correct_witness: "find_first_empty_slot sample_one 5 = Some 6"
  using find_first_empty_slot_correct [of sample_one 5 6] sample_one_inv
  by (auto simp: qf_inv_def sample_one_md sample_md slot_free_def sample_one_counts less_Suc_eq)

text \<open>
  C15.  \<^verbatim>\<open>is_empty\<close> and \<^verbatim>\<open>offset_lower_bound\<close>: the bound is 0 exactly at a free slot, is never negative, and no slot nearer
  than the bound is free.
\<close>

theorem offset_lower_bound_safe:
  assumes "run_inv qf" "x < 64 * nblocks (metadata qf)"
  shows "(is_empty qf x \<longleftrightarrow> slot_free qf x) \<and> 0 \<le> offset_lower_bound qf x \<and>
    (\<forall>s. x \<le> s \<and> int s < int x + offset_lower_bound qf x \<longrightarrow> \<not> slot_free qf s)"
  using offset_lower_bound_skip [OF assms] is_empty_slot_free [OF assms] by blast

theorem offset_lower_bound_safe_witness: "\<not> is_empty sample_one 5 \<and> is_empty sample_one 6"
  using offset_lower_bound_safe [of sample_one 5] offset_lower_bound_safe [of sample_one 6] sample_one_inv
  by (simp add: qf_inv_def sample_one_md sample_md slot_free_def sample_one_counts)

section \<open>Counters\<close>

text \<open>
  C16.  Decoding what was encoded: a counter written by \<^verbatim>\<open>encode_counter\<close> into consecutive slots, followed by the end of the
  run or a larger remainder, is read back by \<^verbatim>\<open>decode_counter\<close> with its last slot, its remainder and its
  count, for every 64-bit count but 0.
\<close>

theorem decode_encode_counter:
  assumes "width_ok qf" "rem \<le> BITMASK (qf_bps qf)" "c \<noteq> 0"
    and "encode_counter qf rem c = Some es" "holds qf i es" "no_runend qf i (i + length es - 1)"
    and "counter_follow qf rem c (i + length es - 1)"
  shows "decode_counter qf i = Some (i + length es - 1, rem, c)"
  by (rule decode_encode_aux [OF assms])

definition sample_counter :: QF where
  "sample_counter = md_set_bit (write_list set_slot sample_qf 10 [7, 4, 237, 7]) runends 13"

lemma encode_sample: "encode_counter sample_qf 7 1000 = Some [7, 4, 237, 7]"
  by (simp add: encode_counter_def sample_md Let_def encode_digits.simps push_bit_eq_mult)

lemma sample_counter_views:
  "get_slot sample_counter j = (if 10 \<le> j \<and> j < 14 then [7, 4, 237, 7] ! (j - 10) else 0)"
  "is_runend sample_counter j \<longleftrightarrow> j = 13" "metadata sample_counter = metadata sample_qf"
proof -
  let ?q = "write_list set_slot sample_qf 10 [7, 4, 237, 7]"
  have f: "\<forall>v \<in> set [7, 4, 237, 7]. v \<le> BITMASK (qf_bps sample_qf)" by (simp add: sample_md bitmask_8)
  note ok = slots.write_list_ok [OF sample_width f, of 10] slots.rd_write_list [OF sample_width f, of 10]
  have w: "width_ok ?q" using ok(1) by blast
  show "get_slot sample_counter j = (if 10 \<le> j \<and> j < 14 then [7, 4, 237, 7] ! (j - 10) else 0)"
    unfolding sample_counter_def view_slot(1) [OF w] ok(2) by (simp add: sample_slots)
  have "is_runend ?q j = is_runend sample_qf j"
    by (simp add: view_simps sample_width sample_md bitmask_8 width_ok_def)
  then show "is_runend sample_counter j \<longleftrightarrow> j = 13" by (simp add: sample_counter_def view_simps sample_bits)
  show "metadata sample_counter = metadata sample_qf" by (simp add: sample_counter_def)
qed

theorem decode_encode_counter_witness: "decode_counter sample_counter 10 = Some (13, 7, 1000)"
proof -
  have e: "encode_counter sample_counter 7 1000 = Some [7, 4, 237, 7]"
    using encode_sample encode_cong [of sample_counter sample_qf] by (simp add: sample_counter_views)
  have "width_ok sample_counter" using sample_width by (simp add: width_ok_def sample_counter_views)
  then show ?thesis
    using decode_encode_counter [OF _ _ _ e, of 10]
    by (simp add: sample_counter_views sample_md bitmask_8 no_runend_def counter_follow_def)
qed

text \<open>
  \<^verbatim>\<open>encode_counter\<close> always returns, writes at most 67 words (the size of the caller's buffer), every word fits a slot, and
  the encoding of a positive count starts and ends with the remainder.
\<close>

theorem encode_counter_fits:
  assumes "width_ok qf" "rem \<le> BITMASK (qf_bps qf)"
  shows "\<exists>es. encode_counter qf rem c = Some es \<and> length es \<le> 67 \<and> (\<forall>e \<in> set es. e \<le> BITMASK (qf_bps qf)) \<and>
    (c \<noteq> 0 \<longrightarrow> es \<noteq> [] \<and> hd es = rem \<and> last es = rem)"
  by (rule encode_counter_length [OF assms])

theorem encode_counter_fits_witness:
  "\<exists>es. encode_counter sample_qf 255 0xffffffffffffffff = Some es \<and> length es \<le> 67 \<and> hd es = 255 \<and> last es = 255"
  using encode_counter_fits [OF sample_width, of 255 "0xffffffffffffffff"] by (auto simp: sample_md bitmask_8)

section \<open>Bits and slots\<close>

text \<open>
  C17.  \<^verbatim>\<open>bitselect\<close> (the broadword and table-driven \<^verbatim>\<open>_select64\<close>) finds the position of the k-th set bit, 64 when
  the word has no more than k.
\<close>

theorem bitselect_correct:
  assumes "0 \<le> k"
  shows "bitselect x k = of_nat (select_ref (map (bit x) [0..<64]) (nat k))"
  unfolding bitselect_def by (rule select64_correct [OF assms])

theorem bitselect_correct_witness: "bitselect 0 0 = 64"
  using bitselect_correct [of 0 0] select_ref_none [of "map (bit (0 :: u64)) [0..<64]" 0] by simp

text \<open>
  C18.  Slots are independent: a slot reads back the value written to it and no other slot changes, for every width up to
  56 bits, although neighbouring slots share bytes.
\<close>

theorem slot_write_read:
  assumes "width_ok qf" "v \<le> BITMASK (qf_bps qf)"
  shows "get_slot (set_slot qf i v) j = (if i = j then v else get_slot qf j) \<and>
    is_occupied (set_slot qf i v) j = is_occupied qf j \<and> is_runend (set_slot qf i v) j = is_runend qf j \<and>
    block_off (set_slot qf i v) j = block_off qf j"
  using assms by (simp add: get_set_slot view_simps)

theorem slot_write_read_witness: "get_slot (set_slot sample_qf 9 200) 9 = 200 \<and> get_slot (set_slot sample_qf 9 200) 8 = 0"
  using slot_write_read [OF sample_width, of 200 9 9] slot_write_read [OF sample_width, of 200 9 8]
  by (simp add: sample_md bitmask_8 sample_slots)

text \<open>
  C19.  \<^verbatim>\<open>shift_remainders\<close>, which works on whole 64-bit words, moves each slot of the range up by one and touches no other
  slot, bit or offset, provided the slot at the end of the range is clear.
\<close>

theorem shift_remainders_correct:
  assumes "width_ok qf" "s \<le> e" "get_slot qf e = 0"
  shows "(\<forall>j. j \<noteq> s \<longrightarrow> get_slot (shift_remainders qf s e) j = (if s < j \<and> j \<le> e then get_slot qf (j - 1) else get_slot qf j)) \<and>
    same_but_slots qf (shift_remainders qf s e)"
  using get_slot_shift_remainders [OF assms] same_but_slots_shift_remainders [OF assms(1)] by blast

theorem shift_remainders_correct_witness: "get_slot (shift_remainders sample_one 5 70) 6 = 7"
proof -
  have s: "get_slot sample_one j = (if j = 5 then 7 else 0)" for j
    using sample_filled by (simp add: filled_def sample_slots)
  have "width_ok sample_one" using sample_one_inv by (simp add: qf_inv_def)
  then show ?thesis using shift_remainders_correct [of sample_one 5 70] by (simp add: s)
qed

text \<open>
  C20.  \<^verbatim>\<open>shift_runends\<close> moves the runend bits of the range up by the distance and leaves the bits outside alone (the lowest bits of the
  range are set by the caller afterwards); slots, occupied bits and offsets stay.
\<close>

theorem shift_runends_correct:
  assumes "first \<le> stop" "0 < d" "d < 64" "\<forall>p. stop \<le> p \<and> p < stop + d \<longrightarrow> \<not> is_runend qf p"
  shows "(\<forall>p. p < first \<or> first + d \<le> p \<longrightarrow> is_runend (shift_runends qf first stop d) p =
      (if first \<le> p \<and> p < stop + d then is_runend qf (p - d) else is_runend qf p)) \<and>
    same_but_runends qf (shift_runends qf first stop d)"
  using is_runend_shift_runends [OF assms(1-3)] same_but_runends_shift [OF assms(1)] assms(4) by blast

theorem shift_runends_correct_witness: "is_runend (shift_runends sample_one 5 62 3) 8"
proof -
  have "is_runend sample_one j \<longleftrightarrow> j = 5" for j using sample_filled by (simp add: filled_def sample_bits)
  then show ?thesis using shift_runends_correct [of 5 62 3 sample_one] by auto
qed

section \<open>Creation\<close>

text \<open>
  C21.  A filter made by \<^verbatim>\<open>qf_init\<close> in a large enough buffer (a power of two of slots, slots of 2 to 56 bits) satisfies the
  invariant and is empty, and its lock array covers every slot of the table.
\<close>

theorem qf_init_correct:
  assumes "nslots' = 2 ^ k" "k \<le> kb" "1 < kb - k + vb" "kb - k + vb \<le> 56" "kb < 2 ^ 64" "\<forall>n. can_alloc' n"
    and "sizeof_qfmetadata + (extra_slots nslots' + 63) div 64 * (sizeof_qfblock + 64 * (kb - k + vb) div 8) \<le> len"
  shows "\<exists>sz qf'. qf_init can_alloc' qf nslots' kb vb hash seed (Some len) = Some (sz, qf') \<and> sz \<le> len \<and>
    qf_inv qf' \<and> contents qf' (\<lambda>_. []) \<and> nslots (metadata qf') = nslots' \<and> qf_bps qf' = kb - k + vb \<and>
    (\<forall>small. \<forall>i < xnslots (metadata qf'). \<forall>l \<in> set (needed_locks i small). l < length (locks (runtimedata qf')))"
proof -
  have rb: "remainder_bits_loop kb nslots' = kb - k" using assms by (intro remainder_bits_log) auto
  define r where "r = qf_init can_alloc' qf nslots' kb vb hash seed (Some len)"
  have "r \<noteq> None" using assms(6) by (auto simp: r_def qf_init_def Let_def)
  then obtain sz qf' where r: "r = Some (sz, qf')" by force
  have sz: "sz = sizeof_qfmetadata + (extra_slots nslots' + 63) div 64 * (sizeof_qfblock + 64 * (kb - k + vb) div 8)"
    using r rb by (auto simp: r_def qf_init_def Let_def split: if_splits)
  with assms(7) have le: "sz \<le> len" by simp
  note init = r [unfolded r_def]
  have "l < length (locks (runtimedata qf'))" if "i < xnslots (metadata qf')" "l \<in> set (needed_locks i small)" for i l small
    using needed_locks_bound [OF that] qf_init_spec(3,10) [OF init le] by simp
  then show ?thesis
    using init le qf_init_inv_aux [OF init le assms(1) [symmetric] assms(2-5)] qf_init_spec(2) [OF init le] by blast
qed

theorem qf_init_correct_witness:
  "\<exists>sz qf'. qf_init (\<lambda>_. True) sample_qf 64 14 0 QF_HASH_NONE 0 (Some 1000) = Some (sz, qf') \<and> qf_inv qf' \<and> contents qf' (\<lambda>_. [])"
  using qf_init_correct [of 64 6 14 0 "\<lambda>_. True" 1000 sample_qf QF_HASH_NONE 0]
  by (auto simp: extra_slots_def isqrt.simps sizeof_qfmetadata_def sizeof_qfblock_def Let_def)

section \<open>Locks\<close>

text \<open>
  C22.  \<^verbatim>\<open>qf_lock\<close> takes all the locks of a region or none: when all are free it succeeds with exactly those
  taken; otherwise a try fails with every lock as it was, and a wait does not return while nobody else runs.
\<close>

theorem qf_lock_all_or_nothing:
  assumes "lock_values_ok qf" "\<forall>l \<in> set (needed_locks i small). l < length (qf_locks qf)"
  shows "qf_lock qf i small flag =
    (if \<forall>l \<in> set (needed_locks i small). qf_locks qf ! l = 0
     then Some (True, set_locks qf (set_all (qf_locks qf) (needed_locks i small) 1))
     else if waits flag then None else Some (False, qf))"
proof -
  have "\<forall>l \<in> set (needed_locks i small). l < length (qf_locks qf) \<and> (qf_locks qf ! l = 0 \<or> qf_locks qf ! l = 1)"
    using assms by (auto simp: lock_values_ok_def)
  from qf_lock_on [OF this, of qf flag] show ?thesis by simp
qed

theorem qf_lock_all_or_nothing_witness:
  "qf_lock sample_qf 100 False QF_TRY_ONCE_LOCK = Some (True, set_locks sample_qf [1, 1])"
  using qf_lock_all_or_nothing [of sample_qf 100 False QF_TRY_ONCE_LOCK]
  by (simp add: lock_values_ok_def needed_locks_def sample_md)

text \<open>
  \<^verbatim>\<open>qf_unlock\<close> undoes a successful \<^verbatim>\<open>qf_lock\<close> of the same region exactly.
\<close>

theorem qf_unlock_restores:
  assumes "lock_values_ok qf" "\<forall>l \<in> set (needed_locks i small). l < length (qf_locks qf)"
    and "qf_lock qf i small flag = Some (True, qf')"
  shows "qf_unlock qf' i small = Some qf"
proof -
  let ?n = "needed_locks i small"
  have "\<forall>l \<in> set ?n. l < length (qf_locks qf) \<and> (qf_locks qf ! l = 0 \<or> qf_locks qf ! l = 1)"
    using assms by (auto simp: lock_values_ok_def)
  from qf_lock_on [OF this, of qf flag] assms(3)
  have z: "\<forall>l \<in> set ?n. qf_locks qf ! l = 0" and q: "qf' = set_locks qf (set_all (qf_locks qf) ?n 1)"
    by (auto split: if_splits)
  have "set_all (set_all (qf_locks qf) ?n 1) ?n 0 = qf_locks qf"
    using z by (intro nth_equalityI) (simp_all add: nth_set_all)
  then show ?thesis using qf_unlock_on [of i small "set_all (qf_locks qf) ?n 1" qf] assms(2) by (simp add: q)
qed

theorem qf_unlock_restores_witness: "qf_unlock (set_locks sample_qf [1, 1]) 100 False = Some sample_qf"
proof -
  have "qf_lock sample_qf 100 False QF_TRY_ONCE_LOCK = Some (True, set_locks sample_qf [1, 1])"
    using qf_lock_on [of 100 False "qf_locks sample_qf" sample_qf QF_TRY_ONCE_LOCK]
    by (simp add: needed_locks_def sample_md sample_set_locks)
  from qf_unlock_restores [OF _ _ this] show ?thesis by (simp add: lock_values_ok_def needed_locks_def sample_md)
qed


lemma sample_lreach:
  "lreach 2 \<lparr>word_of = (\<lambda>_. 0)(0 := 1), threads = [Acquiring [0] [1], Acquiring [] [0, 1]]\<rparr>"
proof -
  let ?s0 = "linit 2"
  let ?s1 = "?s0\<lparr>threads := (threads ?s0)[0 := Acquiring [] (needed_locks 5 False)]\<rparr>"
  let ?s2 = "?s1\<lparr>threads := (threads ?s1)[1 := Acquiring [] (needed_locks 9 False)]\<rparr>"
  let ?s3 = "?s2\<lparr>word_of := (word_of ?s2)(0 := 1), threads := (threads ?s2)[0 := Acquiring ([] @ [0]) [1]]\<rparr>"
  have "lreach 2 ?s0" by (rule lreach_init)
  moreover have "lstep ?s0 ?s1" by (rule lstep.start) (simp_all add: linit_def)
  moreover have "lstep ?s1 ?s2" by (rule lstep.start) (simp_all add: linit_def)
  moreover have "lstep ?s2 ?s3"
    by (rule lstep.acquire) (simp_all add: linit_def needed_locks_def spin_lock_wait)
  ultimately have "lreach 2 ?s3" by (blast intro: lreach_step)
  then show ?thesis by (simp add: linit_def needed_locks_def numeral_2_eq_2)
qed




section \<open>Hashes\<close>

text \<open>
  C25.  \<^verbatim>\<open>hash_64i\<close> inverts \<^verbatim>\<open>hash_64\<close> and \<^verbatim>\<open>hash_64\<close> inverts \<^verbatim>\<open>hash_64i\<close> on the keys of every width, so the
  invertible mode loses no information.
\<close>

theorem hash_64_inverse:
  assumes "n \<le> 64" "x \<le> BITMASK n"
  shows "hash_64i (hash_64 x (BITMASK n)) (BITMASK n) = x \<and> hash_64 (hash_64i x (BITMASK n)) (BITMASK n) = x \<and>
    hash_64 x (BITMASK n) \<le> BITMASK n"
  using assms by (simp add: BITMASK_mask hash_64i_hash_64_aux hash_64_hash_64i_aux hash_64_le_mask)

theorem hash_64_inverse_witness: "hash_64i (hash_64 12345 (BITMASK 14)) (BITMASK 14) = 12345"
  using hash_64_inverse [of 14 12345] by (simp add: BITMASK_def MAX_VALUE_def)

text \<open>
  \<^verbatim>\<open>MurmurHash64A\<close> on 8-byte keys is injective for every seed, so before it is reduced to the range of the filter it
  maps different keys to different hashes.
\<close>

theorem murmur_injective:
  "MurmurHash64A (word_bytes_le a) 8 seed = MurmurHash64A (word_bytes_le b) 8 seed \<longleftrightarrow> a = b"
proof
  assume "MurmurHash64A (word_bytes_le a) 8 seed = MurmurHash64A (word_bytes_le b) 8 seed"
  then have "word_bytes_le a = word_bytes_le b" by (intro MurmurHash64A_8_inj) (simp_all add: word_bytes_le)
  then show "a = b" by (metis word_bytes_le(2))
qed simp

section \<open>Partitioned counter\<close>

text \<open>
  \<^verbatim>\<open>pc_add\<close> adds its argument to the total of global and local counters on every processor, and keeps every local
  counter within the threshold.
\<close>

theorem pc_add_correct:
  assumes "pc_ok pc" "0 \<le> threshold pc" "\<forall>c \<in> set (local_counters pc). \<not> over_threshold pc c"
  shows "pc_total (pc_add pc cpuid count) = pc_total pc + count \<and>
    (\<forall>c \<in> set (local_counters (pc_add pc cpuid count)). \<not> over_threshold (pc_add pc cpuid count) c)"
  using pc_add_total [OF assms(1)] pc_add_bound [OF assms] by simp

abbreviation sample_pc :: partitioned_counter where
  "sample_pc \<equiv> \<lparr>local_counters = [0, 3], global_counter = 0, num_counters = 2, threshold = 4\<rparr>"

theorem pc_add_correct_witness: "pc_total (pc_add sample_pc 1 5) = 8"
  using pc_add_correct [of sample_pc 1 5] by (simp add: pc_ok_def over_threshold_def pc_total_def)

text \<open>
  \<^verbatim>\<open>pc_sync\<close> leaves the whole total in the global counter and 0 in every local counter.
\<close>

theorem pc_sync_correct:
  assumes "pc_ok pc"
  shows "global_counter (pc_sync pc) = pc_total pc \<and> local_counters (pc_sync pc) = replicate (num_counters pc) 0 \<and> pc_ok (pc_sync pc)"
  using pc_sync_spec [OF assms] by simp

theorem pc_sync_correct_witness: "global_counter (pc_sync sample_pc) = 3"
  using pc_sync_correct [of sample_pc] by (simp add: pc_ok_def pc_total_def)

text \<open>
  C34.  No update is lost: in every interleaving of additions and synchronisations of any number of threads, the global
  counter, the local counters and the values in flight add up to what was added.
\<close>

theorem pc_conservation:
  assumes "preach s0 s" "pc_ok (shared s0)" "added s0 = 0" "phases s0 = replicate n Rest" "pc_total (shared s0) = 0"
  shows "pc_total (shared s) + sum_list (map carried (phases s)) = added s \<and> pc_ok (shared s)"
proof -
  have "pinv s0" using assms by (simp add: pinv_def)
  moreover have "conserved s0 = 0" using assms by (simp add: conserved_def map_replicate_const sum_list_replicate)
  ultimately show ?thesis using preach_pinv [OF assms(1)] by (auto simp: conserved_def pinv_def)
qed

abbreviation sample_ps :: pstate where
  "sample_ps \<equiv> \<lparr>shared = \<lparr>local_counters = [0, 0], global_counter = 0, num_counters = 2, threshold = 4\<rparr>,
     phases = [Rest, Rest], added = 0\<rparr>"

theorem pc_conservation_witness:
  "pc_total (shared sample_ps) + sum_list (map carried (phases sample_ps)) = added sample_ps \<and> pc_ok (shared sample_ps)"
  using pc_conservation [OF preach_refl, of sample_ps 2] by (simp add: pc_ok_def pc_total_def numeral_2_eq_2)

section \<open>Files\<close>


abbreviation sample_os :: os_env where
  "sample_os \<equiv> \<lparr>os_alloc = \<lambda>_. True, os_create = \<lambda>_. True, os_map = \<lambda>_. True, os_fd = \<lambda>_. 3\<rparr>"


section \<open>Behaviour that differs from what is intended\<close>

text \<open>
  A filter opened with \<^verbatim>\<open>qf_use\<close> has an empty lock array (its size is read from run-time data that was just cleared), so an
  insertion that takes locks leaves the array: it does not return normally.
\<close>

theorem qf_use_has_no_locks:
  assumes "qf_use can_alloc' qf buf len = Some (n, qf')" "n \<le> len" "GET_NO_LOCK flag \<noteq> QF_NO_LOCK"
  shows "locks (runtimedata qf') = [] \<and> insert1 qf' hash flag = None"
proof -
  have l: "locks (runtimedata qf') = []"
    using assms(1,2) by (auto simp: qf_use_def Let_def zero_runtime_def split: if_splits)
  then have "lock_at qf' k f = None" for k f by (simp add: lock_at_def)
  then show ?thesis using l assms(3) by (simp add: insert1_def qf_lock_def Let_def)
qed

theorem qf_use_has_no_locks_witness:
  "\<exists>n qf'. qf_use (\<lambda>_. True) sample_qf (metadata sample_qf, zero_mem) 1000 = Some (n, qf') \<and> insert1 qf' 5 QF_TRY_ONCE_LOCK = None"
proof -
  obtain n qf' where u: "qf_use (\<lambda>_. True) sample_qf (metadata sample_qf, zero_mem) 1000 = Some (n, qf')" "n \<le> 1000"
    by (simp add: qf_use_def Let_def sample_qf_def sizeof_qfmetadata_def)
  with qf_use_has_no_locks [OF u, of QF_TRY_ONCE_LOCK 5] show ?thesis
    by (auto simp: GET_NO_LOCK_def QF_TRY_ONCE_LOCK_def QF_NO_LOCK_def)
qed

text \<open>
  C36.  \<^verbatim>\<open>_remove\<close> of a hash whose bucket is empty reports that it does not exist but keeps the locks it took.
\<close>

theorem remove_missing_keeps_locks:
  assumes "qf_lock qf (hash_bucket_of qf hash) False flag = Some (True, qf')" "GET_NO_LOCK flag \<noteq> QF_NO_LOCK"
    and "lock_values_ok qf" "\<forall>l \<in> set (needed_locks (hash_bucket_of qf hash) False). l < length (qf_locks qf)"
    and "\<not> is_occupied qf (hash_bucket_of qf hash)"
  shows "remove_qf qf hash count flag = Some (QF_DOESNT_EXIST, qf') \<and>
    (\<forall>l \<in> set (needed_locks (hash_bucket_of qf hash) False). qf_locks qf' ! l = 1)"
proof -
  let ?n = "needed_locks (hash_bucket_of qf hash) False"
  have "\<forall>l \<in> set ?n. l < length (qf_locks qf) \<and> (qf_locks qf ! l = 0 \<or> qf_locks qf ! l = 1)"
    using assms(3,4) by (auto simp: lock_values_ok_def)
  from qf_lock_on [OF this, of qf flag] assms(1) have q: "qf' = set_locks qf (set_all (qf_locks qf) ?n 1)"
    by (auto split: if_splits)
  then have "is_occupied qf' = is_occupied qf" by (intro views_metadata) simp_all
  then show ?thesis using assms q by (simp add: remove_qf_def Let_def nth_set_all)
qed

theorem remove_missing_keeps_locks_witness:
  "\<exists>qf'. remove_qf sample_qf 5 1 QF_TRY_ONCE_LOCK = Some (QF_DOESNT_EXIST, qf') \<and> qf_locks qf' ! 0 = 1"
proof -
  have l: "qf_lock sample_qf (hash_bucket_of sample_qf 5) False QF_TRY_ONCE_LOCK = Some (True, set_locks sample_qf [1, 1])"
    using qf_lock_on [of "hash_bucket_of sample_qf 5" False "qf_locks sample_qf" sample_qf QF_TRY_ONCE_LOCK]
    by (simp add: hash_bucket_of_def drop_bit_eq_div needed_locks_def sample_md sample_set_locks)
  show ?thesis
    using remove_missing_keeps_locks [OF l, of 1]
    by (auto simp: GET_NO_LOCK_def QF_TRY_ONCE_LOCK_def QF_NO_LOCK_def lock_values_ok_def sample_bits hash_bucket_of_def
        drop_bit_eq_div needed_locks_def sample_md)
qed

end
